(* ===== verification/XV6_Prelude.thy ===== *)
theory XV6_Prelude imports Main "HOL-Library.Word" begin

text \<open>
  Shared vocabulary of the development: the machine integer types of the C sources, the
  result type of kernel code that may call \<open>panic\<close>, spin-lock tokens, and the generic
  lemmas on words, lists and function updates that several components use.

  \<^item> \<open>uchar\<close>, \<open>uint\<close> and \<open>uint64\<close> of kernel/types.h are words of 8, 32 and 64 bits, so
    their arithmetic wraps as it does in C. (Plain \<open>char\<close> is unsigned on RISC-V.)
  \<^item> \<open>int\<close> variables whose overflow is undefined behaviour in C are mathematical integers.
  \<^item> Code that may not return normally gives a \<open>kres\<close>: \<open>Ok\<close> with what it returns, \<open>Panic\<close>
    when it calls \<open>panic\<close> (which never returns), \<open>Blocked\<close> when it waits for something that
    only another process, processor or device can bring about, and \<open>Fault\<close> where the C program
    has undefined behaviour (an access outside an object). \<open>kbind\<close> is sequencing: it drops the
    rest of the computation unless the first part is \<open>Ok\<close>.
\<close>

section \<open>Machine integers\<close>

type_synonym u8 = "8 word"
type_synonym u16 = "16 word"
type_synonym u32 = "32 word"
type_synonym u64 = "64 word"

section \<open>Kernel results\<close>

datatype 'a kres = Ok 'a | Panic string | Blocked | Fault

fun kbind :: "'a kres \<Rightarrow> ('a \<Rightarrow> 'b kres) \<Rightarrow> 'b kres" where
  "kbind (Ok x) f = f x"
| "kbind (Panic msg) f = Panic msg"
| "kbind Blocked f = Blocked"
| "kbind Fault f = Fault"

lemma kbind_eq_Ok: "kbind m f = Ok y \<longleftrightarrow> (\<exists>x. m = Ok x \<and> f x = Ok y)"
  by (cases m) auto

lemma kbind_OkE:
  assumes "kbind m f = Ok y"
  obtains x where "m = Ok x" and "f x = Ok y"
  using assms by (auto simp: kbind_eq_Ok)

lemma kbind_Ok_right [simp]: "kbind m Ok = m"
  by (cases m) auto

lemma kbind_assoc: "kbind (kbind m f) g = kbind m (\<lambda>x. kbind (f x) g)"
  by (cases m) auto

lemma kbind_cong [fundef_cong]:
  "m = m' \<Longrightarrow> (\<And>x. m' = Ok x \<Longrightarrow> f x = g x) \<Longrightarrow> kbind m f = kbind m' g"
  by (cases m') auto

text \<open>A \<open>for\<close> loop whose body may not return normally.\<close>

fun kfold :: "('x \<Rightarrow> 's \<Rightarrow> 's kres) \<Rightarrow> 'x list \<Rightarrow> 's \<Rightarrow> 's kres" where
  "kfold body [] s = Ok s"
| "kfold body (x # xs) s = kbind (body x s) (kfold body xs)"

lemma kfold_append: "kfold body (xs @ ys) s = kbind (kfold body xs s) (kfold body ys)"
proof (induction xs arbitrary: s)
  case (Cons x xs)
  then show ?case by (cases "body x s") simp_all
qed simp

lemma kfold_cong [fundef_cong]:
  "xs = ys \<Longrightarrow> s = t \<Longrightarrow> (\<And>x u. x \<in> set ys \<Longrightarrow> f x u = g x u) \<Longrightarrow> kfold f xs s = kfold g ys t"
proof (induction xs arbitrary: ys s t)
  case (Cons x xs)
  then show ?case by (cases "f x s") auto
qed simp

text \<open>
  The rule for such loops: an invariant \<open>I k\<close> that holds before the \<open>k\<close>-th iteration.
\<close>

lemma kfold_upt_invariant:
  assumes "I 0 s" and "\<And>k s. k < n \<Longrightarrow> I k s \<Longrightarrow> \<exists>s'. body k s = Ok s' \<and> I (Suc k) s'"
  shows "\<exists>s'. kfold body [0..<n] s = Ok s' \<and> I n s'"
  using assms(2)
proof (induction n)
  case 0
  then show ?case using assms(1) by simp
next
  case (Suc n)
  then obtain s1 where "kfold body [0..<n] s = Ok s1" "I n s1" by auto
  with Suc.prems [of n s1] show ?case by (auto simp: kfold_append)
qed

section \<open>Words\<close>

named_theorems index_simps "wrap-around of ring-buffer counters"

lemma unat_add_mod [index_simps]:
  fixes x :: "'a::len word"
  assumes "c dvd 2 ^ LENGTH('a)"
  shows "unat (x + of_nat k) mod c = (unat x + k) mod c"
proof -
  have "unat (x + of_nat k) mod c = (unat x + unat (of_nat k :: 'a word)) mod 2 ^ LENGTH('a) mod c"
    by (simp add: unat_word_ariths)
  also have "\<dots> = (unat x + k mod 2 ^ LENGTH('a)) mod c"
    using assms by (simp add: mod_mod_cancel unat_of_nat)
  also have "\<dots> = (unat x + k) mod c"
    using assms by (metis mod_add_right_eq mod_mod_cancel)
  finally show ?thesis .
qed

lemma unat_Suc_mod [index_simps]:
  fixes x :: "'a::len word"
  assumes "c dvd 2 ^ LENGTH('a)"
  shows "unat (x + 1) mod c = Suc (unat x) mod c"
  using unat_add_mod [OF assms, of x 1] by simp

lemma unat_inc:
  fixes x :: "'a::len word"
  assumes "unat x < b" and "b < 2 ^ LENGTH('a)"
  shows "unat (x + 1) = Suc (unat x)"
  using assms by (metis Suc_eq_plus1 mod_less order.strict_trans1 Suc_leI unat_1 unat_word_ariths(1))

lemma unat_dec:
  fixes x :: "'a::len word"
  assumes "x \<noteq> 0"
  shows "unat (x - 1) = unat x - 1"
  using assms by (metis unat_minus_one)

lemma unat_diff_inc:
  fixes w r :: "'a::len word"
  assumes "unat (w - r) < b" and "b < 2 ^ LENGTH('a)"
  shows "unat (w + 1 - r) = Suc (unat (w - r))"
proof -
  have eq: "w + 1 - r = (w - r) + 1" by simp
  show ?thesis unfolding eq by (rule unat_inc [OF assms])
qed

lemma unat_diff_dec:
  fixes w r :: "'a::len word"
  assumes "w \<noteq> r"
  shows "unat (w - (r + 1)) = unat (w - r) - 1"
proof -
  have eq: "w - (r + 1) = (w - r) - 1" by simp
  have "w - r \<noteq> 0" using assms by simp
  then show ?thesis unfolding eq by (rule unat_dec)
qed

lemma unat_diff_0_iff:
  fixes w r :: "'a::len word"
  shows "unat (w - r) = 0 \<longleftrightarrow> w = r"
  by (simp add: unat_eq_zero)

section \<open>Runs of step relations\<close>

lemma three_steps: "r a b \<Longrightarrow> r b c \<Longrightarrow> r c d \<Longrightarrow> r\<^sup>*\<^sup>* a d"
  by (meson converse_rtranclp_into_rtranclp r_into_rtranclp)

section \<open>Lists\<close>

lemma take_Suc_nth_append: "i < length xs \<Longrightarrow> take (Suc i) xs = take i xs @ [xs ! i]"
  by (rule take_Suc_conv_app_nth)

lemma all_less_Suc: "(\<forall>i < Suc n. P i) \<longleftrightarrow> (\<forall>i < n. P i) \<and> P n"
  by (auto simp: less_Suc_eq)


lemma find_upt_Some: "find P [0..<m] = Some i \<longleftrightarrow> i < m \<and> P i \<and> (\<forall>j<i. \<not> P j)"
  by (auto simp: find_Some_iff)

lemma find_upt_None: "find P [0..<m] = None \<longleftrightarrow> (\<forall>j<m. \<not> P j)"
  by (auto simp: find_None_iff)

end
