(* ===== verification/Ring.thy ===== *)
theory Ring imports XV6_Prelude begin

text \<open>
  Ring buffers. The kernel has three of them: the data array of a pipe (kernel/pipe.c), the
  console input buffer (kernel/console.c) and the UART transmit buffer (kernel/uart.c). Each
  is a fixed array with free-running unsigned counters that are reduced modulo the array's
  size at every access, so they rely on the size dividing \<open>2 ^ w\<close>.

  \<^item> \<open>ring_list\<close>: the \<open>n\<close> buffered elements from counter \<open>r\<close> on, oldest first, with what
    one store or one load does to them;
  \<^item> the locale \<open>bounded_fifo\<close>: the contract of a queue of bounded capacity, from which the
    behaviour of a whole burst of stores followed by loads is derived once; the pipe and the
    UART theories interpret it on their own operations.
\<close>

section \<open>The contents of a ring\<close>

definition ring_list :: "'a list \<Rightarrow> nat \<Rightarrow> nat \<Rightarrow> 'a list" where
  "ring_list buf r n = map (\<lambda>k. buf ! ((r + k) mod length buf)) [0..<n]"

lemma length_ring_list [simp]: "length (ring_list buf r n) = n"
  by (simp add: ring_list_def)

lemma ring_list_0 [simp]: "ring_list buf r 0 = []"
  by (simp add: ring_list_def)

lemma ring_list_eq_Nil [simp]: "ring_list buf r n = [] \<longleftrightarrow> n = 0"
  by (simp add: ring_list_def)

lemma nth_ring_list [simp]: "k < n \<Longrightarrow> ring_list buf r n ! k = buf ! ((r + k) mod length buf)"
  by (simp add: ring_list_def)

lemma ring_list_Suc: "ring_list buf r (Suc n) = ring_list buf r n @ [buf ! ((r + n) mod length buf)]"
  by (simp add: ring_list_def)

lemma ring_list_cong_mod:
  assumes "r mod length buf = r' mod length buf"
  shows "ring_list buf r n = ring_list buf r' n"
  using assms by (auto simp: ring_list_def intro!: arg_cong [where f = "(!) buf"] mod_add_cong)

lemma ring_list_pop:
  assumes "0 < n"
  shows "ring_list buf r n = buf ! (r mod length buf) # ring_list buf (Suc r) (n - 1)"
  using assms by (intro nth_equalityI) (auto simp: nth_Cons split: nat.splits)

lemma ring_index_neq:
  fixes r k n c :: nat
  assumes "k < n" and "n < c"
  shows "(r + k) mod c \<noteq> (r + n) mod c"
proof
  assume "(r + k) mod c = (r + n) mod c"
  then have "c dvd (r + n) - (r + k)"
    using assms mod_eq_dvd_iff_nat [of "r + k" "r + n" c] by simp
  then have "c dvd n - k" by simp
  with assms show False by (auto dest: dvd_imp_le)
qed

lemma ring_list_update_outside:
  assumes "n \<le> m" and "m < length buf"
  shows "ring_list (buf[(r + m) mod length buf := x]) r n = ring_list buf r n"
proof (rule nth_equalityI)
  fix k assume "k < length (ring_list (buf[(r + m) mod length buf := x]) r n)"
  then have "k < n" by simp
  with assms have "(r + k) mod length buf \<noteq> (r + m) mod length buf"
    by (intro ring_index_neq) auto
  with \<open>k < n\<close> show "ring_list (buf[(r + m) mod length buf := x]) r n ! k = ring_list buf r n ! k"
    by simp
qed simp

lemma ring_list_push:
  assumes "n < length buf"
  shows "ring_list (buf[(r + n) mod length buf := x]) r (Suc n) = ring_list buf r n @ [x]"
proof -
  have "(r + n) mod length buf < length buf" using assms by (intro mod_less_divisor) auto
  with assms ring_list_update_outside [of n n buf r x] show ?thesis by (simp add: ring_list_Suc)
qed

section \<open>The contract of a bounded queue\<close>

text \<open>\<open>drain get n q\<close>: \<open>n\<close> successive loads.\<close>

fun drain :: "('q \<Rightarrow> 'a \<times> 'q) \<Rightarrow> nat \<Rightarrow> 'q \<Rightarrow> 'a list \<times> 'q" where
  "drain get 0 q = ([], q)"
| "drain get (Suc n) q =
     (let (x, q') = get q; (xs, q'') = drain get n q' in (x # xs, q''))"

locale bounded_fifo =
  fixes put :: "'a \<Rightarrow> 'q \<Rightarrow> 'q"
    and get :: "'q \<Rightarrow> 'a \<times> 'q"
    and elems :: "'q \<Rightarrow> 'a list"
    and inv :: "'q \<Rightarrow> bool"
    and cap :: nat
  assumes elems_put: "inv q \<Longrightarrow> length (elems q) < cap \<Longrightarrow> elems (put x q) = elems q @ [x]"
    and inv_put: "inv q \<Longrightarrow> length (elems q) < cap \<Longrightarrow> inv (put x q)"
    and get_elem: "inv q \<Longrightarrow> elems q \<noteq> [] \<Longrightarrow> fst (get q) = hd (elems q)"
    and elems_get: "inv q \<Longrightarrow> elems q \<noteq> [] \<Longrightarrow> elems (snd (get q)) = tl (elems q)"
    and inv_get: "inv q \<Longrightarrow> elems q \<noteq> [] \<Longrightarrow> inv (snd (get q))"
    and elems_cap: "inv q \<Longrightarrow> length (elems q) \<le> cap"
begin

lemma put_all:
  assumes "inv q" and "length (elems q) + length xs \<le> cap"
  shows "inv (fold put xs q) \<and> elems (fold put xs q) = elems q @ xs"
  using assms
proof (induction xs arbitrary: q)
  case Nil
  then show ?case by simp
next
  case (Cons x xs)
  then have "inv (put x q)" and "elems (put x q) = elems q @ [x]"
    by (auto intro: inv_put elems_put)
  with Cons.IH [of "put x q"] Cons.prems show ?case by simp
qed

lemma drain_elems:
  assumes "inv q" and "n \<le> length (elems q)"
  shows "inv (snd (drain get n q)) \<and> fst (drain get n q) = take n (elems q)
         \<and> elems (snd (drain get n q)) = drop n (elems q)"
  using assms
proof (induction n arbitrary: q)
  case 0
  then show ?case by simp
next
  case (Suc n)
  then have ne: "elems q \<noteq> []" by auto
  obtain x q' where g: "get q = (x, q')" by fastforce
  have "inv q'" "elems q' = tl (elems q)" "x = hd (elems q)"
    using Suc.prems(1) ne inv_get [of q] elems_get [of q] get_elem [of q] g by auto
  with Suc.IH [of q'] Suc.prems ne show ?case
    by (cases "elems q") (auto simp: g case_prod_unfold Let_def)
qed

text \<open>First in, first out: what was buffered before comes out before what is stored now.\<close>

lemma put_then_drain:
  assumes "inv q" and "length (elems q) + length xs \<le> cap"
  shows "fst (drain get (length (elems q) + length xs) (fold put xs q)) = elems q @ xs"
  using put_all [OF assms] drain_elems [of "fold put xs q" "length (elems q) + length xs"] by simp

end

end
