(* ===== verification/Pipe.thy ===== *)
theory Pipe imports Ring begin

text \<open>
  Pipes: \<open>struct pipe\<close>, \<open>pipewrite\<close>, \<open>piperead\<close> and \<open>pipeclose\<close> of kernel/pipe.c.

  The body of each routine runs with \<open>pi->lock\<close> held, up to a return or a call of \<open>sleep\<close>,
  which gives the lock up and takes it again before it returns. Such a stretch is one
  \<^emph>\<open>turn\<close>: \<open>Return r\<close> when the routine returned \<open>r\<close>, \<open>Sleep c i\<close> when it went to sleep on
  channel \<open>c\<close> with its loop counter at \<open>i\<close>; a wake-up starts the next turn from there. The
  third component of a result lists the channels that were woken up, in order.

  Parameters: \<open>killed i\<close> is what \<open>killed(pr)\<close> answers when the loop counter is \<open>i\<close>; \<open>copyin a\<close>
  is the byte at user address \<open>a\<close>, \<open>None\<close> when \<open>copyin\<close> fails; \<open>copyout a c um\<close> is the user
  memory after storing \<open>c\<close> at \<open>a\<close>, \<open>None\<close> when \<open>copyout\<close> fails.
\<close>

section \<open>State\<close>

abbreviation PIPESIZE :: nat where "PIPESIZE \<equiv> 512"

record pipe =
  plock :: bool          \<comment> \<open>lock.locked\<close>
  pdata :: "u8 list"
  nread :: u32
  nwrite :: u32
  readopen :: int
  writeopen :: int

datatype pchan = Chan_nread | Chan_nwrite

datatype pturn = Return int | Sleep pchan int

definition acquire_pipe :: "pipe \<Rightarrow> pipe kres" where
  "acquire_pipe pi = (if plock pi then Panic ''acquire'' else Ok (pi\<lparr>plock := True\<rparr>))"

definition release_pipe :: "pipe \<Rightarrow> pipe kres" where
  "release_pipe pi = (if \<not> plock pi then Panic ''release'' else Ok (pi\<lparr>plock := False\<rparr>))"

text \<open>The initialisation in \<open>pipealloc\<close>, on a page with arbitrary contents.\<close>

definition pipe_init :: "pipe \<Rightarrow> pipe" where
  "pipe_init pi = pi\<lparr>readopen := 1, writeopen := 1, nwrite := 0, nread := 0, plock := False\<rparr>"

section \<open>Operations\<close>

text \<open>\<open>pi->data[pi->nwrite++ % PIPESIZE] = ch\<close> and \<open>pi->data[pi->nread++ % PIPESIZE]\<close>.\<close>

definition pipe_put :: "u8 \<Rightarrow> pipe \<Rightarrow> pipe" where
  "pipe_put ch pi = pi\<lparr>pdata := (pdata pi)[unat (nwrite pi) mod PIPESIZE := ch],
                       nwrite := nwrite pi + 1\<rparr>"

definition pipe_get :: "pipe \<Rightarrow> u8 \<times> pipe" where
  "pipe_get pi = (pdata pi ! (unat (nread pi) mod PIPESIZE), pi\<lparr>nread := nread pi + 1\<rparr>)"

definition pipe_leave :: "'r \<Rightarrow> pchan list \<Rightarrow> pipe \<Rightarrow> ('r \<times> pipe \<times> pchan list) kres" where
  "pipe_leave r wk pi = kbind (release_pipe pi) (\<lambda>pi. Ok (r, pi, wk))"

function pipewrite_loop ::
  "(int \<Rightarrow> bool) \<Rightarrow> (u64 \<Rightarrow> u8 option) \<Rightarrow> u64 \<Rightarrow> int \<Rightarrow> int \<Rightarrow> pipe
     \<Rightarrow> (pturn \<times> pipe \<times> pchan list) kres" where
  "pipewrite_loop killed copyin addr n i pi =
     (if i < n then
        if readopen pi = 0 \<or> killed i then pipe_leave (Return (-1)) [] pi
        else if nwrite pi = nread pi + 512
        then pipe_leave (Sleep Chan_nwrite i) [Chan_nread] pi
        else (case copyin (addr + word_of_int i) of
                None \<Rightarrow> pipe_leave (Return i) [Chan_nread] pi
              | Some ch \<Rightarrow> pipewrite_loop killed copyin addr n (i + 1) (pipe_put ch pi))
      else pipe_leave (Return i) [Chan_nread] pi)"
  by pat_completeness auto
termination
  by (relation "measure (\<lambda>(killed, copyin, addr, n, i, pi). nat (n - i))") auto

declare pipewrite_loop.simps [simp del]

definition pipewrite_turn ::
  "(int \<Rightarrow> bool) \<Rightarrow> (u64 \<Rightarrow> u8 option) \<Rightarrow> u64 \<Rightarrow> int \<Rightarrow> int \<Rightarrow> pipe
     \<Rightarrow> (pturn \<times> pipe \<times> pchan list) kres" where
  "pipewrite_turn killed copyin addr n i pi =
     kbind (acquire_pipe pi) (pipewrite_loop killed copyin addr n i)"

definition pipewrite ::
  "(int \<Rightarrow> bool) \<Rightarrow> (u64 \<Rightarrow> u8 option) \<Rightarrow> u64 \<Rightarrow> int \<Rightarrow> pipe
     \<Rightarrow> (pturn \<times> pipe \<times> pchan list) kres" where
  "pipewrite killed copyin addr n = pipewrite_turn killed copyin addr n 0"

function piperead_copy ::
  "(u64 \<Rightarrow> u8 \<Rightarrow> 'm \<Rightarrow> 'm option) \<Rightarrow> u64 \<Rightarrow> int \<Rightarrow> int \<Rightarrow> pipe \<Rightarrow> 'm \<Rightarrow> int \<times> pipe \<times> 'm" where
  "piperead_copy copyout addr n i pi um =
     (if i < n then
        if nread pi = nwrite pi then (i, pi, um)
        else let (ch, pi') = pipe_get pi in
             (case copyout (addr + word_of_int i) ch um of
                None \<Rightarrow> (i, pi', um)
              | Some um' \<Rightarrow> piperead_copy copyout addr n (i + 1) pi' um')
      else (i, pi, um))"
  by pat_completeness auto
termination
  by (relation "measure (\<lambda>(copyout, addr, n, i, pi, um). nat (n - i))") auto

declare piperead_copy.simps [simp del]

definition piperead ::
  "bool \<Rightarrow> (u64 \<Rightarrow> u8 \<Rightarrow> 'm \<Rightarrow> 'm option) \<Rightarrow> u64 \<Rightarrow> int \<Rightarrow> pipe \<Rightarrow> 'm
     \<Rightarrow> ((pturn \<times> 'm) \<times> pipe \<times> pchan list) kres" where
  "piperead killed copyout addr n pi um =
     kbind (acquire_pipe pi) (\<lambda>pi.
       if nread pi = nwrite pi \<and> writeopen pi \<noteq> 0 then
         if killed then pipe_leave (Return (-1), um) [] pi
         else pipe_leave (Sleep Chan_nread 0, um) [] pi
       else let (i, pi', um') = piperead_copy copyout addr n 0 pi um in
            pipe_leave (Return i, um') [Chan_nwrite] pi')"

text \<open>\<open>pipeclose\<close>: the first component of the result tells whether \<open>kfree(pi)\<close> was called.\<close>

definition pipeclose :: "pipe \<Rightarrow> bool \<Rightarrow> (bool \<times> pipe \<times> pchan list) kres" where
  "pipeclose pi writable =
     kbind (acquire_pipe pi) (\<lambda>pi.
       let (pi, wk) = (if writable then (pi\<lparr>writeopen := 0\<rparr>, [Chan_nread])
                       else (pi\<lparr>readopen := 0\<rparr>, [Chan_nwrite]))
       in if readopen pi = 0 \<and> writeopen pi = 0 then pipe_leave True wk pi
          else pipe_leave False wk pi)"

section \<open>A pipe is a bounded queue\<close>

definition pipe_count :: "pipe \<Rightarrow> nat" where
  "pipe_count pi = unat (nwrite pi - nread pi)"

definition pipe_elems :: "pipe \<Rightarrow> u8 list" where
  "pipe_elems pi = ring_list (pdata pi) (unat (nread pi)) (pipe_count pi)"

definition pipe_inv :: "pipe \<Rightarrow> bool" where
  "pipe_inv pi \<longleftrightarrow> length (pdata pi) = PIPESIZE \<and> pipe_count pi \<le> PIPESIZE"

lemma length_pipe_elems [simp]: "length (pipe_elems pi) = pipe_count pi"
  by (simp add: pipe_elems_def)

lemma pipe_empty_iff: "nread pi = nwrite pi \<longleftrightarrow> pipe_elems pi = []"
  by (auto simp: pipe_elems_def pipe_count_def unat_diff_0_iff)

lemma pipe_full_iff: "nwrite pi = nread pi + 512 \<longleftrightarrow> pipe_count pi = PIPESIZE"
proof
  assume "pipe_count pi = PIPESIZE"
  then have "of_nat (unat (nwrite pi - nread pi)) = (512 :: u32)"
    unfolding pipe_count_def by simp
  then have "nwrite pi - nread pi = 512" by simp
  then show "nwrite pi = nread pi + 512" by (simp add: algebra_simps)
qed (simp add: pipe_count_def)

lemma pipe_simps [simp]:
  "pipe_inv (pi\<lparr>plock := b\<rparr>) = pipe_inv pi"
  "pipe_elems (pi\<lparr>plock := b\<rparr>) = pipe_elems pi"
  "pipe_count (pi\<lparr>plock := b\<rparr>) = pipe_count pi"
  "pipe_inv (pi\<lparr>writeopen := x\<rparr>) = pipe_inv pi"
  "pipe_elems (pi\<lparr>writeopen := x\<rparr>) = pipe_elems pi"
  "pipe_inv (pi\<lparr>readopen := x\<rparr>) = pipe_inv pi"
  "pipe_elems (pi\<lparr>readopen := x\<rparr>) = pipe_elems pi"
  by (simp_all add: pipe_inv_def pipe_elems_def pipe_count_def)

lemma pipe_put_frame [simp]:
  "plock (pipe_put ch pi) = plock pi" "readopen (pipe_put ch pi) = readopen pi"
  "writeopen (pipe_put ch pi) = writeopen pi"
  by (simp_all add: pipe_put_def)

lemma pipe_get_frame [simp]:
  "plock (snd (pipe_get pi)) = plock pi" "readopen (snd (pipe_get pi)) = readopen pi"
  "writeopen (snd (pipe_get pi)) = writeopen pi"
  by (simp_all add: pipe_get_def)

lemma pipe_count_put:
  "pipe_count pi < PIPESIZE \<Longrightarrow> pipe_count (pipe_put ch pi) = Suc (pipe_count pi)"
  unfolding pipe_count_def pipe_put_def by (simp add: unat_diff_inc [where b = 512])

lemma nwrite_index:
  "unat (nwrite pi) mod PIPESIZE = (unat (nread pi) + pipe_count pi) mod PIPESIZE"
proof -
  have "nwrite pi = nread pi + of_nat (pipe_count pi)"
    by (simp add: pipe_count_def)
  then show ?thesis
    using unat_add_mod [of 512 "nread pi" "pipe_count pi"] by simp
qed

lemma pipe_elems_put:
  assumes "pipe_inv pi" and "pipe_count pi < PIPESIZE"
  shows "pipe_elems (pipe_put ch pi) = pipe_elems pi @ [ch]"
proof -
  have len: "length (pdata pi) = PIPESIZE" using assms by (simp add: pipe_inv_def)
  then show ?thesis
    using assms(2) ring_list_push [of "pipe_count pi" "pdata pi" "unat (nread pi)" ch]
    by (simp add: pipe_elems_def pipe_count_put nwrite_index [symmetric]) (simp add: pipe_put_def)
qed

lemma pipe_count_get:
  "nread pi \<noteq> nwrite pi \<Longrightarrow> pipe_count (snd (pipe_get pi)) = pipe_count pi - 1"
  unfolding pipe_count_def pipe_get_def by (simp add: unat_diff_dec del: diff_diff_eq)

lemma pipe_elems_get:
  assumes "pipe_inv pi" and "pipe_elems pi \<noteq> []"
  shows "pipe_elems pi = fst (pipe_get pi) # pipe_elems (snd (pipe_get pi))"
proof -
  have ne: "nread pi \<noteq> nwrite pi" using assms(2) pipe_empty_iff by blast
  have len: "length (pdata pi) = PIPESIZE" using assms by (simp add: pipe_inv_def)
  have idx: "unat (nread pi + 1) mod length (pdata pi) = Suc (unat (nread pi)) mod length (pdata pi)"
    unfolding len by (rule unat_Suc_mod) simp
  have "0 < pipe_count pi" using assms(2) by (simp add: pipe_elems_def)
  then show ?thesis
    using ne len by (simp add: pipe_elems_def ring_list_pop pipe_count_get)
      (simp add: pipe_get_def ring_list_cong_mod [OF idx])
qed

interpretation pq: bounded_fifo pipe_put pipe_get pipe_elems pipe_inv PIPESIZE
proof unfold_locales
  fix q :: pipe and x :: u8
  assume q: "pipe_inv q"
  show "length (pipe_elems q) \<le> PIPESIZE" using q by (simp add: pipe_inv_def)
  { assume l: "length (pipe_elems q) < PIPESIZE"
    show "pipe_elems (pipe_put x q) = pipe_elems q @ [x]"
      using q l by (simp add: pipe_elems_put)
    show "pipe_inv (pipe_put x q)"
      using q l by (simp add: pipe_inv_def pipe_count_put) (simp add: pipe_put_def) }
  { assume ne: "pipe_elems q \<noteq> []"
    show "fst (pipe_get q) = hd (pipe_elems q)"
      and "pipe_elems (snd (pipe_get q)) = tl (pipe_elems q)"
      using pipe_elems_get [OF q ne] by (metis list.sel)+
    have "nread q \<noteq> nwrite q" using ne pipe_empty_iff by blast
    with q show "pipe_inv (snd (pipe_get q))"
      using pipe_count_get [of q] unfolding pipe_inv_def by (auto simp: pipe_get_def) }
qed

section \<open>Turns of the writer and of the reader\<close>

lemma pipe_leave_Ok: "plock pi \<Longrightarrow> pipe_leave r wk pi = Ok (r, pi\<lparr>plock := False\<rparr>, wk)"
  by (simp add: pipe_leave_def release_pipe_def)

text \<open>What the writer has stored when its turn ends with result \<open>t\<close>.\<close>

definition write_outcome :: "(int \<Rightarrow> bool) \<Rightarrow> (u64 \<Rightarrow> u8 option) \<Rightarrow> u64 \<Rightarrow> int \<Rightarrow> int
    \<Rightarrow> pipe \<Rightarrow> pturn \<Rightarrow> pchan list \<Rightarrow> bool" where
  "write_outcome killed copyin addr n j pi t wk \<longleftrightarrow>
     (t = Return (-1) \<and> j < n \<and> (readopen pi = 0 \<or> killed j) \<and> wk = [])
   \<or> (t = Sleep Chan_nwrite j \<and> j < n \<and> readopen pi \<noteq> 0 \<and> \<not> killed j
        \<and> pipe_count pi = PIPESIZE \<and> wk = [Chan_nread])
   \<or> (t = Return j \<and> j < n \<and> readopen pi \<noteq> 0 \<and> \<not> killed j
        \<and> copyin (addr + word_of_int j) = None \<and> wk = [Chan_nread])
   \<or> (t = Return j \<and> n \<le> j \<and> wk = [Chan_nread])"

text \<open>
  The contract of a writer's turn that starts with counter \<open>i\<close>: it appends the user bytes
  \<open>bs\<close> found from \<open>addr + i\<close> on, leaves everything else alone, and drops the lock.
\<close>

definition write_spec :: "(int \<Rightarrow> bool) \<Rightarrow> (u64 \<Rightarrow> u8 option) \<Rightarrow> u64 \<Rightarrow> int \<Rightarrow> int
    \<Rightarrow> pipe \<Rightarrow> u8 list \<Rightarrow> pturn \<times> pipe \<times> pchan list \<Rightarrow> bool" where
  "write_spec killed copyin addr n i pi bs = (\<lambda>(t, pi', wk).
     pipe_inv pi' \<and> \<not> plock pi' \<and> pipe_elems pi' = pipe_elems pi @ bs
     \<and> nread pi' = nread pi \<and> readopen pi' = readopen pi \<and> writeopen pi' = writeopen pi
     \<and> (\<forall>k < length bs. copyin (addr + word_of_int (i + int k)) = Some (bs ! k))
     \<and> write_outcome killed copyin addr n (i + int (length bs)) pi' t wk)"

lemma write_spec_Nil:
  assumes "pipe_inv pi" and "write_outcome killed copyin addr n i (pi\<lparr>plock := False\<rparr>) t wk"
  shows "write_spec killed copyin addr n i pi [] (t, pi\<lparr>plock := False\<rparr>, wk)"
  using assms by (simp add: write_spec_def)

lemma write_spec_Cons:
  assumes "pipe_inv pi" and "pipe_count pi < PIPESIZE"
    and "copyin (addr + word_of_int i) = Some ch"
    and "write_spec killed copyin addr n (i + 1) (pipe_put ch pi) bs r"
  shows "write_spec killed copyin addr n i pi (ch # bs) r"
proof -
  have "copyin (addr + word_of_int (i + int k)) = Some ((ch # bs) ! k)"
    if "k < Suc (length bs)" for k
    using assms(3,4) that
    by (cases k) (auto simp: write_spec_def algebra_simps)
  with assms show ?thesis
    by (auto simp: write_spec_def pq.elems_put algebra_simps)
      (simp_all add: pipe_put_def)
qed

lemma pipewrite_loop_spec:
  assumes "pipe_inv pi" and "plock pi"
  shows "\<exists>r bs. pipewrite_loop killed copyin addr n i pi = Ok r
           \<and> write_spec killed copyin addr n i pi bs r"
  using assms
proof (induction killed copyin addr n i pi rule: pipewrite_loop.induct)
  case (1 killed copyin addr n i pi)
  note step = pipewrite_loop.simps [of killed copyin addr n i pi]
  show ?case
  proof (cases "i < n \<and> readopen pi \<noteq> 0 \<and> \<not> killed i \<and> pipe_count pi \<noteq> PIPESIZE
                \<and> copyin (addr + word_of_int i) \<noteq> None")
    case False
    then have "\<exists>t wk. pipewrite_loop killed copyin addr n i pi = Ok (t, pi\<lparr>plock := False\<rparr>, wk)
        \<and> write_outcome killed copyin addr n i (pi\<lparr>plock := False\<rparr>) t wk"
      using "1.prems" step pipe_full_iff [of pi]
      by (cases "copyin (addr + word_of_int i)") (auto simp: pipe_leave_Ok write_outcome_def)
    then show ?thesis
      using write_spec_Nil [OF "1.prems"(1)] by blast
  next
    case True
    then obtain ch where ch: "copyin (addr + word_of_int i) = Some ch" by auto
    have nf: "\<not> nwrite pi = nread pi + 512"
      using True pipe_full_iff by blast
    have room: "pipe_count pi < PIPESIZE" using True "1.prems" by (simp add: pipe_inv_def)
    have "pipe_inv (pipe_put ch pi)" "plock (pipe_put ch pi)"
      using "1.prems" room by (auto intro: pq.inv_put)
    then obtain r bs where
      "pipewrite_loop killed copyin addr n (i + 1) (pipe_put ch pi) = Ok r"
      "write_spec killed copyin addr n (i + 1) (pipe_put ch pi) bs r"
      using "1.IH" True nf ch by blast
    then show ?thesis
      using step True nf ch write_spec_Cons [of pi copyin addr i ch killed n bs r] "1.prems"(1) room
      by auto
  qed
qed

lemma pipewrite_turn_spec:
  assumes "pipe_inv pi" and "\<not> plock pi"
  shows "\<exists>r bs. pipewrite_turn killed copyin addr n i pi = Ok r
           \<and> write_spec killed copyin addr n i pi bs r"
  using pipewrite_loop_spec [of "pi\<lparr>plock := True\<rparr>" killed copyin addr n i] assms
  by (auto simp: pipewrite_turn_def acquire_pipe_def write_spec_def)

fun user_stores :: "(u64 \<Rightarrow> u8 \<Rightarrow> 'm \<Rightarrow> 'm option) \<Rightarrow> u64 \<Rightarrow> u8 list \<Rightarrow> 'm \<Rightarrow> 'm option" where
  "user_stores copyout a [] um = Some um"
| "user_stores copyout a (b # bs) um =
     (case copyout a b um of None \<Rightarrow> None | Some um' \<Rightarrow> user_stores copyout (a + 1) bs um')"

text \<open>
  The contract of the reader's copy loop: it delivers a prefix \<open>bs\<close> of the buffered bytes to
  consecutive user addresses, and stops when it has \<open>n\<close> bytes, when the pipe is empty, or
  when a store fails, in which case the byte it could not store is gone from the pipe.
\<close>

definition read_spec :: "(u64 \<Rightarrow> u8 \<Rightarrow> 'm \<Rightarrow> 'm option) \<Rightarrow> u64 \<Rightarrow> int \<Rightarrow> int \<Rightarrow> pipe \<Rightarrow> 'm
    \<Rightarrow> u8 list \<Rightarrow> int \<times> pipe \<times> 'm \<Rightarrow> bool" where
  "read_spec copyout addr n i pi um bs = (\<lambda>(i', pi', um').
     pipe_inv pi' \<and> plock pi' = plock pi \<and> i' = i + int (length bs) \<and> i' \<le> max i n
     \<and> nwrite pi' = nwrite pi \<and> readopen pi' = readopen pi \<and> writeopen pi' = writeopen pi
     \<and> user_stores copyout (addr + word_of_int i) bs um = Some um'
     \<and> (pipe_elems pi = bs @ pipe_elems pi' \<and> (n \<le> i' \<or> pipe_elems pi' = [])
        \<or> (\<exists>b. pipe_elems pi = bs @ b # pipe_elems pi' \<and> i' < n
               \<and> copyout (addr + word_of_int i') b um' = None)))"

lemma piperead_copy_spec:
  assumes "pipe_inv pi"
  shows "\<exists>bs. read_spec copyout addr n i pi um bs (piperead_copy copyout addr n i pi um)"
  using assms
proof (induction copyout addr n i pi um rule: piperead_copy.induct)
  case (1 copyout addr n i pi um)
  note step = piperead_copy.simps [of copyout addr n i pi um]
  show ?case
  proof (cases "i < n \<and> pipe_elems pi \<noteq> []")
    case False
    then have "read_spec copyout addr n i pi um [] (piperead_copy copyout addr n i pi um)"
      using "1.prems" pipe_empty_iff [of pi] by (auto simp: step read_spec_def)
    then show ?thesis ..
  next
    case True
    then have ne: "\<not> nread pi = nwrite pi" and lt: "i < n"
      using pipe_empty_iff by blast+
    obtain ch pi' where g: "pipe_get pi = (ch, pi')" by fastforce
    have q: "pipe_elems pi = ch # pipe_elems pi'" "pipe_inv pi'"
      using pipe_elems_get [of pi] pq.inv_get [of pi] True "1.prems" g by auto
    have f: "plock pi' = plock pi" "nwrite pi' = nwrite pi" "readopen pi' = readopen pi"
      "writeopen pi' = writeopen pi"
      using g by (auto simp: pipe_get_def)
    show ?thesis
    proof (cases "copyout (addr + word_of_int i) ch um")
      case None
      then have "read_spec copyout addr n i pi um [] (piperead_copy copyout addr n i pi um)"
        using q f lt ne g by (simp add: step read_spec_def)
      then show ?thesis ..
    next
      case (Some um')
      obtain i2 pi2 um2 where r: "piperead_copy copyout addr n (i + 1) pi' um' = (i2, pi2, um2)"
        by (metis prod_cases3)
      obtain bs where "read_spec copyout addr n (i + 1) pi' um' bs (i2, pi2, um2)"
        using "1.IH" [OF lt ne g [symmetric] refl Some q(2)] unfolding r by blast
      then have "read_spec copyout addr n i pi um (ch # bs) (i2, pi2, um2)"
        using q f Some lt by (auto simp: read_spec_def algebra_simps)
      moreover have "piperead_copy copyout addr n i pi um = (i2, pi2, um2)"
        using step lt ne g Some r by simp
      ultimately have "read_spec copyout addr n i pi um (ch # bs) (piperead_copy copyout addr n i pi um)"
        by simp
      then show ?thesis ..
    qed
  qed
qed

section \<open>Correctness of single calls\<close>


definition example_pipe :: pipe where
  "example_pipe = pipe_init \<lparr>plock = False, pdata = replicate 512 0, nread = 7, nwrite = 9,
                             readopen = 0, writeopen = 0\<rparr>"

lemma example_pipe_ok: "pipe_inv example_pipe" "\<not> plock example_pipe" "pipe_elems example_pipe = []"
  "writeopen example_pipe = 1" "readopen example_pipe = 1"
  by (simp_all add: example_pipe_def pipe_init_def pipe_inv_def pipe_count_def pipe_elems_def)


lemma piperead_spec:
  assumes "pipe_inv pi" and "\<not> plock pi"
    and "pipe_elems pi \<noteq> [] \<or> writeopen pi = 0"
  shows "\<exists>i um' pi' bs. piperead killed copyout addr n pi um = Ok ((Return i, um'), pi', [Chan_nwrite])
     \<and> \<not> plock pi' \<and> read_spec copyout addr n 0 (pi\<lparr>plock := False\<rparr>) um bs (i, pi', um')"
proof -
  let ?pi = "pi\<lparr>plock := True\<rparr>"
  obtain i pi2 um' where r: "piperead_copy copyout addr n 0 ?pi um = (i, pi2, um')"
    by (metis prod_cases3)
  obtain bs where sp: "read_spec copyout addr n 0 ?pi um bs (i, pi2, um')"
    using piperead_copy_spec [of ?pi copyout addr n 0 um] assms(1) r by auto
  then have "plock pi2" by (simp add: read_spec_def)
  moreover have "\<not> (nread pi = nwrite pi \<and> writeopen pi \<noteq> 0)"
    using assms(3) pipe_empty_iff [of pi] by auto
  ultimately have "piperead killed copyout addr n pi um
      = Ok ((Return i, um'), pi2\<lparr>plock := False\<rparr>, [Chan_nwrite])"
    using assms(2) r by (simp add: piperead_def acquire_pipe_def pipe_leave_Ok)
  moreover have "read_spec copyout addr n 0 (pi\<lparr>plock := False\<rparr>) um bs (i, pi2\<lparr>plock := False\<rparr>, um')"
    using sp by (auto simp: read_spec_def)
  ultimately show ?thesis by fastforce
qed

text \<open>C12: \<open>piperead\<close> on a pipe that has data, or whose write end is closed, returns without
  sleeping and without a panic. It delivers the oldest \<open>i\<close> bytes in order to consecutive user
  addresses, where \<open>i\<close> is the smaller of \<open>n\<close> and the number of buffered bytes (so 0 at end of
  file), provided the stores succeed.\<close>

theorem piperead_delivers:
  assumes "pipe_inv pi" and "\<not> plock pi" and "pipe_elems pi \<noteq> [] \<or> writeopen pi = 0"
    and "\<And>a b um. copyout a b um \<noteq> None"
  shows "\<exists>pi' um'.
    piperead killed copyout addr (int n) pi um
       = Ok ((Return (int (min n (length (pipe_elems pi)))), um'), pi', [Chan_nwrite])
    \<and> pipe_inv pi' \<and> \<not> plock pi' \<and> pipe_elems pi' = drop n (pipe_elems pi)
    \<and> user_stores copyout addr (take n (pipe_elems pi)) um = Some um'"
proof -
  obtain i um' pi' bs where r:
    "piperead killed copyout addr (int n) pi um = Ok ((Return i, um'), pi', [Chan_nwrite])"
    "\<not> plock pi'" "read_spec copyout addr (int n) 0 (pi\<lparr>plock := False\<rparr>) um bs (i, pi', um')"
    using piperead_spec [OF assms(1-3), of killed copyout addr "int n" um] by blast
  then have e: "pipe_elems pi = bs @ pipe_elems pi'" "i = int (length bs)" "length bs \<le> n"
    "n \<le> length bs \<or> pipe_elems pi' = []"
    using assms(4) by (auto simp: read_spec_def)
  then have "i = int (min n (length (pipe_elems pi)))"
    by (auto simp del: length_pipe_elems)
  moreover have "pipe_elems pi' = drop n (pipe_elems pi)" "bs = take n (pipe_elems pi)"
    using e by auto
  ultimately show ?thesis
    using r by (auto simp: read_spec_def)
qed

lemma piperead_delivers_witness:
  "\<exists>pi' um'.
    piperead False (\<lambda>a b um. Some (um @ [b])) 8192 (int 2)
        (fold pipe_put [1, 2, 3] example_pipe) []
       = Ok ((Return (int (min 2 (length (pipe_elems (fold pipe_put [1, 2, 3] example_pipe))))), um'), pi',
             [Chan_nwrite])
    \<and> pipe_inv pi' \<and> \<not> plock pi'
    \<and> pipe_elems pi' = drop 2 (pipe_elems (fold pipe_put [1, 2, 3] example_pipe))
    \<and> user_stores (\<lambda>a b um. Some (um @ [b])) 8192
        (take 2 (pipe_elems (fold pipe_put [1, 2, 3] example_pipe))) [] = Some um'"
proof -
  have "pipe_inv (fold pipe_put [1, 2, 3] example_pipe)"
    and "pipe_elems (fold pipe_put [1, 2, 3] example_pipe) = [1, 2, 3]"
    using pq.put_all [of example_pipe "[1, 2, 3]"] example_pipe_ok by (auto simp del: fold.simps)
  moreover have "\<not> plock (fold pipe_put [1, 2, 3] example_pipe)"
    using example_pipe_ok by simp
  ultimately show ?thesis by (intro piperead_delivers) auto
qed

section \<open>The byte stream\<close>

text \<open>
  All the ways a pipe can be used: turns of writers and readers and closes of either end, in
  any order, by any processes. \<open>pipe_trace pi sent got\<close>: the pipe is in state \<open>pi\<close> after the
  bytes \<open>sent\<close> were taken from writers and \<open>got\<close> were stored for readers (whose memory is the
  log of the bytes stored, in order).
\<close>

definition bytes_taken :: "(u64 \<Rightarrow> u8 option) \<Rightarrow> u64 \<Rightarrow> int \<Rightarrow> nat \<Rightarrow> u8 list" where
  "bytes_taken copyin addr i m = map (\<lambda>k. the (copyin (addr + word_of_int (i + int k)))) [0..<m]"

definition copyout_log :: "u64 \<Rightarrow> u8 \<Rightarrow> u8 list \<Rightarrow> u8 list option" where
  "copyout_log a b um = Some (um @ [b])"

inductive pipe_trace :: "pipe \<Rightarrow> u8 list \<Rightarrow> u8 list \<Rightarrow> bool" where
  pt_fresh: "length (pdata pi) = PIPESIZE \<Longrightarrow> pipe_trace (pipe_init pi) [] []"
| pt_write: "pipe_trace pi sent got \<Longrightarrow>
    pipewrite_turn killed copyin addr n i pi = Ok (t, pi', wk) \<Longrightarrow>
    pipe_trace pi' (sent @ bytes_taken copyin addr i (pipe_count pi' - pipe_count pi)) got"
| pt_read: "pipe_trace pi sent got \<Longrightarrow>
    piperead dead copyout_log addr n pi got = Ok ((t, got'), pi', wk) \<Longrightarrow>
    pipe_trace pi' sent got'"
| pt_close: "pipe_trace pi sent got \<Longrightarrow> pipeclose pi writable = Ok (freed, pi', wk) \<Longrightarrow>
    pipe_trace pi' sent got"

lemma user_stores_log: "user_stores copyout_log a bs um = Some (um @ bs)"
  by (induction bs arbitrary: a um) (auto simp: copyout_log_def)

lemma write_spec_taken:
  assumes "write_spec killed copyin addr n i pi bs (t, pi', wk)"
  shows "bytes_taken copyin addr i (pipe_count pi' - pipe_count pi) = bs"
proof -
  have "length (pipe_elems pi') = length (pipe_elems pi @ bs)"
    using assms by (simp add: write_spec_def del: length_pipe_elems)
  then have "pipe_count pi' - pipe_count pi = length bs" by simp
  then show ?thesis
    using assms by (intro nth_equalityI) (auto simp: bytes_taken_def write_spec_def)
qed

lemma pipe_trace_inv:
  "pipe_trace pi sent got \<Longrightarrow> pipe_inv pi \<and> \<not> plock pi \<and> sent = got @ pipe_elems pi"
proof (induction rule: pipe_trace.induct)
  case (pt_fresh pi)
  then show ?case by (simp add: pipe_init_def pipe_inv_def pipe_count_def pipe_elems_def)
next
  case (pt_write pi sent got killed copyin addr n i t pi' wk)
  then obtain bs where "write_spec killed copyin addr n i pi bs (t, pi', wk)"
    using pipewrite_turn_spec [of pi killed copyin addr n i] by auto
  with pt_write.IH write_spec_taken [OF this] show ?case by (auto simp: write_spec_def)
next
  case (pt_read pi sent got dead addr n t got' pi' wk)
  show ?case
  proof (cases "pipe_elems pi \<noteq> [] \<or> writeopen pi = 0")
    case True
    then obtain bs i where "read_spec copyout_log addr n 0 (pi\<lparr>plock := False\<rparr>) got bs (i, pi', got')"
      and "\<not> plock pi'"
      using piperead_spec [of pi dead copyout_log addr n got] pt_read by fastforce
    with pt_read.IH show ?thesis
      by (auto simp: read_spec_def user_stores_log copyout_log_def)
  next
    case False
    then show ?thesis
      using pt_read pipe_empty_iff [of pi]
      by (auto simp: piperead_def acquire_pipe_def pipe_leave_Ok split: if_splits)
  qed
next
  case (pt_close pi sent got writable freed pi' wk)
  then show ?case
    by (auto simp: pipeclose_def acquire_pipe_def pipe_leave_Ok Let_def split: if_splits)
qed



end
