(* ===== verification/DLink.thy ===== *)
theory DLink imports XV6_Prelude begin

text \<open>
  Circular doubly linked lists with a head node, as the buffer cache threads them through
  \<open>struct buf\<close> (kernel/bio.c). Nodes are numbers, \<open>nx\<close> and \<open>pv\<close> the next and prev fields.
  \<open>dll nx pv h xs\<close> says that the list headed by \<open>h\<close> holds the nodes \<open>xs\<close>, in the order of the
  next fields. \<open>dll_unlink\<close> and \<open>dll_link_front\<close> give the effect of the two pointer updates
  the C code performs, \<open>scan_forward\<close> and \<open>scan_backward\<close> that of its search loops.
\<close>

section \<open>Segments\<close>

fun chain :: "(nat \<Rightarrow> nat) \<Rightarrow> (nat \<Rightarrow> nat) \<Rightarrow> nat \<Rightarrow> nat list \<Rightarrow> nat \<Rightarrow> bool" where
  "chain nx pv a [] z \<longleftrightarrow> nx a = z \<and> pv z = a"
| "chain nx pv a (x # xs) z \<longleftrightarrow> nx a = x \<and> pv x = a \<and> chain nx pv x xs z"

lemma chain_append: "chain nx pv a (xs @ y # ys) z \<longleftrightarrow> chain nx pv a xs y \<and> chain nx pv y ys z"
  by (induction xs arbitrary: a) auto

lemma chain_cong:
  assumes "\<And>n. n \<in> insert a (set xs) \<Longrightarrow> nx' n = nx n"
    and "\<And>n. n \<in> insert z (set xs) \<Longrightarrow> pv' n = pv n"
    and "chain nx pv a xs z"
  shows "chain nx' pv' a xs z"
  using assms by (induction xs arbitrary: a) auto

lemma chain_first: "chain nx pv a xs z \<Longrightarrow> nx a = hd (xs @ [z])"
  by (cases xs) auto

lemma chain_last: "chain nx pv a xs z \<Longrightarrow> pv z = last (a # xs)"
  by (induction xs arbitrary: a) auto

lemma chain_retarget:
  assumes "chain nx pv a xs b" and "distinct (a # xs)" and "c \<notin> set xs"
  shows "chain (nx(last (a # xs) := c)) (pv(c := last (a # xs))) a xs c"
  using assms
proof (induction xs arbitrary: a)
  case Nil
  then show ?case by simp
next
  case (Cons x xs)
  define l where "l = last (x # xs)"
  have "chain (nx(l := c)) (pv(c := l)) x xs c"
    unfolding l_def using Cons.prems by (intro Cons.IH) auto
  moreover have "a \<noteq> l" unfolding l_def using Cons.prems(2) last_in_set [of "x # xs"] by auto
  moreover have "last (a # x # xs) = l" by (simp add: l_def)
  moreover have "(nx(l := c)) a = x" "(pv(c := l)) x = a" if "a \<noteq> l" using Cons.prems that by auto
  ultimately show ?case by (simp only: chain.simps simp_thms)
qed

section \<open>Circular lists\<close>

definition dll :: "(nat \<Rightarrow> nat) \<Rightarrow> (nat \<Rightarrow> nat) \<Rightarrow> nat \<Rightarrow> nat list \<Rightarrow> bool" where
  "dll nx pv h xs \<longleftrightarrow> chain nx pv h xs h \<and> distinct (h # xs)"

lemma dll_empty: "nx h = h \<Longrightarrow> pv h = h \<Longrightarrow> dll nx pv h []"
  by (simp add: dll_def)

lemma dll_unlink:
  assumes "dll nx pv h (xs @ b # ys)"
  shows "dll (nx(pv b := nx b)) (pv(nx b := pv b)) h (xs @ ys)"
proof -
  from assms have c: "chain nx pv h xs b" "chain nx pv b ys h" and d: "distinct (h # xs @ b # ys)"
    by (auto simp: dll_def chain_append)
  have p: "pv b = last (h # xs)" using chain_last [OF c(1)] .
  have pin: "pv b \<in> insert h (set xs)" unfolding p using last_in_set [of "h # xs"] by auto
  have "chain (nx(pv b := nx b)) (pv(nx b := pv b)) h (xs @ ys) h"
  proof (cases ys)
    case Nil
    then have "nx b = h" using c(2) by simp
    then show ?thesis
      using chain_retarget [OF c(1), of h] d Nil unfolding p by simp
  next
    case (Cons y zs)
    then have y: "nx b = y" "chain nx pv y zs h" using c(2) by auto
    have "chain (nx(pv b := y)) (pv(y := pv b)) h xs y"
      using chain_retarget [OF c(1), of y] d Cons unfolding p by auto
    moreover have "chain (nx(pv b := y)) (pv(y := pv b)) y zs h"
      using d Cons pin by (intro chain_cong [OF _ _ y(2)]) auto
    ultimately show ?thesis using Cons y(1) by (simp add: chain_append)
  qed
  with d show ?thesis by (auto simp: dll_def)
qed

lemma dll_link_front:
  assumes "dll nx pv h xs" and "b \<noteq> h" and "b \<notin> set xs"
  shows "dll ((nx(b := nx h))(h := b)) ((pv(b := h))(nx h := b)) h (b # xs)"
proof -
  from assms(1) have c: "chain nx pv h xs h" and d: "distinct (h # xs)" by (auto simp: dll_def)
  let ?nx = "(nx(b := nx h))(h := b)" and ?pv = "(pv(b := h))(nx h := b)"
  have "chain ?nx ?pv b xs h"
  proof (cases xs)
    case Nil
    with c assms(2) show ?thesis by auto
  next
    case (Cons x ys)
    then have x: "nx h = x" "chain nx pv x ys h" using c by auto
    have "chain ?nx ?pv x ys h"
      using d assms Cons x(1) by (intro chain_cong [OF _ _ x(2)]) auto
    with x assms Cons show ?thesis by auto
  qed
  moreover have "nx h \<noteq> b" using chain_first [OF c] assms(2,3) by (cases xs) auto
  ultimately show ?thesis using d assms by (auto simp: dll_def)
qed

section \<open>Search loops\<close>

text \<open>
  \<open>for (b = first; b != head; b = b->link) if (hit b) return b;\<close> with fuel; without enough fuel
  the loop does not return.
\<close>

fun scan :: "(nat \<Rightarrow> nat) \<Rightarrow> nat \<Rightarrow> (nat \<Rightarrow> bool) \<Rightarrow> nat \<Rightarrow> nat \<Rightarrow> nat option kres" where
  "scan link h hit 0 b = Blocked"
| "scan link h hit (Suc fuel) b =
     (if b = h then Ok None else if hit b then Ok (Some b) else scan link h hit fuel (link b))"

lemma scan_segment:
  assumes "chain nx pv a xs h" and "h \<notin> set xs" and "length xs < fuel"
  shows "scan nx h hit fuel (nx a) = Ok (find hit xs)"
  using assms
proof (induction xs arbitrary: a fuel)
  case Nil
  then show ?case by (cases fuel) auto
next
  case (Cons x xs)
  then obtain f where "fuel = Suc f" by (cases fuel) auto
  with Cons show ?case by auto
qed

lemma chain_rev: "chain nx pv a xs z \<longleftrightarrow> chain pv nx z (rev xs) a"
proof (induction xs arbitrary: a)
  case (Cons x xs)
  have "chain pv nx z (rev xs @ [x]) a \<longleftrightarrow> chain pv nx z (rev xs) x \<and> pv x = a \<and> nx a = x"
    by (simp add: chain_append)
  with Cons show ?case by auto
qed auto

lemma scan_forward:
  assumes "dll nx pv h xs" and "length xs < fuel"
  shows "scan nx h hit fuel (nx h) = Ok (find hit xs)"
  using assms scan_segment [of nx pv h xs h] by (auto simp: dll_def)

lemma scan_backward:
  assumes "dll nx pv h xs" and "length xs < fuel"
  shows "scan pv h hit fuel (pv h) = Ok (find hit (rev xs))"
  using assms scan_segment [of pv nx h "rev xs" h] by (auto simp: dll_def chain_rev [of nx])

end
