(* ===== verification/Locks.thy ===== *)
theory Locks imports XV6_Prelude begin

text \<open>
  Spin locks (kernel/spinlock.c) and sleep locks (kernel/sleeplock.c).

  A hart (processor) has the interrupt-enable bit of its status register and the two fields of
  \<open>struct cpu\<close> that \<open>push_off\<close> and \<open>pop_off\<close> keep, \<open>noff\<close> and \<open>intena\<close>. A lock has \<open>locked\<close> and
  \<open>cpu\<close> (the hart that owns it). \<open>push_off\<close>, \<open>pop_off\<close> and \<open>holding\<close> are functions of one hart;
  \<open>acquire\<close> and \<open>release\<close> are given twice: as the steps that other harts can interleave with
  (relation \<open>lstep\<close>: each atomic memory operation is one step, the swap of the spin loop being
  the only read-modify-write) and as the whole call run without interference.

  The lemmas show mutual exclusion, that \<open>holding\<close> answers exactly, that interrupts stay off
  while a hart owns a lock, and that the nesting counter never underflows.
\<close>

section \<open>State\<close>

record hart =
  sie :: bool        \<comment> \<open>sstatus.SIE, read by intr_get\<close>
  noff :: int
  intena :: bool

record spinlock =
  locked :: u32
  owner :: "nat option"    \<comment> \<open>lk->cpu\<close>

record 'l machine =
  harts :: "nat \<Rightarrow> hart"
  locks :: "'l \<Rightarrow> spinlock"

definition initlock :: "spinlock" where
  "initlock = \<lparr>locked = 0, owner = None\<rparr>"

definition holding :: "nat \<Rightarrow> spinlock \<Rightarrow> bool" where
  "holding h lk \<longleftrightarrow> locked lk \<noteq> 0 \<and> owner lk = Some h"

section \<open>push\_off and pop\_off\<close>

definition push_off :: "hart \<Rightarrow> hart" where
  "push_off c =
     (let old = sie c;
          c = c\<lparr>sie := False\<rparr>;
          c = (if noff c = 0 then c\<lparr>intena := old\<rparr> else c)
      in c\<lparr>noff := noff c + 1\<rparr>)"

definition pop_off :: "hart \<Rightarrow> hart kres" where
  "pop_off c =
     (if sie c then Panic ''pop_off - interruptible''
      else if noff c < 1 then Panic ''pop_off''
      else let c = c\<lparr>noff := noff c - 1\<rparr>
           in Ok (if noff c = 0 \<and> intena c then c\<lparr>sie := True\<rparr> else c))"

text \<open>What a hart's fields look like \<open>n\<close> levels deep, entered with interrupts at \<open>b\<close>.\<close>

definition hart_ok :: "hart \<Rightarrow> bool" where
  "hart_ok c \<longleftrightarrow> 0 \<le> noff c \<and> (0 < noff c \<longrightarrow> \<not> sie c)"

lemma push_off_ok: "hart_ok c \<Longrightarrow> hart_ok (push_off c)"
  by (auto simp: hart_ok_def push_off_def Let_def)

lemma push_off_simps [simp]:
  "noff (push_off c) = noff c + 1" "\<not> sie (push_off c)"
  by (simp_all add: push_off_def Let_def)

lemma pop_off_Ok:
  "hart_ok c \<Longrightarrow> 0 < noff c \<Longrightarrow>
     \<exists>c'. pop_off c = Ok c' \<and> noff c' = noff c - 1 \<and> hart_ok c'"
  by (auto simp: hart_ok_def pop_off_def Let_def)

text \<open>\<open>k\<close> calls of \<open>push_off\<close> followed by \<open>k\<close> calls of \<open>pop_off\<close>.\<close>

fun push_offs :: "nat \<Rightarrow> hart \<Rightarrow> hart" where
  "push_offs 0 c = c"
| "push_offs (Suc k) c = push_offs k (push_off c)"

fun pop_offs :: "nat \<Rightarrow> hart \<Rightarrow> hart kres" where
  "pop_offs 0 c = Ok c"
| "pop_offs (Suc k) c = kbind (pop_off c) (pop_offs k)"

lemma push_offs_intena: "0 < noff c \<Longrightarrow> hart_ok c \<Longrightarrow>
    push_offs k c = c\<lparr>noff := noff c + int k\<rparr>"
  by (induction k arbitrary: c) (auto simp: push_off_def Let_def hart_ok_def)

lemma pop_offs_inner:
  "int k < noff c \<Longrightarrow> hart_ok c \<Longrightarrow> pop_offs k c = Ok (c\<lparr>noff := noff c - int k\<rparr>)"
  by (induction k arbitrary: c) (auto simp: pop_off_def Let_def hart_ok_def)

lemma pop_offs_Suc: "pop_offs (Suc k) c = kbind (pop_offs k c) pop_off"
proof (induction k arbitrary: c)
  case 0
  then show ?case by (cases "pop_off c") auto
next
  case (Suc k)
  show ?case
  proof (cases "pop_off c")
    case (Ok c')
    then show ?thesis using Suc.IH [of c'] by simp
  qed auto
qed

text \<open>\<open>push_off\<close> and \<open>pop_off\<close> are matched: after any number of nested \<open>push_off\<close>s
  interrupts are off, and as many \<open>pop_off\<close>s do not panic and put the interrupt state back to
  what it was before the first \<open>push_off\<close>.\<close>

theorem push_pop_off_matched:
  assumes "hart_ok c" and "noff c = 0"
  shows "\<not> sie (push_offs (Suc k) c)
       \<and> (\<exists>c'. pop_offs (Suc k) (push_offs (Suc k) c) = Ok c' \<and> sie c' = sie c \<and> noff c' = 0)"
proof -
  let ?c = "push_off c"
  have c: "hart_ok ?c" "noff ?c = 1" using assms by (auto simp: push_off_ok)
  have i: "intena ?c = sie c" using assms by (simp add: push_off_def Let_def)
  from c have p: "push_offs (Suc k) c = ?c\<lparr>noff := 1 + int k\<rparr>"
    using push_offs_intena [of ?c k] by simp
  have ok: "hart_ok (?c\<lparr>noff := 1 + int k\<rparr>)" using c by (simp add: hart_ok_def)
  have "pop_offs (Suc k) (?c\<lparr>noff := 1 + int k\<rparr>) = pop_off (?c\<lparr>noff := 1\<rparr>)"
    using pop_offs_inner [OF _ ok] unfolding pop_offs_Suc by simp
  then show ?thesis
    using p c i by (auto simp: pop_off_def Let_def)
qed

lemma push_pop_off_matched_witness:
  "\<not> sie (push_offs (Suc 2) \<lparr>sie = True, noff = 0, intena = False\<rparr>)
   \<and> (\<exists>c'. pop_offs (Suc 2) (push_offs (Suc 2) \<lparr>sie = True, noff = 0, intena = False\<rparr>) = Ok c'
         \<and> sie c' = sie \<lparr>sie = True, noff = 0, intena = False\<rparr> \<and> noff c' = 0)"
  by (rule push_pop_off_matched) (simp_all add: hart_ok_def)

section \<open>acquire and release, undisturbed\<close>

definition set_hart :: "nat \<Rightarrow> hart \<Rightarrow> 'l machine \<Rightarrow> 'l machine" where
  "set_hart h c m = m\<lparr>harts := (harts m)(h := c)\<rparr>"

definition set_lock :: "'l \<Rightarrow> spinlock \<Rightarrow> 'l machine \<Rightarrow> 'l machine" where
  "set_lock l lk m = m\<lparr>locks := (locks m)(l := lk)\<rparr>"

text \<open>\<open>Blocked\<close>: the loop spins until another hart stores 0 in \<open>lk->locked\<close>.\<close>

definition acquire :: "nat \<Rightarrow> 'l \<Rightarrow> 'l machine \<Rightarrow> 'l machine kres" where
  "acquire h l m =
     (let m = set_hart h (push_off (harts m h)) m in
      if holding h (locks m l) then Panic ''acquire''
      else if locked (locks m l) \<noteq> 0 then Blocked
      else Ok (set_lock l \<lparr>locked = 1, owner = Some h\<rparr> m))"

definition release :: "nat \<Rightarrow> 'l \<Rightarrow> 'l machine \<Rightarrow> 'l machine kres" where
  "release h l m =
     (if \<not> holding h (locks m l) then Panic ''release''
      else let m = set_lock l \<lparr>locked = 0, owner = None\<rparr> m in
           kbind (pop_off (harts m h)) (\<lambda>c. Ok (set_hart h c m)))"

section \<open>acquire and release, step by step\<close>

text \<open>
  Where a hart is: \<open>Run\<close> outside the two routines; \<open>Spin l\<close> in the spin loop of \<open>acquire\<close>;
  \<open>Got l\<close> after its swap returned 0, before \<open>lk->cpu = mycpu()\<close>; \<open>Cleared l\<close> in \<open>release\<close>
  after \<open>lk->cpu = 0\<close>; \<open>Unlocked\<close> after the store that releases the lock, before \<open>pop_off\<close>;
  \<open>Dead\<close> after a panic. \<open>crit h\<close> is the set of locks whose critical section hart \<open>h\<close> is in,
  from the successful swap to the releasing store.
\<close>

datatype 'l lpc = Run | Spin 'l | Got 'l | Cleared 'l | Unlocked | Dead string

record 'l lsys = "'l machine" +
  pcs :: "nat \<Rightarrow> 'l lpc"
  crit :: "nat \<Rightarrow> 'l set"

definition goto :: "nat \<Rightarrow> 'l lpc \<Rightarrow> 'l lsys \<Rightarrow> 'l lsys" where
  "goto h p s = s\<lparr>pcs := (pcs s)(h := p)\<rparr>"

definition store_lock :: "'l \<Rightarrow> spinlock \<Rightarrow> 'l lsys \<Rightarrow> 'l lsys" where
  "store_lock l lk s = s\<lparr>locks := (locks s)(l := lk)\<rparr>"

definition store_hart :: "nat \<Rightarrow> hart \<Rightarrow> 'l lsys \<Rightarrow> 'l lsys" where
  "store_hart h c s = s\<lparr>harts := (harts s)(h := c)\<rparr>"

definition store_crit :: "nat \<Rightarrow> 'l set \<Rightarrow> 'l lsys \<Rightarrow> 'l lsys" where
  "store_crit h c s = s\<lparr>crit := (crit s)(h := c)\<rparr>"

inductive lstep :: "'l lsys \<Rightarrow> 'l lsys \<Rightarrow> bool" where
  enter: "pcs s h = Run \<Longrightarrow> \<not> holding h (locks s l) \<Longrightarrow>
    lstep s (goto h (Spin l) (store_hart h (push_off (harts s h)) s))"
| enter_panic: "pcs s h = Run \<Longrightarrow> holding h (locks s l) \<Longrightarrow>
    lstep s (goto h (Dead ''acquire'') (store_hart h (push_off (harts s h)) s))"
| swap_busy: "pcs s h = Spin l \<Longrightarrow> locked (locks s l) \<noteq> 0 \<Longrightarrow>
    lstep s (store_lock l ((locks s l)\<lparr>locked := 1\<rparr>) s)"
| swap_free: "pcs s h = Spin l \<Longrightarrow> locked (locks s l) = 0 \<Longrightarrow>
    lstep s (goto h (Got l) (store_crit h (insert l (crit s h))
               (store_lock l ((locks s l)\<lparr>locked := 1\<rparr>) s)))"
| set_cpu: "pcs s h = Got l \<Longrightarrow>
    lstep s (goto h Run (store_lock l ((locks s l)\<lparr>owner := Some h\<rparr>) s))"
| clear_cpu: "pcs s h = Run \<Longrightarrow> holding h (locks s l) \<Longrightarrow>
    lstep s (goto h (Cleared l) (store_lock l ((locks s l)\<lparr>owner := None\<rparr>) s))"
| release_panic: "pcs s h = Run \<Longrightarrow> \<not> holding h (locks s l) \<Longrightarrow>
    lstep s (goto h (Dead ''release'') s)"
| unlock: "pcs s h = Cleared l \<Longrightarrow>
    lstep s (goto h Unlocked (store_crit h (crit s h - {l})
               (store_lock l ((locks s l)\<lparr>locked := 0\<rparr>) s)))"
| pop: "pcs s h = Unlocked \<Longrightarrow> pop_off (harts s h) = Ok c \<Longrightarrow>
    lstep s (goto h Run (store_hart h c s))"
| pop_panic: "pcs s h = Unlocked \<Longrightarrow> pop_off (harts s h) = Panic msg \<Longrightarrow>
    lstep s (goto h (Dead msg) s)"
| intr_toggle: "pcs s h = Run \<Longrightarrow> noff (harts s h) = 0 \<Longrightarrow>
    lstep s (store_hart h ((harts s h)\<lparr>sie := b\<rparr>) s)"

definition lsys_init :: "'l lsys" where
  "lsys_init = \<lparr>harts = (\<lambda>_. \<lparr>sie = False, noff = 0, intena = False\<rparr>), locks = (\<lambda>_. initlock),
                pcs = (\<lambda>_. Run), crit = (\<lambda>_. {})\<rparr>"

inductive lreach :: "'l lsys \<Rightarrow> bool" where
  lreach_init: "lreach lsys_init"
| lreach_step: "lreach s \<Longrightarrow> lstep s t \<Longrightarrow> lreach t"

text \<open>How many levels of \<open>push_off\<close> the program counter accounts for.\<close>

fun pc_level :: "'l lpc \<Rightarrow> int" where
  "pc_level (Spin l) = 1"
| "pc_level Unlocked = 1"
| "pc_level _ = 0"

text \<open>
  The inductive invariant: a lock is taken exactly while some hart is in its critical section,
  that hart is unique, \<open>lk->cpu\<close> names it except in the two gaps, and \<open>noff\<close> counts.
\<close>

definition lock_inv :: "'l lsys \<Rightarrow> bool" where
  "lock_inv s \<longleftrightarrow>
     (\<forall>l. locked (locks s l) \<noteq> 0 \<longleftrightarrow> (\<exists>h. l \<in> crit s h))
   \<and> (\<forall>l h h'. l \<in> crit s h \<longrightarrow> l \<in> crit s h' \<longrightarrow> h = h')
   \<and> (\<forall>l h. owner (locks s l) = Some h \<longleftrightarrow>
          l \<in> crit s h \<and> pcs s h \<noteq> Got l \<and> pcs s h \<noteq> Cleared l)
   \<and> (\<forall>l h. pcs s h = Got l \<or> pcs s h = Cleared l \<longrightarrow> l \<in> crit s h)"

definition noff_inv :: "'l lsys \<Rightarrow> bool" where
  "noff_inv s \<longleftrightarrow>
     (\<forall>h. finite (crit s h) \<and> hart_ok (harts s h)
        \<and> ((\<forall>msg. pcs s h \<noteq> Dead msg) \<longrightarrow>
             noff (harts s h) = int (card (crit s h)) + pc_level (pcs s h)))"

lemmas lsys_updates = goto_def store_lock_def store_hart_def store_crit_def

lemma lock_inv_init: "lock_inv lsys_init"
  by (simp add: lock_inv_def lsys_init_def initlock_def)

lemma noff_inv_init: "noff_inv lsys_init"
  by (simp add: noff_inv_def lsys_init_def hart_ok_def)

lemma lock_invD:
  assumes "lock_inv s"
  shows "locked (locks s l) \<noteq> 0 \<longleftrightarrow> (\<exists>h. l \<in> crit s h)"
    and "l \<in> crit s h \<Longrightarrow> l \<in> crit s h' \<Longrightarrow> h = h'"
    and "owner (locks s l) = Some h \<longleftrightarrow> l \<in> crit s h \<and> pcs s h \<noteq> Got l \<and> pcs s h \<noteq> Cleared l"
    and "pcs s h = Got l \<Longrightarrow> l \<in> crit s h" and "pcs s h = Cleared l \<Longrightarrow> l \<in> crit s h"
  using assms unfolding lock_inv_def by blast+

lemma lock_inv_swap_free:
  assumes "lock_inv s" and "pcs s h = Spin l" and "locked (locks s l) = 0"
  shows "lock_inv (goto h (Got l) (store_crit h (insert l (crit s h))
               (store_lock l ((locks s l)\<lparr>locked := 1\<rparr>) s)))"
proof -
  have none: "l \<notin> crit s h'" for h' using lock_invD(1) [OF assms(1), of l] assms(3) by blast
  show ?thesis
    unfolding lock_inv_def lsys_updates
    using none assms lock_invD [OF assms(1)]
    by (auto split: if_splits) metis
qed

lemma lock_inv_unlock:
  assumes "lock_inv s" and "pcs s h = Cleared l"
  shows "lock_inv (goto h Unlocked (store_crit h (crit s h - {l})
               (store_lock l ((locks s l)\<lparr>locked := 0\<rparr>) s)))"
proof -
  have "l \<in> crit s h" using lock_invD(5) [OF assms(1)] assms(2) by blast
  then have none: "l \<notin> crit s h'" if "h' \<noteq> h" for h'
    using lock_invD(2) [OF assms(1)] that by blast
  show ?thesis
    unfolding lock_inv_def lsys_updates
    using none assms lock_invD [OF assms(1)]
    by (auto split: if_splits) metis
qed

lemma lock_inv_set_cpu:
  assumes "lock_inv s" and "pcs s h = Got l"
  shows "lock_inv (goto h Run (store_lock l ((locks s l)\<lparr>owner := Some h\<rparr>) s))"
proof -
  have "l \<in> crit s h" using lock_invD(4) [OF assms(1)] assms(2) by blast
  then have none: "l \<notin> crit s h'" if "h' \<noteq> h" for h'
    using lock_invD(2) [OF assms(1)] that by blast
  show ?thesis
    unfolding lock_inv_def lsys_updates
    using none assms lock_invD [OF assms(1)] \<open>l \<in> crit s h\<close>
    by (auto split: if_splits)
qed

lemma lock_inv_clear_cpu:
  assumes "lock_inv s" and "pcs s h = Run" and "holding h (locks s l)"
  shows "lock_inv (goto h (Cleared l) (store_lock l ((locks s l)\<lparr>owner := None\<rparr>) s))"
proof -
  have "l \<in> crit s h" using lock_invD(3) [OF assms(1)] assms(3) by (auto simp: holding_def)
  then have none: "l \<notin> crit s h'" if "h' \<noteq> h" for h'
    using lock_invD(2) [OF assms(1)] that by blast
  show ?thesis
    unfolding lock_inv_def lsys_updates
    using none assms lock_invD [OF assms(1)] \<open>l \<in> crit s h\<close>
    by (auto split: if_splits)
qed

lemma lstep_lock_inv: "lstep s t \<Longrightarrow> lock_inv s \<Longrightarrow> lock_inv t"
proof (induction rule: lstep.induct)
  case (swap_free s h l)
  then show ?case by (blast intro: lock_inv_swap_free)
next
  case (unlock s h l)
  then show ?case by (blast intro: lock_inv_unlock)
next
  case (set_cpu s h l)
  then show ?case by (blast intro: lock_inv_set_cpu)
next
  case (clear_cpu s h l)
  then show ?case by (blast intro: lock_inv_clear_cpu)
qed (auto simp: lock_inv_def lsys_updates)

lemma card_delete_int: "finite A \<Longrightarrow> x \<in> A \<Longrightarrow> int (card (A - {x})) + 1 = int (card A)"
  using card_Suc_Diff1 [of A x] by linarith

lemma noff_invD:
  assumes "noff_inv s"
  shows "finite (crit s h)" and "hart_ok (harts s h)"
    and "(\<And>msg. pcs s h \<noteq> Dead msg) \<Longrightarrow>
       noff (harts s h) = int (card (crit s h)) + pc_level (pcs s h)"
  using assms unfolding noff_inv_def by blast+

lemma lstep_noff_inv: "lstep s t \<Longrightarrow> lock_inv s \<Longrightarrow> noff_inv s \<Longrightarrow> noff_inv t"
proof (induction rule: lstep.induct)
  case (enter s h l)
  then show ?case
    by (auto simp: noff_inv_def lsys_updates push_off_ok)
next
  case (enter_panic s h l)
  then show ?case
    by (auto simp: noff_inv_def lsys_updates push_off_ok)
next
  case (swap_free s h l)
  have "l \<notin> crit s h" using lock_invD(1) [OF swap_free(3), of l] swap_free(2) by blast
  with swap_free show ?case
    by (auto simp: noff_inv_def lsys_updates)
next
  case (set_cpu s h l)
  then show ?case by (auto simp: noff_inv_def lsys_updates)
next
  case (clear_cpu s h l)
  then show ?case by (auto simp: noff_inv_def lsys_updates)
next
  case (unlock s h l)
  have "l \<in> crit s h" using lock_invD(5) [OF unlock(2)] unlock(1) by blast
  with unlock show ?case
    using noff_invD [OF unlock(3), of h] card_delete_int [of "crit s h" l]
    by (auto simp: noff_inv_def lsys_updates simp del: card_Diff_insert)
next
  case (pop s h c)
  have "noff (harts s h) = int (card (crit s h)) + 1"
    using noff_invD(3) [OF pop(4), of h] pop(1) by simp
  then have "noff c = noff (harts s h) - 1" "hart_ok c"
    using pop_off_Ok [OF noff_invD(2) [OF pop(4), of h]] pop(2) by auto
  with pop \<open>noff (harts s h) = _\<close> show ?case
    by (auto simp: noff_inv_def lsys_updates)
next
  case (intr_toggle s h b)
  then show ?case
    by (auto simp: noff_inv_def lsys_updates hart_ok_def)
qed (auto simp: noff_inv_def lsys_updates)

lemma lreach_inv: "lreach s \<Longrightarrow> lock_inv s \<and> noff_inv s"
proof (induction rule: lreach.induct)
  case lreach_init
  show ?case by (simp add: lock_inv_init noff_inv_init)
next
  case (lreach_step s t)
  then show ?case by (blast intro: lstep_lock_inv lstep_noff_inv)
qed

text \<open>C8: In every reachable state at most one hart is in the critical section of a lock, and
  a hart that is in one has its interrupts off.\<close>

theorem spinlock_mutual_exclusion:
  assumes "lreach s" and "l \<in> crit s h"
  shows "(l \<in> crit s h' \<longrightarrow> h' = h) \<and> locked (locks s l) \<noteq> 0
       \<and> ((\<forall>msg. pcs s h \<noteq> Dead msg) \<longrightarrow> \<not> sie (harts s h))"
proof -
  have i: "lock_inv s" "noff_inv s" using lreach_inv [OF assms(1)] by auto
  have "0 < card (crit s h)"
    using assms(2) noff_invD(1) [OF i(2)] card_gt_0_iff by blast
  then have "\<not> sie (harts s h)" if "\<forall>msg. pcs s h \<noteq> Dead msg"
    using noff_invD(2,3) [OF i(2), of h] that
    by (cases "pcs s h") (auto simp: hart_ok_def)
  then show ?thesis
    using lock_invD(1,2) [OF i(1)] assms(2) by blast
qed

lemma lreach_example:
  "lreach (goto 0 (Got (7::nat)) (store_crit 0 {7} (store_lock 7 \<lparr>locked = 1, owner = None\<rparr>
     (goto 0 (Spin 7) (store_hart 0 \<lparr>sie = False, noff = 1, intena = False\<rparr> lsys_init)))))"
proof -
  let ?s1 = "goto 0 (Spin (7::nat)) (store_hart 0 (push_off (harts (lsys_init :: nat lsys) 0)) (lsys_init :: nat lsys))"
  have "lreach ?s1"
    by (rule lreach_step [OF lreach_init], rule lstep.enter)
      (simp_all add: lsys_init_def holding_def initlock_def)
  then have "lreach (goto 0 (Got 7) (store_crit 0 (insert 7 (crit ?s1 0))
      (store_lock 7 ((locks ?s1 7)\<lparr>locked := 1\<rparr>) ?s1)))"
    by (rule lreach_step, intro lstep.swap_free)
      (simp_all add: lsys_updates lsys_init_def initlock_def)
  then show ?thesis
    by (simp add: lsys_updates lsys_init_def initlock_def push_off_def Let_def)
qed

lemma spinlock_mutual_exclusion_witness:
  "\<exists>s :: nat lsys. 7 \<in> crit s 0 \<and> (\<forall>h'. 7 \<in> crit s h' \<longleftrightarrow> h' = 0) \<and> locked (locks s 7) \<noteq> 0 \<and> \<not> sie (harts s 0)"
proof -
  let ?s = "goto 0 (Got (7::nat)) (store_crit 0 {7} (store_lock 7 \<lparr>locked = 1, owner = None\<rparr>
     (goto 0 (Spin 7) (store_hart 0 \<lparr>sie = False, noff = 1, intena = False\<rparr> lsys_init))))"
  have c: "7 \<in> crit ?s 0" and p: "\<forall>msg. pcs ?s 0 \<noteq> Dead msg" by (simp_all add: lsys_updates)
  note t = spinlock_mutual_exclusion [OF lreach_example c]
  have "\<forall>h'. 7 \<in> crit ?s h' \<longleftrightarrow> h' = 0" using t c by blast
  moreover have "locked (locks ?s 7) \<noteq> 0" "\<not> sie (harts ?s 0)" using t p by blast+
  ultimately show ?thesis using c by blast
qed

text \<open>C9: A hart outside \<open>acquire\<close> and \<open>release\<close> is told the truth by \<open>holding\<close>: it answers 1
  exactly when the hart is in the lock's critical section. So \<open>acquire\<close> panics exactly on a
  second acquisition by the same hart, \<open>release\<close> exactly on a lock the hart does not have, and
  the \<open>pop_off\<close> inside \<open>release\<close> never panics.\<close>

theorem holding_is_exact:
  assumes "lreach s"
  shows "(pcs s h = Run \<longrightarrow> (holding h (locks s l) \<longleftrightarrow> l \<in> crit s h))
       \<and> (pcs s h = Unlocked \<longrightarrow> (\<exists>c. pop_off (harts s h) = Ok c))"
proof -
  have i: "lock_inv s" "noff_inv s" using lreach_inv [OF assms(1)] by auto
  have "holding h (locks s l) \<longleftrightarrow> l \<in> crit s h" if "pcs s h = Run"
    using lock_invD(1,3) [OF i(1)] that by (auto simp: holding_def)
  moreover have "\<exists>c. pop_off (harts s h) = Ok c" if "pcs s h = Unlocked"
    using noff_invD(2,3) [OF i(2), of h] that pop_off_Ok [of "harts s h"] by auto
  ultimately show ?thesis by blast
qed

lemma holding_is_exact_witness:
  "\<not> holding 0 (locks (lsys_init :: nat lsys) 3) \<and> 3 \<notin> crit (lsys_init :: nat lsys) 0"
  using holding_is_exact [OF lreach_init, of 0 "3 :: nat"] by (simp add: lsys_init_def)

text \<open>The undisturbed calls are runs of the step relation.\<close>

lemma acquire_is_run:
  assumes "pcs s h = Run" and "acquire h l (machine.truncate s) = Ok m"
  shows "\<exists>s'. lstep\<^sup>*\<^sup>* s s' \<and> machine.truncate s' = m \<and> pcs s' = pcs s
            \<and> crit s' = (crit s)(h := insert l (crit s h))"
proof -
  let ?s1 = "goto h (Spin l) (store_hart h (push_off (harts s h)) s)"
  let ?s2 = "goto h (Got l) (store_crit h (insert l (crit ?s1 h))
               (store_lock l ((locks ?s1 l)\<lparr>locked := 1\<rparr>) ?s1))"
  let ?s3 = "goto h Run (store_lock l ((locks ?s2 l)\<lparr>owner := Some h\<rparr>) ?s2)"
  have a: "\<not> holding h (locks s l)" "locked (locks s l) = 0"
    "m = set_lock l \<lparr>locked = 1, owner = Some h\<rparr>
           (set_hart h (push_off (harts s h)) (machine.truncate s))"
    using assms(2) by (auto simp: acquire_def Let_def set_hart_def machine.truncate_def split: if_splits)
  have "lstep s ?s1" using assms(1) a(1) by (rule lstep.enter)
  moreover have "lstep ?s1 ?s2"
    by (rule lstep.swap_free) (simp_all add: lsys_updates a)
  moreover have "lstep ?s2 ?s3"
    by (rule lstep.set_cpu) (simp add: lsys_updates)
  ultimately have "lstep\<^sup>*\<^sup>* s ?s3" by (rule three_steps)
  moreover have "machine.truncate ?s3 = m"
    by (cases "locks s l") (simp add: a(3) lsys_updates set_lock_def set_hart_def machine.truncate_def fun_eq_iff)
  moreover have "pcs ?s3 = pcs s" "crit ?s3 = (crit s)(h := insert l (crit s h))"
    using assms(1) by (auto simp: lsys_updates)
  ultimately show ?thesis by blast
qed

lemma release_is_run:
  assumes "pcs s h = Run" and "release h l (machine.truncate s) = Ok m"
  shows "\<exists>s'. lstep\<^sup>*\<^sup>* s s' \<and> machine.truncate s' = m \<and> pcs s' = pcs s
            \<and> crit s' = (crit s)(h := crit s h - {l})"
proof -
  let ?s1 = "goto h (Cleared l) (store_lock l ((locks s l)\<lparr>owner := None\<rparr>) s)"
  let ?s2 = "goto h Unlocked (store_crit h (crit ?s1 h - {l})
               (store_lock l ((locks ?s1 l)\<lparr>locked := 0\<rparr>) ?s1))"
  obtain c where a: "holding h (locks s l)" "pop_off (harts s h) = Ok c"
    "m = set_hart h c (set_lock l \<lparr>locked = 0, owner = None\<rparr> (machine.truncate s))"
    using assms(2)
    by (auto simp: release_def Let_def set_lock_def machine.truncate_def kbind_eq_Ok split: if_splits)
  let ?s3 = "goto h Run (store_hart h c ?s2)"
  have "lstep s ?s1" using assms(1) a(1) by (rule lstep.clear_cpu)
  moreover have "lstep ?s1 ?s2"
    by (rule lstep.unlock) (simp add: lsys_updates)
  moreover have "lstep ?s2 ?s3"
    by (rule lstep.pop) (simp_all add: lsys_updates a)
  ultimately have "lstep\<^sup>*\<^sup>* s ?s3" by (rule three_steps)
  moreover have "machine.truncate ?s3 = m"
    by (cases "locks s l") (simp add: a(3) lsys_updates set_lock_def set_hart_def machine.truncate_def fun_eq_iff)
  moreover have "pcs ?s3 = pcs s" "crit ?s3 = (crit s)(h := crit s h - {l})"
    using assms(1) by (auto simp: lsys_updates)
  ultimately show ?thesis by blast
qed

section \<open>Sleep locks\<close>

text \<open>
  Sleep locks of kernel/sleeplock.c, for the process \<open>pid\<close>. Their short critical sections are
  atomic here; \<open>Blocked\<close> stands for the \<open>sleep\<close> in \<open>acquiresleep\<close>, which lasts until another
  process calls \<open>releasesleep\<close>.
\<close>

record sleeplock =
  sl_locked :: u32
  sl_pid :: int

definition initsleeplock :: sleeplock where
  "initsleeplock = \<lparr>sl_locked = 0, sl_pid = 0\<rparr>"

definition acquiresleep :: "int \<Rightarrow> sleeplock \<Rightarrow> sleeplock kres" where
  "acquiresleep pid lk =
     (if sl_locked lk \<noteq> 0 then Blocked else Ok (lk\<lparr>sl_locked := 1, sl_pid := pid\<rparr>))"

definition releasesleep :: "sleeplock \<Rightarrow> sleeplock" where
  "releasesleep lk = lk\<lparr>sl_locked := 0, sl_pid := 0\<rparr>"

definition holdingsleep :: "int \<Rightarrow> sleeplock \<Rightarrow> bool" where
  "holdingsleep pid lk \<longleftrightarrow> sl_locked lk \<noteq> 0 \<and> sl_pid lk = pid"

lemmas sleeplock_defs = initsleeplock_def acquiresleep_def releasesleep_def holdingsleep_def

lemma acquiresleep_holds: "acquiresleep pid lk = Ok lk' \<Longrightarrow> holdingsleep pid lk'"
  by (auto simp: sleeplock_defs split: if_splits)

lemma releasesleep_free: "\<not> holdingsleep pid (releasesleep lk)"
  by (simp add: sleeplock_defs)

end
