(* ===== verification/Bytes.thy ===== *)
theory Bytes imports XV6_Prelude begin

unbundle bit_operations_syntax

text \<open>
  Little-endian integers inside byte arrays. The kernel overlays C structures on disk blocks
  and user memory (\<open>(struct logheader *) buf->data\<close>, \<open>(struct dinode *) bp->data + k\<close>, \<open>(uint *)
  bp->data\<close>); on RISC-V their fields are little endian and, for these structures, unpadded.
  \<open>get16\<close>, \<open>get32\<close> read such a field at a byte offset and \<open>set16\<close>, \<open>set32\<close> store it; the
  lemmas give the round trips and the frame of a store.
\<close>

definition bytes16 :: "u16 \<Rightarrow> u8 list" where
  "bytes16 w = [ucast w, ucast (drop_bit 8 w)]"

definition bytes32 :: "u32 \<Rightarrow> u8 list" where
  "bytes32 w = [ucast w, ucast (drop_bit 8 w), ucast (drop_bit 16 w), ucast (drop_bit 24 w)]"

definition put_bytes :: "u8 list \<Rightarrow> nat \<Rightarrow> u8 list \<Rightarrow> u8 list" where
  "put_bytes d off bs = take off d @ bs @ drop (off + length bs) d"

definition get_bytes :: "u8 list \<Rightarrow> nat \<Rightarrow> nat \<Rightarrow> u8 list" where
  "get_bytes d off n = take n (drop off d)"

definition get16 :: "u8 list \<Rightarrow> nat \<Rightarrow> u16" where
  "get16 d off = ucast (d ! off) OR push_bit 8 (ucast (d ! (off + 1)))"

definition set16 :: "u8 list \<Rightarrow> nat \<Rightarrow> u16 \<Rightarrow> u8 list" where
  "set16 d off w = put_bytes d off (bytes16 w)"

definition get32 :: "u8 list \<Rightarrow> nat \<Rightarrow> u32" where
  "get32 d off = ucast (d ! off) OR push_bit 8 (ucast (d ! (off + 1)))
     OR push_bit 16 (ucast (d ! (off + 2))) OR push_bit 24 (ucast (d ! (off + 3)))"

definition set32 :: "u8 list \<Rightarrow> nat \<Rightarrow> u32 \<Rightarrow> u8 list" where
  "set32 d off w = put_bytes d off (bytes32 w)"

lemma length_bytes [simp]: "length (bytes16 w) = 2" "length (bytes32 v) = 4"
  by (simp_all add: bytes16_def bytes32_def)

lemma length_put_bytes [simp]:
  "off + length bs \<le> length d \<Longrightarrow> length (put_bytes d off bs) = length d"
  by (simp add: put_bytes_def)

lemma length_set32 [simp]: "off + 4 \<le> length d \<Longrightarrow> length (set32 d off w) = length d"
  by (simp add: set32_def)

lemma length_set16 [simp]: "off + 2 \<le> length d \<Longrightarrow> length (set16 d off w) = length d"
  by (simp add: set16_def)

lemma nth_put_bytes:
  assumes "off + length bs \<le> length d" and "i < length d"
  shows "put_bytes d off bs ! i
         = (if off \<le> i \<and> i < off + length bs then bs ! (i - off) else d ! i)"
  using assms by (auto simp: put_bytes_def nth_append min_def)

lemma get_put_bytes:
  assumes "off + length bs \<le> length d"
  shows "get_bytes (put_bytes d off bs) off (length bs) = bs"
  using assms by (simp add: get_bytes_def put_bytes_def)

lemma join32: "ucast (ucast w :: u8) OR push_bit 8 (ucast (ucast (drop_bit 8 w) :: u8))
     OR push_bit 16 (ucast (ucast (drop_bit 16 w) :: u8))
     OR push_bit 24 (ucast (ucast (drop_bit 24 w) :: u8)) = (w :: u32)"
proof (rule bit_word_eqI)
  fix n :: nat
  consider "n < 8" | "8 \<le> n" "n < 16" | "16 \<le> n" "n < 24" | "24 \<le> n" by linarith
  then show "bit (ucast (ucast w :: u8) OR push_bit 8 (ucast (ucast (drop_bit 8 w) :: u8))
      OR push_bit 16 (ucast (ucast (drop_bit 16 w) :: u8))
      OR push_bit 24 (ucast (ucast (drop_bit 24 w) :: u8)) :: u32) n = bit w n"
    if "n < LENGTH(32)"
    using that by cases (auto simp: bit_simps)
qed

lemma join16: "ucast (ucast w :: u8) OR push_bit 8 (ucast (ucast (drop_bit 8 w) :: u8)) = (w :: u16)"
  by (rule bit_word_eqI) (auto simp: bit_simps)

lemma get32_set32 [simp]:
  assumes "off + 4 \<le> length d"
  shows "get32 (set32 d off w) off = w"
  using assms
  by (simp add: get32_def set32_def nth_put_bytes) (simp add: bytes32_def join32)

lemma get32_set32_start [simp]: "get32 (set32 d 0 w) 0 = w"
  by (simp add: get32_def set32_def put_bytes_def bytes32_def join32)

lemma get32_set32_other:
  assumes "off + 4 \<le> length d" and "off' + 4 \<le> length d" and "off + 4 \<le> off' \<or> off' + 4 \<le> off"
  shows "get32 (set32 d off w) off' = get32 d off'"
  using assms by (auto simp: get32_def set32_def nth_put_bytes)

lemma get16_set16 [simp]:
  assumes "off + 2 \<le> length d"
  shows "get16 (set16 d off w) off = w"
  using assms
  by (simp add: get16_def set16_def nth_put_bytes) (simp add: bytes16_def join16)

lemma get16_set16_other:
  assumes "off + 2 \<le> length d" and "off' + 2 \<le> length d" and "off + 2 \<le> off' \<or> off' + 2 \<le> off"
  shows "get16 (set16 d off w) off' = get16 d off'"
  using assms by (auto simp: get16_def set16_def nth_put_bytes)

end
