(* ===== verification/BufferCache.thy ===== *)
theory BufferCache imports DLink Locks Bytes begin

text \<open>
  The buffer cache, kernel/bio.c: \<open>binit\<close>, \<open>bget\<close>, \<open>bread\<close>, \<open>bwrite\<close>, \<open>brelse\<close>, \<open>bpin\<close> and
  \<open>bunpin\<close> over an array of \<open>NBUF\<close> buffers threaded on a doubly linked LRU list whose head is
  node \<open>NBUF\<close>. \<open>me\<close> is \<open>myproc()->pid\<close>. \<open>bcache.lock\<close> makes each list traversal atomic and is
  not part of the state; the per-buffer sleep locks are.

  The disk is behind \<open>virtio_disk_rw\<close>, which returns when the device has finished: it copies
  one block in or out, ignoring \<open>b->dev\<close> as the driver does. \<open>bhist\<close> is a history variable: the
  block writes the device has carried out, oldest first; the crash theorems of the log are
  about its prefixes.

  The operations are packed in a \<open>blk_ops\<close> record, the interface the log is written against,
  and the locale \<open>block_io\<close> states its contract: in terms of the contents \<open>view\<close> a process sees,
  the contents \<open>dsk\<close> on disk, which blocks are \<open>busy\<close> (locked), how often each is \<open>pins\<close>-ned, and
  how much \<open>room\<close> there is for blocks not in the cache. It is interpreted here on the cache.
\<close>

section \<open>State\<close>

abbreviation BSIZE :: nat where "BSIZE \<equiv> 1024"
abbreviation NBUF :: nat where "NBUF \<equiv> 30"
abbreviation BHEAD :: nat where "BHEAD \<equiv> 30"   \<comment> \<open>\<open>&bcache.head\<close>\<close>

type_synonym block = "u8 list"

record buf =
  b_valid :: int
  b_dev :: u32
  b_blockno :: u32
  b_lock :: sleeplock
  b_refcnt :: u32
  b_data :: block

record bcache =
  bufs :: "buf list"
  b_next :: "nat \<Rightarrow> nat"
  b_prev :: "nat \<Rightarrow> nat"
  bdisk :: "u32 \<Rightarrow> block"
  bhist :: "(u32 \<times> block) list"

definition upd_buf :: "nat \<Rightarrow> (buf \<Rightarrow> buf) \<Rightarrow> bcache \<Rightarrow> bcache" where
  "upd_buf b f bc = bc\<lparr>bufs := (bufs bc)[b := f (bufs bc ! b)]\<rparr>"

definition virtio_disk_rw :: "nat \<Rightarrow> bool \<Rightarrow> bcache \<Rightarrow> bcache" where
  "virtio_disk_rw b wr bc =
     (let x = bufs bc ! b in
      if wr then bc\<lparr>bdisk := (bdisk bc)(b_blockno x := b_data x),
                    bhist := bhist bc @ [(b_blockno x, b_data x)]\<rparr>
      else upd_buf b (\<lambda>x. x\<lparr>b_data := bdisk bc (b_blockno x)\<rparr>) bc)"

section \<open>Operations\<close>

text \<open>The pointer updates that put \<open>b\<close> at the front of the list, and that take it out.\<close>

definition link_front :: "nat \<Rightarrow> bcache \<Rightarrow> bcache" where
  "link_front b bc =
     bc\<lparr>b_next := ((b_next bc)(b := b_next bc BHEAD))(BHEAD := b),
        b_prev := ((b_prev bc)(b := BHEAD))(b_next bc BHEAD := b)\<rparr>"

definition unlink :: "nat \<Rightarrow> bcache \<Rightarrow> bcache" where
  "unlink b bc =
     bc\<lparr>b_prev := (b_prev bc)(b_next bc b := b_prev bc b),
        b_next := (b_next bc)(b_prev bc b := b_next bc b)\<rparr>"

definition binit :: "bcache \<Rightarrow> bcache" where
  "binit bc =
     fold (\<lambda>b bc. link_front b (upd_buf b (\<lambda>x. x\<lparr>b_lock := initsleeplock\<rparr>) bc)) [0..<NBUF]
       (bc\<lparr>b_prev := (b_prev bc)(BHEAD := BHEAD), b_next := (b_next bc)(BHEAD := BHEAD)\<rparr>)"

definition lock_buf :: "int \<Rightarrow> nat \<Rightarrow> bcache \<Rightarrow> (nat \<times> bcache) kres" where
  "lock_buf me b bc =
     kbind (acquiresleep me (b_lock (bufs bc ! b)))
       (\<lambda>lk. Ok (b, upd_buf b (\<lambda>x. x\<lparr>b_lock := lk\<rparr>) bc))"

definition bget :: "int \<Rightarrow> u32 \<Rightarrow> u32 \<Rightarrow> bcache \<Rightarrow> (nat \<times> bcache) kres" where
  "bget me dev blockno bc =
     kbind (scan (b_next bc) BHEAD
              (\<lambda>b. b_dev (bufs bc ! b) = dev \<and> b_blockno (bufs bc ! b) = blockno)
              (Suc NBUF) (b_next bc BHEAD)) (\<lambda>hit.
     case hit of
       Some b \<Rightarrow> lock_buf me b (upd_buf b (\<lambda>x. x\<lparr>b_refcnt := b_refcnt x + 1\<rparr>) bc)
     | None \<Rightarrow>
         kbind (scan (b_prev bc) BHEAD (\<lambda>b. b_refcnt (bufs bc ! b) = 0)
                  (Suc NBUF) (b_prev bc BHEAD)) (\<lambda>lru.
         case lru of
           Some b \<Rightarrow> lock_buf me b (upd_buf b (\<lambda>x. x\<lparr>b_dev := dev, b_blockno := blockno,
                                                     b_valid := 0, b_refcnt := 1\<rparr>) bc)
         | None \<Rightarrow> Panic ''bget: no buffers''))"

definition bread :: "int \<Rightarrow> u32 \<Rightarrow> u32 \<Rightarrow> bcache \<Rightarrow> (nat \<times> bcache) kres" where
  "bread me dev blockno bc =
     kbind (bget me dev blockno bc) (\<lambda>(b, bc).
       if b_valid (bufs bc ! b) = 0
       then Ok (b, upd_buf b (\<lambda>x. x\<lparr>b_valid := 1\<rparr>) (virtio_disk_rw b False bc))
       else Ok (b, bc))"

definition bwrite :: "int \<Rightarrow> nat \<Rightarrow> bcache \<Rightarrow> bcache kres" where
  "bwrite me b bc =
     (if \<not> holdingsleep me (b_lock (bufs bc ! b)) then Panic ''bwrite''
      else Ok (virtio_disk_rw b True bc))"

definition brelse :: "int \<Rightarrow> nat \<Rightarrow> bcache \<Rightarrow> bcache kres" where
  "brelse me b bc =
     (if \<not> holdingsleep me (b_lock (bufs bc ! b)) then Panic ''brelse''
      else let bc = upd_buf b (\<lambda>x. x\<lparr>b_lock := releasesleep (b_lock x)\<rparr>) bc;
               bc = upd_buf b (\<lambda>x. x\<lparr>b_refcnt := b_refcnt x - 1\<rparr>) bc
           in Ok (if b_refcnt (bufs bc ! b) = 0 then link_front b (unlink b bc) else bc))"

definition bpin :: "nat \<Rightarrow> bcache \<Rightarrow> bcache" where
  "bpin b bc = upd_buf b (\<lambda>x. x\<lparr>b_refcnt := b_refcnt x + 1\<rparr>) bc"

definition bunpin :: "nat \<Rightarrow> bcache \<Rightarrow> bcache" where
  "bunpin b bc = upd_buf b (\<lambda>x. x\<lparr>b_refcnt := b_refcnt x - 1\<rparr>) bc"

text \<open>Access to the data of a locked buffer: \<open>b->data\<close> and stores into it.\<close>

definition buf_data :: "nat \<Rightarrow> bcache \<Rightarrow> block" where
  "buf_data b bc = b_data (bufs bc ! b)"

definition buf_store :: "nat \<Rightarrow> block \<Rightarrow> bcache \<Rightarrow> bcache" where
  "buf_store b d bc = upd_buf b (\<lambda>x. x\<lparr>b_data := d\<rparr>) bc"

section \<open>Invariant\<close>

text \<open>The LRU list.\<close>

definition lru_inv :: "bcache \<Rightarrow> bool" where
  "lru_inv bc \<longleftrightarrow> (\<exists>xs. dll (b_next bc) (b_prev bc) BHEAD xs \<and> set xs = {..<NBUF})"

definition buf_ok :: "u32 \<Rightarrow> (u32 \<Rightarrow> block) \<Rightarrow> buf \<Rightarrow> bool" where
  "buf_ok d dk x \<longleftrightarrow> length (b_data x) = BSIZE
     \<and> (b_dev x = d \<longrightarrow> b_valid x \<noteq> 0)
     \<and> (b_dev x \<noteq> d \<longrightarrow> b_refcnt x = 0)
     \<and> (sl_locked (b_lock x) \<noteq> 0 \<longrightarrow> b_refcnt x \<noteq> 0)
     \<and> (b_dev x = d \<longrightarrow> b_refcnt x = 0 \<longrightarrow> b_data x = dk (b_blockno x))"

text \<open>
  Between operations, on a machine whose only device is \<open>d\<close>: no two buffers cache the same
  block, and a buffer nobody references agrees with the disk.
\<close>

definition bc_inv :: "u32 \<Rightarrow> bcache \<Rightarrow> bool" where
  "bc_inv d bc \<longleftrightarrow> lru_inv bc \<and> length (bufs bc) = NBUF
     \<and> (\<forall>i < NBUF. buf_ok d (bdisk bc) (bufs bc ! i))
     \<and> (\<forall>i < NBUF. \<forall>j < NBUF. b_dev (bufs bc ! i) = d \<longrightarrow> b_dev (bufs bc ! j) = d
          \<longrightarrow> b_blockno (bufs bc ! i) = b_blockno (bufs bc ! j) \<longrightarrow> i = j)
     \<and> (\<forall>b. length (bdisk bc b) = BSIZE)"

definition slot :: "u32 \<Rightarrow> bcache \<Rightarrow> u32 \<Rightarrow> nat option" where
  "slot d bc b = find (\<lambda>i. b_dev (bufs bc ! i) = d \<and> b_blockno (bufs bc ! i) = b) [0..<NBUF]"

definition view :: "u32 \<Rightarrow> bcache \<Rightarrow> u32 \<Rightarrow> block" where
  "view d bc b = (case slot d bc b of Some i \<Rightarrow> b_data (bufs bc ! i) | None \<Rightarrow> bdisk bc b)"

definition busy :: "u32 \<Rightarrow> bcache \<Rightarrow> u32 \<Rightarrow> bool" where
  "busy d bc b = (case slot d bc b of Some i \<Rightarrow> sl_locked (b_lock (bufs bc ! i)) \<noteq> 0 | None \<Rightarrow> False)"

definition pins :: "u32 \<Rightarrow> bcache \<Rightarrow> u32 \<Rightarrow> nat" where
  "pins d bc b =
     (case slot d bc b of
        Some i \<Rightarrow> unat (b_refcnt (bufs bc ! i)) - (if sl_locked (b_lock (bufs bc ! i)) \<noteq> 0 then 1 else 0)
      | None \<Rightarrow> 0)"

definition held :: "int \<Rightarrow> u32 \<Rightarrow> bcache \<Rightarrow> nat \<Rightarrow> u32 option" where
  "held me d bc h =
     (if h < NBUF \<and> holdingsleep me (b_lock (bufs bc ! h)) \<and> b_dev (bufs bc ! h) = d
      then Some (b_blockno (bufs bc ! h)) else None)"

definition room :: "bcache \<Rightarrow> nat" where
  "room bc = card {i. i < NBUF \<and> b_refcnt (bufs bc ! i) = 0}"

lemma find_upt_unique:
  assumes "i < n" and "P i" and "\<And>j. j < n \<Longrightarrow> P j \<Longrightarrow> j = i"
  shows "find P [0..<n] = Some i"
proof -
  have "\<not> P j" if "j < i" for j using assms(3) [of j] assms(1) that by auto
  with assms(1,2) show ?thesis by (auto simp: find_Some_iff)
qed

lemma bc_invD:
  assumes "bc_inv d bc"
  shows "lru_inv bc" and "length (bufs bc) = NBUF"
    and "i < NBUF \<Longrightarrow> buf_ok d (bdisk bc) (bufs bc ! i)"
    and "i < NBUF \<Longrightarrow> j < NBUF \<Longrightarrow> b_dev (bufs bc ! i) = d \<Longrightarrow> b_dev (bufs bc ! j) = d
          \<Longrightarrow> b_blockno (bufs bc ! i) = b_blockno (bufs bc ! j) \<Longrightarrow> i = j"
    and "length (bdisk bc b) = BSIZE"
  using assms unfolding bc_inv_def by blast+

lemma slot_Some:
  assumes "slot d bc b = Some i"
  shows "i < NBUF" and "b_dev (bufs bc ! i) = d" and "b_blockno (bufs bc ! i) = b"
  using assms [unfolded slot_def find_upt_Some] by auto

lemma slot_I:
  assumes "bc_inv d bc" and "i < NBUF" and "b_dev (bufs bc ! i) = d"
  shows "slot d bc (b_blockno (bufs bc ! i)) = Some i"
  unfolding slot_def using assms bc_invD(4) [OF assms(1)]
  by (intro find_upt_unique) auto

lemma slot_None:
  "slot d bc b = None \<longleftrightarrow> (\<forall>i < NBUF. \<not> (b_dev (bufs bc ! i) = d \<and> b_blockno (bufs bc ! i) = b))"
  unfolding slot_def by (auto simp: find_None_iff)

lemma held_Some:
  assumes "held me d bc h = Some b"
  shows "h < NBUF" and "holdingsleep me (b_lock (bufs bc ! h))" and "b_dev (bufs bc ! h) = d"
    and "b_blockno (bufs bc ! h) = b"
  using assms by (auto simp: held_def split: if_splits)

lemma held_slot: "bc_inv d bc \<Longrightarrow> held me d bc h = Some b \<Longrightarrow> slot d bc b = Some h"
  using held_Some [of me d bc h b] slot_I [of d bc h] by auto

section \<open>Replacing one buffer\<close>

lemma upd_buf_simps [simp]:
  "b_next (upd_buf b f bc) = b_next bc" "b_prev (upd_buf b f bc) = b_prev bc"
  "bdisk (upd_buf b f bc) = bdisk bc" "bhist (upd_buf b f bc) = bhist bc"
  "length (bufs (upd_buf b f bc)) = length (bufs bc)"
  "lru_inv (upd_buf b f bc) = lru_inv bc"
  by (simp_all add: upd_buf_def lru_inv_def)

lemma upd_buf_twice: "upd_buf b g (upd_buf b f bc) = upd_buf b (g \<circ> f) bc" if "b < length (bufs bc)"
  using that by (simp add: upd_buf_def)

lemma room_update:
  assumes "length (bufs bc) = NBUF" and "bufs bc' = (bufs bc)[h := x']" and "h < NBUF"
  shows "room bc' + (if b_refcnt (bufs bc ! h) = 0 then 1 else 0)
         = room bc + (if b_refcnt x' = 0 then 1 else 0)"
proof -
  let ?R = "{i. i < NBUF \<and> i \<noteq> h \<and> b_refcnt (bufs bc ! i) = 0}"
  have f: "finite ?R" and nin: "h \<notin> ?R" by auto
  have a: "{i. i < NBUF \<and> b_refcnt (bufs bc ! i) = 0}
      = (if b_refcnt (bufs bc ! h) = 0 then insert h ?R else ?R)"
    using assms(3) by auto
  have b: "{i. i < NBUF \<and> b_refcnt (bufs bc' ! i) = 0}
      = (if b_refcnt x' = 0 then insert h ?R else ?R)"
    using assms by (auto simp: nth_list_update)
  show ?thesis
    unfolding room_def a b using card_insert_disjoint [OF f nin] by simp
qed

lemma slot_update:
  assumes "length (bufs bc) = NBUF" and "bufs bc' = (bufs bc)[h := x']"
    and "b_dev x' = b_dev (bufs bc ! h)" and "b_blockno x' = b_blockno (bufs bc ! h)"
  shows "slot d bc' = slot d bc"
proof -
  have "b_dev (bufs bc' ! i) = b_dev (bufs bc ! i)" "b_blockno (bufs bc' ! i) = b_blockno (bufs bc ! i)"
    if "i < NBUF" for i
    by (cases "i = h"; use that assms in auto)+
  then have "slot d bc' b = slot d bc b" for b
    unfolding slot_def by (intro find_cong) auto
  then show ?thesis by (rule ext)
qed

text \<open>The abstract state after one buffer that caches block \<open>b\<close> was replaced.\<close>

lemma abs_update:
  assumes inv: "bc_inv d bc" and h: "h < NBUF" "b_dev (bufs bc ! h) = d"
    and b: "b_blockno (bufs bc ! h) = b"
    and bc': "bufs bc' = (bufs bc)[h := x']" "b_dev x' = d" "b_blockno x' = b"
    and dk: "\<And>c. c \<noteq> b \<Longrightarrow> bdisk bc' c = bdisk bc c"
  shows "view d bc' = (view d bc)(b := b_data x')"
    and "busy d bc' = (busy d bc)(b := sl_locked (b_lock x') \<noteq> 0)"
    and "pins d bc' = (pins d bc)(b := unat (b_refcnt x') - (if sl_locked (b_lock x') \<noteq> 0 then 1 else 0))"
    and "held me d bc' = (held me d bc)(h := if holdingsleep me (b_lock x') then Some b else None)"
proof -
  note len = bc_invD(2) [OF inv]
  have sl: "slot d bc' = slot d bc"
    using slot_update [OF len bc'(1)] bc' h b by simp
  have sb: "slot d bc b = Some h" using slot_I [OF inv h] b by simp
  have other: "i \<noteq> h" if "slot d bc c = Some i" "c \<noteq> b" for c i
    using slot_Some [OF that(1)] that(2) b by auto
  have get: "bufs bc' ! i = (if i = h then x' else bufs bc ! i)" if "i < NBUF" for i
    using that bc'(1) len by (simp add: nth_list_update)
  have lt: "i < NBUF" if "slot d bc c = Some i" for c i using slot_Some(1) [OF that] .
  show "view d bc' = (view d bc)(b := b_data x')"
    using sb other get lt dk h(1)
    by (auto simp: view_def sl fun_eq_iff split: option.split)
  show "busy d bc' = (busy d bc)(b := sl_locked (b_lock x') \<noteq> 0)"
    using sb other get lt h(1)
    by (auto simp: busy_def sl fun_eq_iff split: option.split)
  show "pins d bc' = (pins d bc)(b := unat (b_refcnt x') - (if sl_locked (b_lock x') \<noteq> 0 then 1 else 0))"
    using sb other get lt h(1)
    by (auto simp: pins_def sl fun_eq_iff split: option.split)
  show "held me d bc' = (held me d bc)(h := if holdingsleep me (b_lock x') then Some b else None)"
    using get h bc' by (auto simp: held_def fun_eq_iff)
qed

lemma bc_inv_update:
  assumes inv: "bc_inv d bc" and h: "h < NBUF" "b_dev (bufs bc ! h) = d"
    and b: "b_blockno (bufs bc ! h) = b"
    and bc': "bufs bc' = (bufs bc)[h := x']" "b_dev x' = d" "b_blockno x' = b"
    and dk: "\<And>c. c \<noteq> b \<Longrightarrow> bdisk bc' c = bdisk bc c" "length (bdisk bc' b) = BSIZE"
    and ok: "buf_ok d (bdisk bc') x'" and lru: "lru_inv bc'"
  shows "bc_inv d bc'"
proof -
  note len = bc_invD(2) [OF inv]
  have get: "bufs bc' ! i = (if i = h then x' else bufs bc ! i)" if "i < NBUF" for i
    using that bc'(1) len by (simp add: nth_list_update)
  have "buf_ok d (bdisk bc') (bufs bc ! i)" if "i < NBUF" "i \<noteq> h" for i
  proof -
    have "b_blockno (bufs bc ! i) \<noteq> b" if "b_dev (bufs bc ! i) = d"
      using bc_invD(4) [OF inv \<open>i < NBUF\<close> h(1) that h(2)] b \<open>i \<noteq> h\<close> by auto
    then show ?thesis
      using bc_invD(3) [OF inv that(1)] dk(1) by (auto simp: buf_ok_def)
  qed
  moreover have "length (bdisk bc' c) = BSIZE" for c
    using bc_invD(5) [OF inv, of c] dk by (cases "c = b") auto
  moreover have "i = j" if "i < NBUF" "j < NBUF" "b_dev (bufs bc' ! i) = d" "b_dev (bufs bc' ! j) = d"
    "b_blockno (bufs bc' ! i) = b_blockno (bufs bc' ! j)" for i j
  proof -
    have same: "b_dev (bufs bc' ! k) = b_dev (bufs bc ! k)"
      "b_blockno (bufs bc' ! k) = b_blockno (bufs bc ! k)" if "k < NBUF" for k
      using get [OF that] bc' h b by simp_all
    show "i = j" using bc_invD(4) [OF inv that(1,2)] that by (simp add: same)
  qed
  moreover have "buf_ok d (bdisk bc') (bufs bc' ! i)" if "i < NBUF" for i
    using calculation(1) [OF that] ok get [OF that] by simp
  moreover have "length (bufs bc') = NBUF" using len bc'(1) by simp
  ultimately show ?thesis
    unfolding bc_inv_def using lru by blast
qed

section \<open>Each operation against the abstract state\<close>

lemma scan_lru:
  assumes "lru_inv bc"
  shows "\<exists>xs. set xs = {..<NBUF}
     \<and> (\<forall>hit. scan (b_next bc) BHEAD hit (Suc NBUF) (b_next bc BHEAD) = Ok (find hit xs))
     \<and> (\<forall>hit. scan (b_prev bc) BHEAD hit (Suc NBUF) (b_prev bc BHEAD) = Ok (find hit (rev xs)))"
proof -
  obtain xs where xs: "dll (b_next bc) (b_prev bc) BHEAD xs" "set xs = {..<NBUF}"
    using assms by (auto simp: lru_inv_def)
  then have "length xs = NBUF" using distinct_card [of xs] by (simp add: dll_def)
  then show ?thesis
    using xs scan_forward [OF xs(1)] scan_backward [OF xs(1)] by auto
qed

lemma lru_inv_move_front:
  assumes "lru_inv bc" and "b < NBUF"
  shows "lru_inv (link_front b (unlink b bc))"
proof -
  obtain xs where xs: "dll (b_next bc) (b_prev bc) BHEAD xs" "set xs = {..<NBUF}"
    using assms by (auto simp: lru_inv_def)
  obtain ys zs where s: "xs = ys @ b # zs" using assms(2) xs(2) by (metis lessThan_iff split_list)
  let ?bc = "unlink b bc"
  have "dll (b_next ?bc) (b_prev ?bc) BHEAD (ys @ zs)"
    using dll_unlink [of "b_next bc" "b_prev bc" BHEAD ys b zs] xs(1) s by (simp add: unlink_def)
  moreover have "b \<notin> set (ys @ zs)" "b \<noteq> BHEAD" using xs(1) s by (auto simp: dll_def)
  ultimately have "dll (b_next (link_front b ?bc)) (b_prev (link_front b ?bc)) BHEAD (b # ys @ zs)"
    using dll_link_front [of "b_next ?bc" "b_prev ?bc" BHEAD "ys @ zs" b] by (simp add: link_front_def)
  moreover have "set (b # ys @ zs) = {..<NBUF}" using xs(2) s by auto
  ultimately show ?thesis unfolding lru_inv_def by blast
qed

lemma link_unlink_simps [simp]:
  "bufs (link_front b bc) = bufs bc" "bdisk (link_front b bc) = bdisk bc"
  "bhist (link_front b bc) = bhist bc"
  "bufs (unlink b bc) = bufs bc" "bdisk (unlink b bc) = bdisk bc" "bhist (unlink b bc) = bhist bc"
  by (simp_all add: link_front_def unlink_def)


section \<open>The contract of the cache\<close>

text \<open>
  What the clients of the cache rely on, as operations on an abstract state: the block contents
  a process sees (\<open>vw\<close>) and those on disk (\<open>dk\<close>), the writes the device has carried out (\<open>hs\<close>),
  which blocks are locked (\<open>bz\<close>) and how often each is pinned (\<open>pn\<close>), which block each buffer
  pointer held by this process stands for (\<open>hl\<close>), and how many buffers can be recycled (\<open>rm\<close>).
\<close>

record bstate =
  vw :: "u32 \<Rightarrow> block"
  dk :: "u32 \<Rightarrow> block"
  hs :: "(u32 \<times> block) list"
  bz :: "u32 \<Rightarrow> bool"
  pn :: "u32 \<Rightarrow> nat"
  hl :: "nat \<Rightarrow> u32 option"
  rm :: nat

definition need :: "bstate \<Rightarrow> u32 \<Rightarrow> nat" where
  "need a b = (if pn a b = 0 then 1 else 0)"

definition sp_bread :: "u32 \<Rightarrow> nat \<Rightarrow> bstate \<Rightarrow> bstate" where
  "sp_bread b h a = a\<lparr>bz := (bz a)(b := True), hl := (hl a)(h := Some b), rm := rm a - need a b\<rparr>"

definition sp_store :: "u32 \<Rightarrow> block \<Rightarrow> bstate \<Rightarrow> bstate" where
  "sp_store b x a = a\<lparr>vw := (vw a)(b := x)\<rparr>"

definition sp_bwrite :: "u32 \<Rightarrow> bstate \<Rightarrow> bstate" where
  "sp_bwrite b a = a\<lparr>dk := (dk a)(b := vw a b), hs := hs a @ [(b, vw a b)]\<rparr>"

definition sp_brelse :: "u32 \<Rightarrow> nat \<Rightarrow> bstate \<Rightarrow> bstate" where
  "sp_brelse b h a = a\<lparr>bz := (bz a)(b := False), hl := (hl a)(h := None), rm := rm a + need a b\<rparr>"

definition sp_bpin :: "u32 \<Rightarrow> bstate \<Rightarrow> bstate" where
  "sp_bpin b a = a\<lparr>pn := (pn a)(b := pn a b + 1)\<rparr>"

definition sp_bunpin :: "u32 \<Rightarrow> bstate \<Rightarrow> bstate" where
  "sp_bunpin b a = a\<lparr>pn := (pn a)(b := pn a b - 1)\<rparr>"

lemmas sp_defs = need_def sp_bread_def sp_store_def sp_bwrite_def sp_brelse_def sp_bpin_def
  sp_bunpin_def

text \<open>The cache as its clients (log.c, fs.c) call it, for the process running.\<close>

record 's blk_ops =
  op_bread :: "u32 \<Rightarrow> u32 \<Rightarrow> 's \<Rightarrow> (nat \<times> 's) kres"
  op_blockno :: "nat \<Rightarrow> 's \<Rightarrow> u32"
  op_data :: "nat \<Rightarrow> 's \<Rightarrow> block"
  op_store :: "nat \<Rightarrow> block \<Rightarrow> 's \<Rightarrow> 's"
  op_bwrite :: "nat \<Rightarrow> 's \<Rightarrow> 's kres"
  op_brelse :: "nat \<Rightarrow> 's \<Rightarrow> 's kres"
  op_bpin :: "nat \<Rightarrow> 's \<Rightarrow> 's"
  op_bunpin :: "nat \<Rightarrow> 's \<Rightarrow> 's"

locale block_io =
  fixes ops :: "'s blk_ops" and d :: u32 and inv :: "'s \<Rightarrow> bool" and abs :: "'s \<Rightarrow> bstate"
  assumes bread_ok: "inv s \<Longrightarrow> \<not> bz (abs s) b \<Longrightarrow> pn (abs s) b < 2 ^ 31 \<Longrightarrow>
        0 < rm (abs s) \<or> 0 < pn (abs s) b \<Longrightarrow>
        \<exists>h s'. op_bread ops d b s = Ok (h, s') \<and> inv s' \<and> hl (abs s) h = None
             \<and> abs s' = sp_bread b h (abs s)"
    and blockno_ok: "hl (abs s) h = Some b \<Longrightarrow> op_blockno ops h s = b"
    and data_ok: "inv s \<Longrightarrow> hl (abs s) h = Some b \<Longrightarrow> op_data ops h s = vw (abs s) b"
    and store_ok: "inv s \<Longrightarrow> hl (abs s) h = Some b \<Longrightarrow> length x = BSIZE \<Longrightarrow>
        inv (op_store ops h x s) \<and> abs (op_store ops h x s) = sp_store b x (abs s)"
    and bwrite_ok: "inv s \<Longrightarrow> hl (abs s) h = Some b \<Longrightarrow>
        \<exists>s'. op_bwrite ops h s = Ok s' \<and> inv s' \<and> abs s' = sp_bwrite b (abs s)"
    and brelse_ok: "inv s \<Longrightarrow> hl (abs s) h = Some b \<Longrightarrow>
        0 < pn (abs s) b \<or> vw (abs s) b = dk (abs s) b \<Longrightarrow>
        \<exists>s'. op_brelse ops h s = Ok s' \<and> inv s' \<and> abs s' = sp_brelse b h (abs s)"
    and bpin_ok: "inv s \<Longrightarrow> hl (abs s) h = Some b \<Longrightarrow> pn (abs s) b < 2 ^ 31 \<Longrightarrow>
        inv (op_bpin ops h s) \<and> abs (op_bpin ops h s) = sp_bpin b (abs s)"
    and bunpin_ok: "inv s \<Longrightarrow> hl (abs s) h = Some b \<Longrightarrow> 0 < pn (abs s) b \<Longrightarrow>
        inv (op_bunpin ops h s) \<and> abs (op_bunpin ops h s) = sp_bunpin b (abs s)"
    and len_ok: "inv s \<Longrightarrow> length (vw (abs s) b) = BSIZE \<and> length (dk (abs s) b) = BSIZE"
    and held_ok: "inv s \<Longrightarrow> hl (abs s) h = Some b \<Longrightarrow> bz (abs s) b"
    and clean_ok: "inv s \<Longrightarrow> \<not> bz (abs s) b \<Longrightarrow> pn (abs s) b = 0 \<Longrightarrow> vw (abs s) b = dk (abs s) b"
    and count_ok: "inv s \<Longrightarrow> finite {b. bz (abs s) b \<or> 0 < pn (abs s) b}
        \<and> rm (abs s) + card {b. bz (abs s) b \<or> 0 < pn (abs s) b} = NBUF"

text \<open>The cache provides it.\<close>

definition cache_ops :: "int \<Rightarrow> bcache blk_ops" where
  "cache_ops me =
     \<lparr>op_bread = bread me, op_blockno = (\<lambda>h bc. b_blockno (bufs bc ! h)), op_data = buf_data,
      op_store = buf_store, op_bwrite = bwrite me, op_brelse = brelse me,
      op_bpin = bpin, op_bunpin = bunpin\<rparr>"

definition bc_abs :: "int \<Rightarrow> u32 \<Rightarrow> bcache \<Rightarrow> bstate" where
  "bc_abs me d bc = \<lparr>vw = view d bc, dk = bdisk bc, hs = bhist bc, bz = busy d bc, pn = pins d bc,
                     hl = held me d bc, rm = room bc\<rparr>"

section \<open>Each operation against the contract\<close>

lemma bc_abs_update:
  assumes inv: "bc_inv d bc" and h: "h < NBUF" "b_dev (bufs bc ! h) = d"
    and b: "b_blockno (bufs bc ! h) = b"
    and bc': "bufs bc' = (bufs bc)[h := x']" "b_dev x' = d" "b_blockno x' = b"
    and dk: "\<And>c. c \<noteq> b \<Longrightarrow> bdisk bc' c = bdisk bc c"
  shows "bc_abs me d bc' =
    \<lparr>vw = (view d bc)(b := b_data x'), dk = bdisk bc', hs = bhist bc',
     bz = (busy d bc)(b := sl_locked (b_lock x') \<noteq> 0),
     pn = (pins d bc)(b := unat (b_refcnt x') - (if sl_locked (b_lock x') \<noteq> 0 then 1 else 0)),
     hl = (held me d bc)(h := if holdingsleep me (b_lock x') then Some b else None),
     rm = room bc + (if b_refcnt x' = 0 then 1 else 0) - (if b_refcnt (bufs bc ! h) = 0 then 1 else 0)\<rparr>"
  using abs_update [OF inv h b bc' dk] room_update [OF bc_invD(2) [OF inv] bc'(1) h(1)]
  by (simp add: bc_abs_def)

text \<open>What a held buffer looks like.\<close>

lemma held_facts:
  assumes inv: "bc_inv d bc" and hl: "held me d bc h = Some b"
  shows "h < NBUF" "b_dev (bufs bc ! h) = d" "b_blockno (bufs bc ! h) = b"
    and "sl_locked (b_lock (bufs bc ! h)) \<noteq> 0" "sl_pid (b_lock (bufs bc ! h)) = me"
    and "b_refcnt (bufs bc ! h) \<noteq> 0" "b_valid (bufs bc ! h) \<noteq> 0" "busy d bc b"
    and "pins d bc b = unat (b_refcnt (bufs bc ! h)) - 1" "view d bc b = b_data (bufs bc ! h)"
    and "length (b_data (bufs bc ! h)) = BSIZE"
proof -
  note s = held_Some [OF hl] and sl = held_slot [OF inv hl]
  have ok: "buf_ok d (bdisk bc) (bufs bc ! h)" by (rule bc_invD(3) [OF inv s(1)])
  show "h < NBUF" "b_dev (bufs bc ! h) = d" "b_blockno (bufs bc ! h) = b" using s by auto
  show l: "sl_locked (b_lock (bufs bc ! h)) \<noteq> 0" "sl_pid (b_lock (bufs bc ! h)) = me"
    using s(2) by (auto simp: holdingsleep_def)
  show "b_refcnt (bufs bc ! h) \<noteq> 0" "b_valid (bufs bc ! h) \<noteq> 0"
    "length (b_data (bufs bc ! h)) = BSIZE"
    using ok l s(3) by (auto simp: buf_ok_def)
  show "busy d bc b" "pins d bc b = unat (b_refcnt (bufs bc ! h)) - 1"
    "view d bc b = b_data (bufs bc ! h)"
    using sl l by (simp_all add: busy_def pins_def view_def)
qed

lemma bufs_upd_buf [simp]: "bufs (upd_buf h f bc) = (bufs bc)[h := f (bufs bc ! h)]"
  by (simp add: upd_buf_def)

lemma unat_nonzero: "(x :: u32) \<noteq> 0 \<Longrightarrow> 0 < unat x"
  by (simp add: unat_gt_0)

lemma upd_buf_refines:
  assumes inv: "bc_inv d bc" and hl: "held me d bc h = Some b"
    and f: "b_dev (f (bufs bc ! h)) = d" "b_blockno (f (bufs bc ! h)) = b"
      "b_lock (f (bufs bc ! h)) = b_lock (bufs bc ! h)"
    and ok: "buf_ok d (bdisk bc) (f (bufs bc ! h))"
  shows "bc_inv d (upd_buf h f bc)"
    and "bc_abs me d (upd_buf h f bc) =
      (bc_abs me d bc)\<lparr>vw := (view d bc)(b := b_data (f (bufs bc ! h))),
         pn := (pins d bc)(b := unat (b_refcnt (f (bufs bc ! h))) - 1)\<rparr>"
proof -
  note g = held_facts [OF inv hl]
  note u = bufs_upd_buf [of h f bc]
  show "bc_inv d (upd_buf h f bc)"
    using bc_invD(1,5) [OF inv] ok by (intro bc_inv_update [OF inv g(1-3) u f(1,2)]) auto
  have "b_refcnt (f (bufs bc ! h)) \<noteq> 0" using ok g(4) f(3) by (simp add: buf_ok_def)
  then show "bc_abs me d (upd_buf h f bc) =
      (bc_abs me d bc)\<lparr>vw := (view d bc)(b := b_data (f (bufs bc ! h))),
         pn := (pins d bc)(b := unat (b_refcnt (f (bufs bc ! h))) - 1)\<rparr>"
    using g(4-6,8) f(3) hl
    by (subst bc_abs_update [OF inv g(1-3) u f(1,2)])
       (auto simp: bc_abs_def holdingsleep_def fun_upd_idem)
qed

lemma store_refines:
  assumes inv: "bc_inv d bc" and hl: "held me d bc h = Some b" and len: "length x = BSIZE"
  shows "bc_inv d (buf_store h x bc)" and "bc_abs me d (buf_store h x bc) = sp_store b x (bc_abs me d bc)"
proof -
  note f = held_facts [OF inv hl]
  let ?f = "\<lambda>y. y\<lparr>b_data := x\<rparr>"
  have "buf_ok d (bdisk bc) (?f (bufs bc ! h))"
    using bc_invD(3) [OF inv f(1)] f(6) len by (simp add: buf_ok_def)
  note r = upd_buf_refines [of d bc me h b ?f, OF inv hl _ _ _ this]
  show "bc_inv d (buf_store h x bc)"
    unfolding buf_store_def using f by (intro r(1)) simp_all
  show "bc_abs me d (buf_store h x bc) = sp_store b x (bc_abs me d bc)"
    unfolding buf_store_def using f r(2)
    by (simp add: sp_store_def bc_abs_def fun_upd_idem)
qed

lemma bwrite_refines:
  assumes inv: "bc_inv d bc" and hl: "held me d bc h = Some b"
  shows "\<exists>bc'. bwrite me h bc = Ok bc' \<and> bc_inv d bc' \<and> bc_abs me d bc' = sp_bwrite b (bc_abs me d bc)"
proof -
  note f = held_facts [OF inv hl]
  let ?bc = "virtio_disk_rw h True bc"
  have b: "bufs ?bc = (bufs bc)[h := bufs bc ! h]" "bdisk ?bc = (bdisk bc)(b := view d bc b)"
    "bhist ?bc = bhist bc @ [(b, view d bc b)]" "lru_inv ?bc = lru_inv bc"
    using f by (simp_all add: virtio_disk_rw_def lru_inv_def Let_def)
  have "bwrite me h bc = Ok ?bc" using f by (simp add: bwrite_def holdingsleep_def)
  moreover have "bc_inv d ?bc"
    using bc_invD(1,3) [OF inv] f b by (intro bc_inv_update [OF inv f(1-3) b(1)]) (auto simp: buf_ok_def)
  moreover have "bc_abs me d ?bc = sp_bwrite b (bc_abs me d bc)"
    using f hl b by (subst bc_abs_update [OF inv f(1-3) b(1)])
       (auto simp: sp_bwrite_def bc_abs_def holdingsleep_def fun_upd_idem)
  ultimately show ?thesis by blast
qed

lemma bpin_refines:
  assumes inv: "bc_inv d bc" and hl: "held me d bc h = Some b" and lt: "pins d bc b < 2 ^ 31"
  shows "bc_inv d (bpin h bc)" and "bc_abs me d (bpin h bc) = sp_bpin b (bc_abs me d bc)"
proof -
  note f = held_facts [OF inv hl]
  have u: "unat (b_refcnt (bufs bc ! h) + 1) = Suc (unat (b_refcnt (bufs bc ! h)))"
    using lt f unat_nonzero [OF f(6)] by (intro unat_inc [of _ "2 ^ 31 + 1"]) auto
  then have nz: "b_refcnt (bufs bc ! h) + 1 \<noteq> 0" by auto
  let ?f = "\<lambda>x. x\<lparr>b_refcnt := b_refcnt x + 1\<rparr>"
  have "buf_ok d (bdisk bc) (?f (bufs bc ! h))"
    using bc_invD(3) [OF inv f(1)] f(2) nz by (simp add: buf_ok_def)
  note r = upd_buf_refines [of d bc me h b ?f, OF inv hl _ _ _ this]
  show "bc_inv d (bpin h bc)"
    unfolding bpin_def using f by (intro r(1)) simp_all
  have "unat (b_refcnt (bufs bc ! h)) = pins d bc b + 1" using f(9) unat_nonzero [OF f(6)] by simp
  then show "bc_abs me d (bpin h bc) = sp_bpin b (bc_abs me d bc)"
    unfolding bpin_def using f(1-8,10,11) r(2) u
    by (simp add: sp_bpin_def bc_abs_def fun_upd_idem)
qed

lemma bunpin_refines:
  assumes inv: "bc_inv d bc" and hl: "held me d bc h = Some b" and gt: "0 < pins d bc b"
  shows "bc_inv d (bunpin h bc)" and "bc_abs me d (bunpin h bc) = sp_bunpin b (bc_abs me d bc)"
proof -
  note f = held_facts [OF inv hl]
  have u: "unat (b_refcnt (bufs bc ! h) - 1) = unat (b_refcnt (bufs bc ! h)) - 1"
    by (rule unat_dec [OF f(6)])
  then have nz: "b_refcnt (bufs bc ! h) - 1 \<noteq> 0" using gt f by auto
  let ?f = "\<lambda>x. x\<lparr>b_refcnt := b_refcnt x - 1\<rparr>"
  have "buf_ok d (bdisk bc) (?f (bufs bc ! h))"
    using bc_invD(3) [OF inv f(1)] f(2) nz by (simp add: buf_ok_def)
  note r = upd_buf_refines [of d bc me h b ?f, OF inv hl _ _ _ this]
  show "bc_inv d (bunpin h bc)"
    unfolding bunpin_def using f by (intro r(1)) simp_all
  have "unat (b_refcnt (bufs bc ! h)) = pins d bc b + 1" using f(9) unat_nonzero [OF f(6)] by simp
  then show "bc_abs me d (bunpin h bc) = sp_bunpin b (bc_abs me d bc)"
    unfolding bunpin_def using f(1-8,10,11) r(2) u
    by (simp add: sp_bunpin_def bc_abs_def fun_upd_idem)
qed

lemma brelse_refines:
  assumes inv: "bc_inv d bc" and hl: "held me d bc h = Some b"
    and clean: "0 < pins d bc b \<or> view d bc b = bdisk bc b"
  shows "\<exists>bc'. brelse me h bc = Ok bc' \<and> bc_inv d bc' \<and> bc_abs me d bc' = sp_brelse b h (bc_abs me d bc)"
proof -
  note f = held_facts [OF inv hl]
  define x where "x = (bufs bc ! h)\<lparr>b_lock := releasesleep (b_lock (bufs bc ! h)),
                                     b_refcnt := b_refcnt (bufs bc ! h) - 1\<rparr>"
  define bc1 where "bc1 = upd_buf h (\<lambda>x. x\<lparr>b_refcnt := b_refcnt x - 1\<rparr>)
                     (upd_buf h (\<lambda>x. x\<lparr>b_lock := releasesleep (b_lock x)\<rparr>) bc)"
  define bc' where "bc' = (if b_refcnt (bufs bc1 ! h) = 0 then link_front h (unlink h bc1) else bc1)"
  have u: "unat (b_refcnt (bufs bc ! h) - 1) = unat (b_refcnt (bufs bc ! h)) - 1"
    by (rule unat_dec [OF f(6)])
  have z: "b_refcnt (bufs bc ! h) - 1 = 0 \<longleftrightarrow> pins d bc b = 0"
    using u f(9) by (simp flip: unat_eq_zero)
  have len: "length (bufs bc) = NBUF" by (rule bc_invD(2) [OF inv])
  have b1: "bufs bc1 = (bufs bc)[h := x]" "bdisk bc1 = bdisk bc" "bhist bc1 = bhist bc"
    "lru_inv bc1 = lru_inv bc"
    using f(1) len by (simp_all add: bc1_def x_def)
  then have b: "bufs bc' = (bufs bc)[h := x]" "bdisk bc' = bdisk bc" "bhist bc' = bhist bc" "lru_inv bc'"
    using lru_inv_move_front [of bc1 h] bc_invD(1) [OF inv] f(1) by (auto simp: bc'_def)
  have "brelse me h bc = Ok bc'"
    using f by (simp add: brelse_def holdingsleep_def Let_def bc'_def bc1_def)
  moreover have "bc_inv d bc'"
    using bc_invD(3,5) [OF inv] f b z clean
    by (intro bc_inv_update [OF inv f(1-3) b(1)]) (auto simp: buf_ok_def x_def releasesleep_def)
  moreover have "bc_abs me d bc' = sp_brelse b h (bc_abs me d bc)"
    using f hl b z u
    by (subst bc_abs_update [OF inv f(1-3) b(1)])
       (simp_all add: x_def sp_brelse_def need_def bc_abs_def holdingsleep_def releasesleep_def fun_upd_idem)
  ultimately show ?thesis by blast
qed


subsection \<open>bread\<close>

text \<open>Which buffers the two loops of \<open>bget\<close> find.\<close>

lemma find_in_range:
  assumes "set xs = {..<NBUF}"
  shows "find P xs = None \<longleftrightarrow> (\<forall>i < NBUF. \<not> P i)"
    and "find P xs = Some i \<Longrightarrow> i < NBUF \<and> P i"
proof -
  show "find P xs = None \<longleftrightarrow> (\<forall>i < NBUF. \<not> P i)" using assms by (auto simp: find_None_iff)
  assume "find P xs = Some i"
  then have "i \<in> set xs" "P i" by (auto simp: find_Some_iff)
  with assms show "i < NBUF \<and> P i" by simp
qed

lemma scan_hit:
  assumes inv: "bc_inv d bc"
  shows "scan (b_next bc) BHEAD (\<lambda>b. b_dev (bufs bc ! b) = d \<and> b_blockno (bufs bc ! b) = blockno)
           (Suc NBUF) (b_next bc BHEAD) = Ok (slot d bc blockno)"
proof -
  let ?P = "\<lambda>b. b_dev (bufs bc ! b) = d \<and> b_blockno (bufs bc ! b) = blockno"
  obtain xs where xs: "set xs = {..<NBUF}"
    "scan (b_next bc) BHEAD ?P (Suc NBUF) (b_next bc BHEAD) = Ok (find ?P xs)"
    using scan_lru [OF bc_invD(1) [OF inv]] by blast
  have "find ?P xs = slot d bc blockno"
  proof (cases "find ?P xs")
    case None
    then have "slot d bc blockno = None"
      using find_in_range(1) [OF xs(1), of ?P] unfolding slot_None by blast
    with None show ?thesis by simp
  next
    case (Some i)
    then have i: "i < NBUF" "?P i" using find_in_range(2) [OF xs(1) Some] by auto
    then have "slot d bc blockno = Some i" using slot_I [OF inv i(1)] by auto
    with Some show ?thesis by simp
  qed
  with xs(2) show ?thesis by simp
qed

lemma scan_recycle:
  assumes inv: "bc_inv d bc"
  shows "\<exists>r. scan (b_prev bc) BHEAD (\<lambda>b. b_refcnt (bufs bc ! b) = 0) (Suc NBUF) (b_prev bc BHEAD) = Ok r
     \<and> (case r of None \<Rightarrow> room bc = 0
        | Some h \<Rightarrow> h < NBUF \<and> b_refcnt (bufs bc ! h) = 0 \<and> 0 < room bc)"
proof -
  let ?P = "\<lambda>b. b_refcnt (bufs bc ! b) = 0"
  obtain xs where xs: "set xs = {..<NBUF}"
    "scan (b_prev bc) BHEAD ?P (Suc NBUF) (b_prev bc BHEAD) = Ok (find ?P (rev xs))"
    using scan_lru [OF bc_invD(1) [OF inv]] by blast
  have r: "set (rev xs) = {..<NBUF}" using xs(1) by simp
  have "0 < room bc" if "h < NBUF" "?P h" for h
    unfolding room_def using that by (auto simp: card_gt_0_iff)
  then have "case find ?P (rev xs) of None \<Rightarrow> room bc = 0
      | Some h \<Rightarrow> h < NBUF \<and> ?P h \<and> 0 < room bc"
    using find_in_range [OF r, of ?P] by (cases "find ?P (rev xs)") (auto simp: room_def)
  with xs(2) show ?thesis by blast
qed

lemma bread_cached:
  assumes inv: "bc_inv d bc" and sl: "slot d bc b = Some h"
    and free: "\<not> busy d bc b" and lt: "pins d bc b < 2 ^ 31"
  shows "\<exists>bc'. bread me d b bc = Ok (h, bc') \<and> bc_inv d bc' \<and> held me d bc h = None
             \<and> bc_abs me d bc' = sp_bread b h (bc_abs me d bc)"
proof -
  note s = slot_Some [OF sl]
  have len: "length (bufs bc) = NBUF" by (rule bc_invD(2) [OF inv])
  have ok: "buf_ok d (bdisk bc) (bufs bc ! h)" by (rule bc_invD(3) [OF inv s(1)])
  have un: "sl_locked (b_lock (bufs bc ! h)) = 0" using free sl by (simp add: busy_def)
  then have p: "pins d bc b = unat (b_refcnt (bufs bc ! h))" using sl by (simp add: pins_def)
  let ?x = "(bufs bc ! h)\<lparr>b_refcnt := b_refcnt (bufs bc ! h) + 1,
                           b_lock := (b_lock (bufs bc ! h))\<lparr>sl_locked := 1, sl_pid := me\<rparr>\<rparr>"
  let ?bc = "upd_buf h (\<lambda>x. x\<lparr>b_lock := (b_lock (bufs bc ! h))\<lparr>sl_locked := 1, sl_pid := me\<rparr>\<rparr>)
               (upd_buf h (\<lambda>x. x\<lparr>b_refcnt := b_refcnt x + 1\<rparr>) bc)"
  have u: "unat (b_refcnt (bufs bc ! h) + 1) = Suc (unat (b_refcnt (bufs bc ! h)))"
    using lt p by (intro unat_inc [of _ "2 ^ 31"]) auto
  then have nz: "b_refcnt (bufs bc ! h) + 1 \<noteq> 0" by auto
  have b: "bufs ?bc = (bufs bc)[h := ?x]" using s(1) len by simp
  have "bread me d b bc = Ok (h, ?bc)"
    unfolding bread_def bget_def scan_hit [OF inv] sl
    using s ok un len by (simp add: lock_buf_def acquiresleep_def buf_ok_def)
  moreover have "bc_inv d ?bc"
    using bc_invD(1,5) [OF inv] ok s nz
    by (intro bc_inv_update [OF inv s b]) (auto simp: buf_ok_def)
  moreover have "held me d bc h = None" using un by (simp add: held_def holdingsleep_def)
  moreover have "bc_abs me d ?bc = sp_bread b h (bc_abs me d bc)"
    using s u nz p sl len room_update [OF len b s(1)]
    by (subst bc_abs_update [OF inv s b])
       (auto simp: sp_bread_def need_def bc_abs_def holdingsleep_def view_def fun_upd_idem unat_eq_zero)
  ultimately show ?thesis by blast
qed

text \<open>Buffer \<open>h\<close>, which nobody references, is given to block \<open>b\<close>.\<close>

lemma recycle_slot:
  assumes inv: "bc_inv d bc" and h: "h < NBUF" and sl: "slot d bc b = None"
    and bc': "bufs bc' = (bufs bc)[h := x']" "b_dev x' = d" "b_blockno x' = b"
    and inv': "bc_inv d bc'"
  shows "slot d bc' c = (if c = b then Some h else if slot d bc c = Some h then None else slot d bc c)"
proof -
  note len = bc_invD(2) [OF inv]
  have get: "bufs bc' ! i = (if i = h then x' else bufs bc ! i)" if "i < NBUF" for i
    using that bc'(1) len by (simp add: nth_list_update)
  have "slot d bc' b = Some h" using slot_I [OF inv' h] get [OF h] bc' by simp
  moreover have "slot d bc' c = Some i" if "c \<noteq> b" "slot d bc c = Some i" "i \<noteq> h" for i
    using slot_Some [OF that(2)] slot_I [OF inv', of i] get [of i] that by auto
  moreover have "slot d bc' c = None" if "c \<noteq> b" "slot d bc c = None \<or> slot d bc c = Some h"
  proof (rule ccontr)
    assume "slot d bc' c \<noteq> None"
    then obtain i where i: "slot d bc' c = Some i" by auto
    note si = slot_Some [OF i]
    have "i \<noteq> h" using si(3) get [OF h] bc' that(1) by auto
    then have "slot d bc c = Some i" using slot_I [OF inv si(1)] si get [OF si(1)] by auto
    with that(2) \<open>i \<noteq> h\<close> show False by auto
  qed
  ultimately show ?thesis by (cases "slot d bc c") auto
qed

lemma recycle_inv:
  assumes inv: "bc_inv d bc" and h: "h < NBUF" and sl: "slot d bc b = None"
    and bc': "bufs bc' = (bufs bc)[h := x']" "b_dev x' = d" "b_blockno x' = b"
    and rest: "bdisk bc' = bdisk bc" "lru_inv bc'" and ok: "buf_ok d (bdisk bc) x'"
  shows "bc_inv d bc'"
proof -
  note len = bc_invD(2) [OF inv]
  have get: "bufs bc' ! i = (if i = h then x' else bufs bc ! i)" if "i < NBUF" for i
    using that bc'(1) len by (simp add: nth_list_update)
  have no: "b_blockno (bufs bc ! i) \<noteq> b" if "i < NBUF" "b_dev (bufs bc ! i) = d" for i
    using sl that unfolding slot_None by blast
  have "i = j" if "i < NBUF" "j < NBUF" "b_dev (bufs bc' ! i) = d" "b_dev (bufs bc' ! j) = d"
    "b_blockno (bufs bc' ! i) = b_blockno (bufs bc' ! j)" for i j
  proof (cases "i = h \<or> j = h")
    case True
    then show ?thesis using that no [of i] no [of j] get [of i] get [of j] bc' by (metis (full_types))
  next
    case False
    then show ?thesis using that bc_invD(4) [OF inv, of i j] get [of i] get [of j] by simp
  qed
  moreover have "buf_ok d (bdisk bc') (bufs bc' ! i)" if "i < NBUF" for i
    using get [OF that] ok bc_invD(3) [OF inv that] rest by simp
  moreover have "length (bufs bc') = NBUF" using len bc'(1) by simp
  moreover have "length (bdisk bc' c) = BSIZE" for c using bc_invD(5) [OF inv] rest by simp
  ultimately show ?thesis unfolding bc_inv_def using rest(2) by blast
qed

lemma recycle_abs:
  assumes inv: "bc_inv d bc" and h: "h < NBUF" "b_refcnt (bufs bc ! h) = 0"
    and sl: "slot d bc b = None"
    and bc': "bufs bc' = (bufs bc)[h := x']" "b_dev x' = d" "b_blockno x' = b"
    and rest: "bdisk bc' = bdisk bc" "bhist bc' = bhist bc"
    and x': "b_data x' = bdisk bc b" "b_refcnt x' = 1" "sl_locked (b_lock x') = 1" "sl_pid (b_lock x') = me"
    and inv': "bc_inv d bc'"
  shows "bc_abs me d bc' = sp_bread b h (bc_abs me d bc)"
proof -
  note len = bc_invD(2) [OF inv]
  have get: "bufs bc' ! i = (if i = h then x' else bufs bc ! i)" if "i < NBUF" for i
    using that bc'(1) len by (simp add: nth_list_update)
  note rs = recycle_slot [OF inv h(1) sl bc' inv']
  have ok: "buf_ok d (bdisk bc) (bufs bc ! h)" by (rule bc_invD(3) [OF inv h(1)])
  have lt: "i < NBUF" if "slot d bc c = Some i" for c i using slot_Some(1) [OF that] .
  have old: "b_data (bufs bc ! h) = bdisk bc c" "sl_locked (b_lock (bufs bc ! h)) = 0"
    if "slot d bc c = Some h" for c
    using slot_Some [OF that] ok h(2) by (auto simp: buf_ok_def)
  have u1: "unat (1 :: u32) = 1" by simp
  have "view d bc' c = view d bc c" for c
    using get h old lt x' sl rest by (cases "slot d bc c") (auto simp: view_def rs)
  moreover have "busy d bc' c = ((busy d bc)(b := True)) c" for c
    using get h old lt x' sl by (cases "slot d bc c") (auto simp: busy_def rs)
  moreover have "pins d bc' c = pins d bc c" for c
    using get h old lt x' sl u1 by (cases "slot d bc c") (auto simp: pins_def rs)
  moreover have "held me d bc' i = ((held me d bc)(h := Some b)) i" for i
    using get h bc' x' by (auto simp: held_def holdingsleep_def)
  moreover have "pins d bc b = 0" using sl by (simp add: pins_def)
  moreover have "room bc' = room bc - 1"
    using room_update [OF len bc'(1) h(1)] h(2) x'(2) by simp
  ultimately show ?thesis
    using rest by (simp add: bc_abs_def sp_bread_def need_def fun_eq_iff)
qed

lemma bread_fresh:
  assumes inv: "bc_inv d bc" and sl: "slot d bc b = None" and rm: "0 < room bc"
  shows "\<exists>h bc'. bread me d b bc = Ok (h, bc') \<and> bc_inv d bc' \<and> held me d bc h = None
             \<and> bc_abs me d bc' = sp_bread b h (bc_abs me d bc)"
proof -
  note len = bc_invD(2) [OF inv]
  obtain h where scan: "scan (b_prev bc) BHEAD (\<lambda>b. b_refcnt (bufs bc ! b) = 0) (Suc NBUF) (b_prev bc BHEAD)
      = Ok (Some h)" and h: "h < NBUF" "b_refcnt (bufs bc ! h) = 0"
    using scan_recycle [OF inv] rm by (auto split: option.splits)
  have ok: "buf_ok d (bdisk bc) (bufs bc ! h)" by (rule bc_invD(3) [OF inv h(1)])
  have un: "sl_locked (b_lock (bufs bc ! h)) = 0" using ok h(2) by (auto simp: buf_ok_def)
  let ?lk = "(b_lock (bufs bc ! h))\<lparr>sl_locked := 1, sl_pid := me\<rparr>"
  let ?x = "(bufs bc ! h)\<lparr>b_dev := d, b_blockno := b, b_refcnt := 1, b_lock := ?lk,
              b_data := bdisk bc b, b_valid := 1\<rparr>"
  let ?bc2 = "upd_buf h (\<lambda>x. x\<lparr>b_lock := ?lk\<rparr>)
     (upd_buf h (\<lambda>x. x\<lparr>b_dev := d, b_blockno := b, b_valid := 0, b_refcnt := 1\<rparr>) bc)"
  let ?bc = "upd_buf h (\<lambda>x. x\<lparr>b_valid := 1\<rparr>) (virtio_disk_rw h False ?bc2)"
  have b: "bufs ?bc = (bufs bc)[h := ?x]" "bdisk ?bc = bdisk bc" "bhist ?bc = bhist bc"
    "lru_inv ?bc = lru_inv bc"
    using h(1) len by (simp_all add: virtio_disk_rw_def Let_def)
  have "bread me d b bc = Ok (h, ?bc)"
    unfolding bread_def bget_def scan_hit [OF inv] sl scan
    using h un len by (simp add: lock_buf_def acquiresleep_def)
  moreover have i: "bc_inv d ?bc"
    using bc_invD(1,5) [OF inv] b
    by (intro recycle_inv [OF inv h(1) sl b(1) _ _ b(2)]) (auto simp: buf_ok_def)
  moreover have "held me d bc h = None" using un by (simp add: held_def holdingsleep_def)
  moreover have "bc_abs me d ?bc = sp_bread b h (bc_abs me d bc)"
    by (rule recycle_abs [OF inv h sl b(1) _ _ b(2,3) _ _ _ _ i]) simp_all
  ultimately show ?thesis by blast
qed

lemma bread_refines:
  assumes inv: "bc_inv d bc" and free: "\<not> busy d bc b" and lt: "pins d bc b < 2 ^ 31"
    and rm: "0 < room bc \<or> 0 < pins d bc b"
  shows "\<exists>h bc'. bread me d b bc = Ok (h, bc') \<and> bc_inv d bc' \<and> held me d bc h = None
             \<and> bc_abs me d bc' = sp_bread b h (bc_abs me d bc)"
proof (cases "slot d bc b")
  case None
  then have "0 < room bc" using rm by (simp add: pins_def)
  then show ?thesis by (rule bread_fresh [OF inv None])
next
  case (Some h)
  show ?thesis using bread_cached [OF inv Some free lt] by blast
qed


subsection \<open>The interpretation\<close>

lemma bc_abs_simps [simp]:
  "vw (bc_abs me d bc) = view d bc" "dk (bc_abs me d bc) = bdisk bc" "hs (bc_abs me d bc) = bhist bc"
  "bz (bc_abs me d bc) = busy d bc" "pn (bc_abs me d bc) = pins d bc" "hl (bc_abs me d bc) = held me d bc"
  "rm (bc_abs me d bc) = room bc"
  by (simp_all add: bc_abs_def)

lemma cache_ops_simps [simp]:
  "op_bread (cache_ops me) = bread me" "op_blockno (cache_ops me) h bc = b_blockno (bufs bc ! h)"
  "op_data (cache_ops me) = buf_data" "op_store (cache_ops me) = buf_store"
  "op_bwrite (cache_ops me) = bwrite me" "op_brelse (cache_ops me) = brelse me"
  "op_bpin (cache_ops me) = bpin" "op_bunpin (cache_ops me) = bunpin"
  by (simp_all add: cache_ops_def)

lemma view_length: "bc_inv d bc \<Longrightarrow> length (view d bc b) = BSIZE"
  using bc_invD(3,5) [of d bc] slot_Some(1) [of d bc b]
  by (auto simp: view_def buf_ok_def split: option.split)

lemma view_clean:
  assumes inv: "bc_inv d bc" and "\<not> busy d bc b" and "pins d bc b = 0"
  shows "view d bc b = bdisk bc b"
proof (cases "slot d bc b")
  case None
  then show ?thesis by (simp add: view_def)
next
  case (Some i)
  note s = slot_Some [OF Some]
  have "buf_ok d (bdisk bc) (bufs bc ! i)" by (rule bc_invD(3) [OF inv s(1)])
  then show ?thesis using Some s assms(2,3)
    by (auto simp: view_def busy_def pins_def buf_ok_def unat_eq_zero)
qed

text \<open>Every buffer is free or is the buffer of one block in use.\<close>

lemma count_in_use:
  assumes inv: "bc_inv d bc"
  shows "finite {b. busy d bc b \<or> 0 < pins d bc b}
       \<and> room bc + card {b. busy d bc b \<or> 0 < pins d bc b} = NBUF"
proof -
  let ?U = "{i. i < NBUF \<and> b_refcnt (bufs bc ! i) \<noteq> 0}"
  let ?F = "{i. i < NBUF \<and> b_refcnt (bufs bc ! i) = 0}"
  have dev: "b_dev (bufs bc ! i) = d" if "i \<in> ?U" for i
    using bc_invD(3) [OF inv, of i] that by (auto simp: buf_ok_def)
  have "inj_on (\<lambda>i. b_blockno (bufs bc ! i)) ?U"
    by (rule inj_onI) (use dev bc_invD(4) [OF inv] in blast)
  moreover have "(\<lambda>i. b_blockno (bufs bc ! i)) ` ?U = {b. busy d bc b \<or> 0 < pins d bc b}" (is "_ = ?B")
  proof
    show "(\<lambda>i. b_blockno (bufs bc ! i)) ` ?U \<subseteq> ?B"
    proof
      fix b assume "b \<in> (\<lambda>i. b_blockno (bufs bc ! i)) ` ?U"
      then obtain i where i: "i \<in> ?U" "b = b_blockno (bufs bc ! i)" by blast
      then have "slot d bc b = Some i" using slot_I [OF inv _ dev [OF i(1)]] by simp
      with i(1) show "b \<in> ?B" by (auto simp: busy_def pins_def unat_gt_0)
    qed
    show "?B \<subseteq> (\<lambda>i. b_blockno (bufs bc ! i)) ` ?U"
    proof
      fix b assume b: "b \<in> ?B"
      then obtain i where i: "slot d bc b = Some i" by (auto simp: busy_def pins_def split: option.splits)
      note s = slot_Some [OF i]
      have "b_refcnt (bufs bc ! i) \<noteq> 0"
        using b i bc_invD(3) [OF inv s(1)] by (auto simp: busy_def pins_def buf_ok_def)
      then show "b \<in> (\<lambda>i. b_blockno (bufs bc ! i)) ` ?U" using s by blast
    qed
  qed
  ultimately have c: "card ?B = card ?U" "finite ?B"
    using card_image [of "\<lambda>i. b_blockno (bufs bc ! i)" ?U] by (auto simp flip: \<open>_ = ?B\<close>)
  have "?F \<union> ?U = {..<NBUF}" "?F \<inter> ?U = {}" by auto
  then have "card ?F + card ?U = NBUF"
    using card_Un_disjoint [of ?F ?U] by simp
  with c show ?thesis by (simp add: room_def)
qed

interpretation cache: block_io "cache_ops me" d "bc_inv d" "bc_abs me d" for me d
proof (unfold_locales, goal_cases)
  case (1 s b)
  then show ?case using bread_refines by simp
next
  case (2 s h b)
  then show ?case using held_Some(4) by simp
next
  case (3 s h b)
  then show ?case using held_facts(10) by (simp add: buf_data_def)
next
  case (4 s h b x)
  then show ?case using store_refines by simp
next
  case (5 s h b)
  then show ?case using bwrite_refines by simp
next
  case (6 s h b)
  then show ?case using brelse_refines by simp
next
  case (7 s h b)
  then show ?case using bpin_refines by simp
next
  case (8 s h b)
  then show ?case using bunpin_refines by simp
next
  case (9 s b)
  then show ?case using bc_invD(5) view_length by simp
next
  case (10 s h b)
  then show ?case using held_facts(8) by simp
next
  case (11 s b)
  then show ?case using view_clean by simp
next
  case (12 s)
  then show ?case using count_in_use by simp
qed


section \<open>Initialisation\<close>

lemma binit_links:
  assumes "n \<le> NBUF"
  shows "\<exists>bc'. fold (\<lambda>b bc. link_front b (upd_buf b (\<lambda>x. x\<lparr>b_lock := initsleeplock\<rparr>) bc)) [0..<n]
            (bc\<lparr>b_prev := (b_prev bc)(BHEAD := BHEAD), b_next := (b_next bc)(BHEAD := BHEAD)\<rparr>) = bc'
     \<and> dll (b_next bc') (b_prev bc') BHEAD (rev [0..<n])
     \<and> length (bufs bc') = length (bufs bc) \<and> bdisk bc' = bdisk bc \<and> bhist bc' = bhist bc
     \<and> (\<forall>i < length (bufs bc). bufs bc' ! i =
          (if i < n then (bufs bc ! i)\<lparr>b_lock := initsleeplock\<rparr> else bufs bc ! i))"
  using assms
proof (induction n)
  case 0
  then show ?case by (auto intro: dll_empty)
next
  case (Suc n)
  obtain bc1 where bc1:
    "fold (\<lambda>b bc. link_front b (upd_buf b (\<lambda>x. x\<lparr>b_lock := initsleeplock\<rparr>) bc)) [0..<n]
       (bc\<lparr>b_prev := (b_prev bc)(BHEAD := BHEAD), b_next := (b_next bc)(BHEAD := BHEAD)\<rparr>) = bc1"
    "dll (b_next bc1) (b_prev bc1) BHEAD (rev [0..<n])"
    "length (bufs bc1) = length (bufs bc)" "bdisk bc1 = bdisk bc" "bhist bc1 = bhist bc"
    "\<forall>i < length (bufs bc). bufs bc1 ! i =
          (if i < n then (bufs bc ! i)\<lparr>b_lock := initsleeplock\<rparr> else bufs bc ! i)"
    using Suc.IH [OF Suc_leD [OF Suc.prems]] by blast
  let ?bc = "link_front n (upd_buf n (\<lambda>x. x\<lparr>b_lock := initsleeplock\<rparr>) bc1)"
  have "dll (b_next ?bc) (b_prev ?bc) BHEAD (n # rev [0..<n])"
    using dll_link_front [OF bc1(2), of n] Suc.prems by (simp add: link_front_def)
  moreover have "\<forall>i < length (bufs bc). bufs ?bc ! i =
          (if i < Suc n then (bufs bc ! i)\<lparr>b_lock := initsleeplock\<rparr> else bufs bc ! i)"
  proof (intro allI impI)
    fix i assume "i < length (bufs bc)"
    then show "bufs ?bc ! i =
          (if i < Suc n then (bufs bc ! i)\<lparr>b_lock := initsleeplock\<rparr> else bufs bc ! i)"
      using bc1(3,6) by (cases "i = n") auto
  qed
  moreover have "fold (\<lambda>b bc. link_front b (upd_buf b (\<lambda>x. x\<lparr>b_lock := initsleeplock\<rparr>) bc)) [0..<Suc n]
       (bc\<lparr>b_prev := (b_prev bc)(BHEAD := BHEAD), b_next := (b_next bc)(BHEAD := BHEAD)\<rparr>) = ?bc"
    unfolding upt_Suc_append [OF le0] fold_append o_apply bc1(1) by simp
  ultimately show ?case
    using bc1(3-5) by (intro exI [of _ ?bc] conjI) (assumption | simp)+
qed

text \<open>The cache as the boot finds it: zeroed memory (\<open>bcache\<close> is a static variable).\<close>

definition zero_buf :: buf where
  "zero_buf = \<lparr>b_valid = 0, b_dev = 0, b_blockno = 0, b_lock = \<lparr>sl_locked = 0, sl_pid = 0\<rparr>,
               b_refcnt = 0, b_data = replicate BSIZE 0\<rparr>"

definition zero_cache :: "(u32 \<Rightarrow> block) \<Rightarrow> bcache" where
  "zero_cache dsk = \<lparr>bufs = replicate NBUF zero_buf, b_next = (\<lambda>_. 0), b_prev = (\<lambda>_. 0),
                     bdisk = dsk, bhist = []\<rparr>"

lemma binit_zero:
  assumes "d \<noteq> 0" and "\<And>b. length (dsk b) = BSIZE"
  shows "bc_inv d (binit (zero_cache dsk))"
    and "bc_abs me d (binit (zero_cache dsk))
         = \<lparr>vw = dsk, dk = dsk, hs = [], bz = (\<lambda>_. False), pn = (\<lambda>_. 0), hl = (\<lambda>_. None), rm = NBUF\<rparr>"
proof -
  obtain bc' where bc': "binit (zero_cache dsk) = bc'"
    "dll (b_next bc') (b_prev bc') BHEAD (rev [0..<NBUF])"
    "length (bufs bc') = NBUF" "bdisk bc' = dsk" "bhist bc' = []"
    "\<forall>i < NBUF. bufs bc' ! i = zero_buf\<lparr>b_lock := initsleeplock\<rparr>"
    using binit_links [of NBUF "zero_cache dsk"] unfolding binit_def
    by (auto simp: zero_cache_def simp del: upt_rec_numeral)
  have "set (rev [0..<NBUF]) = {..<NBUF}" unfolding set_rev set_upt by (auto simp: lessThan_def)
  then have "lru_inv bc'" using bc'(2) unfolding lru_inv_def by blast
  moreover have b: "b_dev (bufs bc' ! i) = 0" "b_refcnt (bufs bc' ! i) = 0"
    "sl_locked (b_lock (bufs bc' ! i)) = 0" "length (b_data (bufs bc' ! i)) = BSIZE" if "i < NBUF" for i
    using bc'(6) that by (auto simp: zero_buf_def initsleeplock_def)
  ultimately show i: "bc_inv d (binit (zero_cache dsk))"
    unfolding bc'(1) bc_inv_def using bc'(3,4) assms by (auto simp: buf_ok_def)
  have n: "slot d bc' b = None" for b using b(1) assms(1) unfolding slot_None by auto
  have "{i. i < NBUF \<and> b_refcnt (bufs bc' ! i) = 0} = {..<NBUF}" using b(2) by auto
  then have "room bc' = NBUF" by (simp add: room_def)
  moreover have "held me d bc' h = None" for h using b(3) by (auto simp: held_def holdingsleep_def)
  ultimately show "bc_abs me d (binit (zero_cache dsk))
         = \<lparr>vw = dsk, dk = dsk, hs = [], bz = (\<lambda>_. False), pn = (\<lambda>_. 0), hl = (\<lambda>_. None), rm = NBUF\<rparr>"
    unfolding bc'(1) bc_abs_def using n bc'(4,5)
    by (simp add: view_def busy_def pins_def fun_eq_iff)
qed

section \<open>Properties\<close>

text \<open>C5: \<open>bread\<close> never hands out stale data or two buffers for one block. Called for a block
  nobody has locked, with a buffer free or the block pinned, it returns a buffer that was not
  held, now locked by the caller, whose data is the block as the last user of the cache left it
  (the disk contents if it was not cached), and the invariant (one buffer per block, unreferenced
  buffers equal to the disk) is kept. Nothing is written.\<close>

theorem bread_correct:
  assumes "bc_inv d bc" and "\<not> busy d bc b" and "pins d bc b < 2 ^ 31"
    and "0 < room bc \<or> 0 < pins d bc b"
  shows "\<exists>h bc'. bread me d b bc = Ok (h, bc') \<and> bc_inv d bc'
       \<and> held me d bc h = None \<and> held me d bc' = (held me d bc)(h := Some b)
       \<and> buf_data h bc' = view d bc b \<and> view d bc' = view d bc
       \<and> busy d bc' = (busy d bc)(b := True) \<and> pins d bc' = pins d bc
       \<and> room bc' = room bc - (if pins d bc b = 0 then 1 else 0)
       \<and> bdisk bc' = bdisk bc \<and> bhist bc' = bhist bc"
proof -
  obtain h bc' where r: "bread me d b bc = Ok (h, bc')" "bc_inv d bc'" "held me d bc h = None"
    "bc_abs me d bc' = sp_bread b h (bc_abs me d bc)"
    using bread_refines [OF assms] by blast
  have a: "view d bc' = view d bc" "bdisk bc' = bdisk bc" "bhist bc' = bhist bc"
    "busy d bc' = (busy d bc)(b := True)" "held me d bc' = (held me d bc)(h := Some b)"
    "room bc' = room bc - (if pins d bc b = 0 then 1 else 0)" "pins d bc' = pins d bc"
    using r(4) by (simp_all add: bc_abs_def sp_bread_def need_def)
  have "buf_data h bc' = view d bc' b"
    using cache.data_ok [of d bc' me h b] r(2) a by simp
  with r a show ?thesis by auto
qed

lemma bread_correct_witness:
  "\<exists>h bc'. bread 7 1 5 (binit (zero_cache (\<lambda>b. replicate BSIZE 9))) = Ok (h, bc') \<and> bc_inv 1 bc'
       \<and> held 7 1 (binit (zero_cache (\<lambda>b. replicate BSIZE 9))) h = None
       \<and> held 7 1 bc' = (held 7 1 (binit (zero_cache (\<lambda>b. replicate BSIZE 9))))(h := Some 5)
       \<and> buf_data h bc' = view 1 (binit (zero_cache (\<lambda>b. replicate BSIZE 9))) 5
       \<and> view 1 bc' = view 1 (binit (zero_cache (\<lambda>b. replicate BSIZE 9)))
       \<and> busy 1 bc' = (busy 1 (binit (zero_cache (\<lambda>b. replicate BSIZE 9))))(5 := True)
       \<and> pins 1 bc' = pins 1 (binit (zero_cache (\<lambda>b. replicate BSIZE 9)))
       \<and> room bc' = room (binit (zero_cache (\<lambda>b. replicate BSIZE 9)))
            - (if pins 1 (binit (zero_cache (\<lambda>b. replicate BSIZE 9))) 5 = 0 then 1 else 0)
       \<and> bdisk bc' = bdisk (binit (zero_cache (\<lambda>b. replicate BSIZE 9)))
       \<and> bhist bc' = bhist (binit (zero_cache (\<lambda>b. replicate BSIZE 9)))"
proof (rule bread_correct)
  have l: "length (replicate BSIZE (9 :: u8)) = BSIZE" by simp
  note z = binit_zero [of 1 "\<lambda>b. replicate BSIZE 9", OF _ l]
  show "bc_inv 1 (binit (zero_cache (\<lambda>b. replicate BSIZE 9)))" by (rule z(1)) simp
  have a: "bc_abs 7 1 (binit (zero_cache (\<lambda>b. replicate BSIZE 9))) = \<lparr>vw = \<lambda>b. replicate BSIZE 9,
      dk = \<lambda>b. replicate BSIZE 9, hs = [], bz = (\<lambda>_. False), pn = (\<lambda>_. 0), hl = (\<lambda>_. None), rm = NBUF\<rparr>"
    by (rule z(2)) simp
  then show "\<not> busy 1 (binit (zero_cache (\<lambda>b. replicate BSIZE 9))) 5"
    "pins 1 (binit (zero_cache (\<lambda>b. replicate BSIZE 9))) 5 < 2 ^ 31"
    "0 < room (binit (zero_cache (\<lambda>b. replicate BSIZE 9)))
     \<or> 0 < pins 1 (binit (zero_cache (\<lambda>b. replicate BSIZE 9))) 5"
    by (simp_all add: bc_abs_def)
qed

text \<open>The two ways \<open>bread\<close> does not return: it sleeps when somebody has the block locked,
  and panics with \<open>bget: no buffers\<close> when the block is not cached and every buffer is
  referenced. It has no other failure.\<close>

theorem bread_failures:
  assumes "bc_inv d bc"
  shows "(busy d bc b \<longrightarrow> bread me d b bc = Blocked)
       \<and> (slot d bc b = None \<longrightarrow> room bc = 0 \<longrightarrow> bread me d b bc = Panic ''bget: no buffers'')"
proof (intro conjI impI)
  assume "busy d bc b"
  then obtain h where h: "slot d bc b = Some h" "sl_locked (b_lock (bufs bc ! h)) \<noteq> 0"
    by (auto simp: busy_def split: option.splits)
  have "h < length (bufs bc)" using slot_Some(1) [OF h(1)] bc_invD(2) [OF assms] by simp
  with h show "bread me d b bc = Blocked"
    unfolding bread_def bget_def scan_hit [OF assms]
    by (simp add: lock_buf_def acquiresleep_def)
next
  assume "slot d bc b = None" and "room bc = 0"
  moreover obtain r where "scan (b_prev bc) BHEAD (\<lambda>b. b_refcnt (bufs bc ! b) = 0) (Suc NBUF)
       (b_prev bc BHEAD) = Ok r" "r = None"
    using scan_recycle [OF assms] \<open>room bc = 0\<close> by (auto split: option.splits)
  ultimately show "bread me d b bc = Panic ''bget: no buffers''"
    unfolding bread_def bget_def scan_hit [OF assms] by simp
qed

text \<open>A cache in which process 7 holds block 5.\<close>

lemma held_example:
  "\<exists>h bc. bc_inv 1 bc \<and> held 7 1 bc h = Some 5 \<and> pins 1 bc 5 = 0"
proof -
  let ?bc = "binit (zero_cache (\<lambda>b. replicate BSIZE 9))"
  have a: "bc_abs 7 1 ?bc = \<lparr>vw = \<lambda>b. replicate BSIZE 9,
      dk = \<lambda>b. replicate BSIZE 9, hs = [], bz = (\<lambda>_. False), pn = (\<lambda>_. 0), hl = (\<lambda>_. None), rm = NBUF\<rparr>"
    by (rule binit_zero(2)) simp_all
  have "\<exists>h bc'. bread 7 1 5 ?bc = Ok (h, bc') \<and> bc_inv 1 bc' \<and> held 7 1 ?bc h = None
             \<and> bc_abs 7 1 bc' = sp_bread 5 h (bc_abs 7 1 ?bc)"
    using a by (intro bread_refines binit_zero(1)) (simp_all add: bc_abs_def)
  then obtain h bc' where "bc_inv 1 bc'" "bc_abs 7 1 bc' = sp_bread 5 h (bc_abs 7 1 ?bc)" by blast
  moreover from this(2) have "held 7 1 bc' h = Some 5" "pins 1 bc' 5 = 0"
    using a by (simp_all add: bc_abs_def sp_bread_def)
  ultimately show ?thesis by blast
qed

lemma bread_failures_witness:
  "\<exists>bc h. held 7 1 bc h = Some 5 \<and> bread 8 1 5 bc = Blocked"
proof -
  obtain h bc where h: "bc_inv 1 bc" "held 7 1 bc h = Some 5" using held_example by blast
  have "busy 1 bc 5" by (rule held_facts(8) [OF h])
  with bread_failures [OF h(1), of 5 8] h(2) show ?thesis by blast
qed



end
