(* ===== verification/Log.thy ===== *)
theory Log imports BufferCache begin

text \<open>
  The redo log of kernel/log.c: \<open>initlog\<close>, \<open>recover_from_log\<close>, \<open>begin_op\<close>, \<open>log_write\<close>,
  \<open>end_op\<close> and \<open>commit\<close> with its parts, as functions over the in-memory log (record \<open>logst\<close>)
  and any block cache that meets the contract \<open>block_io\<close> (BufferCache.thy).

  Crash safety is stated with the history of block writes of the contract. A crash keeps
  the disk that some prefix of the writes produced (\<open>replay\<close>) and nothing else; \<open>recovered\<close> is
  the disk that the recovery code makes of it, and \<open>recover_from_log\<close> is proved to do that.
\<close>

section \<open>State\<close>

abbreviation MAXOPBLOCKS :: nat where "MAXOPBLOCKS \<equiv> 10"
abbreviation LOGSIZE :: nat where "LOGSIZE \<equiv> 30"

text \<open>\<open>struct log\<close>; \<open>lg_n\<close> and \<open>lg_block\<close> are its \<open>struct logheader\<close>.\<close>

record logst =
  lg_start :: u32
  lg_size :: int
  lg_outstanding :: int
  lg_committing :: bool
  lg_dev :: u32
  lg_n :: int
  lg_block :: "u32 list"

definition log_blk :: "logst \<Rightarrow> nat \<Rightarrow> u32" where
  "log_blk lg tail = lg_start lg + of_nat tail + 1"

section \<open>The header block\<close>

text \<open>\<open>struct logheader\<close> laid over the data of block \<open>log.start\<close>.\<close>

definition put_header :: "logst \<Rightarrow> block \<Rightarrow> block" where
  "put_header lg dat =
     fold (\<lambda>i dat. set32 dat (4 + 4 * i) (lg_block lg ! i)) [0..<nat (lg_n lg)]
       (set32 dat 0 (of_int (lg_n lg)))"

text \<open>\<open>Fault\<close>: the copy runs over the end of the array \<open>log.lh.block\<close>.\<close>

definition get_header :: "block \<Rightarrow> logst \<Rightarrow> logst kres" where
  "get_header dat lg =
     (let lg = lg\<lparr>lg_n := sint (get32 dat 0)\<rparr> in
      kfold (\<lambda>i lg. if length (lg_block lg) \<le> i then Fault
                    else Ok (lg\<lparr>lg_block := (lg_block lg)[i := get32 dat (4 + 4 * i)]\<rparr>))
        [0..<nat (lg_n lg)] lg)"

section \<open>Operations\<close>

definition install_one :: "'s blk_ops \<Rightarrow> bool \<Rightarrow> logst \<Rightarrow> nat \<Rightarrow> 's \<Rightarrow> 's kres" where
  "install_one ops recovering lg tail s =
     (if length (lg_block lg) \<le> tail then Fault else
      kbind (op_bread ops (lg_dev lg) (log_blk lg tail) s) (\<lambda>(lbuf, s).
      kbind (op_bread ops (lg_dev lg) (lg_block lg ! tail) s) (\<lambda>(dbuf, s).
      kbind (op_bwrite ops dbuf (op_store ops dbuf (op_data ops lbuf s) s)) (\<lambda>s.
      let s = (if recovering then s else op_bunpin ops dbuf s) in
      kbind (op_brelse ops lbuf s) (op_brelse ops dbuf)))))"

definition install_trans :: "'s blk_ops \<Rightarrow> bool \<Rightarrow> logst \<Rightarrow> 's \<Rightarrow> 's kres" where
  "install_trans ops recovering lg = kfold (install_one ops recovering lg) [0..<nat (lg_n lg)]"

definition read_head :: "'s blk_ops \<Rightarrow> logst \<Rightarrow> 's \<Rightarrow> (logst \<times> 's) kres" where
  "read_head ops lg s =
     kbind (op_bread ops (lg_dev lg) (lg_start lg) s) (\<lambda>(buf, s).
     kbind (get_header (op_data ops buf s) lg) (\<lambda>lg.
     kbind (op_brelse ops buf s) (\<lambda>s. Ok (lg, s))))"

definition write_head :: "'s blk_ops \<Rightarrow> logst \<Rightarrow> 's \<Rightarrow> 's kres" where
  "write_head ops lg s =
     (if length (lg_block lg) < nat (lg_n lg) then Fault else
      kbind (op_bread ops (lg_dev lg) (lg_start lg) s) (\<lambda>(buf, s).
      kbind (op_bwrite ops buf (op_store ops buf (put_header lg (op_data ops buf s)) s))
        (op_brelse ops buf)))"

definition recover_from_log :: "'s blk_ops \<Rightarrow> logst \<Rightarrow> 's \<Rightarrow> (logst \<times> 's) kres" where
  "recover_from_log ops lg s =
     kbind (read_head ops lg s) (\<lambda>(lg, s).
     kbind (install_trans ops True lg s) (\<lambda>s.
     let lg = lg\<lparr>lg_n := 0\<rparr> in
     kbind (write_head ops lg s) (\<lambda>s. Ok (lg, s))))"

text \<open>\<open>logstart\<close> and \<open>nlog\<close> come from the superblock. (The size check on the header type is a
  constant of the build: 124 bytes against 1024.)\<close>

definition initlog :: "'s blk_ops \<Rightarrow> u32 \<Rightarrow> u32 \<Rightarrow> u32 \<Rightarrow> logst \<Rightarrow> 's \<Rightarrow> (logst \<times> 's) kres" where
  "initlog ops dev logstart nlog lg s =
     recover_from_log ops (lg\<lparr>lg_start := logstart, lg_size := sint nlog, lg_dev := dev\<rparr>) s"

text \<open>One turn of the loop in \<open>begin_op\<close>; \<open>Blocked\<close> is the sleep on the log.\<close>

definition begin_op :: "logst \<Rightarrow> logst kres" where
  "begin_op lg =
     (if lg_committing lg then Blocked
      else if int LOGSIZE < lg_n lg + (lg_outstanding lg + 1) * int MAXOPBLOCKS then Blocked
      else Ok (lg\<lparr>lg_outstanding := lg_outstanding lg + 1\<rparr>))"

definition write_log_one :: "'s blk_ops \<Rightarrow> logst \<Rightarrow> nat \<Rightarrow> 's \<Rightarrow> 's kres" where
  "write_log_one ops lg tail s =
     (if length (lg_block lg) \<le> tail then Fault else
      kbind (op_bread ops (lg_dev lg) (log_blk lg tail) s) (\<lambda>(tob, s).
      kbind (op_bread ops (lg_dev lg) (lg_block lg ! tail) s) (\<lambda>(fromb, s).
      kbind (op_bwrite ops tob (op_store ops tob (op_data ops fromb s) s)) (\<lambda>s.
      kbind (op_brelse ops fromb s) (op_brelse ops tob)))))"

definition write_log :: "'s blk_ops \<Rightarrow> logst \<Rightarrow> 's \<Rightarrow> 's kres" where
  "write_log ops lg = kfold (write_log_one ops lg) [0..<nat (lg_n lg)]"

definition commit :: "'s blk_ops \<Rightarrow> logst \<Rightarrow> 's \<Rightarrow> (logst \<times> 's) kres" where
  "commit ops lg s =
     (if 0 < lg_n lg then
        kbind (write_log ops lg s) (\<lambda>s.
        kbind (write_head ops lg s) (\<lambda>s.
        kbind (install_trans ops False lg s) (\<lambda>s.
        let lg = lg\<lparr>lg_n := 0\<rparr> in
        kbind (write_head ops lg s) (\<lambda>s. Ok (lg, s)))))
      else Ok (lg, s))"

text \<open>The \<open>wakeup\<close> calls of \<open>end_op\<close> only let sleepers in \<open>begin_op\<close> try again.\<close>

definition end_op :: "'s blk_ops \<Rightarrow> logst \<Rightarrow> 's \<Rightarrow> (logst \<times> 's) kres" where
  "end_op ops lg s =
     (let lg = lg\<lparr>lg_outstanding := lg_outstanding lg - 1\<rparr> in
      if lg_committing lg then Panic ''log.committing''
      else if lg_outstanding lg = 0 then
        let lg = lg\<lparr>lg_committing := True\<rparr> in
        kbind (commit ops lg s) (\<lambda>(lg, s). Ok (lg\<lparr>lg_committing := False\<rparr>, s))
      else Ok (lg, s))"

text \<open>The absorption loop: the first index whose entry is the block, or \<open>lh.n\<close>.\<close>

fun absorb_index :: "u32 list \<Rightarrow> u32 \<Rightarrow> nat" where
  "absorb_index [] b = 0"
| "absorb_index (x # xs) b = (if x = b then 0 else Suc (absorb_index xs b))"

definition log_write :: "'s blk_ops \<Rightarrow> nat \<Rightarrow> logst \<Rightarrow> 's \<Rightarrow> (logst \<times> 's) kres" where
  "log_write ops b lg s =
     (if int LOGSIZE \<le> lg_n lg \<or> lg_size lg - 1 \<le> lg_n lg then Panic ''too big a transaction''
      else if lg_outstanding lg < 1 then Panic ''log_write outside of trans''
      else let i = absorb_index (take (nat (lg_n lg)) (lg_block lg)) (op_blockno ops b s);
               lg = lg\<lparr>lg_block := (lg_block lg)[i := op_blockno ops b s]\<rparr>
           in if int i = lg_n lg
              then Ok (lg\<lparr>lg_n := lg_n lg + 1\<rparr>, op_bpin ops b s)
              else Ok (lg, s))"

section \<open>Disks and crashes\<close>

definition replay :: "(u32 \<times> block) list \<Rightarrow> (u32 \<Rightarrow> block) \<Rightarrow> u32 \<Rightarrow> block" where
  "replay ws m = fold (\<lambda>(b, x) m. m(b := x)) ws m"

definition do_writes :: "(u32 \<times> block) list \<Rightarrow> bstate \<Rightarrow> bstate" where
  "do_writes ws a = a\<lparr>vw := replay ws (vw a), dk := replay ws (dk a), hs := hs a @ ws\<rparr>"

text \<open>What the header block on a disk says: how many blocks were committed, and which.\<close>

definition hdr_n :: "block \<Rightarrow> nat" where
  "hdr_n h = nat (sint (get32 h 0))"

definition hdr_block :: "block \<Rightarrow> nat \<Rightarrow> u32" where
  "hdr_block h i = get32 h (4 + 4 * i)"

text \<open>The blocks recovery writes, in order, and the disk it leaves.\<close>

definition redo :: "u32 \<Rightarrow> (u32 \<Rightarrow> block) \<Rightarrow> (u32 \<times> block) list" where
  "redo start m = map (\<lambda>i. (hdr_block (m start) i, m (start + of_nat i + 1))) [0..<hdr_n (m start)]"

definition recovered :: "u32 \<Rightarrow> (u32 \<Rightarrow> block) \<Rightarrow> u32 \<Rightarrow> block" where
  "recovered start m = replay (redo start m) m"

text \<open>Blocks of the log region: the header and the data blocks.\<close>

definition in_log :: "logst \<Rightarrow> u32 \<Rightarrow> bool" where
  "in_log lg b \<longleftrightarrow> (\<exists>i < nat (lg_size lg). b = lg_start lg + of_nat i)"

lemma replay_simps [simp]:
  "replay [] m = m" "replay ((b, x) # ws) m = replay ws (m(b := x))"
  by (simp_all add: replay_def)

lemma replay_append: "replay (xs @ ys) m = replay ys (replay xs m)"
  by (simp add: replay_def)

lemma replay_other: "b \<notin> fst ` set ws \<Longrightarrow> replay ws m b = m b"
proof (induction ws arbitrary: m)
  case (Cons w ws)
  then show ?case by (cases w) simp
qed simp

lemma replay_cong: "m b = m' b \<Longrightarrow> replay ws m b = replay ws m' b"
proof (induction ws arbitrary: m m')
  case (Cons w ws)
  obtain c x where w: "w = (c, x)" by (cases w)
  have "(m(c := x)) b = (m'(c := x)) b" using Cons.prems by simp
  then have "replay ws (m(c := x)) b = replay ws (m'(c := x)) b" by (rule Cons.IH)
  then show ?case by (simp only: w replay_simps)
qed simp

lemma do_writes_append: "do_writes (xs @ ys) a = do_writes ys (do_writes xs a)"
  by (simp add: do_writes_def replay_append)

lemma do_writes_Nil [simp]: "do_writes [] a = a"
  by (simp add: do_writes_def)

lemma do_writes_simps [simp]:
  "bz (do_writes ws a) = bz a" "pn (do_writes ws a) = pn a" "hl (do_writes ws a) = hl a"
  "rm (do_writes ws a) = rm a" "hs (do_writes ws a) = hs a @ ws"
  "vw (do_writes ws a) = replay ws (vw a)" "dk (do_writes ws a) = replay ws (dk a)"
  by (simp_all add: do_writes_def)


section \<open>One block copied\<close>

context block_io begin

lemma two_breads:
  assumes "inv s" and "\<not> bz (abs s) x" and "\<not> bz (abs s) y" and "x \<noteq> y"
    and "pn (abs s) x < 2 ^ 31" and "pn (abs s) y < 2 ^ 31"
    and "need (abs s) x + need (abs s) y \<le> rm (abs s)"
  obtains hx s1 hy s2 where "op_bread ops d x s = Ok (hx, s1)" and "op_bread ops d y s1 = Ok (hy, s2)"
    and "inv s2" and "hx \<noteq> hy" and "hl (abs s) hx = None" and "hl (abs s) hy = None"
    and "abs s2 = sp_bread y hy (sp_bread x hx (abs s))"
proof -
  have r: "0 < rm (abs s) \<or> 0 < pn (abs s) x" using assms(7) by (auto simp: need_def split: if_splits)
  obtain hx s1 where 1: "op_bread ops d x s = Ok (hx, s1)" "inv s1" "hl (abs s) hx = None"
    "abs s1 = sp_bread x hx (abs s)"
    using bread_ok [OF assms(1,2,5) r] by blast
  have "\<not> bz (abs s1) y" "pn (abs s1) y < 2 ^ 31" using 1(4) assms by (auto simp: sp_bread_def)
  moreover have "0 < rm (abs s1) \<or> 0 < pn (abs s1) y"
    using 1(4) assms(7) by (auto simp: sp_bread_def need_def split: if_splits)
  ultimately obtain hy s2 where 2: "op_bread ops d y s1 = Ok (hy, s2)" "inv s2"
    "hl (abs s1) hy = None" "abs s2 = sp_bread y hy (abs s1)"
    using bread_ok [OF 1(2)] by blast
  have "hx \<noteq> hy" "hl (abs s) hy = None" using 1(4) 2(3) by (auto simp: sp_bread_def split: if_splits)
  with 1 2 that show thesis by simp
qed

text \<open>Copy the data of the held buffer \<open>hs_\<close> into the held buffer \<open>hd\<close> and write that.\<close>

lemma copy_and_write:
  assumes "inv s" and "hl (abs s) h = Some x" and "hl (abs s) g = Some y" and "x \<noteq> y"
  shows "\<exists>s'. op_bwrite ops g (op_store ops g (op_data ops h s) s) = Ok s' \<and> inv s'
            \<and> abs s' = do_writes [(y, vw (abs s) x)] (abs s)"
proof -
  have dat: "op_data ops h s = vw (abs s) x" by (rule data_ok [OF assms(1,2)])
  let ?s1 = "op_store ops g (vw (abs s) x) s"
  have 1: "inv ?s1" "abs ?s1 = sp_store y (vw (abs s) x) (abs s)"
    using store_ok [OF assms(1,3)] len_ok [OF assms(1)] by auto
  then have "hl (abs ?s1) g = Some y" using assms(3) by (simp add: sp_store_def)
  from bwrite_ok [OF 1(1) this] obtain s' where
    "op_bwrite ops g ?s1 = Ok s'" "inv s'" "abs s' = sp_bwrite y (abs ?s1)" by blast
  with 1(2) show ?thesis
    unfolding dat by (auto simp: sp_bwrite_def sp_store_def do_writes_def)
qed

lemma write_log_one_ok:
  assumes "inv s" and "lg_dev lg = d" and "tail < length (lg_block lg)"
    and "lg_block lg ! tail = y" and "log_blk lg tail \<noteq> y"
    and "\<not> bz (abs s) (log_blk lg tail)" and "\<not> bz (abs s) y"
    and "pn (abs s) (log_blk lg tail) = 0" and "0 < pn (abs s) y" and "pn (abs s) y < 2 ^ 31"
    and "0 < rm (abs s)"
  shows "\<exists>s'. write_log_one ops lg tail s = Ok s' \<and> inv s'
            \<and> abs s' = do_writes [(log_blk lg tail, vw (abs s) y)] (abs s)"
proof -
  let ?x = "log_blk lg tail"
  have n: "need (abs s) ?x + need (abs s) y \<le> rm (abs s)" and p: "pn (abs s) ?x < 2 ^ 31"
    using assms by (auto simp: need_def)
  obtain hx s1 hy s2 where 2: "op_bread ops d ?x s = Ok (hx, s1)" "op_bread ops d y s1 = Ok (hy, s2)"
    "inv s2" "hx \<noteq> hy" "hl (abs s) hx = None" "hl (abs s) hy = None"
    "abs s2 = sp_bread y hy (sp_bread ?x hx (abs s))"
    using two_breads [OF assms(1,6,7,5) p assms(10) n] by blast
  have h2: "hl (abs s2) hx = Some ?x" "hl (abs s2) hy = Some y" using 2(4,7) by (auto simp: sp_bread_def)
  have v2: "vw (abs s2) = vw (abs s)" by (simp add: 2(7) sp_bread_def)
  obtain s3 where 3: "op_bwrite ops hx (op_store ops hx (op_data ops hy s2) s2) = Ok s3" "inv s3"
    "abs s3 = do_writes [(?x, vw (abs s) y)] (abs s2)"
    using copy_and_write [OF 2(3) h2(2,1) not_sym [OF assms(5)]] v2 by auto
  have h3: "hl (abs s3) hy = Some y" "0 < pn (abs s3) y" using 3 h2 2 assms(9) by (auto simp: sp_bread_def)
  obtain s4 where 4: "op_brelse ops hy s3 = Ok s4" "inv s4" "abs s4 = sp_brelse y hy (abs s3)"
    using brelse_ok [OF 3(2) h3(1)] h3(2) by blast
  have h4: "hl (abs s4) hx = Some ?x" "vw (abs s4) ?x = dk (abs s4) ?x"
    using 4 3 h2 2(4) by (auto simp: sp_brelse_def)
  obtain s5 where 5: "op_brelse ops hx s4 = Ok s5" "inv s5" "abs s5 = sp_brelse ?x hx (abs s4)"
    using brelse_ok [OF 4(2) h4(1)] h4(2) by blast
  have "abs s5 = do_writes [(?x, vw (abs s) y)] (abs s)"
    using assms 2(4-7) unfolding 5(3) 4(3) 3(3) 2(7)
    by (intro bstate.equality) (auto simp: do_writes_def sp_defs fun_eq_iff)
  moreover have "write_log_one ops lg tail s = Ok s5"
    using assms(2-4) 2(1,2) 3(1) 4(1) 5(1) by (simp add: write_log_one_def)
  ultimately show ?thesis using 5(2) by blast
qed

text \<open>One pin of block \<open>b\<close> given back.\<close>

definition give_back :: "u32 \<Rightarrow> bstate \<Rightarrow> bstate" where
  "give_back b a = a\<lparr>pn := (pn a)(b := pn a b - 1), rm := rm a + (if pn a b = 1 then 1 else 0)\<rparr>"

lemma install_one_ok:
  assumes "inv s" and "lg_dev lg = d" and "tail < length (lg_block lg)"
    and "lg_block lg ! tail = y" and "log_blk lg tail \<noteq> y"
    and "\<not> bz (abs s) (log_blk lg tail)" and "\<not> bz (abs s) y"
    and "pn (abs s) (log_blk lg tail) = 0" and "pn (abs s) y < 2 ^ 31"
    and "0 < rm (abs s)"
    and "if recovering then pn (abs s) y = 0 \<and> 1 < rm (abs s) else 0 < pn (abs s) y"
  shows "\<exists>s'. install_one ops recovering lg tail s = Ok s' \<and> inv s'
            \<and> abs s' = (if recovering then id else give_back y)
                (do_writes [(y, vw (abs s) (log_blk lg tail))] (abs s))"
proof -
  let ?x = "log_blk lg tail"
  have n: "need (abs s) ?x + need (abs s) y \<le> rm (abs s)" and p: "pn (abs s) ?x < 2 ^ 31"
    using assms by (auto simp: need_def split: if_splits)
  have clean: "vw (abs s) ?x = dk (abs s) ?x" by (rule clean_ok [OF assms(1,6,8)])
  obtain hx s1 hy s2 where 2: "op_bread ops d ?x s = Ok (hx, s1)" "op_bread ops d y s1 = Ok (hy, s2)"
    "inv s2" "hx \<noteq> hy" "hl (abs s) hx = None" "hl (abs s) hy = None"
    "abs s2 = sp_bread y hy (sp_bread ?x hx (abs s))"
    using two_breads [OF assms(1,6,7,5) p assms(9) n] by blast
  have h2: "hl (abs s2) hx = Some ?x" "hl (abs s2) hy = Some y" using 2(4,7) by (auto simp: sp_bread_def)
  have v2: "vw (abs s2) = vw (abs s)" by (simp add: 2(7) sp_bread_def)
  obtain s3 where 3: "op_bwrite ops hy (op_store ops hy (op_data ops hx s2) s2) = Ok s3" "inv s3"
    "abs s3 = do_writes [(y, vw (abs s) ?x)] (abs s2)"
    using copy_and_write [OF 2(3) h2(1,2) assms(5)] v2 by auto
  define s4 where "s4 = (if recovering then s3 else op_bunpin ops hy s3)"
  have h3: "hl (abs s3) hy = Some y" "pn (abs s3) = pn (abs s)" using 3 h2 2 by (auto simp: sp_bread_def)
  have 4: "inv s4" "abs s4 = (if recovering then abs s3 else sp_bunpin y (abs s3))"
    using bunpin_ok [OF 3(2) h3(1)] h3(2) assms(11) 3(2) by (auto simp: s4_def)
  have h4: "hl (abs s4) hx = Some ?x" "hl (abs s4) hy = Some y"
    "vw (abs s4) ?x = dk (abs s4) ?x" "vw (abs s4) y = dk (abs s4) y"
    using 4 3 h2 2(7) clean assms(5) by (auto simp: sp_defs)
  obtain s5 where 5: "op_brelse ops hx s4 = Ok s5" "inv s5" "abs s5 = sp_brelse ?x hx (abs s4)"
    using brelse_ok [OF 4(1) h4(1)] h4(3) by blast
  have h5: "hl (abs s5) hy = Some y" "vw (abs s5) y = dk (abs s5) y"
    using 5 h4 2(4) by (auto simp: sp_brelse_def)
  obtain s6 where 6: "op_brelse ops hy s5 = Ok s6" "inv s6" "abs s6 = sp_brelse y hy (abs s5)"
    using brelse_ok [OF 5(2) h5(1)] h5(2) by blast
  have "abs s6 = (if recovering then id else give_back y) (do_writes [(y, vw (abs s) ?x)] (abs s))"
    using assms 2(4-6) unfolding 6(3) 5(3) 4(2) 3(3) 2(7)
    by (intro bstate.equality)
      (cases recovering; auto simp: do_writes_def sp_defs give_back_def fun_eq_iff)+
  moreover have "install_one ops recovering lg tail s = Ok s6"
    using assms(2-4) 2(1,2) 3(1) 5(1) 6(1) by (simp add: install_one_def s4_def Let_def)
  ultimately show ?thesis using 6(2) by blast
qed

end


section \<open>The header, written and read\<close>

lemma fold_set32:
  assumes "4 + 4 * n \<le> length dat" and "n \<le> length xs"
  shows "length (fold (\<lambda>i dat. set32 dat (4 + 4 * i) (xs ! i)) [0..<n] dat) = length dat
       \<and> get32 (fold (\<lambda>i dat. set32 dat (4 + 4 * i) (xs ! i)) [0..<n] dat) 0 = get32 dat 0
       \<and> (\<forall>i < n. get32 (fold (\<lambda>i dat. set32 dat (4 + 4 * i) (xs ! i)) [0..<n] dat) (4 + 4 * i) = xs ! i)"
  using assms
proof (induction n)
  case (Suc n)
  let ?f = "fold (\<lambda>i dat. set32 dat (4 + 4 * i) (xs ! i)) [0..<n] dat"
  have IH: "length ?f = length dat" "get32 ?f 0 = get32 dat 0"
    "\<And>i. i < n \<Longrightarrow> get32 ?f (4 + 4 * i) = xs ! i"
    using Suc by auto
  have "get32 (set32 ?f (4 + 4 * n) (xs ! n)) 0 = get32 dat 0"
    using IH(1,2) Suc.prems by (subst get32_set32_other) auto
  moreover have "get32 (set32 ?f (4 + 4 * n) (xs ! n)) (4 + 4 * i) = xs ! i" if "i < Suc n" for i
  proof (cases "i = n")
    case True
    have "4 + 4 * n + 4 \<le> length ?f" using IH(1) Suc.prems by simp
    then show ?thesis using True by simp
  next
    case False
    with that have "get32 (set32 ?f (4 + 4 * n) (xs ! n)) (4 + 4 * i) = get32 ?f (4 + 4 * i)"
      using IH(1) Suc.prems by (intro get32_set32_other) auto
    with False that IH(3) show ?thesis by simp
  qed
  ultimately show ?case using IH(1) Suc.prems by simp
qed simp

lemma put_header_ok:
  assumes "length dat = BSIZE" and "0 \<le> lg_n lg" and "lg_n lg \<le> 254" and "lg_n lg \<le> int (length (lg_block lg))"
  shows "length (put_header lg dat) = BSIZE" and "hdr_n (put_header lg dat) = nat (lg_n lg)"
    and "i < nat (lg_n lg) \<Longrightarrow> hdr_block (put_header lg dat) i = lg_block lg ! i"
proof -
  let ?d = "set32 dat 0 (of_int (lg_n lg))"
  have d: "length ?d = BSIZE" "get32 ?d 0 = of_int (lg_n lg)" using assms(1) by simp_all
  have n: "4 + 4 * nat (lg_n lg) \<le> length ?d" "nat (lg_n lg) \<le> length (lg_block lg)"
    using d assms by linarith+
  note f = fold_set32 [OF n]
  show "length (put_header lg dat) = BSIZE" using f d by (simp add: put_header_def)
  have "sint (of_int (lg_n lg) :: u32) = lg_n lg"
    using assms(2,3) by (simp add: signed_of_int signed_take_bit_int_eq_self)
  then show "hdr_n (put_header lg dat) = nat (lg_n lg)"
    using f d by (simp add: put_header_def hdr_n_def)
  show "hdr_block (put_header lg dat) i = lg_block lg ! i" if "i < nat (lg_n lg)"
    using f that by (simp add: put_header_def hdr_block_def)
qed

lemma get_header_loop:
  assumes "n \<le> length (lg_block lg)"
  shows "kfold (\<lambda>i lg. if length (lg_block lg) \<le> i then Fault
              else Ok (lg\<lparr>lg_block := (lg_block lg)[i := get32 dat (4 + 4 * i)]\<rparr>)) [0..<n] lg
         = Ok (lg\<lparr>lg_block := map (hdr_block dat) [0..<n] @ drop n (lg_block lg)\<rparr>)"
  using assms
proof (induction n)
  case (Suc n)
  then have "drop n (lg_block lg) = lg_block lg ! n # drop (Suc n) (lg_block lg)"
    by (simp add: Cons_nth_drop_Suc)
  with Suc show ?case by (simp add: kfold_append hdr_block_def list_update_append)
qed simp

lemma get_header_ok:
  assumes "hdr_n dat \<le> length (lg_block lg)"
  shows "get_header dat lg = Ok (lg\<lparr>lg_n := sint (get32 dat 0),
           lg_block := map (hdr_block dat) [0..<hdr_n dat] @ drop (hdr_n dat) (lg_block lg)\<rparr>)"
  unfolding get_header_def Let_def
  using get_header_loop [of "hdr_n dat" "lg\<lparr>lg_n := sint (get32 dat 0)\<rparr>" dat] assms
  by (simp add: hdr_n_def)

section \<open>The loops\<close>

text \<open>What the log needs of its fields: room for its entries, no duplicates, and no entry inside
  the log region.\<close>

definition logged :: "logst \<Rightarrow> u32 list" where
  "logged lg = take (nat (lg_n lg)) (lg_block lg)"

definition log_ok :: "logst \<Rightarrow> bool" where
  "log_ok lg \<longleftrightarrow> length (lg_block lg) = LOGSIZE \<and> 0 \<le> lg_n lg \<and> lg_n lg < lg_size lg
     \<and> lg_n lg \<le> int LOGSIZE \<and> lg_size lg \<le> 2 ^ 31
     \<and> distinct (logged lg) \<and> (\<forall>b \<in> set (logged lg). \<not> in_log lg b)"

lemma log_okD:
  assumes "log_ok lg"
  shows "length (lg_block lg) = LOGSIZE" "0 \<le> lg_n lg" "lg_n lg < lg_size lg" "nat (lg_n lg) \<le> LOGSIZE"
    and "lg_size lg \<le> 2 ^ 31" "distinct (logged lg)" "length (logged lg) = nat (lg_n lg)"
    and "i < nat (lg_n lg) \<Longrightarrow> lg_block lg ! i \<in> set (logged lg)"
    and "i < nat (lg_n lg) \<Longrightarrow> logged lg ! i = lg_block lg ! i"
    and "i < nat (lg_n lg) \<Longrightarrow> \<not> in_log lg (lg_block lg ! i)"
proof -
  show a: "length (lg_block lg) = LOGSIZE" "0 \<le> lg_n lg" "lg_n lg < lg_size lg" "lg_size lg \<le> 2 ^ 31"
    "distinct (logged lg)" and le: "nat (lg_n lg) \<le> LOGSIZE"
    using assms by (auto simp: log_ok_def)
  show l: "length (logged lg) = nat (lg_n lg)" using a(1) le by (simp add: logged_def)
  show i: "logged lg ! i = lg_block lg ! i" if "i < nat (lg_n lg)" using that by (simp add: logged_def)
  show s: "lg_block lg ! i \<in> set (logged lg)" if "i < nat (lg_n lg)"
    using i [OF that] nth_mem [of i "logged lg"] l that by simp
  show "\<not> in_log lg (lg_block lg ! i)" if "i < nat (lg_n lg)"
    using s [OF that] assms by (auto simp: log_ok_def)
qed

lemma in_log_start: "0 < lg_size lg \<Longrightarrow> in_log lg (lg_start lg)"
  by (auto simp: in_log_def intro: exI [of _ 0])

lemma in_log_blk: "int i + 1 < lg_size lg \<Longrightarrow> in_log lg (log_blk lg i)"
  unfolding in_log_def log_blk_def by (rule exI [of _ "Suc i"]) auto

lemma log_blk_start: "i < 2 ^ 31 \<Longrightarrow> log_blk lg i \<noteq> lg_start lg"
proof
  assume i: "i < 2 ^ 31" and "log_blk lg i = lg_start lg"
  then have "(of_nat (Suc i) :: u32) = 0" by (simp add: log_blk_def algebra_simps)
  then have "(2 :: nat) ^ 32 dvd Suc i"
    using word_of_nat_eq_0_iff [where 'a = 32, of "Suc i"] by simp
  then show False using i by (auto dest: dvd_imp_le)
qed

lemma log_blk_inj:
  assumes "log_blk lg i = log_blk lg j" and "i < 2 ^ 31" and "j < 2 ^ 31"
  shows "i = j"
proof -
  have "(of_nat i :: u32) = of_nat j" using assms(1) by (simp add: log_blk_def)
  then show ?thesis
    using assms(2,3) by (simp add: word_of_nat_eq_iff take_bit_nat_eq_self)
qed


text \<open>The writes of the four phases of a commit, from the contents \<open>m\<close> the processes see.\<close>

definition log_writes :: "logst \<Rightarrow> (u32 \<Rightarrow> block) \<Rightarrow> (u32 \<times> block) list" where
  "log_writes lg m = map (\<lambda>i. (log_blk lg i, m (lg_block lg ! i))) [0..<nat (lg_n lg)]"

definition head_write :: "logst \<Rightarrow> (u32 \<Rightarrow> block) \<Rightarrow> (u32 \<times> block) list" where
  "head_write lg m = [(lg_start lg, put_header lg (m (lg_start lg)))]"

definition home_writes :: "logst \<Rightarrow> (u32 \<Rightarrow> block) \<Rightarrow> (u32 \<times> block) list" where
  "home_writes lg m = map (\<lambda>i. (lg_block lg ! i, m (log_blk lg i))) [0..<nat (lg_n lg)]"

definition commit_writes :: "logst \<Rightarrow> (u32 \<Rightarrow> block) \<Rightarrow> (u32 \<times> block) list" where
  "commit_writes lg m =
     (let w1 = log_writes lg m; m1 = replay w1 m;
          w2 = head_write lg m1; m2 = replay w2 m1;
          w3 = home_writes lg m2; m3 = replay w3 m2
      in w1 @ w2 @ w3 @ head_write (lg\<lparr>lg_n := 0\<rparr>) m3)"

lemma replay_map_distinct:
  assumes "distinct (map f xs)" and "x \<in> set xs"
  shows "replay (map (\<lambda>i. (f i, g i)) xs) m (f x) = g x"
  using assms
proof (induction xs arbitrary: m)
  case (Cons y ys)
  show ?case
  proof (cases "x \<in> set ys")
    case True
    then show ?thesis using Cons by simp
  next
    case False
    then have "x = y" using Cons.prems by simp
    moreover have "f y \<notin> fst ` set (map (\<lambda>i. (f i, g i)) ys)" using Cons.prems by auto
    ultimately show ?thesis by (simp add: replay_other)
  qed
qed simp

text \<open>The quiescent state a commit starts from: the log region and the logged blocks are
  unlocked, the latter pinned, and one buffer is free.\<close>

definition commit_ready :: "logst \<Rightarrow> bstate \<Rightarrow> bool" where
  "commit_ready lg a \<longleftrightarrow> log_ok lg \<and> 0 < rm a
     \<and> (\<forall>b. in_log lg b \<longrightarrow> \<not> bz a b \<and> pn a b = 0)
     \<and> (\<forall>b \<in> set (logged lg). \<not> bz a b \<and> 0 < pn a b \<and> pn a b < 2 ^ 31)"

context block_io begin

lemma write_head_ok:
  assumes "inv s" and "lg_dev lg = d" and "log_ok lg"
    and "\<not> bz (abs s) (lg_start lg)" and "pn (abs s) (lg_start lg) = 0" and "0 < rm (abs s)"
  shows "\<exists>s'. write_head ops lg s = Ok s' \<and> inv s'
            \<and> abs s' = do_writes (head_write lg (vw (abs s))) (abs s)"
proof -
  let ?b = "lg_start lg" and ?x = "put_header lg (vw (abs s) (lg_start lg))"
  note ok = log_okD [OF assms(3)]
  obtain h s1 where 1: "op_bread ops d ?b s = Ok (h, s1)" "inv s1" "hl (abs s) h = None"
    "abs s1 = sp_bread ?b h (abs s)"
    using bread_ok [OF assms(1,4)] assms(5,6) by auto
  then have h1: "hl (abs s1) h = Some ?b" "vw (abs s1) = vw (abs s)" by (simp_all add: sp_bread_def)
  then have dat: "op_data ops h s1 = vw (abs s) ?b" using data_ok [OF 1(2)] by simp
  have "length ?x = BSIZE" using len_ok [OF assms(1)] ok by (intro put_header_ok(1)) auto
  then have 2: "inv (op_store ops h ?x s1)" "abs (op_store ops h ?x s1) = sp_store ?b ?x (abs s1)"
    using store_ok [OF 1(2) h1(1)] by auto
  then have h2: "hl (abs (op_store ops h ?x s1)) h = Some ?b" using h1 by (simp add: sp_store_def)
  obtain s3 where 3: "op_bwrite ops h (op_store ops h ?x s1) = Ok s3" "inv s3"
    "abs s3 = sp_bwrite ?b (abs (op_store ops h ?x s1))"
    using bwrite_ok [OF 2(1) h2] by blast
  have h3: "hl (abs s3) h = Some ?b" "vw (abs s3) ?b = dk (abs s3) ?b"
    using h2 3(3) by (simp_all add: sp_bwrite_def)
  obtain s4 where 4: "op_brelse ops h s3 = Ok s4" "inv s4" "abs s4 = sp_brelse ?b h (abs s3)"
    using brelse_ok [OF 3(2) h3(1)] h3(2) by blast
  have "abs s4 = do_writes (head_write lg (vw (abs s))) (abs s)"
    using assms 1(3) unfolding 4(3) 3(3) 2(2) 1(4) head_write_def
    by (intro bstate.equality) (auto simp: do_writes_def sp_defs fun_eq_iff)
  moreover have "write_head ops lg s = Ok s4"
    using assms(2) ok(1,4) 1(1) dat 3(1) 4(1) by (simp add: write_head_def)
  ultimately show ?thesis using 4(2) by blast
qed

lemma write_log_ok:
  assumes "inv s" and "lg_dev lg = d" and "commit_ready lg (abs s)"
  shows "\<exists>s'. write_log ops lg s = Ok s' \<and> inv s' \<and> abs s' = do_writes (log_writes lg (vw (abs s))) (abs s)"
proof -
  let ?w = "\<lambda>k. map (\<lambda>i. (log_blk lg i, vw (abs s) (lg_block lg ! i))) [0..<k]"
  have lok: "log_ok lg" using assms(3) by (simp add: commit_ready_def)
  note ok = log_okD [OF lok]
  have "\<exists>s'. kfold (write_log_one ops lg) [0..<nat (lg_n lg)] s = Ok s'
      \<and> (inv s' \<and> abs s' = do_writes (?w (nat (lg_n lg))) (abs s))"
  proof (rule kfold_upt_invariant)
    show "inv s \<and> abs s = do_writes (?w 0) (abs s)" using assms(1) by simp
  next
    fix k t assume k: "k < nat (lg_n lg)" and t: "inv t \<and> abs t = do_writes (?w k) (abs s)"
    have il: "in_log lg (log_blk lg j)" if "j < nat (lg_n lg)" for j
      using that ok(3) by (intro in_log_blk) linarith
    have y: "\<not> in_log lg (lg_block lg ! k)" "lg_block lg ! k \<in> set (logged lg)" using k ok by auto
    then have ne: "log_blk lg j \<noteq> lg_block lg ! k" if "j < nat (lg_n lg)" for j using il [OF that] by auto
    have v: "vw (abs t) (lg_block lg ! k) = vw (abs s) (lg_block lg ! k)"
    proof -
      have "lg_block lg ! k \<noteq> log_blk lg j" if "j < k" for j
        by (rule not_sym [OF ne]) (use that k in simp)
      then have "lg_block lg ! k \<notin> fst ` set (?w k)" by (simp add: image_image image_iff)
      then show ?thesis using t by (simp add: replay_other)
    qed
    have "\<exists>t'. write_log_one ops lg k t = Ok t' \<and> inv t'
        \<and> abs t' = do_writes [(log_blk lg k, vw (abs t) (lg_block lg ! k))] (abs t)"
      using t assms(2,3) il [OF k] y ne [OF k] k ok(1,4)
      by (intro write_log_one_ok) (auto simp: commit_ready_def)
    then show "\<exists>t'. write_log_one ops lg k t = Ok t' \<and> (inv t' \<and> abs t' = do_writes (?w (Suc k)) (abs s))"
      using t v by (auto simp: do_writes_append)
  qed
  then show ?thesis by (simp add: write_log_def log_writes_def)
qed

lemma give_back_do_writes: "give_back b (do_writes ws a) = do_writes ws (give_back b a)"
  by (simp add: give_back_def do_writes_def)

lemma give_back_simps [simp]:
  "vw (give_back b a) = vw a" "dk (give_back b a) = dk a" "hs (give_back b a) = hs a"
  "bz (give_back b a) = bz a" "hl (give_back b a) = hl a" "rm a \<le> rm (give_back b a)"
  "c \<noteq> b \<Longrightarrow> pn (give_back b a) c = pn a c"
  by (simp_all add: give_back_def)

lemma give_backs_simps [simp]:
  "vw (fold give_back bs a) = vw a" "dk (fold give_back bs a) = dk a" "hs (fold give_back bs a) = hs a"
  "bz (fold give_back bs a) = bz a" "hl (fold give_back bs a) = hl a"
  "rm a \<le> rm (fold give_back bs a)"
  "c \<notin> set bs \<Longrightarrow> pn (fold give_back bs a) c = pn a c"
proof (induction bs arbitrary: a)
  case (Cons b bs)
  { case 6 then show ?case using le_trans [OF give_back_simps(6) Cons.IH(6)] by simp }
qed auto

lemma install_trans_ok:
  assumes "inv s" and "lg_dev lg = d" and "log_ok lg"
    and "0 < rm (abs s)" and "\<And>b. in_log lg b \<Longrightarrow> \<not> bz (abs s) b \<and> pn (abs s) b = 0"
    and "\<And>b. b \<in> set (logged lg) \<Longrightarrow> \<not> bz (abs s) b \<and> pn (abs s) b < 2 ^ 31
           \<and> (if recovering then pn (abs s) b = 0 \<and> 1 < rm (abs s) else 0 < pn (abs s) b)"
  shows "\<exists>s'. install_trans ops recovering lg s = Ok s' \<and> inv s'
       \<and> abs s' = (if recovering then id else fold give_back (logged lg))
                   (do_writes (home_writes lg (vw (abs s))) (abs s))"
proof -
  let ?w = "\<lambda>k. map (\<lambda>i. (lg_block lg ! i, vw (abs s) (log_blk lg i))) [0..<k]"
  let ?g = "\<lambda>k. if recovering then id else fold give_back (take k (logged lg))"
  note ok = log_okD [OF assms(3)]
  have "\<exists>s'. kfold (install_one ops recovering lg) [0..<nat (lg_n lg)] s = Ok s'
      \<and> (inv s' \<and> abs s' = ?g (nat (lg_n lg)) (do_writes (?w (nat (lg_n lg))) (abs s)))"
  proof (rule kfold_upt_invariant)
    show "inv s \<and> abs s = ?g 0 (do_writes (?w 0) (abs s))" using assms(1) by simp
  next
    fix k t assume k: "k < nat (lg_n lg)" and t: "inv t \<and> abs t = ?g k (do_writes (?w k) (abs s))"
    let ?y = "lg_block lg ! k"
    have il: "in_log lg (log_blk lg k)" using k ok(3) by (intro in_log_blk) linarith
    have y: "\<not> in_log lg ?y" "?y \<in> set (logged lg)" using k ok by auto
    have tk: "take (Suc k) (logged lg) = take k (logged lg) @ [?y]"
      using k ok(7,9) by (simp add: take_Suc_conv_app_nth)
    have "distinct (take (Suc k) (logged lg))" using ok(6) by (rule distinct_take)
    then have fresh: "?y \<notin> set (take k (logged lg))" unfolding tk by simp
    have home: "\<not> in_log lg b" if "b \<in> set (take k (logged lg))" for b
      using that assms(3) by (auto simp: log_ok_def dest: in_set_takeD)
    have wk: "log_blk lg k \<notin> fst ` set (?w k)" using il ok(10) k by fastforce
    have vl: "vw (abs t) (log_blk lg k) = vw (abs s) (log_blk lg k)"
      using t wk by (cases recovering) (simp_all add: replay_other)
    have bzt: "bz (abs t) = bz (abs s)" using t by auto
    have rmt: "rm (abs s) \<le> rm (abs t)"
      using t give_backs_simps(6) [of "do_writes (?w k) (abs s)" "take k (logged lg)"] by auto
    have pnt: "pn (abs t) b = pn (abs s) b" if "b \<notin> set (take k (logged lg))" for b
      using t that by auto
    have "log_blk lg k \<notin> set (take k (logged lg))" using home il by blast
    with assms(5) [OF il] pnt have pl: "pn (abs t) (log_blk lg k) = 0" by simp
    have py: "pn (abs t) ?y = pn (abs s) ?y" by (rule pnt [OF fresh])
    have "\<exists>t'. install_one ops recovering lg k t = Ok t' \<and> inv t'
        \<and> abs t' = (if recovering then id else give_back ?y)
             (do_writes [(?y, vw (abs t) (log_blk lg k))] (abs t))"
      using conjunct1 [OF t] assms(2,4) il y k ok(1,4) assms(5) [OF il] assms(6) [OF y(2)] rmt
      by (intro install_one_ok) (auto simp: pl py bzt)
    then obtain t' where t': "install_one ops recovering lg k t = Ok t'" "inv t'"
      "abs t' = (if recovering then id else give_back ?y)
             (do_writes [(?y, vw (abs s) (log_blk lg k))] (abs t))" unfolding vl by blast
    have comm: "do_writes ws (fold give_back bs a) = fold give_back bs (do_writes ws a)" for ws bs a
      by (induction bs arbitrary: a) (simp_all add: give_back_do_writes)
    have "abs t' = ?g (Suc k) (do_writes (?w (Suc k)) (abs s))"
      using t t'(3) by (cases recovering) (simp_all add: tk do_writes_append comm)
    with t' show "\<exists>t'. install_one ops recovering lg k t = Ok t'
        \<and> (inv t' \<and> abs t' = ?g (Suc k) (do_writes (?w (Suc k)) (abs s)))" by blast
  qed
  moreover have "take (nat (lg_n lg)) (logged lg) = logged lg" using ok(7) by simp
  ultimately show ?thesis
    by (cases recovering) (simp_all add: install_trans_def home_writes_def)
qed

lemma commit_ok:
  assumes "inv s" and "lg_dev lg = d" and "commit_ready lg (abs s)" and "0 < lg_n lg"
  shows "\<exists>s'. commit ops lg s = Ok (lg\<lparr>lg_n := 0\<rparr>, s') \<and> inv s'
       \<and> abs s' = fold give_back (logged lg) (do_writes (commit_writes lg (vw (abs s))) (abs s))"
proof -
  have lok: "log_ok lg" using assms(3) by (simp add: commit_ready_def)
  note ok = log_okD [OF lok]
  have st: "in_log lg (lg_start lg)" using ok(2,3) by (intro in_log_start) simp
  have free: "\<not> bz (abs s) (lg_start lg)" "pn (abs s) (lg_start lg) = 0" "0 < rm (abs s)"
    using assms(3) st by (auto simp: commit_ready_def)
  obtain s1 where 1: "write_log ops lg s = Ok s1" "inv s1"
    "abs s1 = do_writes (log_writes lg (vw (abs s))) (abs s)"
    using write_log_ok [OF assms(1-3)] by blast
  obtain s2 where 2: "write_head ops lg s1 = Ok s2" "inv s2"
    "abs s2 = do_writes (head_write lg (vw (abs s1))) (abs s1)"
    using write_head_ok [OF 1(2) assms(2) lok] 1(3) free by auto
  obtain s3 where 3: "install_trans ops False lg s2 = Ok s3" "inv s3"
    "abs s3 = fold give_back (logged lg) (do_writes (home_writes lg (vw (abs s2))) (abs s2))"
    using install_trans_ok [OF 2(2) assms(2) lok, of False] 2(3) 1(3) assms(3)
    by (auto simp: commit_ready_def)
  let ?lg = "lg\<lparr>lg_n := 0\<rparr>"
  have lok': "log_ok ?lg" using lok by (auto simp: log_ok_def logged_def)
  have st': "lg_start lg \<notin> set (logged lg)" using st lok by (auto simp: log_ok_def)
  have free3: "\<not> bz (abs s3) (lg_start lg)" "pn (abs s3) (lg_start lg) = 0" "0 < rm (abs s3)"
    using free 1(3) 2(3) 3(3) st'
      give_backs_simps(6) [of "do_writes (home_writes lg (vw (abs s2))) (abs s2)" "logged lg"]
    by (simp_all add: order_less_le_trans)
  obtain s4 where 4: "write_head ops ?lg s3 = Ok s4" "inv s4"
    "abs s4 = do_writes (head_write ?lg (vw (abs s3))) (abs s3)"
    using write_head_ok [OF 3(2) _ lok'] assms(2) free3 by auto
  have comm: "do_writes ws (fold give_back bs a) = fold give_back bs (do_writes ws a)" for ws bs a
    by (induction bs arbitrary: a) (simp_all add: give_back_do_writes)
  have "commit ops lg s = Ok (?lg, s4)"
    using 1(1) 2(1) 3(1) 4(1) assms(4) by (simp add: commit_def Let_def)
  moreover have "abs s4 = fold give_back (logged lg) (do_writes (commit_writes lg (vw (abs s))) (abs s))"
    unfolding 4(3) 3(3) 2(3) 1(3) commit_writes_def Let_def
    by (simp add: comm do_writes_append)
  ultimately show ?thesis using 4(2) by blast
qed

end


section \<open>Every prefix of a commit recovers\<close>

text \<open>What the disk must look like for recovery: a header that describes at most \<open>LOGSIZE\<close>
  distinct blocks outside the log region.\<close>

definition hdr_ok :: "logst \<Rightarrow> block \<Rightarrow> bool" where
  "hdr_ok lg h \<longleftrightarrow> 0 \<le> sint (get32 h 0) \<and> hdr_n h \<le> LOGSIZE \<and> int (hdr_n h) < lg_size lg
     \<and> distinct (map (hdr_block h) [0..<hdr_n h])
     \<and> (\<forall>i < hdr_n h. \<not> in_log lg (hdr_block h i))"

lemma put_header_hdr_ok:
  assumes "length dat = BSIZE" and "log_ok lg"
  shows "hdr_ok lg (put_header lg dat)"
proof -
  note ok = log_okD [OF assms(2)]
  have le: "lg_n lg \<le> 254" "lg_n lg \<le> int (length (lg_block lg))" using ok(1,4) by linarith+
  note p = put_header_ok [OF assms(1) ok(2) le]
  have n: "hdr_n (put_header lg dat) = nat (lg_n lg)" by (rule p(2))
  have "map (hdr_block (put_header lg dat)) [0..<nat (lg_n lg)] = logged lg"
    using p(3) ok(7,9) by (intro nth_equalityI) auto
  moreover have "0 \<le> sint (get32 (put_header lg dat) 0)"
  proof (cases "nat (lg_n lg) = 0")
    case True
    then have "put_header lg dat = set32 dat 0 0" using ok(2) by (simp add: put_header_def)
    then show ?thesis using assms(1) by simp
  next
    case False
    then show ?thesis using n by (simp add: hdr_n_def)
  qed
  ultimately show ?thesis
    unfolding hdr_ok_def n using ok p(3) by (auto simp: in_log_def)
qed

lemma redo_empty: "hdr_n (m start) = 0 \<Longrightarrow> recovered start m = m"
  by (simp add: recovered_def redo_def)

lemma length_writes [simp]:
  "length (log_writes lg m) = nat (lg_n lg)" "length (head_write lg m) = 1"
  "length (home_writes lg m) = nat (lg_n lg)"
  by (simp_all add: log_writes_def head_write_def home_writes_def)

lemma take_commit_writes:
  assumes "log_ok lg"
  shows "k \<le> nat (lg_n lg) \<Longrightarrow> take k (commit_writes lg v) = take k (log_writes lg v)"
    and "nat (lg_n lg) < k \<Longrightarrow> k \<le> 2 * nat (lg_n lg) + 1 \<Longrightarrow>
      take k (commit_writes lg v) = log_writes lg v @ head_write lg (replay (log_writes lg v) v) @
        take (k - nat (lg_n lg) - 1)
          (home_writes lg (replay (head_write lg (replay (log_writes lg v) v)) (replay (log_writes lg v) v)))"
    and "2 * nat (lg_n lg) + 1 < k \<Longrightarrow> take k (commit_writes lg v) = commit_writes lg v"
  by (simp_all add: commit_writes_def Let_def)

text \<open>Where the phases write, and what home blocks are written with.\<close>

lemma log_ok_blk:
  assumes "log_ok lg" and "i < nat (lg_n lg)"
  shows "in_log lg (log_blk lg i)" and "log_blk lg i \<noteq> lg_start lg"
    and "\<And>j. j < nat (lg_n lg) \<Longrightarrow> log_blk lg i \<noteq> lg_block lg ! j"
    and "\<And>j. j < nat (lg_n lg) \<Longrightarrow> log_blk lg i = log_blk lg j \<Longrightarrow> i = j"
    and "in_log lg (lg_start lg)" and "lg_start lg \<noteq> lg_block lg ! i"
proof -
  note ok = log_okD [OF assms(1)]
  show a: "in_log lg (log_blk lg i)" using assms(2) ok(3) by (intro in_log_blk) linarith
  show "log_blk lg i \<noteq> lg_start lg" using assms(2) ok(4) by (intro log_blk_start) simp
  show "log_blk lg i \<noteq> lg_block lg ! j" if "j < nat (lg_n lg)" for j using a ok(10) [OF that] by auto
  show "i = j" if "j < nat (lg_n lg)" "log_blk lg i = log_blk lg j" for j
    using log_blk_inj [OF that(2)] that(1) assms(2) ok(4) by simp
  show b: "in_log lg (lg_start lg)" using ok(2,3) by (intro in_log_start) simp
  show "lg_start lg \<noteq> lg_block lg ! i" using b ok(10) [OF assms(2)] by auto
qed

lemma replay_log_writes:
  assumes "log_ok lg"
  shows "i < nat (lg_n lg) \<Longrightarrow> replay (log_writes lg v) m (log_blk lg i) = v (lg_block lg ! i)"
    and "\<not> in_log lg c \<Longrightarrow> replay (take k (log_writes lg v)) m c = m c"
    and "replay (take k (log_writes lg v)) m (lg_start lg) = m (lg_start lg)"
proof -
  note b = log_ok_blk [OF assms]
  have "distinct (map (log_blk lg) [0..<nat (lg_n lg)])"
    using b(4) by (auto simp: distinct_map inj_on_def)
  then show "replay (log_writes lg v) m (log_blk lg i) = v (lg_block lg ! i)" if "i < nat (lg_n lg)"
    unfolding log_writes_def using that by (intro replay_map_distinct) auto
  show "replay (take k (log_writes lg v)) m c = m c" if "\<not> in_log lg c"
    using that b(1) by (intro replay_other) (auto simp: log_writes_def dest!: in_set_takeD)
  show "replay (take k (log_writes lg v)) m (lg_start lg) = m (lg_start lg)"
    using b(2) by (intro replay_other) (force simp: log_writes_def dest!: in_set_takeD)
qed

lemma in_logged:
  assumes "log_ok lg"
  shows "c \<in> set (logged lg) \<longleftrightarrow> (\<exists>i < nat (lg_n lg). c = lg_block lg ! i)"
  using log_okD(7-9) [OF assms] by (auto simp: in_set_conv_nth)

lemma replay_home_writes:
  assumes "log_ok lg"
  shows "i < nat (lg_n lg) \<Longrightarrow> replay (home_writes lg w) m (lg_block lg ! i) = w (log_blk lg i)"
    and "c \<notin> set (logged lg) \<Longrightarrow> replay (take k (home_writes lg w)) m c = m c"
    and "in_log lg c \<Longrightarrow> replay (take k (home_writes lg w)) m c = m c"
proof -
  note ok = log_okD [OF assms]
  have "map ((!) (lg_block lg)) [0..<nat (lg_n lg)] = logged lg"
    using ok(7,9) by (intro nth_equalityI) auto
  then have "distinct (map ((!) (lg_block lg)) [0..<nat (lg_n lg)])" using ok(6) by simp
  then show "replay (home_writes lg w) m (lg_block lg ! i) = w (log_blk lg i)" if "i < nat (lg_n lg)"
    unfolding home_writes_def using that by (intro replay_map_distinct) auto
  show "replay (take k (home_writes lg w)) m c = m c" if "c \<notin> set (logged lg)" for c
    using that unfolding in_logged [OF assms]
    by (intro replay_other) (fastforce simp: home_writes_def dest!: in_set_takeD)
  then show "replay (take k (home_writes lg w)) m c = m c" if "in_log lg c"
    using that assms by (auto simp: log_ok_def)
qed

text \<open>The commit point is the first write of the header: up to it recovery gives the old blocks,
  from it on the new ones.\<close>

lemma recovered_commit_prefix:
  assumes "log_ok lg" and "length (v (lg_start lg)) = BSIZE" and "hdr_n (m (lg_start lg)) = 0"
    and "hdr_ok lg (m (lg_start lg))" and "\<not> in_log lg c"
  shows "recovered (lg_start lg) (replay (take k (commit_writes lg v)) m) c
         = (if nat (lg_n lg) < k \<and> c \<in> set (logged lg) then v c else m c)"
    and "hdr_ok lg (replay (take k (commit_writes lg v)) m (lg_start lg))"
proof -
  let ?n = "nat (lg_n lg)" and ?s = "lg_start lg"
  note ok = log_okD [OF assms(1)] and blk = log_ok_blk [OF assms(1)]
  define v1 where "v1 = replay (log_writes lg v) v"
  define v2 where "v2 = replay (head_write lg v1) v1"
  define M where "M = replay (take k (commit_writes lg v)) m"
  note lw = replay_log_writes [OF assms(1)] and hw = replay_home_writes [OF assms(1)]
  note tk = take_commit_writes [OF assms(1), of k v, folded v1_def, folded v2_def]
  have "0 < lg_size lg" using ok(2,3) by simp
  then have st: "in_log lg ?s" by (rule in_log_start)
  have lw': "replay (log_writes lg v) m' ?s = m' ?s" for m' using lw(3) [of "length (log_writes lg v)"] by simp
  have lwc: "replay (log_writes lg v) m' c = m' c" for m' using lw(2) [of c "length (log_writes lg v)"] assms(5) by simp
  have v1s: "length (v1 ?s) = BSIZE" using assms(2) lw' by (simp add: v1_def)
  let ?H = "put_header lg (v1 ?s)"
  have le: "lg_n lg \<le> 254" "lg_n lg \<le> int (length (lg_block lg))" using ok(1,4) by linarith+
  note H = put_header_ok [OF v1s ok(2) le]
  have cs: "c \<noteq> ?s" using st assms(5) by auto
  have v2l: "v2 (log_blk lg i) = v (lg_block lg ! i)" if "i < ?n" for i
    using lw(1) [OF that] blk(2) [OF that] by (simp add: v2_def v1_def head_write_def)
  consider "k \<le> ?n" | "?n < k" "k \<le> 2 * ?n + 1" | "2 * ?n + 1 < k" by linarith
  then have "recovered ?s M c = (if ?n < k \<and> c \<in> set (logged lg) then v c else m c) \<and> hdr_ok lg (M ?s)"
  proof cases
    case 1
    then have "M = replay (take k (log_writes lg v)) m" by (simp add: M_def tk(1))
    then have "M ?s = m ?s" "M c = m c" using lw(2,3) assms(5) by simp_all
    then show ?thesis using redo_empty [of M ?s] assms(3,4) 1 by simp
  next
    case 2
    define M1 where "M1 = replay (head_write lg v1) (replay (log_writes lg v) m)"
    have M: "M = replay (take (k - ?n - 1) (home_writes lg v2)) M1"
      using tk(2) [OF 2] by (simp add: M_def M1_def replay_append)
    have Ms: "M ?s = ?H" using hw(3) [OF st] by (simp add: M M1_def head_write_def)
    have Ml: "M (log_blk lg i) = v (lg_block lg ! i)" if "i < ?n" for i
      using hw(3) [OF blk(1) [OF that]] lw(1) [OF that] blk(2) [OF that]
      by (simp add: M M1_def head_write_def)
    have "redo ?s M = map (\<lambda>i. (lg_block lg ! i, M (log_blk lg i))) [0..<?n]"
      unfolding redo_def Ms H(2) using H(3) by (simp add: log_blk_def)
    then have r: "recovered ?s M = replay (home_writes lg M) M"
      by (simp add: recovered_def home_writes_def)
    have "recovered ?s M c = (if c \<in> set (logged lg) then v c else m c)"
    proof (cases "c \<in> set (logged lg)")
      case True
      then obtain i where "i < ?n" "c = lg_block lg ! i" using in_logged [OF assms(1)] by auto
      then show ?thesis using True hw(1) Ml by (simp add: r)
    next
      case False
      then have "recovered ?s M c = M c"
        using hw(2) [of c "length (home_writes lg M)"] by (simp add: r)
      also have "\<dots> = m c" using hw(2) [OF False] lwc cs by (simp add: M M1_def head_write_def)
      finally show ?thesis using False by simp
    qed
    moreover have "hdr_ok lg (M ?s)" unfolding Ms by (rule put_header_hdr_ok [OF v1s assms(1)])
    ultimately show ?thesis using 2 by simp
  next
    case 3
    let ?lg0 = "lg\<lparr>lg_n := 0\<rparr>"
    define v3 where "v3 = replay (home_writes lg v2) v2"
    define M1 where "M1 = replay (head_write lg v1) (replay (log_writes lg v) m)"
    have M: "M = replay (head_write ?lg0 v3) (replay (home_writes lg v2) M1)"
      using tk(3) [OF 3]
      by (simp add: M_def M1_def v3_def v2_def v1_def commit_writes_def Let_def replay_append)
    have v3s: "length (v3 ?s) = BSIZE"
      using hw(3) [OF st, of "length (home_writes lg v2)"] H(1) by (simp add: v3_def v2_def head_write_def)
    have Ms: "M ?s = put_header ?lg0 (v3 ?s)" by (simp add: M head_write_def)
    have lok0: "log_ok ?lg0" using assms(1) by (auto simp: log_ok_def logged_def)
    have "hdr_ok ?lg0 (M ?s)" unfolding Ms by (rule put_header_hdr_ok [OF v3s lok0])
    then have h: "hdr_ok lg (M ?s)" by (simp add: hdr_ok_def in_log_def)
    have "hdr_n (M ?s) = 0" using put_header_ok(2) [OF v3s, of ?lg0] by (simp add: Ms)
    then have "recovered ?s M c = replay (home_writes lg v2) M1 c"
      using cs by (simp add: redo_empty M head_write_def)
    also have "\<dots> = (if c \<in> set (logged lg) then v c else m c)"
    proof (cases "c \<in> set (logged lg)")
      case True
      then obtain i where "i < ?n" "c = lg_block lg ! i" using in_logged [OF assms(1)] by auto
      then show ?thesis using True hw(1) v2l by simp
    next
      case False
      then show ?thesis
        using hw(2) [OF False, of "length (home_writes lg v2)"] lwc cs by (simp add: M1_def head_write_def)
    qed
    finally show ?thesis using h 3 by simp
  qed
  then show "recovered ?s (replay (take k (commit_writes lg v)) m) c
         = (if nat (lg_n lg) < k \<and> c \<in> set (logged lg) then v c else m c)"
    and "hdr_ok lg (replay (take k (commit_writes lg v)) m ?s)" by (simp_all add: M_def)
qed


lemma replay_length:
  assumes "\<forall>(b, x) \<in> set ws. length x = BSIZE" and "\<And>b. length (m b) = BSIZE"
  shows "length (replay ws m b) = BSIZE"
  using assms
proof (induction ws arbitrary: m)
  case (Cons w ws)
  obtain c x where w: "w = (c, x)" by (cases w)
  have "length (replay ws (m(c := x)) b) = BSIZE" by (rule Cons.IH) (use Cons.prems w in auto)
  then show ?case by (simp add: w)
qed simp

lemma commit_writes_length:
  assumes "log_ok lg" and "\<And>b. length (v b) = BSIZE"
  shows "\<forall>(b, x) \<in> set (commit_writes lg v). length x = BSIZE"
proof -
  note ok = log_okD [OF assms(1)]
  have le: "lg_n lg \<le> 254" "lg_n lg \<le> int (length (lg_block lg))" using ok(1,4) by linarith+
  have 1: "\<forall>(b, x) \<in> set (log_writes lg m). length x = BSIZE" if "\<And>b. length (m b) = BSIZE" for m
    using that by (auto simp: log_writes_def)
  have 2: "\<forall>(b, x) \<in> set (head_write lg m). length x = BSIZE" if "\<And>b. length (m b) = BSIZE" for m
    using that put_header_ok(1) [OF _ ok(2) le] by (auto simp: head_write_def)
  have 3: "\<forall>(b, x) \<in> set (home_writes lg m). length x = BSIZE" if "\<And>b. length (m b) = BSIZE" for m
    using that by (auto simp: home_writes_def)
  have 4: "\<forall>(b, x) \<in> set (head_write (lg\<lparr>lg_n := 0\<rparr>) m). length x = BSIZE" if "\<And>b. length (m b) = BSIZE" for m
    using that put_header_ok(1) [of _ "lg\<lparr>lg_n := 0\<rparr>"] by (auto simp: head_write_def)
  define v1 where "v1 = replay (log_writes lg v) v"
  define v2 where "v2 = replay (head_write lg v1) v1"
  define v3 where "v3 = replay (home_writes lg v2) v2"
  have l1: "length (v1 b) = BSIZE" for b unfolding v1_def by (rule replay_length [OF 1 assms(2)]) (rule assms(2))
  have l2: "length (v2 b) = BSIZE" for b unfolding v2_def by (rule replay_length [OF 2 l1]) (rule l1)
  have l3: "length (v3 b) = BSIZE" for b unfolding v3_def by (rule replay_length [OF 3 l2]) (rule l2)
  have "commit_writes lg v = log_writes lg v @ head_write lg v1 @ home_writes lg v2
          @ head_write (lg\<lparr>lg_n := 0\<rparr>) v3"
    by (simp only: commit_writes_def Let_def v1_def v2_def v3_def)
  then show ?thesis
    using 1 [of v, OF assms(2)] 2 [of v1, OF l1] 3 [of v2, OF l2] 4 [of v3, OF l3]
    by (simp only: set_append ball_Un)
qed

section \<open>Recovery\<close>

text \<open>The in-memory log after \<open>read_head\<close>.\<close>

definition loaded :: "logst \<Rightarrow> block \<Rightarrow> logst" where
  "loaded lg h = lg\<lparr>lg_n := sint (get32 h 0),
     lg_block := map (hdr_block h) [0..<hdr_n h] @ drop (hdr_n h) (lg_block lg)\<rparr>"

definition recovery_writes :: "logst \<Rightarrow> (u32 \<Rightarrow> block) \<Rightarrow> (u32 \<times> block) list" where
  "recovery_writes lg m = redo (lg_start lg) m @
     head_write ((loaded lg (m (lg_start lg)))\<lparr>lg_n := 0\<rparr>) (recovered (lg_start lg) m)"

lemma loaded_simps [simp]:
  "lg_start (loaded lg h) = lg_start lg" "lg_size (loaded lg h) = lg_size lg"
  "lg_dev (loaded lg h) = lg_dev lg" "nat (lg_n (loaded lg h)) = hdr_n h"
  "lg_outstanding (loaded lg h) = lg_outstanding lg" "lg_committing (loaded lg h) = lg_committing lg"
  "in_log (loaded lg h) = in_log lg" "log_blk (loaded lg h) = log_blk lg"
  by (simp_all add: loaded_def hdr_n_def in_log_def log_blk_def fun_eq_iff)

lemma loaded_ok:
  assumes "hdr_ok lg h" and "length (lg_block lg) = LOGSIZE" and "lg_size lg \<le> 2 ^ 31"
  shows "log_ok (loaded lg h)" and "logged (loaded lg h) = map (hdr_block h) [0..<hdr_n h]"
proof -
  show l: "logged (loaded lg h) = map (hdr_block h) [0..<hdr_n h]"
    by (simp add: logged_def) (simp add: loaded_def)
  have "lg_n (loaded lg h) = int (hdr_n h)" using assms(1) by (simp add: loaded_def hdr_ok_def hdr_n_def)
  moreover have "length (lg_block (loaded lg h)) = LOGSIZE"
    using assms by (simp add: loaded_def hdr_ok_def)
  ultimately show "log_ok (loaded lg h)"
    using assms unfolding log_ok_def l by (auto simp: hdr_ok_def)
qed

lemma redo_home_writes:
  "redo (lg_start lg) m = home_writes (loaded lg (m (lg_start lg))) m"
  unfolding redo_def home_writes_def loaded_simps
  by (simp add: loaded_def nth_append log_blk_def)

text \<open>A crash during recovery: whatever prefix of its writes was done, recovering again gives the
  same blocks.\<close>

lemma recovered_recovery_prefix:
  assumes "hdr_ok lg (m (lg_start lg))" and "length (lg_block lg) = LOGSIZE"
    and "lg_size lg \<le> 2 ^ 31" and "\<And>b. length (m b) = BSIZE" and "\<not> in_log lg c"
  shows "recovered (lg_start lg) (replay (take k (recovery_writes lg m)) m) c = recovered (lg_start lg) m c"
proof -
  let ?s = "lg_start lg" and ?lg = "loaded lg (m (lg_start lg))"
  let ?n = "hdr_n (m ?s)"
  have lok: "log_ok ?lg" by (rule loaded_ok(1) [OF assms(1-3)])
  note hw = replay_home_writes [OF lok, unfolded loaded_simps]
  have "0 < lg_size lg" using assms(1) by (simp add: hdr_ok_def)
  then have st: "in_log lg ?s" by (rule in_log_start)
  then have cs: "c \<noteq> ?s" using assms(5) by auto
  have len: "length (home_writes ?lg m) = ?n" by simp
  have full: "replay (home_writes ?lg m) m' c
      = (if c \<in> set (logged ?lg) then replay (home_writes ?lg m) m c else m' c)" for m'
  proof (cases "c \<in> set (logged ?lg)")
    case True
    then obtain i where "i < ?n" "c = lg_block ?lg ! i" using in_logged [OF lok] by auto
    then show ?thesis using hw(1) True by simp
  next
    case False
    then show ?thesis using hw(2) [OF False, of "length (home_writes ?lg m)"] by simp
  qed
  show ?thesis
  proof (cases "k \<le> ?n")
    case True
    define M where "M = replay (take k (home_writes ?lg m)) m"
    have tk: "take k (recovery_writes lg m) = take k (home_writes ?lg m)"
      using True by (simp add: recovery_writes_def redo_home_writes)
    have Ms: "M ?s = m ?s" using hw(3) [OF st] by (simp add: M_def)
    have "M (log_blk lg i) = m (log_blk lg i)" if "i < ?n" for i
      using hw(3) [of "log_blk lg i"] log_ok_blk(1) [OF lok, of i] that by (simp add: M_def)
    then have "home_writes (loaded lg (M ?s)) M = home_writes ?lg m"
      by (simp add: Ms home_writes_def)
    then have "recovered ?s M c = replay (home_writes ?lg m) M c"
      by (simp add: recovered_def redo_home_writes)
    moreover have "M c = m c" if "c \<notin> set (logged ?lg)" using hw(2) [OF that] by (simp add: M_def)
    ultimately have "recovered ?s M c = recovered ?s m c"
      using full [of M] full [of m]
      by (cases "c \<in> set (logged ?lg)") (simp_all add: recovered_def redo_home_writes)
    then show ?thesis by (simp add: tk M_def)
  next
    case False
    let ?r = "recovered ?s m"
    let ?h = "put_header (?lg\<lparr>lg_n := 0\<rparr>) (?r ?s)"
    have "take k (recovery_writes lg m) = recovery_writes lg m"
      using False by (simp add: recovery_writes_def redo_home_writes)
    then have M: "replay (take k (recovery_writes lg m)) m = ?r(?s := ?h)"
      by (simp add: recovery_writes_def replay_append head_write_def recovered_def)
    have rs: "?r ?s = m ?s"
      using hw(3) [OF st, of "length (home_writes ?lg m)"] by (simp add: recovered_def redo_home_writes)
    have "hdr_n ?h = 0" using put_header_ok(2) [of "?r ?s" "?lg\<lparr>lg_n := 0\<rparr>"] rs assms(4) by simp
    then show ?thesis unfolding M using cs by (subst redo_empty) simp_all
  qed
qed

context block_io begin

lemma recover_from_log_ok:
  assumes "inv s" and "lg_dev lg = d" and "hdr_ok lg (dk (abs s) (lg_start lg))"
    and "length (lg_block lg) = LOGSIZE" and "lg_size lg \<le> 2 ^ 31"
    and "\<And>b. \<not> bz (abs s) b" and "\<And>b. pn (abs s) b = 0"
  shows "\<exists>s'. recover_from_log ops lg s
           = Ok ((loaded lg (dk (abs s) (lg_start lg)))\<lparr>lg_n := 0\<rparr>, s') \<and> inv s'
       \<and> abs s' = do_writes (recovery_writes lg (dk (abs s))) (abs s)"
proof -
  let ?s = "lg_start lg" and ?m = "dk (abs s)"
  let ?lg = "loaded lg (?m ?s)"
  have vd: "vw (abs s) = ?m" using clean_ok [OF assms(1,6,7)] by (rule ext)
  have rm: "rm (abs s) = NBUF" using count_ok [OF assms(1)] assms(6,7) by simp
  have lok: "log_ok ?lg" by (rule loaded_ok(1) [OF assms(3-5)])
  have "\<not> bz (abs s) ?s" "pn (abs s) ?s < 2 ^ 31" "0 < rm (abs s) \<or> 0 < pn (abs s) ?s"
    using assms(6,7) rm by simp_all
  then obtain h s1 where 1: "op_bread ops d ?s s = Ok (h, s1)" "inv s1" "hl (abs s) h = None"
    "abs s1 = sp_bread ?s h (abs s)"
    using bread_ok [OF assms(1)] by blast
  then have h1: "hl (abs s1) h = Some ?s" "vw (abs s1) = ?m" "dk (abs s1) = ?m"
    by (simp_all add: sp_bread_def vd)
  have dat: "op_data ops h s1 = ?m ?s" using data_ok [OF 1(2) h1(1)] h1(2) by simp
  obtain s2 where 2: "op_brelse ops h s1 = Ok s2" "inv s2" "abs s2 = sp_brelse ?s h (abs s1)"
    using brelse_ok [OF 1(2) h1(1)] h1(2,3) by auto
  have same: "abs s2 = abs s"
    unfolding 2(3) 1(4) using assms(6,7) rm 1(3)
    by (intro bstate.equality) (auto simp: sp_defs fun_eq_iff)
  have "read_head ops lg s = Ok (?lg, s2)"
    using 1(1) 2(1) assms(2,3,4) dat get_header_ok [of "?m ?s" lg]
    by (simp add: read_head_def loaded_def hdr_ok_def)
  moreover obtain s3 where 3: "install_trans ops True ?lg s2 = Ok s3" "inv s3"
    "abs s3 = do_writes (home_writes ?lg ?m) (abs s)"
    using install_trans_ok [OF 2(2) _ lok, of True] assms(2,6,7) rm vd by (auto simp: same)
  moreover obtain s4 where 4: "write_head ops (?lg\<lparr>lg_n := 0\<rparr>) s3 = Ok s4" "inv s4"
    "abs s4 = do_writes (head_write (?lg\<lparr>lg_n := 0\<rparr>) (vw (abs s3))) (abs s3)"
  proof -
    have "log_ok (?lg\<lparr>lg_n := 0\<rparr>)" using lok by (auto simp: log_ok_def logged_def)
    then show ?thesis
      using that write_head_ok [OF 3(2), of "?lg\<lparr>lg_n := 0\<rparr>"] assms(2,6,7) rm 3(3) by auto
  qed
  moreover have "abs s4 = do_writes (recovery_writes lg ?m) (abs s)"
    unfolding 4(3) 3(3) recovery_writes_def
    by (simp add: do_writes_append redo_home_writes recovered_def vd)
  ultimately show ?thesis by (auto simp: recover_from_log_def)
qed

end


section \<open>log\_write\<close>

lemma absorb_index:
  "absorb_index xs b \<le> length xs"
  "absorb_index xs b < length xs \<Longrightarrow> xs ! absorb_index xs b = b"
  "absorb_index xs b = length xs \<longleftrightarrow> b \<notin> set xs"
  by (induction xs) auto

definition note_block :: "u32 \<Rightarrow> logst \<Rightarrow> logst" where
  "note_block b lg =
     (if b \<in> set (logged lg) then lg
      else lg\<lparr>lg_block := (lg_block lg)[nat (lg_n lg) := b], lg_n := lg_n lg + 1\<rparr>)"

lemma note_block_simps [simp]:
  "lg_start (note_block b lg) = lg_start lg" "lg_size (note_block b lg) = lg_size lg"
  "lg_dev (note_block b lg) = lg_dev lg" "lg_outstanding (note_block b lg) = lg_outstanding lg"
  "lg_committing (note_block b lg) = lg_committing lg" "in_log (note_block b lg) = in_log lg"
  by (simp_all add: note_block_def in_log_def fun_eq_iff)

lemma note_block_ok:
  assumes "log_ok lg" and "lg_n lg < int LOGSIZE" and "lg_n lg < lg_size lg - 1" and "\<not> in_log lg b"
  shows "log_ok (note_block b lg)"
    and "logged (note_block b lg) = (if b \<in> set (logged lg) then logged lg else logged lg @ [b])"
proof -
  note ok = log_okD [OF assms(1)]
  have lt: "nat (lg_n lg) < length (lg_block lg)" using assms(2) ok(1) by simp
  have "nat (lg_n lg + 1) = Suc (nat (lg_n lg))" using ok(2) by simp
  then show l: "logged (note_block b lg) = (if b \<in> set (logged lg) then logged lg else logged lg @ [b])"
    using lt by (simp add: note_block_def logged_def take_Suc_conv_app_nth)
  have "distinct (logged (note_block b lg))" using ok(6) by (simp add: l)
  moreover have "\<forall>c \<in> set (logged (note_block b lg)). \<not> in_log lg c"
    using assms(1,4) by (auto simp: l log_ok_def)
  ultimately show "log_ok (note_block b lg)"
    using ok(1-5) assms(2,3) unfolding log_ok_def by (auto simp: note_block_def in_log_def)
qed

lemma log_write_lg:
  assumes "log_ok lg" and "lg_n lg < int LOGSIZE" and "lg_n lg < lg_size lg - 1"
    and "1 \<le> lg_outstanding lg" and "op_blockno ops h s = b"
  shows "log_write ops h lg s
         = Ok (note_block b lg, if b \<in> set (logged lg) then s else op_bpin ops h s)"
proof -
  note ok = log_okD [OF assms(1)]
  let ?i = "absorb_index (take (nat (lg_n lg)) (lg_block lg)) b"
  have l: "take (nat (lg_n lg)) (lg_block lg) = logged lg" by (simp add: logged_def)
  show ?thesis
  proof (cases "b \<in> set (logged lg)")
    case True
    then have i: "?i < nat (lg_n lg)" "int ?i \<noteq> lg_n lg" 
      using absorb_index(1,3) [of "logged lg" b] ok(2,7) unfolding l by linarith+
    then have "lg_block lg ! ?i = b"
      using absorb_index(2) [of "logged lg" b] ok(7,9) unfolding l by simp
    then have "(lg_block lg)[?i := b] = lg_block lg" by (metis list_update_id)
    then show ?thesis
      using assms(2-5) True i by (simp add: log_write_def note_block_def)
  next
    case False
    then have "?i = nat (lg_n lg)" using absorb_index(3) [of "logged lg" b] ok(7) unfolding l by simp
    then show ?thesis
      using assms(2-5) ok(2) False by (simp add: log_write_def note_block_def)
  qed
qed

section \<open>Transactions\<close>

text \<open>The fields that the updates of a transaction leave alone.\<close>

definition same_log :: "logst \<Rightarrow> logst \<Rightarrow> bool" where
  "same_log lg' lg \<longleftrightarrow> lg_start lg' = lg_start lg \<and> lg_size lg' = lg_size lg \<and> lg_dev lg' = lg_dev lg
     \<and> lg_outstanding lg' = lg_outstanding lg \<and> lg_committing lg' = lg_committing lg"

text \<open>
  The use of the log that log.c prescribes to its clients: between \<open>begin_op\<close> and \<open>end_op\<close>,
  each modified block is read, changed in the cache, passed to \<open>log_write\<close> and released.
\<close>

definition update_block :: "'s blk_ops \<Rightarrow> u32 \<times> block \<Rightarrow> logst \<times> 's \<Rightarrow> (logst \<times> 's) kres" where
  "update_block ops upd st =
     (case (upd, st) of ((b, x), (lg, s)) \<Rightarrow>
       kbind (op_bread ops (lg_dev lg) b s) (\<lambda>(h, s).
       kbind (log_write ops h lg (op_store ops h x s)) (\<lambda>(lg, s).
       kbind (op_brelse ops h s) (\<lambda>s. Ok (lg, s)))))"

definition transaction :: "'s blk_ops \<Rightarrow> (u32 \<times> block) list \<Rightarrow> logst \<times> 's \<Rightarrow> (logst \<times> 's) kres" where
  "transaction ops upds st =
     kbind (begin_op (fst st)) (\<lambda>lg.
     kbind (kfold (update_block ops) upds (lg, snd st)) (\<lambda>(lg, s).
     end_op ops lg s))"

text \<open>Between the steps of a file-system operation nothing is locked and exactly the logged
  blocks are pinned.\<close>

definition quiet :: "logst \<Rightarrow> bstate \<Rightarrow> bool" where
  "quiet lg a \<longleftrightarrow> log_ok lg \<and> (\<forall>b. \<not> bz a b) \<and> (\<forall>b. pn a b = (if b \<in> set (logged lg) then 1 else 0))"

lemma quiet_in_use: "quiet lg a \<Longrightarrow> {b. bz a b \<or> 0 < pn a b} = set (logged lg)"
  by (auto simp: quiet_def)

context block_io begin

lemma quiet_room: "inv s \<Longrightarrow> quiet lg (abs s) \<Longrightarrow> rm (abs s) + nat (lg_n lg) = NBUF"
  using count_ok [of s] quiet_in_use [of lg "abs s"] distinct_card [of "logged lg"]
    log_okD(6,7) [of lg] by (simp add: quiet_def)

lemma update_block_ok:
  assumes "inv s" and "lg_dev lg = d" and "quiet lg (abs s)" and "length x = BSIZE"
    and "\<not> in_log lg b" and "lg_n lg < int LOGSIZE" and "lg_n lg < lg_size lg - 1"
    and "1 \<le> lg_outstanding lg"
  shows "\<exists>s'. update_block ops (b, x) (lg, s) = Ok (note_block b lg, s') \<and> inv s'
       \<and> quiet (note_block b lg) (abs s')
       \<and> vw (abs s') = (vw (abs s))(b := x) \<and> dk (abs s') = dk (abs s) \<and> hs (abs s') = hs (abs s)
       \<and> hl (abs s') = hl (abs s)"
proof -
  have lok: "log_ok lg" and nb: "\<And>b. \<not> bz (abs s) b"
    and p: "\<And>b. pn (abs s) b = (if b \<in> set (logged lg) then 1 else 0)"
    using assms(3) by (auto simp: quiet_def)
  have "0 < rm (abs s)" using quiet_room [OF assms(1,3)] assms(6) by simp
  moreover have "pn (abs s) b < 2 ^ 31" by (simp add: p)
  ultimately obtain h s1 where 1: "op_bread ops d b s = Ok (h, s1)" "inv s1" "hl (abs s) h = None"
    "abs s1 = sp_bread b h (abs s)"
    using bread_ok [OF assms(1) nb] by blast
  then have h1: "hl (abs s1) h = Some b" by (simp add: sp_bread_def)
  let ?s2 = "op_store ops h x s1"
  have 2: "inv ?s2" "abs ?s2 = sp_store b x (abs s1)" using store_ok [OF 1(2) h1 assms(4)] by auto
  then have h2: "hl (abs ?s2) h = Some b" "pn (abs ?s2) = pn (abs s)"
    using h1 1(4) by (simp_all add: sp_defs)
  define s3 where "s3 = (if b \<in> set (logged lg) then ?s2 else op_bpin ops h ?s2)"
  have lw: "log_write ops h lg ?s2 = Ok (note_block b lg, s3)"
    unfolding s3_def by (rule log_write_lg [OF lok assms(6-8) blockno_ok [OF h2(1)]])
  have 3: "inv s3" "abs s3 = (if b \<in> set (logged lg) then abs ?s2 else sp_bpin b (abs ?s2))"
    using bpin_ok [OF 2(1) h2(1)] 2(1) h2(2) p by (auto simp: s3_def)
  then have h3: "hl (abs s3) h = Some b" "pn (abs s3) b = 1"
    using h2 p by (simp_all add: sp_bpin_def)
  obtain s4 where 4: "op_brelse ops h s3 = Ok s4" "inv s4" "abs s4 = sp_brelse b h (abs s3)"
    using brelse_ok [OF 3(1) h3(1)] h3(2) by auto
  note eqs = 4(3) 3(2) 2(2) 1(4)
  have "pn (abs s4) c = (if c \<in> set (logged (note_block b lg)) then 1 else 0)" for c
    unfolding note_block_ok(2) [OF lok assms(6,7,5)] eqs using p by (auto simp: sp_defs)
  moreover have "\<not> bz (abs s4) c" for c unfolding eqs using nb by (simp add: sp_defs)
  ultimately have "quiet (note_block b lg) (abs s4)"
    using note_block_ok(1) [OF lok assms(6,7,5)] by (simp add: quiet_def)
  moreover have "vw (abs s4) = (vw (abs s))(b := x)" "dk (abs s4) = dk (abs s)" "hs (abs s4) = hs (abs s)"
    "hl (abs s4) = hl (abs s)"
    unfolding eqs using 1(3) by (auto simp: sp_defs)
  moreover have "update_block ops (b, x) (lg, s) = Ok (note_block b lg, s4)"
    using 1(1) lw 4(1) assms(2) by (simp add: update_block_def)
  ultimately show ?thesis using 4(2) by blast
qed

lemma update_blocks_ok:
  assumes "inv s" and "lg_dev lg = d" and "quiet lg (abs s)" and "1 \<le> lg_outstanding lg"
    and "\<forall>(b, x) \<in> set upds. length x = BSIZE \<and> \<not> in_log lg b"
    and "card (set (logged lg) \<union> fst ` set upds) < LOGSIZE"
    and "int (card (set (logged lg) \<union> fst ` set upds)) < lg_size lg - 1"
  shows "\<exists>lg' s'. kfold (update_block ops) upds (lg, s) = Ok (lg', s') \<and> inv s' \<and> quiet lg' (abs s')
       \<and> same_log lg' lg
       \<and> set (logged lg') = set (logged lg) \<union> fst ` set upds
       \<and> vw (abs s') = replay upds (vw (abs s)) \<and> dk (abs s') = dk (abs s) \<and> hs (abs s') = hs (abs s)
       \<and> hl (abs s') = hl (abs s)"
  using assms
proof (induction upds arbitrary: lg s)
  case Nil
  then show ?case by (auto simp: same_log_def)
next
  case (Cons u upds)
  obtain b x where u: "u = (b, x)" by (cases u)
  let ?lg = "note_block b lg"
  have lok: "log_ok lg" using Cons.prems(3) by (simp add: quiet_def)
  have "card (set (logged lg)) \<le> card (set (logged lg) \<union> fst ` set (u # upds))"
    by (intro card_mono) auto
  moreover have "int (card (set (logged lg))) = lg_n lg"
    using log_okD(2,6,7) [OF lok] by (simp add: distinct_card)
  ultimately have ok: "length x = BSIZE" "\<not> in_log lg b" "lg_n lg < int LOGSIZE" "lg_n lg < lg_size lg - 1"
    using Cons.prems(5-7) u by auto
  obtain s1 where 1: "update_block ops (b, x) (lg, s) = Ok (?lg, s1)" "inv s1" "quiet ?lg (abs s1)"
    "vw (abs s1) = (vw (abs s))(b := x)" "dk (abs s1) = dk (abs s)" "hs (abs s1) = hs (abs s)"
    "hl (abs s1) = hl (abs s)"
    using update_block_ok [OF Cons.prems(1-3) ok Cons.prems(4)] by blast
  have l: "set (logged ?lg) = insert b (set (logged lg))"
    using note_block_ok(2) [OF lok ok(3,4,2)] by auto
  then have un: "set (logged ?lg) \<union> fst ` set upds = set (logged lg) \<union> fst ` set (u # upds)"
    using u by auto
  have "\<exists>lg' s'. kfold (update_block ops) upds (?lg, s1) = Ok (lg', s') \<and> inv s' \<and> quiet lg' (abs s')
       \<and> same_log lg' ?lg
       \<and> set (logged lg') = set (logged ?lg) \<union> fst ` set upds
       \<and> vw (abs s') = replay upds (vw (abs s1)) \<and> dk (abs s') = dk (abs s1) \<and> hs (abs s') = hs (abs s1)
       \<and> hl (abs s') = hl (abs s1)"
    by (rule Cons.IH [OF 1(2) _ 1(3)]) (use Cons.prems un in auto)
  then obtain lg' s' where 2: "kfold (update_block ops) upds (?lg, s1) = Ok (lg', s')" "inv s'"
    "quiet lg' (abs s')" "same_log lg' ?lg"
    "set (logged lg') = set (logged ?lg) \<union> fst ` set upds"
    "vw (abs s') = replay upds (vw (abs s1))" "dk (abs s') = dk (abs s1)" "hs (abs s') = hs (abs s1)"
    "hl (abs s') = hl (abs s1)" by blast
  have "same_log lg' lg" using 2(4) by (simp add: same_log_def)
  then show ?case
    using 2 1 un u by (intro exI [of _ lg'] exI [of _ s']) simp
qed

lemma give_backs_pn:
  "distinct bs \<Longrightarrow> b \<in> set bs \<Longrightarrow> pn (fold give_back bs a) b = pn a b - 1"
proof (induction bs arbitrary: a)
  case (Cons c bs)
  have p: "pn (give_back c a) b = (if b = c then pn a b - 1 else pn a b)" by (simp add: give_back_def)
  show ?case
  proof (cases "b = c")
    case True
    then show ?thesis using Cons.prems p by simp
  next
    case False
    then show ?thesis using Cons p by simp
  qed
qed simp

text \<open>A whole transaction, and what a crash at any moment of it leaves to recovery.\<close>

lemma transaction_ok:
  assumes "inv s" and "lg_dev lg = d" and "quiet lg (abs s)" and "lg_n lg = 0"
    and "lg_outstanding lg = 0" and "\<not> lg_committing lg"
    and "\<forall>(b, x) \<in> set upds. length x = BSIZE \<and> \<not> in_log lg b"
    and "card (fst ` set upds) \<le> MAXOPBLOCKS" and "int (card (fst ` set upds)) < lg_size lg - 1"
    and "get32 (dk (abs s) (lg_start lg)) 0 = 0"
  shows "\<exists>lg' s' ws p. transaction ops upds (lg, s) = Ok (lg', s') \<and> inv s' \<and> same_log lg' lg
     \<and> lg_n lg' = 0 \<and> quiet lg' (abs s') \<and> get32 (dk (abs s') (lg_start lg)) 0 = 0
     \<and> hs (abs s') = hs (abs s) @ ws \<and> dk (abs s') = replay ws (dk (abs s))
     \<and> (\<forall>c. \<not> in_log lg c \<longrightarrow> dk (abs s') c = replay upds (dk (abs s)) c)
     \<and> (\<forall>(b, x) \<in> set ws. length x = BSIZE)
     \<and> (\<forall>k. hdr_ok lg (replay (take k ws) (dk (abs s)) (lg_start lg))
           \<and> (\<forall>c. \<not> in_log lg c \<longrightarrow> recovered (lg_start lg) (replay (take k ws) (dk (abs s))) c
                = (if k \<le> p then dk (abs s) c else replay upds (dk (abs s)) c)))"
proof -
  let ?m = "dk (abs s)" and ?s = "lg_start lg"
  have lok: "log_ok lg" using assms(3) by (simp add: quiet_def)
  have e: "logged lg = []" using assms(4) by (simp add: logged_def)
  have nb: "\<not> bz (abs s) b" "pn (abs s) b = 0" for b using assms(3) e by (auto simp: quiet_def)
  have vd: "vw (abs s) = ?m" using clean_ok [OF assms(1) nb] by (rule ext)
  let ?lg1 = "lg\<lparr>lg_outstanding := 1\<rparr>"
  have q1: "quiet ?lg1 (abs s)" and il: "in_log ?lg1 = in_log lg"
    using assms(3) by (auto simp: quiet_def log_ok_def logged_def in_log_def fun_eq_iff)
  have "begin_op lg = Ok ?lg1" using assms(4-6) by (simp add: begin_op_def)
  moreover obtain lg2 s2 where 2: "kfold (update_block ops) upds (?lg1, s) = Ok (lg2, s2)" "inv s2"
    "quiet lg2 (abs s2)" "same_log lg2 ?lg1" "set (logged lg2) = fst ` set upds"
    "vw (abs s2) = replay upds ?m" "dk (abs s2) = ?m" "hs (abs s2) = hs (abs s)" "hl (abs s2) = hl (abs s)"
  proof -
    have e1: "logged ?lg1 = []" using e by (simp add: logged_def)
    then show ?thesis
      using that update_blocks_ok [OF assms(1) _ q1, of upds] assms(2,7,8,9) il vd by auto
  qed
  let ?lg3 = "lg2\<lparr>lg_outstanding := 0, lg_committing := True\<rparr>"
  have same: "lg_start lg2 = ?s" "lg_dev lg2 = d" "lg_size lg2 = lg_size lg" "lg_outstanding lg2 = 1"
    "\<not> lg_committing lg2" "in_log ?lg3 = in_log lg"
    using 2(4) assms(2,6) by (auto simp: same_log_def in_log_def fun_eq_iff)
  have l3: "logged ?lg3 = logged lg2" by (simp add: logged_def)
  have "in_log ?lg3 = in_log lg2" by (simp add: in_log_def fun_eq_iff)
  then have lok3: "log_ok ?lg3" using 2(3) by (simp add: quiet_def log_ok_def logged_def)
  note ok3 = log_okD [OF lok3]
  have sz: "0 < lg_size lg" using ok3(2,3) same(3) by simp
  have h0: "hdr_n (?m ?s) = 0" "hdr_ok lg (?m ?s)"
    using assms(10) sz by (simp_all add: hdr_n_def hdr_ok_def)
  show ?thesis
  proof (cases "lg_n lg2 = 0")
    case True
    then have "logged lg2 = []" by (simp add: logged_def)
    then have u: "upds = []" using 2(5) by simp
    have "end_op ops lg2 s2 = Ok (?lg3\<lparr>lg_committing := False\<rparr>, s2)"
      using same True by (simp add: end_op_def commit_def)
    then have t: "transaction ops upds (lg, s) = Ok (?lg3\<lparr>lg_committing := False\<rparr>, s2)"
      using \<open>begin_op lg = Ok ?lg1\<close> 2(1) by (simp add: transaction_def)
    have "quiet (?lg3\<lparr>lg_committing := False\<rparr>) (abs s2)"
      using 2(3) by (auto simp: quiet_def log_ok_def logged_def in_log_def)
    moreover have "same_log (?lg3\<lparr>lg_committing := False\<rparr>) lg"
      using same assms(2,5,6) by (simp add: same_log_def)
    ultimately show ?thesis
      using t 2(2,7,8) u h0 True assms(10) redo_empty [of ?m ?s]
      by (intro exI [of _ "?lg3\<lparr>lg_committing := False\<rparr>"] exI [of _ s2] exI [of _ "[]"] exI [of _ 0] conjI)
        simp_all
  next
    case False
    then have pos: "0 < lg_n ?lg3" using ok3(2) by simp
    have "card (set (logged lg2)) = nat (lg_n lg2)" using ok3(6,7) l3 by (simp add: distinct_card)
    then have "0 < rm (abs s2)" using quiet_room [OF 2(2,3)] 2(5) assms(8) by simp
    then have ready: "commit_ready ?lg3 (abs s2)"
      using 2(3) lok3 l3 same(6) by (auto simp: commit_ready_def quiet_def log_ok_def)
    let ?v = "vw (abs s2)"
    let ?ws = "commit_writes ?lg3 ?v" and ?lg4 = "?lg3\<lparr>lg_n := 0\<rparr>"
    obtain s4 where 4: "commit ops ?lg3 s2 = Ok (?lg4, s4)" "inv s4"
      "abs s4 = fold give_back (logged ?lg3) (do_writes ?ws (abs s2))"
      using commit_ok [OF 2(2) _ ready pos] same(2) by auto
    let ?lg5 = "?lg4\<lparr>lg_committing := False\<rparr>"
    have "end_op ops lg2 s2 = Ok (?lg5, s4)"
      using same 4(1) by (simp add: end_op_def Let_def)
    then have t: "transaction ops upds (lg, s) = Ok (?lg5, s4)"
      using \<open>begin_op lg = Ok ?lg1\<close> 2(1) by (simp add: transaction_def)
    have fin: "pn (abs s4) b = 0" "\<not> bz (abs s4) b" for b
    proof -
      have p2: "pn (abs s2) b = (if b \<in> set (logged lg2) then 1 else 0)" "\<not> bz (abs s2) b"
        using 2(3) by (auto simp: quiet_def)
      show "\<not> bz (abs s4) b" using p2 by (simp add: 4(3))
      show "pn (abs s4) b = 0"
      proof (cases "b \<in> set (logged lg2)")
        case True
        then show ?thesis using p2 ok3(6) l3 give_backs_pn [of "logged lg2" b] by (simp add: 4(3))
      next
        case False
        then show ?thesis using p2 l3 by (simp add: 4(3))
      qed
    qed
    have "log_ok ?lg5" using ok3(1-5) by (simp add: log_ok_def logged_def)
    moreover have "logged ?lg5 = []" by (simp add: logged_def)
    ultimately have q5: "quiet ?lg5 (abs s4)" using fin by (simp add: quiet_def)
    have d4: "dk (abs s4) = replay ?ws ?m" "hs (abs s4) = hs (abs s) @ ?ws" by (simp_all add: 4(3) 2(7,8))
    have len: "length (?v (lg_start ?lg3)) = BSIZE" using len_ok [OF 2(2)] by simp
    have h0': "hdr_n (?m (lg_start ?lg3)) = 0" "hdr_ok ?lg3 (?m (lg_start ?lg3))"
      using h0 same by (simp_all add: hdr_ok_def)
    note pre = recovered_commit_prefix [where v = ?v and m = ?m, OF lok3 len h0']
    have new: "(if c \<in> set (logged ?lg3) then ?v c else ?m c) = replay upds ?m c" for c
      using 2(5,6) replay_other [of c upds ?m] l3 by auto
    have rec: "recovered ?s (replay (take k ?ws) ?m) c
        = (if k \<le> nat (lg_n lg2) then ?m c else replay upds ?m c)" if "\<not> in_log lg c" for k c
      using pre(1) [of c k] that same(1,6) new [of c] by auto
    have hok: "hdr_ok lg (replay (take k ?ws) ?m ?s)" for k
    proof (cases "\<exists>c. \<not> in_log lg c")
      case True
      then obtain c where "\<not> in_log ?lg3 c" using same(6) by auto
      from pre(2) [OF this, of k] show ?thesis using same by (simp add: hdr_ok_def)
    next
      case False
      then have "logged lg2 = []" using lok3 l3 same(6) by (auto simp: log_ok_def)
      then show ?thesis using pos ok3(7) l3 by simp
    qed
    have last: "get32 (replay ?ws ?m ?s) 0 = 0"
      using same(1) by (simp add: commit_writes_def Let_def replay_append head_write_def put_header_def)
    have home: "replay ?ws ?m c = replay upds ?m c" if "\<not> in_log lg c" for c
    proof -
      have "hdr_n (replay ?ws ?m ?s) = 0" using last by (simp add: hdr_n_def)
      then have "replay ?ws ?m c = recovered ?s (replay ?ws ?m) c" by (simp add: redo_empty)
      also have "\<dots> = replay upds ?m c"
        using rec [OF that, of "length ?ws"] by (simp add: commit_writes_def Let_def)
      finally show ?thesis .
    qed
    have "\<forall>(b, x) \<in> set ?ws. length x = BSIZE"
      using len_ok [OF 2(2)] by (intro commit_writes_length [OF lok3]) blast
    moreover have "same_log ?lg5 lg" using same assms(2,5,6) by (simp add: same_log_def)
    moreover have "\<forall>k. hdr_ok lg (replay (take k ?ws) ?m ?s)
         \<and> (\<forall>c. \<not> in_log lg c \<longrightarrow> recovered ?s (replay (take k ?ws) ?m) c
              = (if k \<le> nat (lg_n lg2) then ?m c else replay upds ?m c))" using rec hok by blast
    ultimately show ?thesis
      using t 4(2) q5 d4 last home
      by (intro exI [of _ ?lg5] exI [of _ s4] exI [of _ ?ws] exI [of _ "nat (lg_n lg2)"] conjI) simp_all
  qed
qed

end


section \<open>Boot\<close>

text \<open>The in-memory log when \<open>initlog\<close> calls \<open>recover_from_log\<close>.\<close>

abbreviation boot_log :: "u32 \<Rightarrow> u32 \<Rightarrow> u32 \<Rightarrow> logst \<Rightarrow> logst" where
  "boot_log d start nlog lg \<equiv> lg\<lparr>lg_start := start, lg_size := sint nlog, lg_dev := d\<rparr>"

lemma boot_ok:
  fixes m :: "u32 \<Rightarrow> block"
  assumes "d \<noteq> 0" and "\<And>b. length (m b) = BSIZE" and "length (lg_block lg) = LOGSIZE"
    and "hdr_ok (boot_log d start nlog lg) (m start)"
  shows "\<exists>lg2 bc2. initlog (cache_ops me) d start nlog lg (binit (zero_cache m)) = Ok (lg2, bc2)
       \<and> bc_inv d bc2 \<and> lg_n lg2 = 0 \<and> bhist bc2 = recovery_writes (boot_log d start nlog lg) m
       \<and> bdisk bc2 = replay (recovery_writes (boot_log d start nlog lg) m) m"
proof -
  note z = binit_zero(1) [OF assms(1,2)] binit_zero(2) [OF assms(1,2), where me = me]
  have sz: "sint nlog \<le> 2 ^ 31" using sint_lt [of nlog] by simp
  obtain s' where
    "recover_from_log (cache_ops me) (boot_log d start nlog lg) (binit (zero_cache m))
       = Ok ((loaded (boot_log d start nlog lg) (m start))\<lparr>lg_n := 0\<rparr>, s')"
    "bc_inv d s'"
    "bc_abs me d s' = do_writes (recovery_writes (boot_log d start nlog lg) m)
        (bc_abs me d (binit (zero_cache m)))"
    using cache.recover_from_log_ok [of d "binit (zero_cache m)" "boot_log d start nlog lg" me]
      z assms(3,4) sz by auto
  moreover from this(3) have "bdisk s' = replay (recovery_writes (boot_log d start nlog lg) m) m"
    "bhist s' = recovery_writes (boot_log d start nlog lg) m"
    unfolding z(2) by (simp_all add: bc_abs_def do_writes_def)
  ultimately show ?thesis by (auto simp: initlog_def)
qed

lemma recovery_writes_home:
  assumes "hdr_ok lg (m (lg_start lg))" and "\<not> in_log lg c"
  shows "replay (recovery_writes lg m) m c = recovered (lg_start lg) m c"
proof -
  have "0 < lg_size lg" using assms(1) by (simp add: hdr_ok_def)
  then have "c \<noteq> lg_start lg" using in_log_start assms(2) by auto
  then show ?thesis by (simp add: recovery_writes_def replay_append head_write_def recovered_def)
qed


lemma recovery_prefix_hdr_ok:
  assumes "hdr_ok lg (m (lg_start lg))" and "length (lg_block lg) = LOGSIZE"
    and "lg_size lg \<le> 2 ^ 31" and "\<And>b. length (m b) = BSIZE"
  shows "hdr_ok lg (replay (take k (recovery_writes lg m)) m (lg_start lg))"
    and "\<forall>(b, x) \<in> set (recovery_writes lg m). length x = BSIZE"
proof -
  let ?s = "lg_start lg" and ?lg = "loaded lg (m (lg_start lg))"
  let ?n = "hdr_n (m ?s)" and ?h = "put_header (?lg\<lparr>lg_n := 0\<rparr>) (recovered ?s m ?s)"
  have lok: "log_ok ?lg" by (rule loaded_ok(1) [OF assms(1-3)])
  have sz: "0 < lg_size lg" using assms(1) by (simp add: hdr_ok_def)
  then have st: "in_log ?lg ?s" by (simp add: in_log_start)
  note hw = replay_home_writes(3) [OF lok st]
  have rs: "recovered ?s m ?s = m ?s"
    using hw [of "length (home_writes ?lg m)"] by (simp add: recovered_def redo_home_writes)
  have lok0: "log_ok (?lg\<lparr>lg_n := 0\<rparr>)" using lok by (auto simp: log_ok_def logged_def)
  have "hdr_ok (?lg\<lparr>lg_n := 0\<rparr>) ?h" by (rule put_header_hdr_ok [OF _ lok0]) (simp add: rs assms(4))
  then have h: "hdr_ok lg ?h" by (simp add: hdr_ok_def in_log_def)
  have len: "length ?h = BSIZE" using put_header_ok(1) [of _ "?lg\<lparr>lg_n := 0\<rparr>"] by (simp add: rs assms(4))
  show "hdr_ok lg (replay (take k (recovery_writes lg m)) m ?s)"
  proof (cases "k \<le> ?n")
    case True
    then have "take k (recovery_writes lg m) = take k (home_writes ?lg m)"
      by (simp add: recovery_writes_def redo_home_writes)
    then show ?thesis using hw assms(1) by simp
  next
    case False
    then have "take k (recovery_writes lg m) = recovery_writes lg m"
      by (simp add: recovery_writes_def redo_home_writes)
    then show ?thesis using h by (simp add: recovery_writes_def replay_append head_write_def)
  qed
  show "\<forall>(b, x) \<in> set (recovery_writes lg m). length x = BSIZE"
    using len assms(4) by (auto simp: recovery_writes_def redo_def head_write_def)
qed

section \<open>Properties\<close>

text \<open>C1: File-system transactions are atomic with respect to crashes. Run \<open>begin_op\<close>, up to
  \<open>MAXOPBLOCKS\<close> distinct blocks updated through the cache and \<open>log_write\<close>, and \<open>end_op\<close>, on a
  quiescent log. The calls succeed and the disk ends up with all the updates. And there is a
  point \<open>p\<close> in the sequence \<open>ws\<close> of block writes they cause such that, if the machine stops after
  any number \<open>k\<close> of them and boots again with an empty cache, \<open>initlog\<close> succeeds and every block
  outside the log has its old contents if \<open>k \<le> p\<close>, its new contents if \<open>k > p\<close>.\<close>

theorem transaction_crash_safe:
  assumes "bc_inv d bc" and "d \<noteq> 0" and "lg_dev lg = d" and "quiet lg (bc_abs me d bc)"
    and "lg_n lg = 0" and "lg_outstanding lg = 0" and "\<not> lg_committing lg" and "lg_size lg = sint nlog"
    and "get32 (bdisk bc (lg_start lg)) 0 = 0" and "length (lg_block lg0) = LOGSIZE"
    and "\<forall>(b, x) \<in> set upds. length x = BSIZE \<and> \<not> in_log lg b"
    and "card (fst ` set upds) \<le> MAXOPBLOCKS" and "int (card (fst ` set upds)) < lg_size lg - 1"
  shows "\<exists>lg' bc' ws p. transaction (cache_ops me) upds (lg, bc) = Ok (lg', bc') \<and> bc_inv d bc'
     \<and> quiet lg' (bc_abs me d bc') \<and> lg_n lg' = 0 \<and> bhist bc' = bhist bc @ ws
     \<and> (\<forall>c. \<not> in_log lg c \<longrightarrow> bdisk bc' c = replay upds (bdisk bc) c)
     \<and> (\<forall>k. \<exists>lg2 bc2. initlog (cache_ops you) d (lg_start lg) nlog lg0
             (binit (zero_cache (replay (take k ws) (bdisk bc)))) = Ok (lg2, bc2)
          \<and> (\<forall>c. \<not> in_log lg c \<longrightarrow>
               bdisk bc2 c = (if k \<le> p then bdisk bc c else replay upds (bdisk bc) c)))"
proof -
  obtain lg' bc' ws p where t: "transaction (cache_ops me) upds (lg, bc) = Ok (lg', bc')"
    "bc_inv d bc'" "lg_n lg' = 0" "quiet lg' (bc_abs me d bc')"
    "bhist bc' = bhist bc @ ws" "\<And>c. \<not> in_log lg c \<Longrightarrow> bdisk bc' c = replay upds (bdisk bc) c"
    "\<forall>(b, x) \<in> set ws. length x = BSIZE"
    "\<And>k. hdr_ok lg (replay (take k ws) (bdisk bc) (lg_start lg))"
    "\<And>k c. \<not> in_log lg c \<Longrightarrow> recovered (lg_start lg) (replay (take k ws) (bdisk bc)) c
          = (if k \<le> p then bdisk bc c else replay upds (bdisk bc) c)"
    using cache.transaction_ok [OF assms(1,3,4,5,6,7,11,12,13), unfolded bc_abs_simps, OF assms(9)]
    by blast
  let ?lg = "boot_log d (lg_start lg) nlog lg0"
  have il: "in_log ?lg = in_log lg" using assms(8) by (simp add: in_log_def fun_eq_iff)
  have "\<exists>lg2 bc2. initlog (cache_ops you) d (lg_start lg) nlog lg0
             (binit (zero_cache (replay (take k ws) (bdisk bc)))) = Ok (lg2, bc2)
          \<and> (\<forall>c. \<not> in_log lg c \<longrightarrow>
               bdisk bc2 c = (if k \<le> p then bdisk bc c else replay upds (bdisk bc) c))" for k
  proof -
    let ?m = "replay (take k ws) (bdisk bc)"
    have "\<forall>(b, x) \<in> set (take k ws). length x = BSIZE" using t(7) by (auto dest: in_set_takeD)
    then have len: "length (?m b) = BSIZE" for b using bc_invD(5) [OF assms(1)] by (rule replay_length)
    have h: "hdr_ok ?lg (?m (lg_start lg))" using t(8) [of k] assms(8) by (simp add: hdr_ok_def il)
    obtain lg2 bc2 where b: "initlog (cache_ops you) d (lg_start lg) nlog lg0 (binit (zero_cache ?m))
        = Ok (lg2, bc2)" "bdisk bc2 = replay (recovery_writes ?lg ?m) ?m"
      using boot_ok [where me = you and m = ?m, OF assms(2) len assms(10) h] by blast
    moreover have "bdisk bc2 c = recovered (lg_start lg) ?m c" if "\<not> in_log lg c" for c
      unfolding b(2) using recovery_writes_home [of ?lg ?m c] h il that by simp
    ultimately show ?thesis using t(9) [of _ k] by (intro exI [of _ lg2] exI [of _ bc2]) simp
  qed
  then show ?thesis using t(1-6)
    by (intro exI [of _ lg'] exI [of _ bc'] exI [of _ ws] exI [of _ p]) simp
qed

text \<open>A small concrete disk: the log is blocks 2 to 31, block 40 is updated twice and 41 once.\<close>

definition demo_log :: logst where
  "demo_log = \<lparr>lg_start = 2, lg_size = 30, lg_outstanding = 0, lg_committing = False, lg_dev = 1,
               lg_n = 0, lg_block = replicate LOGSIZE 0\<rparr>"

definition demo_cache :: bcache where
  "demo_cache = binit (zero_cache (\<lambda>b. replicate BSIZE 0))"

definition demo_upds :: "(u32 \<times> block) list" where
  "demo_upds = [(40, replicate BSIZE 1), (41, replicate BSIZE 2), (40, replicate BSIZE 3)]"

lemma demo_facts:
  "bc_inv 1 demo_cache" "quiet demo_log (bc_abs me 1 demo_cache)" "bdisk demo_cache = (\<lambda>b. replicate BSIZE 0)"
  "get32 (bdisk demo_cache 2) 0 = 0" "log_ok demo_log"
proof -
  have l: "length (replicate BSIZE (0 :: u8)) = BSIZE" by simp
  note z = binit_zero [of 1 "\<lambda>b. replicate BSIZE 0", OF _ l]
  show "bc_inv 1 demo_cache" unfolding demo_cache_def by (rule z(1)) simp
  have a: "bc_abs me 1 demo_cache = \<lparr>vw = \<lambda>b. replicate BSIZE 0,
      dk = \<lambda>b. replicate BSIZE 0, hs = [], bz = (\<lambda>_. False), pn = (\<lambda>_. 0), hl = (\<lambda>_. None), rm = NBUF\<rparr>"
    for me unfolding demo_cache_def by (rule z(2)) simp
  show "log_ok demo_log" by (simp add: log_ok_def demo_log_def logged_def)
  then show "quiet demo_log (bc_abs me 1 demo_cache)"
    unfolding a quiet_def by (simp add: demo_log_def logged_def)
  show d: "bdisk demo_cache = (\<lambda>b. replicate BSIZE 0)" using arg_cong [OF a [of 0], of dk] by simp
  show "get32 (bdisk demo_cache 2) 0 = 0" unfolding d by (simp add: get32_def)
qed

lemma demo_outside:
  "\<not> in_log demo_log 40" "\<not> in_log demo_log 41"
proof -
  have "(2 :: u32) + of_nat i \<noteq> of_nat n" if "i < 30" "32 \<le> n" "n < 100" for i n
  proof -
    have "(of_nat (2 + i) :: u32) \<noteq> of_nat n"
      using that by (simp only: word_of_nat_eq_iff) (simp add: take_bit_nat_eq_self)
    then show ?thesis by simp
  qed
  from this [of _ 40] this [of _ 41] show "\<not> in_log demo_log 40" "\<not> in_log demo_log 41"
    by (fastforce simp: in_log_def demo_log_def)+
qed


lemma transaction_crash_safe_witness:
  "\<exists>lg' bc' ws p. transaction (cache_ops 7) demo_upds (demo_log, demo_cache) = Ok (lg', bc') \<and> bc_inv 1 bc'
     \<and> quiet lg' (bc_abs 7 1 bc') \<and> lg_n lg' = 0 \<and> bhist bc' = bhist demo_cache @ ws
     \<and> (\<forall>c. \<not> in_log demo_log c \<longrightarrow> bdisk bc' c = replay demo_upds (bdisk demo_cache) c)
     \<and> (\<forall>k. \<exists>lg2 bc2. initlog (cache_ops 8) 1 (lg_start demo_log) 30 demo_log
             (binit (zero_cache (replay (take k ws) (bdisk demo_cache)))) = Ok (lg2, bc2)
          \<and> (\<forall>c. \<not> in_log demo_log c \<longrightarrow>
               bdisk bc2 c = (if k \<le> p then bdisk demo_cache c else replay demo_upds (bdisk demo_cache) c)))"
proof (rule transaction_crash_safe)
  show "bc_inv 1 demo_cache" "quiet demo_log (bc_abs 7 1 demo_cache)" by (rule demo_facts)+
  show "get32 (bdisk demo_cache (lg_start demo_log)) 0 = 0"
    using demo_facts(4) by (simp add: demo_log_def)
  show "\<forall>(b, x) \<in> set demo_upds. length x = BSIZE \<and> \<not> in_log demo_log b"
    using demo_outside by (simp add: demo_upds_def)
qed (simp_all add: demo_log_def demo_upds_def card_insert_if)

text \<open>C2: Recovery can itself be interrupted. For any disk whose log header is sane, \<open>initlog\<close> on
  a freshly booted cache succeeds, clears the header, and leaves outside the log the disk that
  the header asks for; and if the machine stops after any number \<open>k\<close> of the writes recovery makes
  and boots again, \<open>initlog\<close> succeeds again with the same blocks.\<close>

theorem recovery_crash_safe:
  fixes m :: "u32 \<Rightarrow> block"
  assumes "d \<noteq> 0" and "\<And>b. length (m b) = BSIZE" and "length (lg_block lg) = LOGSIZE"
    and "hdr_ok (boot_log d start nlog lg) (m start)"
  shows "\<exists>lg1 bc1. initlog (cache_ops me) d start nlog lg (binit (zero_cache m)) = Ok (lg1, bc1)
     \<and> lg_n lg1 = 0 \<and> hdr_n (bdisk bc1 start) = 0
     \<and> (\<forall>c. \<not> in_log (boot_log d start nlog lg) c \<longrightarrow> bdisk bc1 c = recovered start m c)
     \<and> (\<forall>k. \<exists>lg2 bc2. initlog (cache_ops you) d start nlog lg
             (binit (zero_cache (replay (take k (bhist bc1)) m))) = Ok (lg2, bc2)
          \<and> (\<forall>c. \<not> in_log (boot_log d start nlog lg) c \<longrightarrow> bdisk bc2 c = bdisk bc1 c))"
proof -
  let ?lg = "boot_log d start nlog lg"
  let ?R = "recovery_writes ?lg m"
  have sz: "lg_size ?lg \<le> 2 ^ 31" using sint_lt [of nlog] by simp
  have st: "lg_start ?lg = start" by simp
  note pre = recovery_prefix_hdr_ok [of ?lg m, unfolded st, OF assms(4) _ sz assms(2)]
  obtain lg1 bc1 where 1: "initlog (cache_ops me) d start nlog lg (binit (zero_cache m)) = Ok (lg1, bc1)"
    "lg_n lg1 = 0" "bhist bc1 = ?R" "bdisk bc1 = replay ?R m"
    using boot_ok [where me = me and m = m, OF assms] by blast
  have home: "bdisk bc1 c = recovered start m c" if "\<not> in_log ?lg c" for c
    unfolding 1(4) using recovery_writes_home [of ?lg m c] assms(4) that by simp
  have "get32 (bdisk bc1 start) 0 = 0"
    unfolding 1(4) recovery_writes_def by (simp add: replay_append head_write_def put_header_def)
  then have "hdr_n (bdisk bc1 start) = 0" by (simp add: hdr_n_def)
  moreover have "\<exists>lg2 bc2. initlog (cache_ops you) d start nlog lg
             (binit (zero_cache (replay (take k ?R) m))) = Ok (lg2, bc2)
          \<and> (\<forall>c. \<not> in_log ?lg c \<longrightarrow> bdisk bc2 c = bdisk bc1 c)" for k
  proof -
    let ?m = "replay (take k ?R) m"
    have "\<forall>(b, x) \<in> set (take k ?R). length x = BSIZE"
      using pre(2) assms(3) by (auto dest: in_set_takeD)
    then have len: "length (?m b) = BSIZE" for b using assms(2) by (rule replay_length)
    have h: "hdr_ok ?lg (?m start)" using pre(1) assms(3) by simp
    obtain lg2 bc2 where b: "initlog (cache_ops you) d start nlog lg (binit (zero_cache ?m)) = Ok (lg2, bc2)"
      "bdisk bc2 = replay (recovery_writes ?lg ?m) ?m"
      using boot_ok [where me = you and m = ?m, OF assms(1) len assms(3) h] by blast
    have "bdisk bc2 c = bdisk bc1 c" if c: "\<not> in_log ?lg c" for c
    proof -
      have "bdisk bc2 c = recovered start ?m c"
        unfolding b(2) using recovery_writes_home [of ?lg ?m c] h c by simp
      also have "\<dots> = recovered start m c"
        using recovered_recovery_prefix [of ?lg m c k, unfolded st, OF assms(4) _ sz assms(2) c] assms(3)
        by simp
      finally show ?thesis using home [OF c] by simp
    qed
    with b(1) show ?thesis by blast
  qed
  ultimately show ?thesis using 1 home by (intro exI [of _ lg1] exI [of _ bc1]) simp
qed

text \<open>A committed transaction of one block, not yet installed.\<close>

definition demo_disk :: "u32 \<Rightarrow> block" where
  "demo_disk b = (if b = 2 then set32 (set32 (replicate BSIZE 0) 0 1) 4 40
                  else if b = 3 then replicate BSIZE 5 else replicate BSIZE 0)"

lemma demo_disk_hdr: "hdr_ok (boot_log 1 2 30 demo_log) (demo_disk 2)"
proof -
  let ?h = "demo_disk 2"
  have l: "length (set32 (replicate BSIZE 0) 0 1) = BSIZE" by simp
  have n: "get32 ?h 0 = 1" using l by (simp add: demo_disk_def get32_set32_other)
  then have hn: "hdr_n ?h = 1" by (simp add: hdr_n_def)
  have b: "hdr_block ?h 0 = 40" using l by (simp add: demo_disk_def hdr_block_def)
  have "\<not> in_log (boot_log 1 2 30 demo_log) 40"
    using demo_outside by (simp add: in_log_def demo_log_def)
  then show ?thesis unfolding hdr_ok_def hn using n b by simp
qed

lemma recovery_crash_safe_witness:
  "\<exists>lg1 bc1. initlog (cache_ops 7) 1 2 30 demo_log (binit (zero_cache demo_disk)) = Ok (lg1, bc1)
     \<and> lg_n lg1 = 0 \<and> hdr_n (bdisk bc1 2) = 0
     \<and> (\<forall>c. \<not> in_log (boot_log 1 2 30 demo_log) c \<longrightarrow> bdisk bc1 c = recovered 2 demo_disk c)
     \<and> (\<forall>k. \<exists>lg2 bc2. initlog (cache_ops 8) 1 2 30 demo_log
             (binit (zero_cache (replay (take k (bhist bc1)) demo_disk))) = Ok (lg2, bc2)
          \<and> (\<forall>c. \<not> in_log (boot_log 1 2 30 demo_log) c \<longrightarrow> bdisk bc2 c = bdisk bc1 c))"
proof (rule recovery_crash_safe)
  show "length (demo_disk b) = BSIZE" for b by (simp add: demo_disk_def)
  show "hdr_ok (boot_log 1 2 30 demo_log) (demo_disk 2)" by (rule demo_disk_hdr)
qed (simp_all add: demo_log_def)

text \<open>\<open>log_write\<close>: with the log not full it records the block once (a block already in the
  log is absorbed) and pins it the first time, so that the cache cannot recycle a buffer whose
  contents are only in memory; the contents and the disk are untouched. It panics when the log
  is full or no operation is in progress.\<close>

theorem log_write_correct:
  assumes "bc_inv d bc" and "held me d bc h = Some b" and "pins d bc b < 2 ^ 31" and "log_ok lg"
    and "\<not> in_log lg b" and "lg_n lg < int LOGSIZE"
  shows "if lg_size lg - 1 \<le> lg_n lg then log_write (cache_ops me) h lg bc = Panic ''too big a transaction''
     else if lg_outstanding lg < 1 then log_write (cache_ops me) h lg bc = Panic ''log_write outside of trans''
     else \<exists>lg' bc'. log_write (cache_ops me) h lg bc = Ok (lg', bc') \<and> log_ok lg' \<and> bc_inv d bc'
       \<and> logged lg' = (if b \<in> set (logged lg) then logged lg else logged lg @ [b])
       \<and> pins d bc' = (pins d bc)(b := pins d bc b + (if b \<in> set (logged lg) then 0 else 1))
       \<and> view d bc' = view d bc \<and> bdisk bc' = bdisk bc \<and> bhist bc' = bhist bc"
proof -
  consider "lg_size lg - 1 \<le> lg_n lg" | "\<not> lg_size lg - 1 \<le> lg_n lg" "lg_outstanding lg < 1"
    | "\<not> lg_size lg - 1 \<le> lg_n lg" "\<not> lg_outstanding lg < 1" by blast
  then show ?thesis
  proof cases
    case 1
    then show ?thesis by (simp add: log_write_def)
  next
    case 2
    then show ?thesis using assms(6) by (simp add: log_write_def)
  next
    case 3
    let ?bc = "if b \<in> set (logged lg) then bc else bpin h bc"
    have lt: "lg_n lg < lg_size lg - 1" "1 \<le> lg_outstanding lg" using 3 by simp_all
    have "op_blockno (cache_ops me) h bc = b" using held_Some(4) [OF assms(2)] by simp
    from log_write_lg [OF assms(4,6) lt this]
    have w: "log_write (cache_ops me) h lg bc = Ok (note_block b lg, ?bc)" by simp
    have "bc_inv d ?bc" "bc_abs me d ?bc = (if b \<in> set (logged lg) then bc_abs me d bc
        else sp_bpin b (bc_abs me d bc))"
      using bpin_refines [OF assms(1-3)] assms(1) by auto
    then have "bc_inv d ?bc" "view d ?bc = view d bc" "bdisk ?bc = bdisk bc" "bhist ?bc = bhist bc"
      "pins d ?bc = (pins d bc)(b := pins d bc b + (if b \<in> set (logged lg) then 0 else 1))"
      by (auto simp: bc_abs_def sp_bpin_def fun_upd_idem split: if_splits)
    with w note_block_ok [OF assms(4,6) lt(1) assms(5)] 3 show ?thesis by simp
  qed
qed


text \<open>The demonstration cache with block 40 read by process 7.\<close>

lemma demo_held:
  "\<exists>h bc. bread 7 1 40 demo_cache = Ok (h, bc) \<and> bc_inv 1 bc \<and> held 7 1 bc h = Some 40 \<and> pins 1 bc 40 = 0"
proof -
  have z: "bc_abs 7 1 demo_cache = \<lparr>vw = \<lambda>b. replicate BSIZE 0,
      dk = \<lambda>b. replicate BSIZE 0, hs = [], bz = (\<lambda>_. False), pn = (\<lambda>_. 0), hl = (\<lambda>_. None), rm = NBUF\<rparr>"
    unfolding demo_cache_def by (rule binit_zero(2)) simp_all
  have p: "\<not> busy 1 demo_cache 40" "pins 1 demo_cache 40 = 0" "0 < room demo_cache"
    using z by (simp_all add: bc_abs_def)
  then have "\<exists>h bc'. bread 7 1 40 demo_cache = Ok (h, bc') \<and> bc_inv 1 bc' \<and> held 7 1 demo_cache h = None
             \<and> bc_abs 7 1 bc' = sp_bread 40 h (bc_abs 7 1 demo_cache)"
    by (intro bread_refines demo_facts) simp_all
  then show ?thesis using p by (auto simp: bc_abs_def sp_bread_def)
qed

lemma log_write_correct_witness:
  "\<exists>h bc. held 7 1 bc h = Some 40
     \<and> (if lg_size demo_log - 1 \<le> lg_n demo_log
        then log_write (cache_ops 7) h demo_log bc = Panic ''too big a transaction''
        else if lg_outstanding demo_log < 1
        then log_write (cache_ops 7) h demo_log bc = Panic ''log_write outside of trans''
        else \<exists>lg' bc'. log_write (cache_ops 7) h demo_log bc = Ok (lg', bc') \<and> log_ok lg' \<and> bc_inv 1 bc'
          \<and> logged lg' = (if 40 \<in> set (logged demo_log) then logged demo_log else logged demo_log @ [40])
          \<and> pins 1 bc' = (pins 1 bc)(40 := pins 1 bc 40 + (if 40 \<in> set (logged demo_log) then 0 else 1))
          \<and> view 1 bc' = view 1 bc \<and> bdisk bc' = bdisk bc \<and> bhist bc' = bhist bc)"
proof -
  obtain h bc where h: "bc_inv 1 bc" "held 7 1 bc h = Some 40" "pins 1 bc 40 = 0"
    using demo_held by blast
  have "pins 1 bc 40 < 2 ^ 31" "lg_n demo_log < int LOGSIZE" using h(3) by (simp_all add: demo_log_def)
  from log_write_correct [OF h(1,2) this(1) demo_facts(5) demo_outside(1) this(2)] h(2)
  show ?thesis by blast
qed

section \<open>Reservations\<close>

text \<open>
  Any number of file-system operations, with for each one in progress the number of further
  blocks it may still add to the log (\<open>MAXOPBLOCKS\<close> at its \<open>begin_op\<close>). The cache state may
  change in between.
\<close>

inductive fs_ops :: "'s blk_ops \<Rightarrow> logst \<times> int list \<times> 's \<Rightarrow> bool" for ops where
  start: "lg_n lg = 0 \<Longrightarrow> lg_outstanding lg = 0 \<Longrightarrow> \<not> lg_committing lg \<Longrightarrow> fs_ops ops (lg, [], s)"
| begin_op: "fs_ops ops (lg, bs, s) \<Longrightarrow> begin_op lg = Ok lg' \<Longrightarrow>
    fs_ops ops (lg', int MAXOPBLOCKS # bs, s)"
| log_write: "fs_ops ops (lg, bs, s) \<Longrightarrow> i < length bs \<Longrightarrow> 0 < bs ! i \<Longrightarrow>
    log_write ops h lg s = Ok (lg', s') \<Longrightarrow>
    fs_ops ops (lg', bs[i := bs ! i - (lg_n lg' - lg_n lg)], s')"
| end_op: "fs_ops ops (lg, bs, s) \<Longrightarrow> i < length bs \<Longrightarrow> end_op ops lg s = Ok (lg', s') \<Longrightarrow>
    fs_ops ops (lg', take i bs @ drop (Suc i) bs, s')"
| other: "fs_ops ops (lg, bs, s) \<Longrightarrow> fs_ops ops (lg, bs, s')"

definition reserved :: "logst \<Rightarrow> int list \<Rightarrow> bool" where
  "reserved lg bs \<longleftrightarrow> lg_outstanding lg = int (length bs) \<and> \<not> lg_committing lg \<and> 0 \<le> lg_n lg
     \<and> (\<forall>b \<in> set bs. 0 \<le> b \<and> b \<le> int MAXOPBLOCKS) \<and> lg_n lg + sum_list bs \<le> int LOGSIZE"

lemma sum_list_le_const: "(\<forall>b \<in> set bs. b \<le> (c :: int)) \<Longrightarrow> sum_list bs \<le> int (length bs) * c"
  by (induction bs) (auto simp: algebra_simps)

lemma log_write_n:
  assumes "log_write ops h lg s = Ok (lg', s')"
  shows "lg_outstanding lg' = lg_outstanding lg" "lg_committing lg' = lg_committing lg"
    and "lg_n lg' = lg_n lg \<or> lg_n lg' = lg_n lg + 1"
  using assms by (auto simp: log_write_def Let_def split: if_splits)

lemma end_op_n:
  assumes "end_op ops lg s = Ok (lg', s')"
  shows "lg_outstanding lg' = lg_outstanding lg - 1" "\<not> lg_committing lg'" "\<not> lg_committing lg"
    and "lg_n lg' = (if lg_outstanding lg = 1 \<and> 0 < lg_n lg then 0 else lg_n lg)"
  using assms by (auto simp: end_op_def commit_def Let_def kbind_eq_Ok split: if_splits)

lemma sum_list_remove:
  fixes bs :: "int list"
  assumes "i < length bs" and "\<forall>b \<in> set bs. 0 \<le> b"
  shows "sum_list (take i bs @ drop (Suc i) bs) \<le> sum_list bs"
proof -
  have "sum_list bs = sum_list (take i bs @ bs ! i # drop (Suc i) bs)"
    using id_take_nth_drop [OF assms(1)] by simp
  then show ?thesis using assms nth_mem [OF assms(1)] by auto
qed

lemma sum_list_set_int: "i < length bs \<Longrightarrow> sum_list (bs[i := (b :: int)]) = sum_list bs + b - bs ! i"
proof (induction bs arbitrary: i)
  case (Cons x bs)
  then show ?case by (cases i) auto
qed simp

lemma fs_ops_reserved: "fs_ops ops (lg, bs, s) \<Longrightarrow> reserved lg bs"
proof (induction "(lg, bs, s)" arbitrary: lg bs s rule: fs_ops.induct)
  case start
  then show ?case by (simp add: reserved_def)
next
  case (begin_op lg bs s lg')
  then have r: "reserved lg bs" and b: "lg_n lg + (lg_outstanding lg + 1) * int MAXOPBLOCKS \<le> int LOGSIZE"
    "lg' = lg\<lparr>lg_outstanding := lg_outstanding lg + 1\<rparr>"
    by (auto simp: begin_op_def split: if_splits)
  have "sum_list bs \<le> int (length bs) * int MAXOPBLOCKS"
    using r by (intro sum_list_le_const) (auto simp: reserved_def)
  then show ?case using r b by (auto simp: reserved_def)
next
  case (log_write lg bs s i h lg' s')
  then have r: "reserved lg bs" by simp
  let ?k = "lg_n lg' - lg_n lg"
  note n = log_write_n [OF log_write(5)]
  have "0 \<le> b \<and> b \<le> int MAXOPBLOCKS" if "b \<in> set (bs[i := bs ! i - ?k])" for b
  proof -
    have "b = bs ! i - ?k \<or> b \<in> set bs" using that set_update_subset_insert by fastforce
    moreover have "bs ! i \<in> set bs" using log_write(3) by simp
    ultimately show ?thesis using r n(3) log_write(4) by (fastforce simp: reserved_def)
  qed
  moreover have "sum_list (bs[i := bs ! i - ?k]) = sum_list bs - ?k"
    using sum_list_set_int [OF log_write(3)] by simp
  ultimately show ?case using r n by (auto simp: reserved_def)
next
  case (end_op lg bs s i lg' s')
  then have r: "reserved lg bs" by simp
  note n = end_op_n [OF end_op(4)]
  have "sum_list (take i bs @ drop (Suc i) bs) \<le> sum_list bs"
    using r end_op(3) by (intro sum_list_remove) (auto simp: reserved_def)
  moreover have "b \<in> set bs" if "b \<in> set (take i bs @ drop (Suc i) bs)" for b
    using that by (auto dest: in_set_takeD in_set_dropD)
  ultimately show ?case using r n end_op(3) by (auto simp: reserved_def)
qed simp

text \<open>C6: The admission control of \<open>begin_op\<close> works, for a log region of more than \<open>LOGSIZE\<close>
  blocks: however operations begin, log and end, no more than \<open>LOGSIZE\<close> blocks are ever logged,
  and an operation that has logged fewer than \<open>MAXOPBLOCKS\<close> blocks can always log another
  without a panic.\<close>

theorem log_space_is_reserved:
  assumes "fs_ops ops (lg, bs, s)"
  shows "0 \<le> lg_n lg \<and> lg_n lg \<le> int LOGSIZE
     \<and> (int LOGSIZE < lg_size lg \<longrightarrow> (\<exists>i < length bs. 0 < bs ! i) \<longrightarrow>
          (\<exists>lg' s'. log_write ops h lg s = Ok (lg', s')))"
proof -
  have r: "reserved lg bs" by (rule fs_ops_reserved [OF assms])
  have ge: "0 \<le> sum_list bs" using r by (intro sum_list_nonneg) (auto simp: reserved_def)
  have "\<exists>lg' s'. log_write ops h lg s = Ok (lg', s')"
    if "int LOGSIZE < lg_size lg" "i < length bs" "0 < bs ! i" for i
  proof -
    have "bs ! i \<le> sum_list bs"
      using r that(2) by (intro member_le_sum_list) (auto simp: reserved_def)
    then have "lg_n lg < int LOGSIZE" using r that(3) by (simp add: reserved_def)
    moreover have "0 < length bs" using that(2) by auto
    ultimately show ?thesis using r that(1) by (auto simp: log_write_def Let_def reserved_def)
  qed
  then show ?thesis using r ge by (auto simp: reserved_def)
qed

lemma log_space_is_reserved_witness:
  "\<exists>lg' s'. log_write (cache_ops 7) 0 (demo_log\<lparr>lg_size := 31, lg_outstanding := 1\<rparr>) demo_cache
     = Ok (lg', s')"
proof -
  let ?lg = "demo_log\<lparr>lg_size := 31, lg_outstanding := 1\<rparr>"
  have "fs_ops (cache_ops 7) (demo_log\<lparr>lg_size := 31\<rparr>, [], demo_cache)"
    by (rule fs_ops.start) (simp_all add: demo_log_def)
  moreover have "begin_op (demo_log\<lparr>lg_size := 31\<rparr>) = Ok ?lg"
    by (simp add: begin_op_def demo_log_def)
  ultimately have "fs_ops (cache_ops 7) (?lg, [int MAXOPBLOCKS], demo_cache)"
    by (rule fs_ops.begin_op)
  from log_space_is_reserved [OF this, of 0] show ?thesis by (simp add: demo_log_def)
qed

text \<open>But \<open>begin_op\<close> reserves against \<open>LOGSIZE\<close> while \<open>log_write\<close> stops one block before the
  end of the log region (\<open>log.size - 1\<close>, the header takes one). With a region of \<open>LOGSIZE\<close>
  blocks three operations are admitted together, and when they have logged 29 of the 30 blocks
  they were promised the next \<open>log_write\<close> panics.\<close>

theorem log_region_of_LOGSIZE_overcommits:
  assumes "lg_n lg = 0" and "lg_outstanding lg = 0" and "\<not> lg_committing lg" and "lg_size lg = int LOGSIZE"
  shows "kbind (kbind (begin_op lg) begin_op) begin_op = Ok (lg\<lparr>lg_outstanding := 3\<rparr>)
     \<and> log_write ops h (lg\<lparr>lg_outstanding := 3, lg_n := 29\<rparr>) s = Panic ''too big a transaction''"
  using assms by (simp add: begin_op_def log_write_def)

lemma log_region_of_LOGSIZE_overcommits_witness:
  "kbind (kbind (begin_op demo_log) begin_op) begin_op = Ok (demo_log\<lparr>lg_outstanding := 3\<rparr>)
   \<and> log_write (cache_ops 7) 0 (demo_log\<lparr>lg_outstanding := 3, lg_n := 29\<rparr>) demo_cache
       = Panic ''too big a transaction''"
  by (rule log_region_of_LOGSIZE_overcommits) (simp_all add: demo_log_def)

end
