(* ===== verification/Memory.thy ===== *)
theory Memory imports Bytes begin

text \<open>
  Physical memory as the kernel sees it through its direct map: a byte at every 64-bit address.
  \<open>load64\<close> and \<open>store64\<close> are the accesses through a \<open>uint64 *\<close> (page-table entries, the \<open>next\<close>
  field of a free page), \<open>mem_fill\<close> and \<open>mem_copy\<close> what \<open>memset\<close> and \<open>memmove\<close> of
  kernel/string.c do to it. Pages are the aligned blocks of 4096 bytes; \<open>PGROUNDDOWN\<close> and
  \<open>PGROUNDUP\<close> are the macros of kernel/riscv.h.
\<close>

type_synonym memory = "u64 \<Rightarrow> u8"

abbreviation PGSIZE :: u64 where "PGSIZE \<equiv> 4096"

definition PGROUNDDOWN :: "u64 \<Rightarrow> u64" where
  "PGROUNDDOWN a = a AND NOT (PGSIZE - 1)"

definition PGROUNDUP :: "u64 \<Rightarrow> u64" where
  "PGROUNDUP sz = (sz + PGSIZE - 1) AND NOT (PGSIZE - 1)"

definition load64 :: "memory \<Rightarrow> u64 \<Rightarrow> u64" where
  "load64 m a = ucast (m a) OR push_bit 8 (ucast (m (a + 1))) OR push_bit 16 (ucast (m (a + 2)))
     OR push_bit 24 (ucast (m (a + 3))) OR push_bit 32 (ucast (m (a + 4))) OR push_bit 40 (ucast (m (a + 5)))
     OR push_bit 48 (ucast (m (a + 6))) OR push_bit 56 (ucast (m (a + 7)))"

definition store64 :: "memory \<Rightarrow> u64 \<Rightarrow> u64 \<Rightarrow> memory" where
  "store64 m a w = (\<lambda>x. if x - a < 8 then ucast (drop_bit (8 * unat (x - a)) w) else m x)"

definition mem_fill :: "memory \<Rightarrow> u64 \<Rightarrow> u8 \<Rightarrow> u64 \<Rightarrow> memory" where
  "mem_fill m a c n = (\<lambda>x. if x - a < n then c else m x)"

definition mem_copy :: "memory \<Rightarrow> u64 \<Rightarrow> u64 \<Rightarrow> u64 \<Rightarrow> memory" where
  "mem_copy m dst src n = (\<lambda>x. if x - dst < n then m (src + (x - dst)) else m x)"

text \<open>Bytes of the kernel's own objects stored to, or read from, memory.\<close>

definition mem_store :: "memory \<Rightarrow> u64 \<Rightarrow> u8 list \<Rightarrow> memory" where
  "mem_store m a bs = (\<lambda>x. if unat (x - a) < length bs then bs ! unat (x - a) else m x)"

definition mem_load :: "memory \<Rightarrow> u64 \<Rightarrow> nat \<Rightarrow> u8 list" where
  "mem_load m a n = map (\<lambda>k. m (a + of_nat k)) [0..<n]"

text \<open>Addresses split at a piece boundary.\<close>

lemma unat_minus_of_nat:
  fixes x :: u64
  assumes "n + k < 2 ^ 64"
  shows "unat x < n + k \<longleftrightarrow> unat x < n \<or> unat (x - of_nat n) < k"
    and "\<not> unat x < n \<Longrightarrow> unat (x - of_nat n) = unat x - n"
    and "unat x < n \<Longrightarrow> \<not> unat (x - of_nat n) < k"
proof -
  have un: "unat (of_nat n :: u64) = n" using assms by (simp add: unat_of_nat)
  show ge: "unat (x - of_nat n) = unat x - n" if "\<not> unat x < n"
    using that un by (simp add: unat_sub word_le_nat_alt)
  show "unat x < n + k \<longleftrightarrow> unat x < n \<or> unat (x - of_nat n) < k"
    using ge by (cases "unat x < n") auto
  show "\<not> unat (x - of_nat n) < k" if lt: "unat x < n"
  proof
    assume "unat (x - of_nat n) < k"
    then have "unat (x - of_nat n) + n < 2 ^ 64" using assms by simp
    then have "unat ((x - of_nat n) + of_nat n) = unat (x - of_nat n) + n"
      using un by (simp only: unat_word_ariths) simp
    with lt show False by simp
  qed
qed

section \<open>Pages\<close>

definition aligned :: "u64 \<Rightarrow> bool" where
  "aligned p \<longleftrightarrow> unat p mod 4096 = 0"

lemma alignedE:
  assumes "aligned p"
  obtains k where "unat p = 4096 * k"
proof
  show "unat p = 4096 * (unat p div 4096)" using assms by (simp add: aligned_def mod_eq_0_iff_dvd)
qed

text \<open>The page of an address.\<close>

definition in_page :: "u64 \<Rightarrow> u64 \<Rightarrow> bool" where
  "in_page p x \<longleftrightarrow> x - p < PGSIZE"

lemma unat_take12: "unat (take_bit 12 (a :: u64)) = unat a mod 4096"
  by (simp add: take_bit_eq_mod unat_mod_distrib)

lemma PGROUNDDOWN_eq: "PGROUNDDOWN a = a - take_bit 12 a"
proof -
  have "a AND NOT (mask 12) = push_bit 12 (drop_bit 12 a)"
    by (rule bit_word_eqI) (auto simp: bit_simps)
  moreover have "PGSIZE - 1 = mask 12" by (simp add: mask_eq_exp_minus_1)
  ultimately show ?thesis
    unfolding PGROUNDDOWN_def using bits_ident [of 12 a] by (metis add_diff_cancel_right')
qed

lemma unat_PGROUNDDOWN: "unat (PGROUNDDOWN a) = unat a - unat a mod 4096"
proof -
  have "take_bit 12 a \<le> a" by (simp add: word_le_nat_alt unat_take12)
  then show ?thesis by (simp add: PGROUNDDOWN_eq unat_sub unat_take12)
qed

lemma aligned_PGROUNDDOWN [simp]: "aligned (PGROUNDDOWN a)"
  by (simp add: aligned_def unat_PGROUNDDOWN minus_mod_eq_mult_div)

lemma page_number: "0 < n \<Longrightarrow> (x :: nat) - x mod n = n * k \<longleftrightarrow> n * k \<le> x \<and> x < n * k + n"
  using dividend_less_times_div [of n x] by (auto simp: minus_mod_eq_mult_div div_nat_eqI)

lemma in_page_iff: "aligned p \<Longrightarrow> in_page p x \<longleftrightarrow> PGROUNDDOWN x = p"
proof -
  assume p: "aligned p"
  have "in_page p x \<longleftrightarrow> unat p \<le> unat x \<and> unat x < unat p + 4096" if "p \<le> x"
    using that by (auto simp: in_page_def word_less_nat_alt unat_sub word_le_nat_alt)
  moreover have "\<not> in_page p x" if "\<not> p \<le> x"
  proof
    assume i: "in_page p x"
    then have "unat (x - p) < 4096" by (simp add: in_page_def word_less_nat_alt)
    moreover have "unat x = (unat (x - p) + unat p) mod 2 ^ 64" 
      using unat_word_ariths(1) [of "x - p" p] by simp
    moreover have "unat p \<le> 2 ^ 64 - 4096"
    proof -
      have l: "unat p < 2 ^ 64" using unsigned_less [of p] by simp
      obtain k where k: "unat p = 4096 * k" using p by (rule alignedE)
      have "(2 :: nat) ^ 64 = 4096 * 2 ^ 52" by simp
      with l k have "k \<le> 2 ^ 52 - 1" by simp
      with k show ?thesis by simp
    qed
    ultimately show False using that by (simp add: word_le_nat_alt)
  qed
  moreover have "(PGROUNDDOWN x = p) = (unat x - unat x mod 4096 = unat p)"
    by (simp add: word_unat_eq_iff unat_PGROUNDDOWN)
  moreover have "(unat x - unat x mod 4096 = unat p) = (unat p \<le> unat x \<and> unat x < unat p + 4096)"
    using p page_number [of 4096 "unat x" "unat p div 4096"] by (simp add: aligned_def mod_eq_0_iff_dvd)
  ultimately show ?thesis by (cases "p \<le> x") (auto simp: word_le_nat_alt)
qed

lemma in_page_add [simp]: "in_page p (p + y) \<longleftrightarrow> y < PGSIZE"
  by (simp add: in_page_def)

lemma in_page_unique: "aligned p \<Longrightarrow> aligned q \<Longrightarrow> in_page p x \<Longrightarrow> in_page q x \<Longrightarrow> p = q"
  by (simp add: in_page_iff)

section \<open>Words in memory\<close>

lemma join64:
  fixes w :: u64
  shows "ucast (ucast w :: u8) OR push_bit 8 (ucast (ucast (drop_bit 8 w) :: u8))
     OR push_bit 16 (ucast (ucast (drop_bit 16 w) :: u8)) OR push_bit 24 (ucast (ucast (drop_bit 24 w) :: u8))
     OR push_bit 32 (ucast (ucast (drop_bit 32 w) :: u8)) OR push_bit 40 (ucast (ucast (drop_bit 40 w) :: u8))
     OR push_bit 48 (ucast (ucast (drop_bit 48 w) :: u8)) OR push_bit 56 (ucast (ucast (drop_bit 56 w) :: u8)) = w"
proof (rule bit_word_eqI)
  fix n assume n: "n < LENGTH(64)"
  consider "n < 8" | "8 \<le> n" "n < 16" | "16 \<le> n" "n < 24" | "24 \<le> n" "n < 32" | "32 \<le> n" "n < 40"
    | "40 \<le> n" "n < 48" | "48 \<le> n" "n < 56" | "56 \<le> n" by linarith
  then show "bit (ucast (ucast w :: u8) OR push_bit 8 (ucast (ucast (drop_bit 8 w) :: u8))
     OR push_bit 16 (ucast (ucast (drop_bit 16 w) :: u8)) OR push_bit 24 (ucast (ucast (drop_bit 24 w) :: u8))
     OR push_bit 32 (ucast (ucast (drop_bit 32 w) :: u8)) OR push_bit 40 (ucast (ucast (drop_bit 40 w) :: u8))
     OR push_bit 48 (ucast (ucast (drop_bit 48 w) :: u8)) OR push_bit 56 (ucast (ucast (drop_bit 56 w) :: u8)) :: u64) n
     = bit w n"
    using n by cases (auto simp: bit_simps)
qed

lemma load_store_same [simp]: "load64 (store64 m a w) a = w"
  by (simp add: load64_def store64_def join64)

lemma load64_cong: "(\<And>k. k < 8 \<Longrightarrow> m (a + k) = m' (a + k)) \<Longrightarrow> load64 m a = load64 m' a"
proof -
  assume eq: "\<And>k. k < 8 \<Longrightarrow> m (a + k) = m' (a + k)"
  have "m a = m' a" using eq [of 0] by simp
  then show ?thesis unfolding load64_def by (simp add: eq)
qed

text \<open>An 8-byte slot of a page: \<open>p + 8 * i\<close> with \<open>i < 512\<close>.\<close>

lemma slot_unat: "(i :: u64) < 512 \<Longrightarrow> k < 8 \<Longrightarrow> unat (8 * i + k) = 8 * unat i + unat k"
  by (simp add: word_less_nat_alt unat_word_ariths)

lemma slot_in_page: "i < 512 \<Longrightarrow> k < 8 \<Longrightarrow> in_page p (p + 8 * i + k)"
  using slot_unat [of i k] by (simp add: add.assoc word_less_nat_alt)

lemma slot_disjoint:
  fixes i j k :: u64
  assumes "i < 512" "j < 512" "k < 8" "i \<noteq> j"
  shows "\<not> 8 * j + k - 8 * i < 8"
proof
  assume "8 * j + k - 8 * i < 8"
  moreover define d where "d = 8 * j + k - 8 * i"
  ultimately have d: "d < 8" by simp
  have "8 * j + k = 8 * i + d" by (simp add: d_def)
  then have "8 * unat j + unat k = 8 * unat i + unat d"
    using slot_unat [of j k] slot_unat [of i d] assms d by simp
  moreover have "unat k < 8" "unat d < 8" using assms d by (simp_all add: word_less_nat_alt)
  ultimately have "unat i = unat j" by presburger
  with \<open>i \<noteq> j\<close> show False by (simp add: word_unat_eq_iff)
qed

lemma load_store_other_slot:
  assumes "i < 512" "j < 512" "i \<noteq> j"
  shows "load64 (store64 m (p + 8 * i) v) (p + 8 * j) = load64 m (p + 8 * j)"
proof (rule load64_cong)
  fix k :: u64 assume "k < 8"
  with slot_disjoint [of i j k] assms show "store64 m (p + 8 * i) v (p + 8 * j + k) = m (p + 8 * j + k)"
    by (simp add: store64_def algebra_simps)
qed

text \<open>A write that stays inside page \<open>p\<close> does not change what is read in another.\<close>

definition only_page :: "u64 \<Rightarrow> memory \<Rightarrow> memory \<Rightarrow> bool" where
  "only_page p m m' \<longleftrightarrow> (\<forall>x. \<not> in_page p x \<longrightarrow> m' x = m x)"

lemma only_page_refl [simp]: "only_page p m m"
  by (simp add: only_page_def)

lemma only_page_trans: "only_page p m m' \<Longrightarrow> only_page p m' m'' \<Longrightarrow> only_page p m m''"
  by (simp add: only_page_def)

lemma load64_other_page:
  assumes "only_page p m m'" and "aligned p" and "aligned q" and "p \<noteq> q" and "j < 512"
  shows "load64 m' (q + 8 * j) = load64 m (q + 8 * j)"
proof (rule load64_cong)
  fix k :: u64 assume "k < 8"
  then have "in_page q (q + 8 * j + k)" by (rule slot_in_page [OF assms(5)])
  with in_page_unique [OF assms(2,3)] assms(4) have "\<not> in_page p (q + 8 * j + k)" by blast
  with assms(1) show "m' (q + 8 * j + k) = m (q + 8 * j + k)" by (simp add: only_page_def)
qed

lemma only_page_store64:
  assumes "i < 512"
  shows "only_page p m (store64 m (p + 8 * i) v)"
  unfolding only_page_def
proof (intro allI impI)
  fix x assume n: "\<not> in_page p x"
  have "\<not> x - (p + 8 * i) < 8"
  proof
    assume k: "x - (p + 8 * i) < 8"
    have "in_page p (p + 8 * i + (x - (p + 8 * i)))" by (rule slot_in_page [OF assms k])
    with n show False by simp
  qed
  then show "store64 m (p + 8 * i) v x = m x" by (simp add: store64_def)
qed

lemma only_page_store64_0: "only_page p m (store64 m p v)"
  using only_page_store64 [of 0 p m v] by simp

lemma only_page_fill: "only_page p m (mem_fill m p c PGSIZE)"
  by (simp add: only_page_def mem_fill_def in_page_def)

lemma only_page_copy: "only_page p m (mem_copy m p src PGSIZE)"
  by (simp add: only_page_def mem_copy_def in_page_def)

lemma load64_fill_0:
  assumes "i < 512"
  shows "load64 (mem_fill m p 0 PGSIZE) (p + 8 * i) = 0"
proof -
  have z: "mem_fill m p 0 PGSIZE (p + 8 * i + k) = 0" if "k < 8" for k
    using slot_in_page [OF assms that, of p] by (simp add: mem_fill_def in_page_def)
  have "mem_fill m p 0 PGSIZE (p + 8 * i) = 0" using z [of 0] by simp
  then show ?thesis by (simp add: load64_def z)
qed

end
