(* ===== verification/Kalloc.thy ===== *)
theory Kalloc imports Memory begin

text \<open>
  The physical page allocator, kernel/kalloc.c: \<open>kinit\<close>, \<open>freerange\<close>, \<open>kfree\<close> and \<open>kalloc\<close>.
  The free list is threaded through the free pages themselves, so the state is physical memory
  and the list head; \<open>free_list\<close> relates it to an abstract list of pages. The parameter \<open>kend\<close>
  is the linker symbol \<open>end\<close>, the first address after the kernel; the critical sections of
  \<open>kmem.lock\<close> are atomic.

  The locale \<open>page_pool\<close> is what the callers rely on: a page handed out is one that nobody holds.
  It is interpreted on the allocator, and the theorem about arbitrary histories of calls, with
  the holders of pages writing to them as they like, is derived from it.
\<close>

section \<open>Operations\<close>

definition PHYSTOP :: u64 where "PHYSTOP = 0x80000000 + 128 * 1024 * 1024"

record kmem =
  pmem :: memory
  freelist :: u64

definition kfree :: "u64 \<Rightarrow> u64 \<Rightarrow> kmem \<Rightarrow> kmem kres" where
  "kfree kend pa s =
     (if pa mod PGSIZE \<noteq> 0 \<or> pa < kend \<or> pa \<ge> PHYSTOP then Panic ''kfree''
      else let s = s\<lparr>pmem := mem_fill (pmem s) pa 1 PGSIZE\<rparr>;
               s = s\<lparr>pmem := store64 (pmem s) pa (freelist s)\<rparr> in
           Ok (s\<lparr>freelist := pa\<rparr>))"

definition kalloc :: "kmem \<Rightarrow> u64 \<times> kmem" where
  "kalloc s =
     (let r = freelist s;
          s = (if r \<noteq> 0 then s\<lparr>freelist := load64 (pmem s) r\<rparr> else s) in
      (r, if r \<noteq> 0 then s\<lparr>pmem := mem_fill (pmem s) r 5 PGSIZE\<rparr> else s))"

lemma kfree_OkD: "kfree kend pa s = Ok t \<Longrightarrow> pa < PHYSTOP"
  by (auto simp: kfree_def split: if_splits)

function freerange_loop :: "u64 \<Rightarrow> u64 \<Rightarrow> u64 \<Rightarrow> kmem \<Rightarrow> kmem kres" where
  "freerange_loop kend p pa_end s =
     (if p + PGSIZE \<le> pa_end then kbind (kfree kend p s) (freerange_loop kend (p + PGSIZE) pa_end)
      else Ok s)"
  by pat_completeness auto
termination
proof (relation "measure (\<lambda>(kend, p, e, s). 2 ^ 64 - unat p)", goal_cases)
  case (2 kend p pa_end s t)
  then have "unat p < 0x88000000" using kfree_OkD by (fastforce simp: PHYSTOP_def word_less_nat_alt)
  then show ?case by (simp add: unat_word_ariths)
qed simp

declare freerange_loop.simps [simp del]

definition freerange :: "u64 \<Rightarrow> u64 \<Rightarrow> u64 \<Rightarrow> kmem \<Rightarrow> kmem kres" where
  "freerange kend pa_start pa_end = freerange_loop kend (PGROUNDUP pa_start) pa_end"

definition kinit :: "u64 \<Rightarrow> kmem \<Rightarrow> kmem kres" where
  "kinit kend = freerange kend kend PHYSTOP"

section \<open>The free list\<close>

fun chain :: "memory \<Rightarrow> u64 \<Rightarrow> u64 list \<Rightarrow> bool" where
  "chain m p [] \<longleftrightarrow> p = 0"
| "chain m p (x # xs) \<longleftrightarrow> p = x \<and> chain m (load64 m x) xs"

definition page_ok :: "u64 \<Rightarrow> u64 \<Rightarrow> bool" where
  "page_ok kend x \<longleftrightarrow> aligned x \<and> kend \<le> x \<and> x < PHYSTOP \<and> x \<noteq> 0"

definition free_list :: "u64 \<Rightarrow> kmem \<Rightarrow> u64 list \<Rightarrow> bool" where
  "free_list kend s xs \<longleftrightarrow> chain (pmem s) (freelist s) xs \<and> distinct xs \<and> (\<forall>x \<in> set xs. page_ok kend x)"

lemma chain_other_page:
  assumes "only_page p m m'" and "aligned p" and "p \<notin> set xs" and "\<forall>x \<in> set xs. aligned x"
  shows "chain m' a xs = chain m a xs"
  using assms(3,4)
proof (induction xs arbitrary: a)
  case (Cons x xs)
  have "load64 m' (x + 8 * 0) = load64 m (x + 8 * 0)"
    using Cons.prems by (intro load64_other_page [OF assms(1,2)]) auto
  then show ?case using Cons by simp
qed simp

lemma free_list_frame:
  assumes "free_list kend s xs" and "only_page p (pmem s) (pmem t)" and "freelist t = freelist s"
    and "aligned p" and "p \<notin> set xs"
  shows "free_list kend t xs"
  using assms chain_other_page [OF assms(2,4,5)] by (auto simp: free_list_def page_ok_def)

lemma kalloc_spec:
  assumes "free_list kend s xs"
  shows "kalloc s = (0, s) \<and> xs = []
    \<or> (\<exists>x ys t. xs = x # ys \<and> kalloc s = (x, t) \<and> page_ok kend x \<and> x \<notin> set ys \<and> free_list kend t ys
        \<and> only_page x (pmem s) (pmem t) \<and> (\<forall>a. in_page x a \<longrightarrow> pmem t a = 5))"
proof (cases xs)
  case Nil
  then show ?thesis using assms by (simp add: free_list_def kalloc_def)
next
  case (Cons x ys)
  define t where "t = s\<lparr>freelist := load64 (pmem s) x, pmem := mem_fill (pmem s) x 5 PGSIZE\<rparr>"
  have ok: "page_ok kend x" "x \<notin> set ys" "free_list kend (s\<lparr>freelist := load64 (pmem s) x\<rparr>) ys" "freelist s = x"
    using assms Cons by (auto simp: free_list_def)
  have only: "only_page x (pmem s) (pmem t)" by (simp add: t_def only_page_fill)
  have "free_list kend t ys"
    using ok only by (intro free_list_frame [OF ok(3), of x]) (auto simp: t_def page_ok_def)
  moreover have "kalloc s = (x, t)" using ok(1,4) by (simp add: kalloc_def t_def page_ok_def)
  moreover have "\<forall>a. in_page x a \<longrightarrow> pmem t a = 5" by (simp add: t_def mem_fill_def in_page_def)
  ultimately show ?thesis using Cons ok(1,2) only by blast
qed

lemma kfree_spec:
  assumes "free_list kend s xs" and "page_ok kend x" and "x \<notin> set xs"
  obtains t where "kfree kend x s = Ok t" and "free_list kend t (x # xs)" and "only_page x (pmem s) (pmem t)"
proof -
  define t where "t = s\<lparr>pmem := store64 (mem_fill (pmem s) x 1 PGSIZE) x (freelist s), freelist := x\<rparr>"
  have al: "x mod PGSIZE = 0"
    using assms(2) by (simp add: page_ok_def aligned_def word_unat_eq_iff unat_mod_distrib)
  have only: "only_page x (pmem s) (pmem t)"
    using only_page_trans [OF only_page_fill only_page_store64_0] by (simp add: t_def)
  have "kfree kend x s = Ok t"
    using al assms(2) by (simp add: kfree_def t_def page_ok_def Let_def not_le not_less)
  moreover have "free_list kend (s\<lparr>pmem := pmem t\<rparr>) xs"
    using assms only by (intro free_list_frame [OF assms(1), of x]) (auto simp: page_ok_def)
  then have "free_list kend t (x # xs)"
    using assms(2,3) by (simp add: free_list_def t_def)
  ultimately show ?thesis using that only by blast
qed

section \<open>Boot\<close>

text \<open>The pages between two addresses, in the order \<open>freerange\<close> frees them.\<close>

fun page_range :: "u64 \<Rightarrow> nat \<Rightarrow> u64 list" where
  "page_range p 0 = []"
| "page_range p (Suc n) = p # page_range (p + PGSIZE) n"

lemma aligned_add: "aligned p \<Longrightarrow> aligned (p + PGSIZE)"
proof -
  assume p: "aligned p"
  have "(unat p + 4096) mod 2 ^ 64 mod 4096 = (unat p + 4096) mod 4096"
    by (rule mod_mod_cancel) simp
  also have "\<dots> = 0" using p by (simp add: aligned_def)
  finally have "(unat p + unat PGSIZE) mod 2 ^ LENGTH(64) mod 4096 = 0" by simp
  then show ?thesis by (simp only: aligned_def unat_word_ariths)
qed

lemma unat_add_page: "p < PHYSTOP \<Longrightarrow> unat (p + PGSIZE) = unat p + 4096"
  by (simp add: PHYSTOP_def word_less_nat_alt unat_word_ariths)

lemma set_page_range:
  assumes "aligned p" and "unat p + 4096 * n \<le> unat PHYSTOP"
  shows "set (page_range p n) = {x. aligned x \<and> unat p \<le> unat x \<and> unat x < unat p + 4096 * n}
     \<and> distinct (page_range p n)"
  using assms
proof (induction n arbitrary: p)
  case (Suc n)
  have lt: "p < PHYSTOP" using Suc.prems(2) by (simp add: word_less_nat_alt)
  note u = unat_add_page [OF lt]
  have le: "unat (p + PGSIZE) + 4096 * n \<le> unat PHYSTOP" using Suc.prems(2) u by simp
  have eq: "unat p + 4096 * Suc n = unat p + 4096 + 4096 * n" by simp
  have IH: "set (page_range (p + PGSIZE) n) = {x. aligned x \<and> unat p + 4096 \<le> unat x \<and> unat x < unat p + 4096 * Suc n}"
    "distinct (page_range (p + PGSIZE) n)"
    using Suc.IH [OF aligned_add [OF Suc.prems(1)] le] unfolding u eq by blast+
  have "x = p" if h: "aligned x" "unat p \<le> unat x" "unat x < unat p + 4096" for x
  proof -
    obtain k where k: "unat x = 4096 * k" using h(1) by (rule alignedE)
    obtain l where l: "unat p = 4096 * l" using Suc.prems(1) by (rule alignedE)
    have "unat x = unat p" using h(2,3) k l by simp
    then show ?thesis by (simp add: word_unat_eq_iff)
  qed
  with IH Suc.prems(1) show ?case by force
qed simp

lemma freerange_spec:
  assumes "free_list kend s xs" and "aligned p" and "kend \<le> p" and "p \<noteq> 0"
    and "unat p + 4096 * n \<le> unat PHYSTOP" and "unat PHYSTOP < unat p + 4096 * Suc n"
    and "\<forall>x \<in> set xs. unat x < unat p"
  shows "\<exists>t. freerange_loop kend p PHYSTOP s = Ok t \<and> free_list kend t (rev (page_range p n) @ xs)"
  using assms
proof (induction n arbitrary: p s xs)
  case 0
  have "unat p \<le> 0x88000000" using 0 by (simp add: PHYSTOP_def)
  then have "\<not> p + PGSIZE \<le> PHYSTOP" using 0 by (simp add: word_le_nat_alt unat_word_ariths)
  then show ?case using 0 by (subst freerange_loop.simps) simp
next
  case (Suc n)
  have lt: "p < PHYSTOP" using Suc.prems(5) by (simp add: word_less_nat_alt)
  note u = unat_add_page [OF lt]
  have le: "p + PGSIZE \<le> PHYSTOP" using Suc.prems(5) u by (simp add: word_le_nat_alt)
  have ok: "page_ok kend p" "p \<notin> set xs" using Suc.prems lt by (auto simp: page_ok_def)
  obtain t where t: "kfree kend p s = Ok t" "free_list kend t (p # xs)"
    using kfree_spec [OF Suc.prems(1) ok] by blast
  have "kend \<le> p + PGSIZE" "p + PGSIZE \<noteq> 0"
    using Suc.prems(3) u by (auto simp: word_le_nat_alt word_unat_eq_iff)
  then have "\<exists>v. freerange_loop kend (p + PGSIZE) PHYSTOP t = Ok v
      \<and> free_list kend v (rev (page_range (p + PGSIZE) n) @ p # xs)"
    using Suc.prems u t by (intro Suc.IH aligned_add) auto
  then show ?case using le t(1) by (subst freerange_loop.simps) simp
qed

lemma unat_PGROUNDUP:
  assumes "k < PHYSTOP"
  shows "unat (PGROUNDUP k) = (unat k + 4095) div 4096 * 4096"
proof -
  have "k + PGSIZE - 1 = k + 4095" by simp
  then have "PGROUNDUP k = PGROUNDDOWN (k + 4095)" by (simp only: PGROUNDUP_def PGROUNDDOWN_def)
  moreover have "unat (k + 4095) = unat k + 4095"
    using assms by (simp add: PHYSTOP_def word_less_nat_alt unat_word_ariths)
  ultimately show ?thesis by (simp add: unat_PGROUNDDOWN minus_mod_eq_div_mult)
qed

definition all_pages :: "u64 \<Rightarrow> u64 set" where
  "all_pages kend = {x. page_ok kend x}"

lemma kinit_spec:
  assumes "0 < kend" and "kend < PHYSTOP" and "freelist s = 0"
  shows "\<exists>t xs. kinit kend s = Ok t \<and> free_list kend t xs \<and> set xs = all_pages kend"
proof -
  let ?p = "PGROUNDUP kend"
  define n where "n = (unat PHYSTOP - unat ?p) div 4096"
  note up = unat_PGROUNDUP [OF assms(2)]
  have ge: "unat kend \<le> unat ?p" "unat ?p < unat kend + 4096"
    using up div_mult_mod_eq [of "unat kend + 4095" 4096] mod_less_divisor [of 4096 "unat kend + 4095"] by linarith+
  have stop: "unat PHYSTOP = 4096 * 0x88000" by (simp add: PHYSTOP_def)
  have le: "unat ?p \<le> unat PHYSTOP"
  proof -
    have "(unat kend + 4095) div 4096 \<le> 0x88000"
      using assms(2) stop by (simp add: word_less_nat_alt div_le_mono less_mult_imp_div_less)
    then show ?thesis using up stop by simp
  qed
  have al: "aligned ?p" by (simp add: aligned_def up)
  have n: "unat ?p + 4096 * n = unat PHYSTOP"
  proof -
    have "4096 dvd unat PHYSTOP - unat ?p" unfolding stop up by simp
    then show ?thesis using le by (simp add: n_def)
  qed
  have "free_list kend s []" using assms(3) by (simp add: free_list_def)
  moreover have p0: "kend \<le> ?p" "?p \<noteq> 0" using ge assms(1) by (auto simp: word_le_nat_alt word_less_nat_alt)
  ultimately obtain t where t: "freerange_loop kend ?p PHYSTOP s = Ok t" "free_list kend t (rev (page_range ?p n) @ [])"
    using freerange_spec [of kend s "[]" ?p n] al n by auto
  have "aligned x \<Longrightarrow> unat kend \<le> unat x \<longleftrightarrow> unat ?p \<le> unat x" for x
  proof -
    assume "aligned x"
    then obtain k where k: "unat x = 4096 * k" by (rule alignedE)
    show ?thesis unfolding up k using div_mult_mod_eq [of "unat kend + 4095" 4096] by (auto simp: ac_simps)
  qed
  then have "set (page_range ?p n) = all_pages kend"
    using set_page_range [OF al] n assms(1) p0(2)
    by (auto simp: all_pages_def page_ok_def word_le_nat_alt word_less_nat_alt word_unat_eq_iff)
  then show ?thesis using t by (auto simp: kinit_def freerange_def)
qed

section \<open>The contract of the allocator\<close>

text \<open>
  A history of calls: any caller may allocate, give back a page it holds, or write to the pages
  it holds. The second component is the set of pages held.
\<close>

inductive pool_run ::
    "('s \<Rightarrow> u64 \<times> 's) \<Rightarrow> (u64 \<Rightarrow> 's \<Rightarrow> 's kres) \<Rightarrow> (u64 \<Rightarrow> 's \<Rightarrow> 's \<Rightarrow> bool) \<Rightarrow> 's \<Rightarrow> 's \<times> u64 set \<Rightarrow> bool"
  for alloc free touch s0 where
  start: "pool_run alloc free touch s0 (s0, {})"
| alloc: "pool_run alloc free touch s0 (s, H) \<Longrightarrow> alloc s = (x, t) \<Longrightarrow>
    pool_run alloc free touch s0 (t, if x = 0 then H else insert x H)"
| free: "pool_run alloc free touch s0 (s, H) \<Longrightarrow> x \<in> H \<Longrightarrow> free x s = Ok t \<Longrightarrow>
    pool_run alloc free touch s0 (t, H - {x})"
| use: "pool_run alloc free touch s0 (s, H) \<Longrightarrow> x \<in> H \<Longrightarrow> touch x s t \<Longrightarrow>
    pool_run alloc free touch s0 (t, H)"

locale page_pool =
  fixes alloc :: "'s \<Rightarrow> u64 \<times> 's"
    and free :: "u64 \<Rightarrow> 's \<Rightarrow> 's kres"
    and touch :: "u64 \<Rightarrow> 's \<Rightarrow> 's \<Rightarrow> bool"
    and inv :: "'s \<Rightarrow> u64 list \<Rightarrow> bool"   \<comment> \<open>the free pages\<close>
    and pages :: "u64 set"
  assumes inv_pages: "inv s xs \<Longrightarrow> distinct xs \<and> set xs \<subseteq> pages"
    and pages_nonzero: "x \<in> pages \<Longrightarrow> x \<noteq> 0"
    and alloc_empty: "inv s [] \<Longrightarrow> alloc s = (0, s)"
    and alloc_page: "inv s (x # xs) \<Longrightarrow> fst (alloc s) = x \<and> inv (snd (alloc s)) xs"
    and free_ok: "inv s xs \<Longrightarrow> x \<in> pages \<Longrightarrow> x \<notin> set xs \<Longrightarrow> \<exists>t. free x s = Ok t \<and> inv t (x # xs)"
    and touch_ok: "inv s xs \<Longrightarrow> x \<in> pages \<Longrightarrow> x \<notin> set xs \<Longrightarrow> touch x s t \<Longrightarrow> inv t xs"
begin

lemma run_inv:
  assumes "pool_run alloc free touch s0 (s, H)" and "inv s0 xs0" and "set xs0 = pages"
  shows "\<exists>xs. inv s xs \<and> set xs \<inter> H = {} \<and> set xs \<union> H = pages"
  using assms
proof (induction "(s, H)" arbitrary: s H rule: pool_run.induct)
  case start
  then show ?case by auto
next
  case (alloc s H x t)
  then obtain xs where xs: "inv s xs" "set xs \<inter> H = {}" "set xs \<union> H = pages" by blast
  show ?case
  proof (cases xs)
    case Nil
    then have "x = 0" "t = s" using alloc_empty [of s] alloc(3) xs(1) by auto
    then show ?thesis using xs by auto
  next
    case (Cons y ys)
    then have "inv t ys" "x = y" using alloc_page [of s y ys] alloc(3) xs(1) by auto
    moreover have "y \<notin> set ys" "y \<noteq> 0" using inv_pages [OF xs(1)] pages_nonzero Cons by auto
    ultimately show ?thesis using xs Cons by (intro exI [of _ ys]) auto
  qed
next
  case (free s H x t)
  then obtain xs where xs: "inv s xs" "set xs \<inter> H = {}" "set xs \<union> H = pages" by blast
  then have "inv t (x # xs)" using free_ok [of s xs x] free(3,4) by auto
  then show ?case using xs free(3) by (intro exI [of _ "x # xs"]) auto
next
  case (use s H x t)
  then obtain xs where xs: "inv s xs" "set xs \<inter> H = {}" "set xs \<union> H = pages" by blast
  then have "inv t xs" using touch_ok [of s xs x t] use(3,4) by auto
  then show ?case using xs by blast
qed

lemma alloc_fresh:
  assumes "pool_run alloc free touch s0 (s, H)" and "inv s0 xs0" and "set xs0 = pages" and "alloc s = (x, t)"
  shows "(x = 0 \<longleftrightarrow> H = pages) \<and> (x \<noteq> 0 \<longrightarrow> x \<in> pages - H)"
proof -
  obtain xs where xs: "inv s xs" "set xs \<inter> H = {}" "set xs \<union> H = pages" using run_inv [OF assms(1-3)] by blast
  show ?thesis
  proof (cases xs)
    case Nil
    then show ?thesis using alloc_empty [of s] xs assms(4) by auto
  next
    case (Cons y ys)
    then have "x = y" using alloc_page [of s y ys] assms(4) xs(1) by auto
    moreover have "y \<noteq> 0" using inv_pages [OF xs(1)] pages_nonzero Cons by auto
    ultimately show ?thesis using xs Cons by auto
  qed
qed

lemma free_held:
  assumes "pool_run alloc free touch s0 (s, H)" and "inv s0 xs0" and "set xs0 = pages" and "x \<in> H"
  shows "\<exists>t. free x s = Ok t"
proof -
  obtain xs where "inv s xs" "set xs \<inter> H = {}" "set xs \<union> H = pages" using run_inv [OF assms(1-3)] by blast
  then show ?thesis using free_ok [of s xs x] assms(4) by blast
qed

end

text \<open>Writing to a page one holds.\<close>

definition page_write :: "u64 \<Rightarrow> kmem \<Rightarrow> kmem \<Rightarrow> bool" where
  "page_write x s t \<longleftrightarrow> only_page x (pmem s) (pmem t) \<and> freelist t = freelist s"

interpretation pool: page_pool kalloc "kfree kend" page_write "free_list kend" "all_pages kend" for kend
proof unfold_locales
  fix s t :: kmem and x and xs
  show "distinct xs \<and> set xs \<subseteq> all_pages kend" if "free_list kend s xs"
    using that by (auto simp: free_list_def all_pages_def)
  show "x \<noteq> 0" if "x \<in> all_pages kend" using that by (simp add: all_pages_def page_ok_def)
  show "kalloc s = (0, s)" if "free_list kend s []" using kalloc_spec [OF that] by auto
  show "fst (kalloc s) = x \<and> free_list kend (snd (kalloc s)) xs" if "free_list kend s (x # xs)"
    using kalloc_spec [OF that] by auto
  show "\<exists>t. kfree kend x s = Ok t \<and> free_list kend t (x # xs)"
    if "free_list kend s xs" "x \<in> all_pages kend" "x \<notin> set xs"
    using kfree_spec [of kend s xs x] that by (metis all_pages_def mem_Collect_eq)
  show "free_list kend t xs"
    if "free_list kend s xs" "x \<in> all_pages kend" "x \<notin> set xs" "page_write x s t"
    using free_list_frame [OF that(1)] that(2-4) by (auto simp: page_write_def all_pages_def page_ok_def)
qed

text \<open>C21: A page has one owner. After \<open>kinit\<close>, whatever the callers do with \<open>kalloc\<close>, \<open>kfree\<close> and
  the pages they hold: \<open>kalloc\<close> returns an aligned page between the end of the kernel and
  \<open>PHYSTOP\<close> that nobody holds, filled with 5, and fails only when every page is held; and giving
  back a held page never panics.\<close>

theorem page_has_one_owner:
  assumes "0 < kend" and "kend < PHYSTOP" and "freelist z = 0" and "kinit kend z = Ok s0"
    and "pool_run kalloc (kfree kend) page_write s0 (s, H)" and "kalloc s = (x, t)"
  shows "(x = 0 \<longleftrightarrow> H = all_pages kend)
    \<and> (x \<noteq> 0 \<longrightarrow> x \<in> all_pages kend - H \<and> (\<forall>a. in_page x a \<longrightarrow> pmem t a = 5))
    \<and> (\<forall>y \<in> H. \<exists>u. kfree kend y s = Ok u)"
proof -
  obtain xs where xs: "free_list kend s0 xs" "set xs = all_pages kend"
    using kinit_spec [OF assms(1-3)] assms(4) by auto
  have "\<forall>a. in_page x a \<longrightarrow> pmem t a = 5" if "x \<noteq> 0"
    using assms(6) that by (auto simp: kalloc_def mem_fill_def in_page_def Let_def split: if_splits)
  then show ?thesis
    using pool.alloc_fresh [OF assms(5) xs assms(6)] pool.free_held [OF assms(5) xs] by blast
qed

lemma page_has_one_owner_witness:
  "\<exists>s0 x t. kinit 0x87ffe123 \<lparr>pmem = \<lambda>_. 0, freelist = 0\<rparr> = Ok s0 \<and> kalloc s0 = (x, t)
     \<and> x = 0x87fff000 \<and> pmem t 0x87fff123 = 5"
proof -
  let ?k = "0x87ffe123 :: u64" and ?z = "\<lparr>pmem = \<lambda>_. 0, freelist = 0\<rparr>"
  have k: "0 < ?k" "?k < PHYSTOP" "freelist ?z = 0" by (simp_all add: PHYSTOP_def)
  obtain s0 where s0: "kinit ?k ?z = Ok s0" using kinit_spec [OF k] by blast
  obtain x t where x: "kalloc s0 = (x, t)" by fastforce
  note p = page_has_one_owner [OF k s0 pool_run.start x]
  have m: "0x87fff000 \<in> all_pages ?k"
    by (simp add: all_pages_def page_ok_def aligned_def PHYSTOP_def)
  then have "x \<noteq> 0" using p by blast
  then have ok: "page_ok ?k x" and five: "\<forall>a. in_page x a \<longrightarrow> pmem t a = 5"
    using p by (auto simp: all_pages_def)
  obtain j where j: "unat x = 4096 * j" using ok by (auto simp: page_ok_def elim: alignedE)
  have "0x87ffe123 \<le> unat x" "unat x < 0x88000000"
    using ok by (auto simp: page_ok_def PHYSTOP_def word_le_nat_alt word_less_nat_alt)
  then have "557054 < j" "j < 557056" using j by linarith+
  then have "unat x = 0x87fff000" using j by simp
  then have "x = 0x87fff000" by (simp add: word_unat_eq_iff)
  moreover have "in_page 0x87fff000 0x87fff123" by (simp add: in_page_def)
  ultimately show ?thesis using s0 x five by blast
qed

end
