(* ===== verification/VM.thy ===== *)
theory VM imports Kalloc begin

text \<open>
  Virtual memory, kernel/vm.c: Sv39 page tables of three levels in physical memory, walked and
  built by \<open>walk\<close>, with the mapping, copying and freeing routines on top, and the page-table
  routines of kernel/proc.c. The state is the allocator's: physical memory and the free list.

  \<open>kend\<close> is the linker symbol \<open>end\<close>; \<open>etext\<close>, \<open>trampoline\<close> are symbols too. A kernel buffer that a
  routine reads or fills is a list of bytes.
\<close>

section \<open>Page-table entries\<close>

abbreviation (input) PTE_V :: u64 where "PTE_V \<equiv> 1"
abbreviation (input) PTE_R :: u64 where "PTE_R \<equiv> 2"
abbreviation (input) PTE_W :: u64 where "PTE_W \<equiv> 4"
abbreviation (input) PTE_X :: u64 where "PTE_X \<equiv> 8"
abbreviation (input) PTE_U :: u64 where "PTE_U \<equiv> 16"

definition PA2PTE :: "u64 \<Rightarrow> u64" where "PA2PTE pa = push_bit 10 (drop_bit 12 pa)"
definition PTE2PA :: "u64 \<Rightarrow> u64" where "PTE2PA pte = push_bit 12 (drop_bit 10 pte)"
definition PTE_FLAGS :: "u64 \<Rightarrow> u64" where "PTE_FLAGS pte = pte AND 0x3FF"
definition PX :: "nat \<Rightarrow> u64 \<Rightarrow> u64" where "PX level va = drop_bit (12 + 9 * level) va AND 0x1FF"

definition MAXVA :: u64 where "MAXVA = push_bit (9 + 9 + 9 + 12 - 1) 1"
definition TRAMPOLINE :: u64 where "TRAMPOLINE = MAXVA - PGSIZE"
definition TRAPFRAME :: u64 where "TRAPFRAME = TRAMPOLINE - PGSIZE"

section \<open>Walking and mapping\<close>

fun walk_loop :: "u64 \<Rightarrow> bool \<Rightarrow> nat \<Rightarrow> u64 \<Rightarrow> kmem \<Rightarrow> u64 \<times> kmem" where
  "walk_loop va alloc 0 pagetable s = (pagetable + 8 * PX 0 va, s)"
| "walk_loop va alloc (Suc l) pagetable s =
     (let pte = pagetable + 8 * PX (Suc l) va; e = load64 (pmem s) pte in
      if e AND PTE_V \<noteq> 0 then walk_loop va alloc l (PTE2PA e) s
      else if \<not> alloc then (0, s)
      else let (page, s) = kalloc s in
        if page = 0 then (0, s)
        else let s = s\<lparr>pmem := mem_fill (pmem s) page 0 PGSIZE\<rparr>;
                 s = s\<lparr>pmem := store64 (pmem s) pte (PA2PTE page OR PTE_V)\<rparr> in
          walk_loop va alloc l page s)"

definition walk :: "u64 \<Rightarrow> u64 \<Rightarrow> bool \<Rightarrow> kmem \<Rightarrow> (u64 \<times> kmem) kres" where
  "walk pagetable va alloc s =
     (if va \<ge> MAXVA then Panic ''walk'' else Ok (walk_loop va alloc 2 pagetable s))"

definition walkaddr :: "u64 \<Rightarrow> u64 \<Rightarrow> kmem \<Rightarrow> u64" where
  "walkaddr pagetable va s =
     (if va \<ge> MAXVA then 0
      else case walk pagetable va False s of
        Ok (pte, s) \<Rightarrow>
          (if pte = 0 then 0
           else let e = load64 (pmem s) pte in
             if e AND PTE_V = 0 then 0 else if e AND PTE_U = 0 then 0 else PTE2PA e)
      | _ \<Rightarrow> 0)"

lemma walk_OkD: "walk pagetable va alloc s = Ok r \<Longrightarrow> va < MAXVA"
  by (auto simp: walk_def split: if_splits)

lemma unat_MAXVA: "unat MAXVA = 2 ^ 38"
  by (simp add: MAXVA_def)

lemma walk_Ok_step: "walk pagetable va alloc s = Ok r \<Longrightarrow> 2 ^ 64 - unat (va + PGSIZE) < 2 ^ 64 - unat va"
  using walk_OkD [of pagetable va alloc s r]
  by (simp add: word_less_nat_alt unat_MAXVA unat_word_ariths)

lemmas walk_step = walk_Ok_step [simplified]

function mappages_loop :: "u64 \<Rightarrow> u64 \<Rightarrow> u64 \<Rightarrow> u64 \<Rightarrow> u64 \<Rightarrow> kmem \<Rightarrow> (int \<times> kmem) kres" where
  "mappages_loop pagetable a final pa perm s =
     kbind (walk pagetable a True s) (\<lambda>(pte, s).
     if pte = 0 then Ok (- 1, s)
     else if load64 (pmem s) pte AND PTE_V \<noteq> 0 then Panic ''mappages: remap''
     else let s = s\<lparr>pmem := store64 (pmem s) pte (PA2PTE pa OR perm OR PTE_V)\<rparr> in
       if a = final then Ok (0, s)
       else mappages_loop pagetable (a + PGSIZE) final (pa + PGSIZE) perm s)"
  by pat_completeness auto
termination
  by (relation "measure (\<lambda>(pt, a, final, pa, perm, s). 2 ^ 64 - unat a)") (auto dest: walk_step)

declare mappages_loop.simps [simp del]

definition mappages :: "u64 \<Rightarrow> u64 \<Rightarrow> u64 \<Rightarrow> u64 \<Rightarrow> u64 \<Rightarrow> kmem \<Rightarrow> (int \<times> kmem) kres" where
  "mappages pagetable va sz pa perm s =
     (if sz = 0 then Panic ''mappages: size''
      else mappages_loop pagetable (PGROUNDDOWN va) (PGROUNDDOWN (va + sz - 1)) pa perm s)"

definition kvmmap :: "u64 \<Rightarrow> u64 \<Rightarrow> u64 \<Rightarrow> u64 \<Rightarrow> u64 \<Rightarrow> kmem \<Rightarrow> kmem kres" where
  "kvmmap kpgtbl va pa sz perm s =
     kbind (mappages kpgtbl va sz pa perm s) (\<lambda>(r, s). if r \<noteq> 0 then Panic ''kvmmap'' else Ok s)"

section \<open>Unmapping\<close>

function uvmunmap_loop :: "u64 \<Rightarrow> u64 \<Rightarrow> u64 \<Rightarrow> u64 \<Rightarrow> bool \<Rightarrow> kmem \<Rightarrow> kmem kres" where
  "uvmunmap_loop kend pagetable a final do_free s =
     (if a < final then
        kbind (walk pagetable a False s) (\<lambda>(pte, s).
        if pte = 0 then Panic ''uvmunmap: walk''
        else let e = load64 (pmem s) pte in
        if e AND PTE_V = 0 then Panic ''uvmunmap: not mapped''
        else if PTE_FLAGS e = PTE_V then Panic ''uvmunmap: not a leaf''
        else kbind (if do_free then kfree kend (PTE2PA e) s else Ok s) (\<lambda>s.
          uvmunmap_loop kend pagetable (a + PGSIZE) final do_free (s\<lparr>pmem := store64 (pmem s) pte 0\<rparr>)))
      else Ok s)"
  by pat_completeness auto
termination
  by (relation "measure (\<lambda>(kend, pt, a, final, f, s). 2 ^ 64 - unat a)") (auto dest: walk_step)

declare uvmunmap_loop.simps [simp del]

definition uvmunmap :: "u64 \<Rightarrow> u64 \<Rightarrow> u64 \<Rightarrow> u64 \<Rightarrow> bool \<Rightarrow> kmem \<Rightarrow> kmem kres" where
  "uvmunmap kend pagetable va npages do_free s =
     (if va mod PGSIZE \<noteq> 0 then Panic ''uvmunmap: not aligned''
      else uvmunmap_loop kend pagetable va (va + npages * PGSIZE) do_free s)"

text \<open>The page count goes through an \<open>int\<close>.\<close>

definition uvmdealloc :: "u64 \<Rightarrow> u64 \<Rightarrow> u64 \<Rightarrow> u64 \<Rightarrow> kmem \<Rightarrow> (u64 \<times> kmem) kres" where
  "uvmdealloc kend pagetable oldsz newsz s =
     (if newsz \<ge> oldsz then Ok (oldsz, s)
      else kbind
        (if PGROUNDUP newsz < PGROUNDUP oldsz then
           let npages = ucast ((PGROUNDUP oldsz - PGROUNDUP newsz) div PGSIZE) :: u32 in
           uvmunmap kend pagetable (PGROUNDUP newsz) (scast npages) True s
         else Ok s) (\<lambda>s. Ok (newsz, s)))"

section \<open>User memory\<close>

definition uvmcreate :: "kmem \<Rightarrow> u64 \<times> kmem" where
  "uvmcreate s =
     (let (pagetable, s) = kalloc s in
      if pagetable = 0 then (0, s)
      else (pagetable, s\<lparr>pmem := mem_fill (pmem s) pagetable 0 PGSIZE\<rparr>))"

text \<open>With no free page \<open>kalloc\<close> returns 0 and the code goes on with it.\<close>

definition uvmfirst :: "u64 \<Rightarrow> u8 list \<Rightarrow> kmem \<Rightarrow> kmem kres" where
  "uvmfirst pagetable src s =
     (if length src \<ge> 4096 then Panic ''uvmfirst: more than a page''
      else let (mem, s) = kalloc s; s = s\<lparr>pmem := mem_fill (pmem s) mem 0 PGSIZE\<rparr> in
        kbind (mappages pagetable 0 PGSIZE mem (PTE_W OR PTE_R OR PTE_X OR PTE_U) s) (\<lambda>(r, s).
        Ok (s\<lparr>pmem := mem_store (pmem s) mem src\<rparr>)))"

lemma mappages_OkD: "mappages pagetable va sz pa perm s = Ok r \<Longrightarrow> PGROUNDDOWN va < MAXVA"
  by (subst (asm) mappages_def, subst (asm) mappages_loop.simps)
    (auto simp: kbind_eq_Ok dest: walk_OkD split: if_splits)

text \<open>The loop of \<open>uvmalloc\<close>. When it runs out of pages it frees what it had added.\<close>

function uvmalloc_loop :: "u64 \<Rightarrow> u64 \<Rightarrow> u64 \<Rightarrow> u64 \<Rightarrow> u64 \<Rightarrow> u64 \<Rightarrow> kmem \<Rightarrow> (u64 \<times> kmem) kres" where
  "uvmalloc_loop kend pagetable oldsz newsz xperm a s =
     (if a < newsz then
        let (mem, s) = kalloc s in
        if mem = 0 then kbind (uvmdealloc kend pagetable a oldsz s) (\<lambda>(r, s). Ok (0, s))
        else let s = s\<lparr>pmem := mem_fill (pmem s) mem 0 PGSIZE\<rparr> in
          kbind (mappages pagetable a PGSIZE mem (PTE_R OR PTE_U OR xperm) s) (\<lambda>(r, s).
          if r \<noteq> 0 then
            kbind (kfree kend mem s) (\<lambda>s.
            kbind (uvmdealloc kend pagetable a oldsz s) (\<lambda>(r, s). Ok (0, s)))
          else uvmalloc_loop kend pagetable oldsz newsz xperm (a + PGSIZE) s)
      else Ok (newsz, s))"
  by pat_completeness auto
termination
proof (relation "measure (\<lambda>(kend, pt, old, new, x, a, s). 2 ^ 64 - unat a)", goal_cases)
  case (2 kend pagetable oldsz newsz xperm a s x mem s1 s2 y r s3)
  then have "PGROUNDDOWN a < MAXVA" by (auto dest: mappages_OkD)
  then have "unat a - unat a mod 4096 < 2 ^ 38" by (simp add: word_less_nat_alt unat_MAXVA unat_PGROUNDDOWN)
  moreover have "unat a mod 4096 < 4096" by simp
  ultimately have "unat a < 2 ^ 38 + 4096" by linarith
  then show ?case by (simp add: unat_word_ariths)
qed simp

declare uvmalloc_loop.simps [simp del]

definition uvmalloc :: "u64 \<Rightarrow> u64 \<Rightarrow> u64 \<Rightarrow> u64 \<Rightarrow> u64 \<Rightarrow> kmem \<Rightarrow> (u64 \<times> kmem) kres" where
  "uvmalloc kend pagetable oldsz newsz xperm s =
     (if newsz < oldsz then Ok (oldsz, s)
      else uvmalloc_loop kend pagetable (PGROUNDUP oldsz) newsz xperm (PGROUNDUP oldsz) s)"

text \<open>\<open>freewalk\<close> recurses through the levels of the table; \<open>depth\<close> bounds the recursion, which in C
  would overflow the stack on a cyclic table. A page table has 3 levels.\<close>

fun freewalk :: "u64 \<Rightarrow> nat \<Rightarrow> u64 \<Rightarrow> kmem \<Rightarrow> kmem kres" where
  "freewalk kend 0 pagetable s = Fault"
| "freewalk kend (Suc depth) pagetable s =
     kbind (kfold (\<lambda>i s.
         let pte = load64 (pmem s) (pagetable + 8 * of_nat i) in
         if pte AND PTE_V \<noteq> 0 \<and> pte AND (PTE_R OR PTE_W OR PTE_X) = 0 then
           kbind (freewalk kend depth (PTE2PA pte) s) (\<lambda>s.
           Ok (s\<lparr>pmem := store64 (pmem s) (pagetable + 8 * of_nat i) 0\<rparr>))
         else if pte AND PTE_V \<noteq> 0 then Panic ''freewalk: leaf''
         else Ok s) [0..<512] s) (\<lambda>s.
     kfree kend pagetable s)"

definition uvmfree :: "u64 \<Rightarrow> u64 \<Rightarrow> u64 \<Rightarrow> kmem \<Rightarrow> kmem kres" where
  "uvmfree kend pagetable sz s =
     kbind (if sz > 0 then uvmunmap kend pagetable 0 (PGROUNDUP sz div PGSIZE) True s else Ok s)
       (freewalk kend 3 pagetable)"

text \<open>The flags go through a \<open>uint\<close> and an \<open>int\<close>, and are below 1024.\<close>

function uvmcopy_loop :: "u64 \<Rightarrow> u64 \<Rightarrow> u64 \<Rightarrow> u64 \<Rightarrow> u64 \<Rightarrow> kmem \<Rightarrow> (int \<times> kmem) kres" where
  "uvmcopy_loop kend old new sz i s =
     (if i < sz then
        kbind (walk old i False s) (\<lambda>(pte, s).
        if pte = 0 then Panic ''uvmcopy: pte should exist''
        else let e = load64 (pmem s) pte in
        if e AND PTE_V = 0 then Panic ''uvmcopy: page not present''
        else let pa = PTE2PA e; flags = PTE_FLAGS e; (mem, s) = kalloc s in
        if mem = 0 then kbind (uvmunmap kend new 0 (i div PGSIZE) True s) (\<lambda>s. Ok (- 1, s))
        else let s = s\<lparr>pmem := mem_copy (pmem s) mem pa PGSIZE\<rparr> in
          kbind (mappages new i PGSIZE mem flags s) (\<lambda>(r, s).
          if r \<noteq> 0 then
            kbind (kfree kend mem s) (\<lambda>s.
            kbind (uvmunmap kend new 0 (i div PGSIZE) True s) (\<lambda>s. Ok (- 1, s)))
          else uvmcopy_loop kend old new sz (i + PGSIZE) s))
      else Ok (0, s))"
  by pat_completeness auto
termination
  by (relation "measure (\<lambda>(kend, old, new, sz, i, s). 2 ^ 64 - unat i)") (auto dest: walk_step)

declare uvmcopy_loop.simps [simp del]

definition uvmcopy :: "u64 \<Rightarrow> u64 \<Rightarrow> u64 \<Rightarrow> u64 \<Rightarrow> kmem \<Rightarrow> (int \<times> kmem) kres" where
  "uvmcopy kend old new sz s = uvmcopy_loop kend old new sz 0 s"

definition uvmclear :: "u64 \<Rightarrow> u64 \<Rightarrow> kmem \<Rightarrow> kmem kres" where
  "uvmclear pagetable va s =
     kbind (walk pagetable va False s) (\<lambda>(pte, s).
     if pte = 0 then Panic ''uvmclear''
     else Ok (s\<lparr>pmem := store64 (pmem s) pte (load64 (pmem s) pte AND NOT PTE_U)\<rparr>))"

section \<open>Copying to and from user memory\<close>

function copyout :: "u64 \<Rightarrow> u64 \<Rightarrow> u8 list \<Rightarrow> kmem \<Rightarrow> int \<times> kmem" where
  "copyout pagetable dstva src s =
     (if length src > 0 then
        let va0 = PGROUNDDOWN dstva; pa0 = walkaddr pagetable va0 s in
        if pa0 = 0 then (- 1, s)
        else let n = min (unat (PGSIZE - (dstva - va0))) (length src);
                 s = s\<lparr>pmem := mem_store (pmem s) (pa0 + (dstva - va0)) (take n src)\<rparr> in
          copyout pagetable (va0 + PGSIZE) (drop n src) s
      else (0, s))"
  by pat_completeness auto

lemma page_rest_pos: "0 < unat (PGSIZE - (a - PGROUNDDOWN a))"
proof -
  have "unat (a - PGROUNDDOWN a) = unat a mod 4096" by (simp add: PGROUNDDOWN_eq unat_take12)
  then have "a - PGROUNDDOWN a \<noteq> PGSIZE" using mod_less_divisor [of 4096 "unat a"] by auto
  then show ?thesis by (simp add: unat_gt_0)
qed

termination copyout
proof (relation "measure (\<lambda>(pt, d, src, s). length src)", goal_cases)
  case (2 pagetable dstva src s va0 pa0 n s')
  then show ?case using page_rest_pos [of dstva] by auto
qed simp

declare copyout.simps [simp del]

text \<open>\<open>copyin\<close> and \<open>copyinstr\<close>: the bytes stored in the kernel buffer, and the result.\<close>

function copyin :: "u64 \<Rightarrow> u64 \<Rightarrow> nat \<Rightarrow> kmem \<Rightarrow> u8 list \<times> int" where
  "copyin pagetable srcva len s =
     (if len > 0 then
        let va0 = PGROUNDDOWN srcva; pa0 = walkaddr pagetable va0 s in
        if pa0 = 0 then ([], - 1)
        else let n = min (unat (PGSIZE - (srcva - va0))) len;
                 (bs, r) = copyin pagetable (va0 + PGSIZE) (len - n) s in
          (mem_load (pmem s) (pa0 + (srcva - va0)) n @ bs, r)
      else ([], 0))"
  by pat_completeness auto
termination
proof (relation "measure (\<lambda>(pt, a, len, s). len)", goal_cases)
  case (2 pagetable srcva len s va0 pa0 n)
  then show ?case using page_rest_pos [of srcva] by auto
qed simp

declare copyin.simps [simp del]

text \<open>The inner loop copies from one page, up to and including a NUL.\<close>

fun copystr_page :: "memory \<Rightarrow> u64 \<Rightarrow> nat \<Rightarrow> u8 list \<times> bool" where
  "copystr_page m p 0 = ([], False)"
| "copystr_page m p (Suc n) =
     (if m p = 0 then ([0], True)
      else let (bs, got_null) = copystr_page m (p + 1) n in (m p # bs, got_null))"

function copyinstr :: "u64 \<Rightarrow> u64 \<Rightarrow> nat \<Rightarrow> kmem \<Rightarrow> u8 list \<times> int" where
  "copyinstr pagetable srcva max_len s =
     (if max_len > 0 then
        let va0 = PGROUNDDOWN srcva; pa0 = walkaddr pagetable va0 s in
        if pa0 = 0 then ([], - 1)
        else let n = min (unat (PGSIZE - (srcva - va0))) max_len;
                 (bs, got_null) = copystr_page (pmem s) (pa0 + (srcva - va0)) n in
          if got_null then (bs, 0)
          else let (cs, r) = copyinstr pagetable (va0 + PGSIZE) (max_len - n) s in (bs @ cs, r)
      else ([], - 1))"
  by pat_completeness auto
termination
proof (relation "measure (\<lambda>(pt, a, len, s). len)", goal_cases)
  case (2 pagetable srcva len s va0 pa0 n)
  then show ?case using page_rest_pos [of srcva] by auto
qed simp

declare copyinstr.simps [simp del]

section \<open>The page tables of the kernel and of a process\<close>

definition KSTACK :: "nat \<Rightarrow> u64" where
  "KSTACK p = TRAMPOLINE - (of_nat p + 1) * 2 * PGSIZE"

definition proc_mapstacks :: "u64 \<Rightarrow> kmem \<Rightarrow> kmem kres" where
  "proc_mapstacks kpgtbl s =
     kfold (\<lambda>i s.
       let (pa, s) = kalloc s in
       if pa = 0 then Panic ''kalloc''
       else kvmmap kpgtbl (KSTACK i) pa PGSIZE (PTE_R OR PTE_W) s) [0..<64] s"

definition UART0 :: u64 where "UART0 = 0x10000000"
definition VIRTIO0 :: u64 where "VIRTIO0 = 0x10001000"
definition PLIC :: u64 where "PLIC = 0x0c000000"
definition KERNBASE :: u64 where "KERNBASE = 0x80000000"
definition VIRT_TEST :: u64 where "VIRT_TEST = 0x100000"
definition GOLDFISH_RTC :: u64 where "GOLDFISH_RTC = 0x101000"

definition kvmmake :: "u64 \<Rightarrow> u64 \<Rightarrow> kmem \<Rightarrow> (u64 \<times> kmem) kres" where
  "kvmmake etext trampoline s =
     (let (kpgtbl, s) = kalloc s;
          s = s\<lparr>pmem := mem_fill (pmem s) kpgtbl 0 PGSIZE\<rparr> in
      kbind (kvmmap kpgtbl UART0 UART0 PGSIZE (PTE_R OR PTE_W) s) (\<lambda>s.
      kbind (kvmmap kpgtbl VIRTIO0 VIRTIO0 PGSIZE (PTE_R OR PTE_W) s) (\<lambda>s.
      kbind (kvmmap kpgtbl PLIC PLIC 0x400000 (PTE_R OR PTE_W) s) (\<lambda>s.
      kbind (kvmmap kpgtbl KERNBASE KERNBASE (etext - KERNBASE) (PTE_R OR PTE_X) s) (\<lambda>s.
      kbind (kvmmap kpgtbl etext etext (PHYSTOP - etext) (PTE_R OR PTE_W) s) (\<lambda>s.
      kbind (kvmmap kpgtbl TRAMPOLINE trampoline PGSIZE (PTE_R OR PTE_X) s) (\<lambda>s.
      kbind (kvmmap kpgtbl VIRT_TEST VIRT_TEST PGSIZE (PTE_R OR PTE_W) s) (\<lambda>s.
      kbind (kvmmap kpgtbl GOLDFISH_RTC GOLDFISH_RTC PGSIZE (PTE_R OR PTE_W) s) (\<lambda>s.
      kbind (proc_mapstacks kpgtbl s) (\<lambda>s. Ok (kpgtbl, s)))))))))))"

text \<open>\<open>trapframe\<close> is \<open>p->trapframe\<close>.\<close>

definition proc_pagetable :: "u64 \<Rightarrow> u64 \<Rightarrow> u64 \<Rightarrow> kmem \<Rightarrow> (u64 \<times> kmem) kres" where
  "proc_pagetable kend trampoline trapframe s =
     (let (pagetable, s) = uvmcreate s in
      if pagetable = 0 then Ok (0, s)
      else kbind (mappages pagetable TRAMPOLINE PGSIZE trampoline (PTE_R OR PTE_X) s) (\<lambda>(r, s).
        if r < 0 then kbind (uvmfree kend pagetable 0 s) (\<lambda>s. Ok (0, s))
        else kbind (mappages pagetable TRAPFRAME PGSIZE trapframe (PTE_R OR PTE_W) s) (\<lambda>(r, s).
          if r < 0 then
            kbind (uvmunmap kend pagetable TRAMPOLINE 1 False s) (\<lambda>s.
            kbind (uvmfree kend pagetable 0 s) (\<lambda>s. Ok (0, s)))
          else Ok (pagetable, s))))"

definition proc_freepagetable :: "u64 \<Rightarrow> u64 \<Rightarrow> u64 \<Rightarrow> kmem \<Rightarrow> kmem kres" where
  "proc_freepagetable kend pagetable sz s =
     kbind (uvmunmap kend pagetable TRAMPOLINE 1 False s) (\<lambda>s.
     kbind (uvmunmap kend pagetable TRAPFRAME 1 False s) (\<lambda>s.
     uvmfree kend pagetable sz s))"

end
