(* ===== verification/KString.thy ===== *)
theory KString imports Memory begin

text \<open>
  Memory and string routines of the kernel, kernel/string.c. The memory routines work on the
  byte-addressed memory of theory Memory, as the pointer loops they are; \<open>memmove\<close> chooses the
  direction of the copy so that overlapping ranges are copied correctly, which is the theorem.

  For the string routines a list of bytes stands for a string: what is stored up to the NUL, or
  the array when no NUL is in it; reading past the end of the list reads the NUL. \<open>strncpy\<close> and
  \<open>safestrcpy\<close> give the bytes they store from the start of the destination on.
\<close>

section \<open>Memory\<close>

definition memset :: "memory \<Rightarrow> u64 \<Rightarrow> u8 \<Rightarrow> nat \<Rightarrow> memory" where
  "memset m dst c n = fold (\<lambda>i m. m(dst + of_nat i := c)) [0..<n] m"

fun memcmp :: "memory \<Rightarrow> u64 \<Rightarrow> u64 \<Rightarrow> nat \<Rightarrow> int" where
  "memcmp m s1 s2 0 = 0"
| "memcmp m s1 s2 (Suc n) =
     (if m s1 \<noteq> m s2 then uint (m s1) - uint (m s2) else memcmp m (s1 + 1) (s2 + 1) n)"

fun copy_up :: "memory \<Rightarrow> u64 \<Rightarrow> u64 \<Rightarrow> nat \<Rightarrow> memory" where
  "copy_up m d s 0 = m"
| "copy_up m d s (Suc n) = copy_up (m(d := m s)) (d + 1) (s + 1) n"

fun copy_down :: "memory \<Rightarrow> u64 \<Rightarrow> u64 \<Rightarrow> nat \<Rightarrow> memory" where
  "copy_down m d s 0 = m"
| "copy_down m d s (Suc n) = copy_down (m(d - 1 := m (s - 1))) (d - 1) (s - 1) n"

definition memmove :: "memory \<Rightarrow> u64 \<Rightarrow> u64 \<Rightarrow> nat \<Rightarrow> memory" where
  "memmove m dst src n =
     (if n = 0 then m
      else if src < dst \<and> src + of_nat n > dst then copy_down m (dst + of_nat n) (src + of_nat n) n
      else copy_up m dst src n)"

definition memcpy :: "memory \<Rightarrow> u64 \<Rightarrow> u64 \<Rightarrow> nat \<Rightarrow> memory" where
  "memcpy = memmove"

section \<open>Strings\<close>

fun strncmp :: "u8 list \<Rightarrow> u8 list \<Rightarrow> nat \<Rightarrow> int" where
  "strncmp p q 0 = 0"
| "strncmp [] [] (Suc n) = 0"
| "strncmp [] (y # q) (Suc n) = - uint y"
| "strncmp (x # p) [] (Suc n) = uint x"
| "strncmp (x # p) (y # q) (Suc n) =
     (if x \<noteq> 0 \<and> x = y then strncmp p q n else uint x - uint y)"

fun strncpy :: "u8 list \<Rightarrow> nat \<Rightarrow> u8 list" where
  "strncpy t 0 = []"
| "strncpy [] (Suc n) = 0 # replicate n 0"
| "strncpy (c # t) (Suc n) = (if c = 0 then 0 # replicate n 0 else c # strncpy t n)"

text \<open>When the loop stops at a NUL it has stored it and stepped past it, so a second one is stored.\<close>

fun safestrcpy :: "u8 list \<Rightarrow> nat \<Rightarrow> u8 list" where
  "safestrcpy t 0 = []"
| "safestrcpy t (Suc 0) = [0]"
| "safestrcpy [] (Suc (Suc n)) = [0, 0]"
| "safestrcpy (c # t) (Suc (Suc n)) = (if c = 0 then [0, 0] else c # safestrcpy t (Suc n))"

fun strlen :: "u8 list \<Rightarrow> nat" where
  "strlen [] = 0"
| "strlen (c # s) = (if c = 0 then 0 else Suc (strlen s))"

text \<open>The string in a buffer.\<close>

definition cstr :: "u8 list \<Rightarrow> u8 list" where
  "cstr s = takeWhile (\<lambda>c. c \<noteq> 0) s"

lemma cstr_simps [simp]: "cstr [] = []" "cstr (c # s) = (if c = 0 then [] else c # cstr s)"
  by (simp_all add: cstr_def)

lemma strlen_cstr: "strlen s = length (cstr s)"
  by (induction s) auto

lemma strncmp_0_iff: "strncmp p q n = 0 \<longleftrightarrow> take n (cstr p) = take n (cstr q)"
proof (induction p q n rule: strncmp.induct)
  case (3 y q n)
  then show ?case by (auto simp: word_uint_eq_iff)
next
  case (4 x p n)
  then show ?case by (auto simp: word_uint_eq_iff)
next
  case (5 x p y q n)
  then show ?case by (auto simp: word_uint_eq_iff)
qed auto

lemma length_strncpy [simp]: "length (strncpy t n) = n"
  by (induction t n rule: strncpy.induct) auto

lemma cstr_replicate [simp]: "cstr (replicate n 0) = []"
  by (cases n) auto

lemma cstr_strncpy: "cstr (strncpy t n) = take n (cstr t)"
  by (induction t n rule: strncpy.induct) auto

lemma cstr_safestrcpy: "0 < n \<Longrightarrow> cstr (safestrcpy t n) = take (n - 1) (cstr t)"
  by (induction t n rule: safestrcpy.induct) auto

lemma length_safestrcpy: "length (safestrcpy t n) \<le> n"
  by (induction t n rule: safestrcpy.induct) auto

section \<open>memmove\<close>

lemma memset_fill:
  assumes "n < 2 ^ 64"
  shows "memset m dst c n = mem_fill m dst c (of_nat n)"
  using assms
proof (induction n)
  case 0
  then show ?case by (simp add: memset_def mem_fill_def)
next
  case (Suc n)
  have un: "unat (of_nat n :: u64) = n" "unat (of_nat (Suc n) :: u64) = Suc n"
    using Suc.prems by (simp_all only: unat_of_nat take_bit_nat_eq_self_iff) simp_all
  have "x - dst < of_nat (Suc n) \<longleftrightarrow> x - dst < of_nat n \<or> x = dst + of_nat n" for x
    unfolding word_less_nat_alt un using un by (auto simp: less_Suc_eq word_unat_eq_iff [of "x - dst"] diff_eq_eq add.commute)
  then show ?case using Suc by (auto simp: memset_def mem_fill_def fun_eq_iff)
qed

lemma copy_up_eq:
  assumes "n < 2 ^ 64" and "\<And>i j. i < n \<Longrightarrow> j < i \<Longrightarrow> src + of_nat i \<noteq> dst + of_nat j"
  shows "copy_up m dst src n x = (if unat (x - dst) < n then m (src + (x - dst)) else m x)"
  using assms
proof (induction n arbitrary: m dst src)
  case (Suc n)
  have no: "src + 1 + of_nat i \<noteq> dst + 1 + of_nat j" if "i < n" "j < i" for i j
    using Suc.prems(2) [of "Suc i" "Suc j"] that by (simp add: algebra_simps)
  have IH: "copy_up (m(dst := m src)) (dst + 1) (src + 1) n x
      = (if unat (x - dst - of_nat 1) < n then (m(dst := m src)) (src + (x - dst)) else (m(dst := m src)) x)"
    using Suc.IH [OF _ no] Suc.prems(1) by (simp add: algebra_simps)
  have lt: "1 + n < 2 ^ 64 \<or> n = 2 ^ 64 - 1" using Suc.prems(1) by linarith
  have split: "unat (x - dst) < Suc n \<longleftrightarrow> x = dst \<or> unat (x - dst - of_nat 1) < n"
    using unat_minus_of_nat(1) [of 1 n "x - dst"] Suc.prems(1) by (simp add: unat_eq_0)
  have src: "src + (x - dst) \<noteq> dst" if "x \<noteq> dst" "unat (x - dst - of_nat 1) < n"
  proof -
    have "unat (x - dst) < Suc n" "0 < unat (x - dst)" using split that by (auto simp: unat_gt_0)
    then have "src + of_nat (unat (x - dst)) \<noteq> dst + of_nat 0" using Suc.prems(2) by blast
    then show ?thesis by simp
  qed
  show ?case
  proof (cases "x = dst")
    case True
    have "\<not> unat (0 - of_nat 1 :: u64) < n" using unat_minus_of_nat(3) [of 1 n "0 :: u64"] Suc.prems(1) by simp
    then show ?thesis using IH True by simp
  next
    case False
    then show ?thesis using IH split src by auto
  qed
qed simp

lemma copy_down_eq:
  assumes "n < 2 ^ 64" and "\<And>i j. j < n \<Longrightarrow> i < j \<Longrightarrow> src + of_nat i \<noteq> dst + of_nat j"
  shows "copy_down m (dst + of_nat n) (src + of_nat n) n x = (if unat (x - dst) < n then m (src + (x - dst)) else m x)"
  using assms
proof (induction n arbitrary: m)
  case (Suc n)
  let ?m = "m(dst + of_nat n := m (src + of_nat n))"
  have step: "copy_down m (dst + of_nat (Suc n)) (src + of_nat (Suc n)) (Suc n) = copy_down ?m (dst + of_nat n) (src + of_nat n) n"
    by simp
  have IH: "copy_down ?m (dst + of_nat n) (src + of_nat n) n x
      = (if unat (x - dst) < n then ?m (src + (x - dst)) else ?m x)"
  proof (rule Suc.IH)
    show "n < 2 ^ 64" using Suc.prems(1) by linarith
    show "src + of_nat i \<noteq> dst + of_nat j" if "j < n" "i < j" for i j
      using Suc.prems(2) [of j i] that by simp
  qed
  have un: "unat (of_nat n :: u64) = n" using Suc.prems(1) by (simp add: unat_of_nat)
  have last: "unat (x - dst) = n \<longleftrightarrow> x = dst + of_nat n"
    using un by (auto simp: word_unat_eq_iff [of "x - dst"] diff_eq_eq add.commute)
  have src: "src + (x - dst) \<noteq> dst + of_nat n" if "unat (x - dst) < n"
    using Suc.prems(2) [of n "unat (x - dst)"] that by simp
  show ?case
  proof (cases "unat (x - dst) < n")
    case True
    then have "x \<noteq> dst + of_nat n" using un by auto
    then show ?thesis unfolding step IH using True src by simp
  next
    case False
    then show ?thesis unfolding step IH using last by (auto simp: less_Suc_eq)
  qed
qed simp

text \<open>C24: \<open>memmove\<close> copies correctly whatever the overlap of the two ranges: the destination gets
  what the source held before the call, and nothing else changes.\<close>

theorem memmove_overlap_safe:
  assumes "unat dst + n < 2 ^ 64" and "unat src + n < 2 ^ 64"
  shows "memmove m dst src n = mem_copy m dst src (of_nat n)"
proof -
  have n: "n < 2 ^ 64" using assms by simp
  have un: "unat (of_nat n :: u64) = n" using n by (simp add: unat_of_nat)
  have at: "unat (p + of_nat i) = unat p + i" if "i \<le> n" "unat p + n < 2 ^ 64" for p :: u64 and i
    using that by (simp add: unat_word_ariths unat_of_nat)
  have "memmove m dst src n x = (if unat (x - dst) < n then m (src + (x - dst)) else m x)" for x
  proof (cases "n = 0 \<or> \<not> (src < dst \<and> src + of_nat n > dst)")
    case True
    have "src + of_nat i \<noteq> dst + of_nat j" if "i < n" "j < i" for i j
    proof
      assume "src + of_nat i = dst + of_nat j"
      then have "unat src + i = unat dst + j" using at [of i src] at [of j dst] that assms by simp
      then have "src < dst" "src + of_nat n > dst"
        using that at [of n src] assms by (simp_all add: word_less_nat_alt)
      with True that show False by auto
    qed
    then have "copy_up m dst src n x = (if unat (x - dst) < n then m (src + (x - dst)) else m x)"
      by (rule copy_up_eq [OF n])
    moreover have "memmove m dst src n = copy_up m dst src n" using True by (auto simp: memmove_def)
    ultimately show ?thesis by simp
  next
    case False
    have "src + of_nat i \<noteq> dst + of_nat j" if "j < n" "i < j" for i j
    proof
      assume "src + of_nat i = dst + of_nat j"
      then have "unat src + i = unat dst + j" using at [of i src] at [of j dst] that assms by simp
      then show False using False that by (simp add: word_less_nat_alt)
    qed
    then have "copy_down m (dst + of_nat n) (src + of_nat n) n x = (if unat (x - dst) < n then m (src + (x - dst)) else m x)"
      by (rule copy_down_eq [OF n])
    then show ?thesis using False by (simp add: memmove_def)
  qed
  then show ?thesis by (auto simp: fun_eq_iff mem_copy_def word_less_nat_alt un)
qed

lemma memmove_overlap_safe_witness:
  "memmove (\<lambda>a. ucast a) 0x1001 0x1000 3 0x1003 = 2"
proof -
  have eq: "memmove (\<lambda>a. ucast a) 0x1001 0x1000 3 = mem_copy (\<lambda>a. ucast a) 0x1001 0x1000 (of_nat 3)"
    by (rule memmove_overlap_safe) simp_all
  show ?thesis unfolding eq by (simp add: mem_copy_def)
qed

end
