(* ===== verification/Proc.thy ===== *)
theory Proc imports VM KString begin

text \<open>
  The process table of kernel/proc.c: \<open>allocproc\<close>, \<open>freeproc\<close>, \<open>userinit\<close>, \<open>growproc\<close>, \<open>fork\<close>,
  \<open>reparent\<close>, \<open>exit\<close>, \<open>wait2\<close>, \<open>kill\<close>, \<open>sleep\<close>, \<open>wakeup\<close>, \<open>yield\<close>, the choice made by
  \<open>scheduler\<close>, and \<open>forkret\<close>.

  The memory, file and inode layers that these functions call are operations on a state \<open>'w\<close>
  of their own, collected in a record \<open>kops\<close>; they do not touch the process table. Pointers to
  \<open>struct proc\<close> are indices below \<open>NPROC\<close>. Each critical section (between the acquisition and
  the release of \<open>p->lock\<close> or \<open>wait_lock\<close>) is atomic; a function with several of them is several
  steps of the relation \<open>pstep\<close>, which interleaves any number of processors.
\<close>

section \<open>State\<close>

abbreviation NPROC :: nat where "NPROC \<equiv> 64"
abbreviation NOFILE :: nat where "NOFILE \<equiv> 16"

datatype procstate = UNUSED | USED | SLEEPING | RUNNABLE | RUNNING | ZOMBIE

text \<open>\<open>struct trapframe\<close>: its fields name saved registers.\<close>

datatype tfreg = Kernel_satp | Kernel_sp | Kernel_trap | Epc | Kernel_hartid
  | Ra | Sp | Gp | Tp | T0 | T1 | T2 | S0 | S1 | A0 | A1 | A2 | A3 | A4 | A5 | A6 | A7
  | S2 | S3 | S4 | S5 | S6 | S7 | S8 | S9 | S10 | S11 | T3 | T4 | T5 | T6

type_synonym trapframe = "tfreg \<Rightarrow> u64"

text \<open>What processes sleep on: the address of a process structure, or of some other object.\<close>

datatype chan = Proc_chan nat | Addr_chan u64

record proc =
  p_state :: procstate
  p_chan :: "chan option"
  p_killed :: int
  p_xstate :: int
  p_pid :: int
  p_parent :: "nat option"
  p_kstack :: u64
  p_sz :: u64
  p_pagetable :: u64
  p_trapframe :: u64       \<comment> \<open>the address of the page\<close>
  p_tf :: trapframe        \<comment> \<open>and what is there\<close>
  p_context :: "u64 \<times> u64" \<comment> \<open>\<open>ra\<close> and \<open>sp\<close>; the callee-saved registers are cleared\<close>
  p_ofile :: "nat option list"
  p_cwd :: "nat option"
  p_name :: "u8 list"
  p_strace :: int
  p_counter :: int

record 'w kst =
  procs :: "nat \<Rightarrow> proc"
  nextpid :: int
  initproc :: "nat option"
  cpu_proc :: "nat \<Rightarrow> nat option"   \<comment> \<open>\<open>cpus[c].proc\<close>\<close>
  world :: 'w

text \<open>The layers below: \<open>kalloc\<close>, \<open>kfree\<close>, the page-table routines, and the file layer.
  Pointers are 0 for NULL.\<close>

record 'w kops =
  k_kalloc :: "'w \<Rightarrow> u64 \<times> 'w"
  k_kfree :: "u64 \<Rightarrow> 'w \<Rightarrow> 'w kres"
  k_proc_pagetable :: "u64 \<Rightarrow> 'w \<Rightarrow> (u64 \<times> 'w) kres"
  k_proc_freepagetable :: "u64 \<Rightarrow> u64 \<Rightarrow> 'w \<Rightarrow> 'w kres"
  k_uvmfirst :: "u64 \<Rightarrow> 'w \<Rightarrow> 'w kres"
  k_uvmcopy :: "u64 \<Rightarrow> u64 \<Rightarrow> u64 \<Rightarrow> 'w \<Rightarrow> (int \<times> 'w) kres"
  k_uvmalloc :: "u64 \<Rightarrow> u64 \<Rightarrow> u64 \<Rightarrow> 'w \<Rightarrow> (u64 \<times> 'w) kres"
  k_uvmdealloc :: "u64 \<Rightarrow> u64 \<Rightarrow> u64 \<Rightarrow> 'w \<Rightarrow> (u64 \<times> 'w) kres"
  k_copyout :: "u64 \<Rightarrow> u64 \<Rightarrow> u8 list \<Rightarrow> 'w \<Rightarrow> (int \<times> 'w) kres"
  k_filedup :: "nat \<Rightarrow> 'w \<Rightarrow> 'w kres"
  k_fileclose :: "nat \<Rightarrow> 'w \<Rightarrow> 'w kres"
  k_idup :: "nat option \<Rightarrow> 'w \<Rightarrow> 'w kres"
  k_put_cwd :: "nat option \<Rightarrow> 'w \<Rightarrow> 'w kres"    \<comment> \<open>\<open>begin_op(); iput(cwd); end_op();\<close>\<close>
  k_namei_root :: "'w \<Rightarrow> (nat option \<times> 'w) kres"

definition upd_proc :: "nat \<Rightarrow> (proc \<Rightarrow> proc) \<Rightarrow> 'w kst \<Rightarrow> 'w kst" where
  "upd_proc i f st = st\<lparr>procs := (procs st)(i := f (procs st i))\<rparr>"

text \<open>Run an operation of the layers below.\<close>

definition lower :: "('w \<Rightarrow> 'w kres) \<Rightarrow> 'w kst \<Rightarrow> 'w kst kres" where
  "lower f st = kbind (f (world st)) (\<lambda>w. Ok (st\<lparr>world := w\<rparr>))"

definition lower_ret :: "('w \<Rightarrow> ('a \<times> 'w) kres) \<Rightarrow> 'w kst \<Rightarrow> ('a \<times> 'w kst) kres" where
  "lower_ret f st = kbind (f (world st)) (\<lambda>(x, w). Ok (x, st\<lparr>world := w\<rparr>))"

section \<open>Creating and freeing processes\<close>

definition procinit :: "'w kst \<Rightarrow> 'w kst" where
  "procinit st = fold (\<lambda>i. upd_proc i (\<lambda>p. p\<lparr>p_state := UNUSED, p_kstack := KSTACK i\<rparr>)) [0..<NPROC] st"

definition allocpid :: "'w kst \<Rightarrow> int \<times> 'w kst" where
  "allocpid st = (nextpid st, st\<lparr>nextpid := nextpid st + 1\<rparr>)"

definition freeproc :: "'w kops \<Rightarrow> nat \<Rightarrow> 'w kst \<Rightarrow> 'w kst kres" where
  "freeproc ops i st =
     (let p = procs st i in
      kbind (if p_trapframe p \<noteq> 0 then lower (k_kfree ops (p_trapframe p)) st else Ok st) (\<lambda>st.
      kbind (if p_pagetable p \<noteq> 0 then lower (k_proc_freepagetable ops (p_pagetable p) (p_sz p)) st
             else Ok st) (\<lambda>st.
      Ok (upd_proc i (\<lambda>p. p\<lparr>p_trapframe := 0, p_pagetable := 0, p_sz := 0, p_pid := 0,
            p_parent := None, p_name := (p_name p)[0 := 0], p_chan := None, p_killed := 0,
            p_xstate := 0, p_state := UNUSED\<rparr>) st))))"

text \<open>\<open>forkret\<close> is the address that a new kernel thread starts at.\<close>

definition allocproc :: "'w kops \<Rightarrow> u64 \<Rightarrow> 'w kst \<Rightarrow> (nat option \<times> 'w kst) kres" where
  "allocproc ops forkret st =
     (case find (\<lambda>i. p_state (procs st i) = UNUSED) [0..<NPROC] of
        None \<Rightarrow> Ok (None, st)
      | Some i \<Rightarrow>
          let (pid, st) = allocpid st;
              st = upd_proc i (\<lambda>p. p\<lparr>p_pid := pid, p_state := USED\<rparr>) st;
              (tf, w) = k_kalloc ops (world st);
              st = upd_proc i (\<lambda>p. p\<lparr>p_trapframe := tf\<rparr>) (st\<lparr>world := w\<rparr>)
          in if tf = 0 then kbind (freeproc ops i st) (\<lambda>st. Ok (None, st))
             else kbind (lower_ret (k_proc_pagetable ops tf) st) (\<lambda>(pt, st).
               let st = upd_proc i (\<lambda>p. p\<lparr>p_pagetable := pt\<rparr>) st
               in if pt = 0 then kbind (freeproc ops i st) (\<lambda>st. Ok (None, st))
                  else Ok (Some i, upd_proc i (\<lambda>p. p\<lparr>p_context := (forkret, p_kstack p + PGSIZE)\<rparr>) st)))"

text \<open>The 16-byte name of a process after \<open>safestrcpy\<close> (theory KString) is \<open>safestrcpy16\<close>; the name of the first
  process is \<open>initcode\<close>.\<close>

definition safestrcpy16 :: "u8 list \<Rightarrow> u8 list \<Rightarrow> u8 list" where
  "safestrcpy16 dst src = put_bytes dst 0 (safestrcpy src 16)"

definition initcode_name :: "u8 list" where
  "initcode_name = [0x69, 0x6e, 0x69, 0x74, 0x63, 0x6f, 0x64, 0x65, 0]"

text \<open>\<open>Fault\<close>: without memory \<open>allocproc\<close> returns 0, which \<open>userinit\<close> dereferences.\<close>

definition userinit :: "'w kops \<Rightarrow> u64 \<Rightarrow> 'w kst \<Rightarrow> 'w kst kres" where
  "userinit ops forkret st =
     kbind (allocproc ops forkret st) (\<lambda>(r, st).
     case r of None \<Rightarrow> Fault
     | Some i \<Rightarrow>
         let st = st\<lparr>initproc := Some i\<rparr> in
         kbind (lower (k_uvmfirst ops (p_pagetable (procs st i))) st) (\<lambda>st.
         let st = upd_proc i (\<lambda>p. p\<lparr>p_sz := PGSIZE, p_tf := (p_tf p)(Epc := 0, Sp := PGSIZE),
                    p_name := safestrcpy16 (p_name p) initcode_name\<rparr>) st in
         kbind (lower_ret (k_namei_root ops) st) (\<lambda>(cwd, st).
         Ok (upd_proc i (\<lambda>p. p\<lparr>p_cwd := cwd, p_state := RUNNABLE\<rparr>) st))))"

definition growproc :: "'w kops \<Rightarrow> nat \<Rightarrow> int \<Rightarrow> 'w kst \<Rightarrow> (int \<times> 'w kst) kres" where
  "growproc ops me n st =
     (let p = procs st me; sz = p_sz p in
      if 0 < n then
        kbind (lower_ret (k_uvmalloc ops (p_pagetable p) sz (sz + of_int n)) st) (\<lambda>(sz', st).
        if sz' = 0 then Ok (- 1, st) else Ok (0, upd_proc me (\<lambda>p. p\<lparr>p_sz := sz'\<rparr>) st))
      else if n < 0 then
        kbind (lower_ret (k_uvmdealloc ops (p_pagetable p) sz (sz + of_int n)) st) (\<lambda>(sz', st).
        Ok (0, upd_proc me (\<lambda>p. p\<lparr>p_sz := sz'\<rparr>) st))
      else Ok (0, st))"

section \<open>fork\<close>

text \<open>\<open>for(i = 0; i < NOFILE; i++) if(p->ofile[i]) np->ofile[i] = filedup(p->ofile[i]);\<close>\<close>

definition dup_file :: "'w kops \<Rightarrow> nat \<Rightarrow> nat \<Rightarrow> nat \<Rightarrow> 'w kst \<Rightarrow> 'w kst kres" where
  "dup_file ops me np i st =
     (case p_ofile (procs st me) ! i of
        None \<Rightarrow> Ok st
      | Some f \<Rightarrow> kbind (lower (k_filedup ops f) st) (\<lambda>st.
          Ok (upd_proc np (\<lambda>p. p\<lparr>p_ofile := (p_ofile p)[i := Some f]\<rparr>) st)))"

text \<open>The first critical section: everything up to the first release of the child's lock.\<close>

definition fork_create :: "'w kops \<Rightarrow> u64 \<Rightarrow> nat \<Rightarrow> 'w kst \<Rightarrow> ((nat \<times> int) option \<times> 'w kst) kres" where
  "fork_create ops forkret me st =
     kbind (allocproc ops forkret st) (\<lambda>(r, st).
     case r of None \<Rightarrow> Ok (None, st)
     | Some np \<Rightarrow>
         let p = procs st me in
         kbind (lower_ret (k_uvmcopy ops (p_pagetable p) (p_pagetable (procs st np)) (p_sz p)) st) (\<lambda>(c, st).
         if c < 0 then kbind (freeproc ops np st) (\<lambda>st. Ok (None, st))
         else let st = upd_proc np (\<lambda>q. q\<lparr>p_sz := p_sz p, p_tf := (p_tf p)(A0 := 0)\<rparr>) st in
           kbind (kfold (dup_file ops me np) [0..<NOFILE] st) (\<lambda>st.
           kbind (lower (k_idup ops (p_cwd p)) st) (\<lambda>st.
           let st = upd_proc np (\<lambda>q. q\<lparr>p_cwd := p_cwd p, p_name := safestrcpy16 (p_name q) (p_name p)\<rparr>) st
           in Ok (Some (np, p_pid (procs st np)), st)))))"

text \<open>The second and the third.\<close>

definition fork_link :: "nat \<Rightarrow> nat \<Rightarrow> 'w kst \<Rightarrow> 'w kst" where
  "fork_link me np = upd_proc np (\<lambda>p. p\<lparr>p_parent := Some me\<rparr>)"

definition fork_ready :: "nat \<Rightarrow> 'w kst \<Rightarrow> 'w kst" where
  "fork_ready np = upd_proc np (\<lambda>p. p\<lparr>p_state := RUNNABLE\<rparr>)"

definition fork :: "'w kops \<Rightarrow> u64 \<Rightarrow> nat \<Rightarrow> 'w kst \<Rightarrow> (int \<times> 'w kst) kres" where
  "fork ops forkret me st =
     kbind (fork_create ops forkret me st) (\<lambda>(r, st).
     case r of None \<Rightarrow> Ok (- 1, st)
     | Some (np, pid) \<Rightarrow> Ok (pid, fork_ready np (fork_link me np st)))"

section \<open>Sleeping and waking\<close>

text \<open>\<open>me\<close> is \<open>myproc()\<close>, which is NULL in an interrupt taken by an idle processor.\<close>

definition wakeup_one :: "chan \<Rightarrow> nat option \<Rightarrow> nat \<Rightarrow> 'w kst \<Rightarrow> 'w kst" where
  "wakeup_one ch me i st =
     (if Some i \<noteq> me \<and> p_state (procs st i) = SLEEPING \<and> p_chan (procs st i) = Some ch
      then upd_proc i (\<lambda>p. p\<lparr>p_state := RUNNABLE\<rparr>) st else st)"

definition wakeup :: "chan \<Rightarrow> nat option \<Rightarrow> 'w kst \<Rightarrow> 'w kst" where
  "wakeup ch me = fold (wakeup_one ch me) [0..<NPROC]"

text \<open>\<open>sched\<close>: its checks; the switch itself is \<open>switch_out\<close>.\<close>

definition sched :: "bool \<Rightarrow> int \<Rightarrow> procstate \<Rightarrow> bool \<Rightarrow> unit kres" where
  "sched holds noff s intr =
     (if \<not> holds then Panic ''sched p->lock''
      else if noff \<noteq> 1 then Panic ''sched locks''
      else if s = RUNNING then Panic ''sched running''
      else if intr then Panic ''sched interruptible''
      else Ok ())"

text \<open>Back in \<open>scheduler\<close> on processor \<open>c\<close>: \<open>c->proc = 0\<close>.\<close>

definition switch_out :: "nat \<Rightarrow> 'w kst \<Rightarrow> 'w kst" where
  "switch_out c st = st\<lparr>cpu_proc := (cpu_proc st)(c := None)\<rparr>"

text \<open>The part of \<open>scheduler\<close> that chooses process \<open>i\<close> for processor \<open>c\<close>.\<close>

definition schedule :: "nat \<Rightarrow> nat \<Rightarrow> 'w kst \<Rightarrow> 'w kst" where
  "schedule c i st =
     (upd_proc i (\<lambda>p. p\<lparr>p_state := RUNNING\<rparr>) st)\<lparr>cpu_proc := (cpu_proc st)(c := Some i)\<rparr>"

text \<open>One pass of the loop: the first process at or after \<open>i\<close> that is runnable.\<close>

definition scheduler_scan :: "nat \<Rightarrow> nat \<Rightarrow> 'w kst \<Rightarrow> nat option \<times> 'w kst" where
  "scheduler_scan c i st =
     (case find (\<lambda>j. p_state (procs st j) = RUNNABLE) [i..<NPROC] of
        None \<Rightarrow> (None, st) | Some j \<Rightarrow> (Some j, schedule c j st))"

definition sleep :: "nat \<Rightarrow> nat \<Rightarrow> chan \<Rightarrow> 'w kst \<Rightarrow> 'w kst" where
  "sleep c me ch st =
     switch_out c (upd_proc me (\<lambda>p. p\<lparr>p_chan := Some ch, p_state := SLEEPING\<rparr>) st)"

text \<open>When it runs again: \<open>p->chan = 0\<close>.\<close>

definition sleep_wake :: "nat \<Rightarrow> 'w kst \<Rightarrow> 'w kst" where
  "sleep_wake me = upd_proc me (\<lambda>p. p\<lparr>p_chan := None\<rparr>)"

definition yield :: "nat \<Rightarrow> nat \<Rightarrow> 'w kst \<Rightarrow> 'w kst" where
  "yield c me st = switch_out c (upd_proc me (\<lambda>p. p\<lparr>p_state := RUNNABLE\<rparr>) st)"

definition kill :: "int \<Rightarrow> 'w kst \<Rightarrow> int \<times> 'w kst" where
  "kill pid st =
     (case find (\<lambda>i. p_pid (procs st i) = pid) [0..<NPROC] of
        None \<Rightarrow> (- 1, st)
      | Some i \<Rightarrow> (0, upd_proc i (\<lambda>p. p\<lparr>p_killed := 1,
                     p_state := (if p_state p = SLEEPING then RUNNABLE else p_state p)\<rparr>) st))"

definition setkilled :: "nat \<Rightarrow> 'w kst \<Rightarrow> 'w kst" where
  "setkilled i = upd_proc i (\<lambda>p. p\<lparr>p_killed := 1\<rparr>)"

definition killed :: "nat \<Rightarrow> 'w kst \<Rightarrow> int" where
  "killed i st = p_killed (procs st i)"

section \<open>exit and wait\<close>

definition reparent_one :: "nat \<Rightarrow> nat \<Rightarrow> 'w kst \<Rightarrow> 'w kst" where
  "reparent_one p i st =
     (if p_parent (procs st i) = Some p then
        (case initproc st of
           None \<Rightarrow> upd_proc i (\<lambda>q. q\<lparr>p_parent := None\<rparr>) st
         | Some ip \<Rightarrow> wakeup (Proc_chan ip) (Some p) (upd_proc i (\<lambda>q. q\<lparr>p_parent := Some ip\<rparr>) st))
      else st)"

definition reparent :: "nat \<Rightarrow> 'w kst \<Rightarrow> 'w kst" where
  "reparent p = fold (reparent_one p) [0..<NPROC]"

definition close_fd :: "'w kops \<Rightarrow> nat \<Rightarrow> nat \<Rightarrow> 'w kst \<Rightarrow> 'w kst kres" where
  "close_fd ops me fd st =
     (case p_ofile (procs st me) ! fd of
        None \<Rightarrow> Ok st
      | Some f \<Rightarrow> kbind (lower (k_fileclose ops f) st) (\<lambda>st.
          Ok (upd_proc me (\<lambda>p. p\<lparr>p_ofile := (p_ofile p)[fd := None]\<rparr>) st)))"

definition exit_files :: "'w kops \<Rightarrow> nat \<Rightarrow> 'w kst \<Rightarrow> 'w kst kres" where
  "exit_files ops me st =
     (if initproc st = Some me then Panic ''init exiting''
      else kbind (kfold (close_fd ops me) [0..<NOFILE] st) (\<lambda>st.
           kbind (lower (k_put_cwd ops (p_cwd (procs st me))) st) (\<lambda>st.
           Ok (upd_proc me (\<lambda>p. p\<lparr>p_cwd := None\<rparr>) st))))"

text \<open>From \<open>acquire(&wait_lock)\<close> to \<open>sched()\<close>.\<close>

definition exit_zombie :: "nat \<Rightarrow> nat \<Rightarrow> int \<Rightarrow> 'w kst \<Rightarrow> 'w kst" where
  "exit_zombie c me status st =
     (let st = reparent me st;
          st = (case p_parent (procs st me) of None \<Rightarrow> st | Some pp \<Rightarrow> wakeup (Proc_chan pp) (Some me) st);
          st = upd_proc me (\<lambda>p. p\<lparr>p_xstate := status, p_state := ZOMBIE\<rparr>) st
      in switch_out c st)"

definition exit :: "'w kops \<Rightarrow> nat \<Rightarrow> nat \<Rightarrow> int \<Rightarrow> 'w kst \<Rightarrow> 'w kst kres" where
  "exit ops c me status st = kbind (exit_files ops me st) (\<lambda>st. Ok (exit_zombie c me status st))"

datatype wait_turn = Returned int | Sleeps

text \<open>Copy \<open>v\<close> to user address \<open>va\<close> unless that is 0; \<open>True\<close> on failure.\<close>

definition copy_int :: "'w kops \<Rightarrow> nat \<Rightarrow> u64 \<Rightarrow> int \<Rightarrow> 'w kst \<Rightarrow> (bool \<times> 'w kst) kres" where
  "copy_int ops me va v st =
     (if va = 0 then Ok (False, st)
      else kbind (lower_ret (k_copyout ops (p_pagetable (procs st me)) va (bytes32 (of_int v))) st)
             (\<lambda>(r, st). Ok (r < 0, st)))"

fun wait2_scan :: "'w kops \<Rightarrow> nat \<Rightarrow> u64 \<Rightarrow> u64 \<Rightarrow> nat list \<Rightarrow> bool \<Rightarrow> 'w kst \<Rightarrow> (wait_turn \<times> 'w kst) kres" where
  "wait2_scan ops me addr res [] havekids st =
     (if \<not> havekids \<or> killed me st \<noteq> 0 then Ok (Returned (- 1), st) else Ok (Sleeps, st))"
| "wait2_scan ops me addr res (i # is) havekids st =
     (if p_parent (procs st i) \<noteq> Some me then wait2_scan ops me addr res is havekids st
      else if p_state (procs st i) = ZOMBIE then
        let pid = p_pid (procs st i) in
        kbind (copy_int ops me addr (p_xstate (procs st i)) st) (\<lambda>(bad, st).
        if bad then Ok (Returned (- 1), st) else
        kbind (copy_int ops me res (p_counter (procs st i)) st) (\<lambda>(bad, st).
        if bad then Ok (Returned (- 1), st) else
        kbind (freeproc ops i st) (\<lambda>st. Ok (Returned pid, st))))
      else wait2_scan ops me addr res is True st)"

text \<open>One turn of the loop of \<open>wait2\<close>; \<open>Sleeps\<close>: it sleeps on its own process structure and
  starts again.\<close>

definition wait2_turn :: "'w kops \<Rightarrow> nat \<Rightarrow> u64 \<Rightarrow> u64 \<Rightarrow> 'w kst \<Rightarrow> (wait_turn \<times> 'w kst) kres" where
  "wait2_turn ops me addr res = wait2_scan ops me addr res [0..<NPROC] False"

definition wait1_turn :: "'w kops \<Rightarrow> nat \<Rightarrow> u64 \<Rightarrow> 'w kst \<Rightarrow> (wait_turn \<times> 'w kst) kres" where
  "wait1_turn ops me addr = wait2_turn ops me addr 0"

text \<open>\<open>forkret\<close>: the first process of all initialises the file system. (It then returns to user
  space.)\<close>

definition forkret :: "('w \<Rightarrow> 'w kres) \<Rightarrow> bool \<Rightarrow> 'w kst \<Rightarrow> (bool \<times> 'w kst) kres" where
  "forkret fsinit first st =
     (if first then kbind (lower fsinit st) (\<lambda>st. Ok (False, st)) else Ok (False, st))"


section \<open>What the operations do to the table\<close>

definition states :: "'w kst \<Rightarrow> nat \<Rightarrow> procstate" where "states st i = p_state (procs st i)"
definition pids :: "'w kst \<Rightarrow> nat \<Rightarrow> int" where "pids st i = p_pid (procs st i)"
definition parents :: "'w kst \<Rightarrow> nat \<Rightarrow> nat option" where "parents st i = p_parent (procs st i)"

lemma upd_proc_simps [simp]:
  "procs (upd_proc i f st) = (procs st)(i := f (procs st i))"
  "nextpid (upd_proc i f st) = nextpid st" "initproc (upd_proc i f st) = initproc st"
  "cpu_proc (upd_proc i f st) = cpu_proc st" "world (upd_proc i f st) = world st"
  by (simp_all add: upd_proc_def)

lemma table_upd [simp]:
  "states (upd_proc i f st) = (states st)(i := p_state (f (procs st i)))"
  "pids (upd_proc i f st) = (pids st)(i := p_pid (f (procs st i)))"
  "parents (upd_proc i f st) = (parents st)(i := p_parent (f (procs st i)))"
  by (auto simp: states_def pids_def parents_def fun_eq_iff)

lemma table_world [simp]:
  "states (st\<lparr>world := w\<rparr>) = states st" "pids (st\<lparr>world := w\<rparr>) = pids st"
  "parents (st\<lparr>world := w\<rparr>) = parents st"
  "states (st\<lparr>cpu_proc := c\<rparr>) = states st" "pids (st\<lparr>cpu_proc := c\<rparr>) = pids st"
  "parents (st\<lparr>cpu_proc := c\<rparr>) = parents st"
  "states (st\<lparr>nextpid := n\<rparr>) = states st" "pids (st\<lparr>nextpid := n\<rparr>) = pids st"
  "parents (st\<lparr>nextpid := n\<rparr>) = parents st"
  "states (st\<lparr>initproc := ip\<rparr>) = states st" "pids (st\<lparr>initproc := ip\<rparr>) = pids st"
  "parents (st\<lparr>initproc := ip\<rparr>) = parents st"
  by (simp_all add: states_def pids_def parents_def fun_eq_iff)

lemma upd_proc_world [simp]: "upd_proc i f (st\<lparr>world := w\<rparr>) = (upd_proc i f st)\<lparr>world := w\<rparr>"
  by (simp add: upd_proc_def)

lemma table_same [simp]:
  "p_state p = p_state (procs st i) \<Longrightarrow> (states st)(i := p_state p) = states st"
  by (auto simp: states_def)

lemma table_idem [simp]:
  "(states st)(i := p_state (procs st i)) = states st" "(pids st)(i := p_pid (procs st i)) = pids st"
  "(parents st)(i := p_parent (procs st i)) = parents st"
  by (auto simp: states_def pids_def parents_def)

lemma lower_Ok: "lower f st = Ok st' \<longleftrightarrow> (\<exists>w. f (world st) = Ok w \<and> st' = st\<lparr>world := w\<rparr>)"
  by (auto simp: lower_def kbind_eq_Ok)

lemma lower_ret_Ok:
  "lower_ret f st = Ok (x, st') \<longleftrightarrow> (\<exists>w. f (world st) = Ok (x, w) \<and> st' = st\<lparr>world := w\<rparr>)"
  by (auto simp: lower_ret_def kbind_eq_Ok)

text \<open>\<open>freeproc\<close> clears the slot; the layers below give back what it held.\<close>

definition cleared :: "proc \<Rightarrow> proc" where
  "cleared p = p\<lparr>p_trapframe := 0, p_pagetable := 0, p_sz := 0, p_pid := 0,
     p_parent := None, p_name := (p_name p)[0 := 0], p_chan := None, p_killed := 0,
     p_xstate := 0, p_state := UNUSED\<rparr>"

lemma cleared_simps [simp]:
  "p_state (cleared p) = UNUSED" "p_pid (cleared p) = 0" "p_parent (cleared p) = None"
  "p_killed (cleared p) = 0" "p_counter (cleared p) = p_counter p" "p_strace (cleared p) = p_strace p"
  "p_kstack (cleared p) = p_kstack p" "p_ofile (cleared p) = p_ofile p"
  by (simp_all add: cleared_def)

lemma freeproc_Ok:
  assumes "freeproc ops i st = Ok st'"
  shows "\<exists>w. st' = (upd_proc i cleared st)\<lparr>world := w\<rparr>"
proof -
  have c: "(\<lambda>p. p\<lparr>p_trapframe := 0, p_pagetable := 0, p_sz := 0, p_pid := 0,
            p_parent := None, p_name := (p_name p)[0 := 0], p_chan := None, p_killed := 0,
            p_xstate := 0, p_state := UNUSED\<rparr>) = cleared"
    by (simp add: cleared_def fun_eq_iff)
  obtain st1 st2 where 1: "(if p_trapframe (procs st i) \<noteq> 0
      then lower (k_kfree ops (p_trapframe (procs st i))) st else Ok st) = Ok st1"
    and 2: "(if p_pagetable (procs st i) \<noteq> 0
      then lower (k_proc_freepagetable ops (p_pagetable (procs st i)) (p_sz (procs st i))) st1
      else Ok st1) = Ok st2"
    and 3: "st' = upd_proc i cleared st2"
    using assms unfolding freeproc_def Let_def c kbind_eq_Ok by blast
  from 1 obtain w1 where "st1 = st\<lparr>world := w1\<rparr>" by (cases st) (auto simp: lower_Ok split: if_splits)
  moreover from 2 obtain w2 where "st2 = st1\<lparr>world := w2\<rparr>"
    by (cases st1) (auto simp: lower_Ok split: if_splits)
  ultimately show ?thesis using 3 by auto
qed

lemma find_slot:
  assumes "find P [0..<n] = Some i"
  shows "i < n" "P i"
  using assms by (auto simp: find_Some_iff)

text \<open>\<open>allocproc\<close>: a slot that was unused, with the next pid; or, when memory runs out, nothing
  but a pid used up.\<close>

lemma allocproc_None:
  assumes "allocproc ops fr st = Ok (None, st')"
  shows "(\<exists>i. i < NPROC \<and> states st i = UNUSED
            \<and> procs st' = (procs st)(i := cleared (procs st' i)) \<and> nextpid st' = nextpid st + 1)
       \<or> st' = st"
    and "initproc st' = initproc st" and "cpu_proc st' = cpu_proc st"
proof -
  have "((\<exists>i. i < NPROC \<and> states st i = UNUSED
            \<and> procs st' = (procs st)(i := cleared (procs st' i)) \<and> nextpid st' = nextpid st + 1)
       \<or> st' = st) \<and> initproc st' = initproc st \<and> cpu_proc st' = cpu_proc st"
  proof (cases "find (\<lambda>i. p_state (procs st i) = UNUSED) [0..<NPROC]")
    case None
    with assms show ?thesis by (simp add: allocproc_def)
  next
    case (Some i)
    note fi = find_slot [OF Some]
    obtain tf w where tf: "k_kalloc ops (world st) = (tf, w)" by fastforce
    have cc: "cleared (cleared p) = cleared p" for p by (simp add: cleared_def)
    show ?thesis
      using assms Some fi tf
      by (auto simp: allocproc_def allocpid_def Let_def kbind_eq_Ok lower_ret_Ok states_def cc
               split: if_splits dest!: freeproc_Ok)
  qed
  then show "(\<exists>i. i < NPROC \<and> states st i = UNUSED
            \<and> procs st' = (procs st)(i := cleared (procs st' i)) \<and> nextpid st' = nextpid st + 1)
       \<or> st' = st"
    and "initproc st' = initproc st" and "cpu_proc st' = cpu_proc st" by blast+
qed

lemma allocproc_Some:
  assumes "allocproc ops fr st = Ok (Some i, st')"
  shows "i < NPROC" "states st i = UNUSED"
    and "\<exists>tf pt w. tf \<noteq> 0 \<and> pt \<noteq> 0 \<and> st' = st\<lparr>nextpid := nextpid st + 1, world := w,
       procs := (procs st)(i := (procs st i)\<lparr>p_pid := nextpid st, p_state := USED, p_trapframe := tf,
         p_pagetable := pt, p_context := (fr, p_kstack (procs st i) + PGSIZE)\<rparr>)\<rparr>"
proof -
  obtain j where j: "find (\<lambda>i. p_state (procs st i) = UNUSED) [0..<NPROC] = Some j"
    using assms by (cases "find (\<lambda>i. p_state (procs st i) = UNUSED) [0..<NPROC]")
      (auto simp: allocproc_def)
  obtain tf w where tf: "k_kalloc ops (world st) = (tf, w)" by fastforce
  have r: "j = i \<and> tf \<noteq> 0 \<and> (\<exists>pt w'. k_proc_pagetable ops tf w = Ok (pt, w') \<and> pt \<noteq> 0
      \<and> st' = st\<lparr>nextpid := nextpid st + 1, world := w',
       procs := (procs st)(i := (procs st i)\<lparr>p_pid := nextpid st, p_state := USED, p_trapframe := tf,
         p_pagetable := pt, p_context := (fr, p_kstack (procs st i) + PGSIZE)\<rparr>)\<rparr>)"
    using assms j tf
    by (auto simp: allocproc_def allocpid_def Let_def kbind_eq_Ok lower_ret_Ok upd_proc_def
             split: if_splits)
  then have ij: "j = i" by blast
  show "i < NPROC" "states st i = UNUSED" using find_slot [OF j] ij by (simp_all add: states_def)
  from r show "\<exists>tf pt w. tf \<noteq> 0 \<and> pt \<noteq> 0 \<and> st' = st\<lparr>nextpid := nextpid st + 1, world := w,
       procs := (procs st)(i := (procs st i)\<lparr>p_pid := nextpid st, p_state := USED, p_trapframe := tf,
         p_pagetable := pt, p_context := (fr, p_kstack (procs st i) + PGSIZE)\<rparr>)\<rparr>"
    by blast
qed


text \<open>\<open>fork\<close>'s loop over the descriptors: the child gets those the parent has open.\<close>

definition inherit :: "nat \<Rightarrow> nat option list \<Rightarrow> nat option list \<Rightarrow> nat option list" where
  "inherit n a b = map (\<lambda>i. if i < n \<and> a ! i \<noteq> None then a ! i else b ! i) [0..<length b]"

lemma inherit_0 [simp]: "inherit 0 a b = b"
  by (simp add: inherit_def map_nth)

lemma inherit_Suc:
  assumes "n < length b"
  shows "inherit (Suc n) a b = (if a ! n = None then inherit n a b else (inherit n a b)[n := a ! n])"
  using assms by (intro nth_equalityI) (auto simp: inherit_def nth_list_update less_Suc_eq)

lemma dup_files_Ok:
  assumes "kfold (dup_file ops me np) [0..<n] st = Ok st'" and "me \<noteq> np"
    and "n \<le> length (p_ofile (procs st np))"
  shows "\<exists>w. st' = st\<lparr>world := w, procs := (procs st)(np := (procs st np)\<lparr>p_ofile :=
            inherit n (p_ofile (procs st me)) (p_ofile (procs st np))\<rparr>)\<rparr>"
  using assms(1,3)
proof (induction n arbitrary: st')
  case 0
  then show ?case by (cases st) auto
next
  case (Suc n)
  then obtain st1 where 1: "kfold (dup_file ops me np) [0..<n] st = Ok st1" "dup_file ops me np n st1 = Ok st'"
    by (auto simp: kfold_append kbind_eq_Ok)
  obtain w where w: "st1 = st\<lparr>world := w, procs := (procs st)(np := (procs st np)\<lparr>p_ofile :=
            inherit n (p_ofile (procs st me)) (p_ofile (procs st np))\<rparr>)\<rparr>"
    using Suc.IH [OF 1(1) Suc_leD [OF Suc.prems(2)]] by blast
  have len: "n < length (p_ofile (procs st np))" using Suc.prems(2) by simp
  show ?case
  proof (cases "p_ofile (procs st me) ! n")
    case None
    then have "st' = st1" using 1(2) assms(2) by (simp add: dup_file_def w)
    with None show ?thesis
      by (intro exI [of _ w]) (simp add: w inherit_Suc [OF len] del: fun_upd_apply)
  next
    case (Some f)
    then obtain w' where "st' = upd_proc np (\<lambda>p. p\<lparr>p_ofile := (p_ofile p)[n := Some f]\<rparr>) (st1\<lparr>world := w'\<rparr>)"
      using 1(2) assms(2) by (auto simp: dup_file_def lower_Ok kbind_eq_Ok w)
    then show ?thesis
      using Some unfolding w
      by (intro exI [of _ w']) (auto simp: upd_proc_def inherit_Suc [OF len] fun_upd_same simp del: fun_upd_apply)
  qed
qed

lemma fork_create_Some:
  assumes "fork_create ops fr me st = Ok (Some (np, pid), st')" and "states st me \<noteq> UNUSED"
    and "length (p_ofile (procs st np)) = NOFILE"
  shows "np < NPROC" "states st np = UNUSED" "pid = nextpid st" "nextpid st' = nextpid st + 1"
    "initproc st' = initproc st" "cpu_proc st' = cpu_proc st"
    and "\<exists>tf pt. tf \<noteq> 0 \<and> pt \<noteq> 0 \<and> procs st' = (procs st)(np := (procs st np)\<lparr>p_state := USED,
           p_pid := nextpid st, p_sz := p_sz (procs st me), p_trapframe := tf, p_pagetable := pt,
           p_tf := (p_tf (procs st me))(A0 := 0), p_context := (fr, p_kstack (procs st np) + PGSIZE),
           p_ofile := inherit NOFILE (p_ofile (procs st me)) (p_ofile (procs st np)),
           p_cwd := p_cwd (procs st me),
           p_name := safestrcpy16 (p_name (procs st np)) (p_name (procs st me))\<rparr>)"
proof -
  obtain st1 where 1: "allocproc ops fr st = Ok (Some np, st1)"
    using assms(1) by (auto simp: fork_create_def Let_def kbind_eq_Ok split: option.splits if_splits)
  note a = allocproc_Some [OF 1]
  obtain tf pt w where st1: "tf \<noteq> 0" "pt \<noteq> 0" "st1 = st\<lparr>nextpid := nextpid st + 1, world := w,
       procs := (procs st)(np := (procs st np)\<lparr>p_pid := nextpid st, p_state := USED, p_trapframe := tf,
         p_pagetable := pt, p_context := (fr, p_kstack (procs st np) + PGSIZE)\<rparr>)\<rparr>"
    using a(3) by blast
  have ne: "me \<noteq> np" using a(2) assms(2) by auto
  define st2 where "st2 = (\<lambda>w. upd_proc np (\<lambda>q. q\<lparr>p_sz := p_sz (procs st me),
      p_tf := (p_tf (procs st me))(A0 := 0)\<rparr>) (st1\<lparr>world := w\<rparr>))"
  obtain w2 st3 w4 where 2: "kfold (dup_file ops me np) [0..<NOFILE] (st2 w2) = Ok st3"
    and 4: "st' = upd_proc np (\<lambda>q. q\<lparr>p_cwd := p_cwd (procs st me),
               p_name := safestrcpy16 (p_name q) (p_name (procs st me))\<rparr>) (st3\<lparr>world := w4\<rparr>)"
    and p: "pid = p_pid (procs st' np)"
    using assms(1) 1 ne st1(3)
    by (auto simp: fork_create_def Let_def kbind_eq_Ok lower_ret_Ok lower_Ok st2_def
             split: option.splits if_splits)
  have len: "NOFILE \<le> length (p_ofile (procs (st2 w2) np))"
    using assms(3) by (simp add: st2_def st1(3))
  obtain w3 where 3: "st3 = (st2 w2)\<lparr>world := w3, procs := (procs (st2 w2))(np := (procs (st2 w2) np)\<lparr>p_ofile :=
            inherit NOFILE (p_ofile (procs (st2 w2) me)) (p_ofile (procs (st2 w2) np))\<rparr>)\<rparr>"
    using dup_files_Ok [OF 2 ne len] by blast
  show "np < NPROC" "states st np = UNUSED" by (rule a)+
  show "pid = nextpid st" "nextpid st' = nextpid st + 1" "initproc st' = initproc st" "cpu_proc st' = cpu_proc st"
    unfolding p 4 3 st2_def st1(3) by simp_all
  have "procs st' = (procs st)(np := (procs st np)\<lparr>p_state := USED,
           p_pid := nextpid st, p_sz := p_sz (procs st me), p_trapframe := tf, p_pagetable := pt,
           p_tf := (p_tf (procs st me))(A0 := 0), p_context := (fr, p_kstack (procs st np) + PGSIZE),
           p_ofile := inherit NOFILE (p_ofile (procs st me)) (p_ofile (procs st np)),
           p_cwd := p_cwd (procs st me),
           p_name := safestrcpy16 (p_name (procs st np)) (p_name (procs st me))\<rparr>)"
    unfolding 4 3 st2_def st1(3) using ne by (auto simp: fun_eq_iff)
  with st1(1,2) show "\<exists>tf pt. tf \<noteq> 0 \<and> pt \<noteq> 0 \<and> procs st' = (procs st)(np := (procs st np)\<lparr>p_state := USED,
           p_pid := nextpid st, p_sz := p_sz (procs st me), p_trapframe := tf, p_pagetable := pt,
           p_tf := (p_tf (procs st me))(A0 := 0), p_context := (fr, p_kstack (procs st np) + PGSIZE),
           p_ofile := inherit NOFILE (p_ofile (procs st me)) (p_ofile (procs st np)),
           p_cwd := p_cwd (procs st me),
           p_name := safestrcpy16 (p_name (procs st np)) (p_name (procs st me))\<rparr>)" by blast
qed

lemma fork_create_None:
  assumes "fork_create ops fr me st = Ok (None, st')"
  shows "(\<exists>i. i < NPROC \<and> states st i = UNUSED \<and> procs st' = (procs st)(i := cleared (procs st' i))
              \<and> nextpid st' = nextpid st + 1) \<or> st' = st"
    and "initproc st' = initproc st" and "cpu_proc st' = cpu_proc st"
proof -
  obtain r st1 where 1: "allocproc ops fr st = Ok (r, st1)"
    using assms by (auto simp: fork_create_def kbind_eq_Ok)
  have "((\<exists>i. i < NPROC \<and> states st i = UNUSED \<and> procs st' = (procs st)(i := cleared (procs st' i))
              \<and> nextpid st' = nextpid st + 1) \<or> st' = st) \<and> initproc st' = initproc st \<and> cpu_proc st' = cpu_proc st"
  proof (cases r)
    case None
    then have "st' = st1" using assms 1 by (simp add: fork_create_def)
    then show ?thesis using allocproc_None [of ops fr st st'] 1 None by simp
  next
    case (Some np)
    have "allocproc ops fr st = Ok (Some np, st1)" using 1 Some by simp
    note a = allocproc_Some [OF this]
    obtain c w2 where "freeproc ops np (st1\<lparr>world := w2\<rparr>) = Ok st'"
      using assms 1 Some by (auto simp: fork_create_def Let_def kbind_eq_Ok lower_ret_Ok split: if_splits)
    then obtain w where w: "st' = (upd_proc np cleared (st1\<lparr>world := w2\<rparr>))\<lparr>world := w\<rparr>"
      using freeproc_Ok by blast
    have cc: "cleared (cleared p) = cleared p" for p by (simp add: cleared_def)
    show ?thesis
      using a unfolding w by (auto simp: cc)
  qed
  then show "(\<exists>i. i < NPROC \<and> states st i = UNUSED \<and> procs st' = (procs st)(i := cleared (procs st' i))
              \<and> nextpid st' = nextpid st + 1) \<or> st' = st"
    and "initproc st' = initproc st" and "cpu_proc st' = cpu_proc st" by blast+
qed

text \<open>Waking.\<close>

lemma wakeup_procs:
  "procs (wakeup ch me st) =
     (\<lambda>i. if i < NPROC \<and> Some i \<noteq> me \<and> p_state (procs st i) = SLEEPING \<and> p_chan (procs st i) = Some ch
          then (procs st i)\<lparr>p_state := RUNNABLE\<rparr> else procs st i)"
  and wakeup_rest: "nextpid (wakeup ch me st) = nextpid st" "initproc (wakeup ch me st) = initproc st"
    "cpu_proc (wakeup ch me st) = cpu_proc st" "world (wakeup ch me st) = world st"
proof -
  have "procs (fold (wakeup_one ch me) [0..<n] st) =
     (\<lambda>i. if i < n \<and> Some i \<noteq> me \<and> p_state (procs st i) = SLEEPING \<and> p_chan (procs st i) = Some ch
          then (procs st i)\<lparr>p_state := RUNNABLE\<rparr> else procs st i)
     \<and> nextpid (fold (wakeup_one ch me) [0..<n] st) = nextpid st
     \<and> initproc (fold (wakeup_one ch me) [0..<n] st) = initproc st
     \<and> cpu_proc (fold (wakeup_one ch me) [0..<n] st) = cpu_proc st
     \<and> world (fold (wakeup_one ch me) [0..<n] st) = world st" for n
    by (induction n) (auto simp: wakeup_one_def fun_eq_iff less_Suc_eq)
  from this [of NPROC] show "procs (wakeup ch me st) =
     (\<lambda>i. if i < NPROC \<and> Some i \<noteq> me \<and> p_state (procs st i) = SLEEPING \<and> p_chan (procs st i) = Some ch
          then (procs st i)\<lparr>p_state := RUNNABLE\<rparr> else procs st i)"
    "nextpid (wakeup ch me st) = nextpid st" "initproc (wakeup ch me st) = initproc st"
    "cpu_proc (wakeup ch me st) = cpu_proc st" "world (wakeup ch me st) = world st"
    by (simp_all add: wakeup_def)
qed

text \<open>The only change to states: some sleepers may become runnable.\<close>

definition woken :: "(nat \<Rightarrow> procstate) \<Rightarrow> (nat \<Rightarrow> procstate) \<Rightarrow> bool" where
  "woken s s' \<longleftrightarrow> (\<forall>i. s' i = s i \<or> s i = SLEEPING \<and> s' i = RUNNABLE)"

lemma woken_refl [simp]: "woken s s"
  by (simp add: woken_def)

lemma woken_trans: "woken s s' \<Longrightarrow> woken s' s'' \<Longrightarrow> woken s s''"
  unfolding woken_def by (metis procstate.distinct(21))

lemma wakeup_table:
  "woken (states st) (states (wakeup ch me st))" "pids (wakeup ch me st) = pids st"
  "parents (wakeup ch me st) = parents st" "states (wakeup ch (Some p) st) p = states st p"
  by (auto simp: woken_def states_def pids_def parents_def wakeup_procs fun_eq_iff)

text \<open>Every child of \<open>p\<close> is given to \<open>initproc\<close>.\<close>

lemma reparent_table:
  "woken (states st) (states (reparent p st)) \<and> pids (reparent p st) = pids st
   \<and> parents (reparent p st) = (\<lambda>i. if i < NPROC \<and> parents st i = Some p then initproc st else parents st i)
   \<and> states (reparent p st) p = states st p
   \<and> nextpid (reparent p st) = nextpid st \<and> initproc (reparent p st) = initproc st
   \<and> cpu_proc (reparent p st) = cpu_proc st \<and> world (reparent p st) = world st"
proof -
  have "woken (states st) (states (fold (reparent_one p) [0..<n] st))
   \<and> pids (fold (reparent_one p) [0..<n] st) = pids st
   \<and> parents (fold (reparent_one p) [0..<n] st)
       = (\<lambda>i. if i < n \<and> parents st i = Some p then initproc st else parents st i)
   \<and> states (fold (reparent_one p) [0..<n] st) p = states st p
   \<and> nextpid (fold (reparent_one p) [0..<n] st) = nextpid st
   \<and> initproc (fold (reparent_one p) [0..<n] st) = initproc st
   \<and> cpu_proc (fold (reparent_one p) [0..<n] st) = cpu_proc st
   \<and> world (fold (reparent_one p) [0..<n] st) = world st" for n
  proof (induction n)
    case 0
    then show ?case by simp
  next
    case (Suc n)
    let ?s = "fold (reparent_one p) [0..<n] st"
    have st: "states (reparent_one p n ?s) p = states ?s p" "woken (states ?s) (states (reparent_one p n ?s))"
      "pids (reparent_one p n ?s) = pids ?s" "nextpid (reparent_one p n ?s) = nextpid ?s"
      "initproc (reparent_one p n ?s) = initproc ?s" "cpu_proc (reparent_one p n ?s) = cpu_proc ?s"
      "world (reparent_one p n ?s) = world ?s"
      "parents (reparent_one p n ?s) = (if parents ?s n = Some p then (parents ?s)(n := initproc ?s) else parents ?s)"
      by (auto simp: reparent_one_def wakeup_rest wakeup_table states_def pids_def parents_def fun_eq_iff
                     wakeup_procs woken_def split: option.split)
    show ?case
      using Suc st by (auto simp: fun_eq_iff less_Suc_eq intro: woken_trans)
  qed
  from this [of NPROC] show ?thesis by (simp add: reparent_def)
qed


section \<open>All processors together\<close>

text \<open>
  Where a process is inside the kernel, as far as the table is concerned: between the critical
  sections of \<open>fork\<close> (with the child), or inside \<open>exit\<close> after its files are closed.
\<close>

datatype kpc = Idle | Forked nat | Linked nat | Exiting int

text \<open>
  One step of the machine. A process acts while some processor \<open>c\<close> runs it. \<open>own\<close> stands for
  what the rest of the kernel does to the current process (system calls on its files, \<open>exec\<close>,
  the system call counter): everything except the fields of the first group of \<open>struct proc\<close> and
  \<open>parent\<close>. \<open>ext\<close> is anything in the layers below, devices included.
\<close>

definition private_update :: "proc \<Rightarrow> proc \<Rightarrow> bool" where
  "private_update p q \<longleftrightarrow> p_state q = p_state p \<and> p_pid q = p_pid p \<and> p_parent q = p_parent p"

inductive pstep :: "'w kops \<Rightarrow> u64 \<Rightarrow> 'w kst \<times> (nat \<Rightarrow> kpc) \<Rightarrow> 'w kst \<times> (nat \<Rightarrow> kpc) \<Rightarrow> bool"
  for ops fr where
  schedule: "cpu_proc s c = None \<Longrightarrow> scheduler_scan c i s = (Some j, s') \<Longrightarrow> pstep ops fr (s, k) (s', k)"
| fork_fails: "cpu_proc s c = Some p \<Longrightarrow> k p = Idle \<Longrightarrow> fork_create ops fr p s = Ok (None, s') \<Longrightarrow>
    pstep ops fr (s, k) (s', k)"
| fork_create: "cpu_proc s c = Some p \<Longrightarrow> k p = Idle \<Longrightarrow> fork_create ops fr p s = Ok (Some (np, pid), s') \<Longrightarrow>
    length (p_ofile (procs s np)) = NOFILE \<Longrightarrow> pstep ops fr (s, k) (s', k(p := Forked np))"
| fork_link: "cpu_proc s c = Some p \<Longrightarrow> k p = Forked np \<Longrightarrow>
    pstep ops fr (s, k) (fork_link p np s, k(p := Linked np))"
| fork_ready: "cpu_proc s c = Some p \<Longrightarrow> k p = Linked np \<Longrightarrow>
    pstep ops fr (s, k) (fork_ready np s, k(p := Idle))"
| sleep: "cpu_proc s c = Some p \<Longrightarrow> pstep ops fr (s, k) (sleep c p ch s, k)"
| sleep_wake: "cpu_proc s c = Some p \<Longrightarrow> pstep ops fr (s, k) (sleep_wake p s, k)"
| yield: "cpu_proc s c = Some p \<Longrightarrow> pstep ops fr (s, k) (yield c p s, k)"
| wakeup: "pstep ops fr (s, k) (wakeup ch (cpu_proc s c) s, k)"
| kill: "cpu_proc s c = Some p \<Longrightarrow> pstep ops fr (s, k) (snd (kill pid s), k)"
| setkilled: "cpu_proc s c = Some p \<Longrightarrow> pstep ops fr (s, k) (setkilled p s, k)"
| exit_files: "cpu_proc s c = Some p \<Longrightarrow> k p = Idle \<Longrightarrow> exit_files ops p s = Ok s' \<Longrightarrow>
    pstep ops fr (s, k) (s', k(p := Exiting status))"
| exit_zombie: "cpu_proc s c = Some p \<Longrightarrow> k p = Exiting status \<Longrightarrow>
    pstep ops fr (s, k) (exit_zombie c p status s, k(p := Idle))"
| wait2: "cpu_proc s c = Some p \<Longrightarrow> k p = Idle \<Longrightarrow> wait2_turn ops p addr res s = Ok (t, s') \<Longrightarrow>
    pstep ops fr (s, k) (s', k)"
| growproc: "cpu_proc s c = Some p \<Longrightarrow> growproc ops p n s = Ok (r, s') \<Longrightarrow> pstep ops fr (s, k) (s', k)"
| own: "cpu_proc s c = Some p \<Longrightarrow> private_update (procs s p) q \<Longrightarrow>
    pstep ops fr (s, k) (upd_proc p (\<lambda>_. q) s, k)"
| ext: "pstep ops fr (s, k) (s\<lparr>world := w\<rparr>, k)"

text \<open>After boot: a zeroed table, \<open>procinit\<close> and \<open>userinit\<close>.\<close>

definition zero_table :: "'w kst \<Rightarrow> bool" where
  "zero_table st \<longleftrightarrow> (\<forall>i. states st i = UNUSED \<and> pids st i = 0 \<and> parents st i = None)
     \<and> nextpid st = 1 \<and> (\<forall>c. cpu_proc st c = None)"

inductive preach :: "'w kops \<Rightarrow> u64 \<Rightarrow> 'w kst \<times> (nat \<Rightarrow> kpc) \<Rightarrow> bool" for ops fr where
  boot: "zero_table st \<Longrightarrow> userinit ops fr (procinit st) = Ok st' \<Longrightarrow> preach ops fr (st', \<lambda>_. Idle)"
| step: "preach ops fr s \<Longrightarrow> pstep ops fr s t \<Longrightarrow> preach ops fr t"

section \<open>Invariants\<close>

definition pid_inv :: "(nat \<Rightarrow> procstate) \<Rightarrow> (nat \<Rightarrow> int) \<Rightarrow> int \<Rightarrow> bool" where
  "pid_inv s q n \<longleftrightarrow> 1 \<le> n \<and> (\<forall>i. s i = UNUSED \<longrightarrow> q i = 0) \<and> (\<forall>i. s i \<noteq> UNUSED \<longrightarrow> 1 \<le> q i \<and> q i < n)
     \<and> (\<forall>i j. s i \<noteq> UNUSED \<longrightarrow> s j \<noteq> UNUSED \<longrightarrow> q i = q j \<longrightarrow> i = j)"

definition cpu_inv :: "(nat \<Rightarrow> procstate) \<Rightarrow> (nat \<Rightarrow> nat option) \<Rightarrow> bool" where
  "cpu_inv s cp \<longleftrightarrow> (\<forall>c p. cp c = Some p \<longrightarrow> s p = RUNNING) \<and> (\<forall>c c' p. cp c = Some p \<longrightarrow> cp c' = Some p \<longrightarrow> c = c')
     \<and> (\<forall>p. s p = RUNNING \<longrightarrow> (\<exists>c. cp c = Some p))"

definition live :: "procstate \<Rightarrow> bool" where
  "live s \<longleftrightarrow> s \<in> {SLEEPING, RUNNABLE, RUNNING}"

definition pending :: "kpc \<Rightarrow> nat option" where
  "pending k = (case k of Forked np \<Rightarrow> Some np | Linked np \<Rightarrow> Some np | _ \<Rightarrow> None)"

definition tree_inv :: "(nat \<Rightarrow> procstate) \<Rightarrow> (nat \<Rightarrow> nat option) \<Rightarrow> nat option \<Rightarrow> (nat \<Rightarrow> kpc) \<Rightarrow> bool" where
  "tree_inv s par ip k \<longleftrightarrow>
     (\<exists>i. ip = Some i \<and> live (s i) \<and> (\<forall>st. k i \<noteq> Exiting st))
   \<and> (\<forall>i. NPROC \<le> i \<longrightarrow> s i = UNUSED)
   \<and> (\<forall>i. s i = UNUSED \<longrightarrow> par i = None)
   \<and> (\<forall>i p. par i = Some p \<longrightarrow> live (s p))
   \<and> (\<forall>p. k p \<noteq> Idle \<longrightarrow> live (s p))
   \<and> (\<forall>p np. pending (k p) = Some np \<longrightarrow> s np = USED)
   \<and> (\<forall>p q np. pending (k p) = Some np \<longrightarrow> pending (k q) = Some np \<longrightarrow> p = q)
   \<and> (\<forall>p np. k p = Forked np \<longrightarrow> par np = None)
   \<and> (\<forall>i. s i \<noteq> UNUSED \<longrightarrow> ip \<noteq> Some i \<longrightarrow> par i = None \<longrightarrow> (\<exists>p. k p = Forked i))"

definition table_inv :: "'w kst \<times> (nat \<Rightarrow> kpc) \<Rightarrow> bool" where
  "table_inv x \<longleftrightarrow> (case x of (st, k) \<Rightarrow> pid_inv (states st) (pids st) (nextpid st)
     \<and> cpu_inv (states st) (cpu_proc st) \<and> tree_inv (states st) (parents st) (initproc st) k)"

lemma live_simps [simp]:
  "live SLEEPING" "live RUNNABLE" "live RUNNING" "\<not> live UNUSED" "\<not> live USED" "\<not> live ZOMBIE"
  by (simp_all add: live_def)

lemma pending_simps [simp]:
  "pending Idle = None" "pending (Forked n) = Some n" "pending (Linked n) = Some n" "pending (Exiting x) = None"
  by (simp_all add: pending_def)

subsection \<open>Changes of state that keep them\<close>

lemma pid_inv_states:
  "pid_inv s q n \<Longrightarrow> (\<And>i. s' i = UNUSED \<longleftrightarrow> s i = UNUSED) \<Longrightarrow> pid_inv s' q n"
  by (simp add: pid_inv_def)

lemma woken_unused: "woken s s' \<Longrightarrow> s' i = UNUSED \<longleftrightarrow> s i = UNUSED"
  unfolding woken_def by (metis procstate.distinct(3,5))

lemma woken_live: "woken s s' \<Longrightarrow> live (s' i) = live (s i)"
  unfolding woken_def by (metis live_simps(1,2))

lemma woken_other: "woken s s' \<Longrightarrow> x \<noteq> SLEEPING \<Longrightarrow> x \<noteq> RUNNABLE \<Longrightarrow> s' i = x \<longleftrightarrow> s i = x"
  unfolding woken_def by metis

lemma pid_inv_woken: "pid_inv s q n \<Longrightarrow> woken s s' \<Longrightarrow> pid_inv s' q n"
  by (rule pid_inv_states) (auto simp: woken_unused)

lemma cpu_inv_woken: "cpu_inv s cp \<Longrightarrow> woken s s' \<Longrightarrow> cpu_inv s' cp"
  using woken_other [of s s' RUNNING] by (simp add: cpu_inv_def)

lemma tree_inv_woken: "tree_inv s par ip k \<Longrightarrow> woken s s' \<Longrightarrow> tree_inv s' par ip k"
  using woken_other [of s s' USED] woken_unused [of s s'] woken_live [of s s']
  by (simp add: tree_inv_def)

lemma pid_inv_set: "pid_inv s q n \<Longrightarrow> s p \<noteq> UNUSED \<Longrightarrow> x \<noteq> UNUSED \<Longrightarrow> pid_inv (s(p := x)) q n"
  by (erule pid_inv_states) auto

lemma cpu_inv_out:
  assumes "cpu_inv s cp" and "cp c = Some p" and "x \<noteq> RUNNING"
  shows "cpu_inv (s(p := x)) (cp(c := None))"
proof -
  have 1: "cp c' = Some p \<Longrightarrow> c' = c" "s p = RUNNING" for c' using assms by (auto simp: cpu_inv_def)
  have 2: "cp c' = Some r \<Longrightarrow> s r = RUNNING" for c' r using assms(1) by (auto simp: cpu_inv_def)
  have 3: "\<exists>c'. c' \<noteq> c \<and> cp c' = Some r" if "s r = RUNNING" "r \<noteq> p" for r
    using that assms(1,2) unfolding cpu_inv_def by (metis option.inject)
  have "\<exists>c'. (cp(c := None)) c' = Some r" if "(s(p := x)) r = RUNNING" for r
  proof -
    have "r \<noteq> p" "s r = RUNNING" using that assms(3) by (auto split: if_splits)
    then show ?thesis using 3 [of r] by auto
  qed
  then show ?thesis
    unfolding cpu_inv_def using 1 2 assms(1) by (auto simp: cpu_inv_def split: if_splits)
qed

lemma cpu_inv_in:
  assumes "cpu_inv s cp" and "cp c = None" and "s p \<noteq> RUNNING"
  shows "cpu_inv (s(p := RUNNING)) (cp(c := Some p))"
proof -
  have "cp c' \<noteq> Some p" for c' using assms(1,3) by (auto simp: cpu_inv_def)
  moreover have "\<exists>c'. c' \<noteq> c \<and> cp c' = Some r" if "s r = RUNNING" for r
    using that assms(1,2) unfolding cpu_inv_def by (metis option.distinct(1))
  ultimately have "\<exists>c'. (cp(c := Some p)) c' = Some r" if "(s(p := RUNNING)) r = RUNNING" for r
    using that by (cases "r = p") (auto intro: exI [of _ c])
  then show ?thesis
    using assms(1) \<open>\<And>c'. cp c' \<noteq> Some p\<close> unfolding cpu_inv_def by (auto split: if_splits)
qed

lemma tree_inv_live:
  assumes "tree_inv s par ip k" and "live (s p)" and "live x"
  shows "tree_inv (s(p := x)) par ip k"
proof -
  have p: "s p \<noteq> UNUSED" "s p \<noteq> USED" "x \<noteq> UNUSED" "x \<noteq> USED" using assms(2,3) by auto
  then have 1: "(s(p := x)) i = UNUSED \<longleftrightarrow> s i = UNUSED" "(s(p := x)) i = USED \<longleftrightarrow> s i = USED"
    "live ((s(p := x)) i) \<longleftrightarrow> live (s i)" for i
    using assms(2,3) by auto
  show ?thesis using assms(1) unfolding tree_inv_def 1 .
qed

lemma pid_inv_alloc:
  assumes "pid_inv s q n" and "s i = UNUSED" and "x \<noteq> UNUSED"
  shows "pid_inv (s(i := x)) (q(i := n)) (n + 1)"
  using assms unfolding pid_inv_def by (auto split: if_splits)

lemma pid_inv_clear:
  assumes "pid_inv s q n"
  shows "pid_inv (s(i := UNUSED)) (q(i := 0)) n"
  using assms unfolding pid_inv_def by (auto split: if_splits)

lemma pid_inv_next: "pid_inv s q n \<Longrightarrow> pid_inv s q (n + 1)"
  unfolding pid_inv_def by force

lemma cpu_inv_set:
  assumes "cpu_inv s cp" and "s i \<noteq> RUNNING" and "x \<noteq> RUNNING"
  shows "cpu_inv (s(i := x)) cp"
  using assms unfolding cpu_inv_def by (auto split: if_splits)

lemma tree_invD:
  assumes "tree_inv s par ip k"
  shows "\<exists>i. ip = Some i \<and> live (s i) \<and> (\<forall>st. k i \<noteq> Exiting st)"
    and "\<And>i. NPROC \<le> i \<Longrightarrow> s i = UNUSED" and "\<And>i. s i = UNUSED \<Longrightarrow> par i = None"
    and "\<And>i p. par i = Some p \<Longrightarrow> live (s p)" and "\<And>p. k p \<noteq> Idle \<Longrightarrow> live (s p)"
    and "\<And>p np. pending (k p) = Some np \<Longrightarrow> s np = USED"
    and "\<And>p q np. pending (k p) = Some np \<Longrightarrow> pending (k q) = Some np \<Longrightarrow> p = q"
    and "\<And>p np. k p = Forked np \<Longrightarrow> par np = None"
    and "\<And>i. s i \<noteq> UNUSED \<Longrightarrow> ip \<noteq> Some i \<Longrightarrow> par i = None \<Longrightarrow> \<exists>p. k p = Forked i"
  using assms unfolding tree_inv_def by blast+

lemma tree_invI:
  assumes "\<exists>i. ip = Some i \<and> live (s i) \<and> (\<forall>st. k i \<noteq> Exiting st)"
    and "\<And>i. NPROC \<le> i \<Longrightarrow> s i = UNUSED" and "\<And>i. s i = UNUSED \<Longrightarrow> par i = None"
    and "\<And>i p. par i = Some p \<Longrightarrow> live (s p)" and "\<And>p. k p \<noteq> Idle \<Longrightarrow> live (s p)"
    and "\<And>p np. pending (k p) = Some np \<Longrightarrow> s np = USED"
    and "\<And>p q np. pending (k p) = Some np \<Longrightarrow> pending (k q) = Some np \<Longrightarrow> p = q"
    and "\<And>p np. k p = Forked np \<Longrightarrow> par np = None"
    and "\<And>i. s i \<noteq> UNUSED \<Longrightarrow> ip \<noteq> Some i \<Longrightarrow> par i = None \<Longrightarrow> \<exists>p. k p = Forked i"
  shows "tree_inv s par ip k"
  unfolding tree_inv_def using assms by (intro conjI allI impI)

lemma tree_inv_alloc:
  assumes t: "tree_inv s par ip k" and i: "i < NPROC" "s i = UNUSED" and p: "k p = Idle" "live (s p)"
  shows "tree_inv (s(i := USED)) par ip (k(p := Forked i))"
proof -
  note d = tree_invD [OF t]
  have nu: "\<not> live (s i)" using i by simp
  then have live: "live ((s(i := USED)) q) \<longleftrightarrow> live (s q)" for q using i by auto
  have pi: "p \<noteq> i" using p nu by auto
  have old: "pending (k q) \<noteq> Some i" for q using d(6) [of q i] i by auto
  have "(\<exists>j. ip = Some j \<and> live ((s(i := USED)) j) \<and> (\<forall>st. (k(p := Forked i)) j \<noteq> Exiting st))"
    using d(1) live by auto
  moreover have "pending ((k(p := Forked i)) q) = Some np \<Longrightarrow> (s(i := USED)) np = USED" for q np
    using d(6) [of q np] by (auto split: if_splits)
  moreover have "pending ((k(p := Forked i)) q) = Some np \<Longrightarrow> pending ((k(p := Forked i)) r) = Some np \<Longrightarrow> q = r"
    for q r np using d(7) [of q np r] old [of q] old [of r] by (auto split: if_splits)
  moreover have "(k(p := Forked i)) q = Forked np \<Longrightarrow> par np = None" for q np
    using d(8) [of q np] d(3) [OF i(2)] by (auto split: if_splits)
  moreover have "\<exists>q. (k(p := Forked i)) q = Forked j"
    if h: "(s(i := USED)) j \<noteq> UNUSED" "ip \<noteq> Some j" "par j = None" for j
  proof (cases "j = i")
    case True
    then show ?thesis by (intro exI [of _ p]) simp
  next
    case False
    then obtain q where "k q = Forked j" using d(9) [of j] h by auto
    then show ?thesis using p(1) by (intro exI [of _ q]) auto
  qed
  moreover have "(s(i := USED)) j = UNUSED" if "NPROC \<le> j" for j using d(2) [OF that] that i by auto
  moreover have "par j = None" if "(s(i := USED)) j = UNUSED" for j
    using that d(3) [of j] by (auto split: if_splits)
  moreover have "live ((s(i := USED)) q)" if "par j = Some q" for j q using d(4) [OF that] live by simp
  moreover have "live ((s(i := USED)) q)" if "(k(p := Forked i)) q \<noteq> Idle" for q
    using d(5) [of q] p live that by (auto split: if_splits)
  ultimately show ?thesis by (intro tree_invI) blast+
qed

lemma tree_inv_link:
  assumes t: "tree_inv s par ip k" and p: "k p = Forked np"
  shows "tree_inv s (par(np := Some p)) ip (k(p := Linked np))"
proof -
  note d = tree_invD [OF t]
  have np: "s np = USED" using d(6) [of p np] p by simp
  have lp: "live (s p)" using d(5) [of p] p by simp
  have other: "q = p" if "pending (k q) = Some np" for q using d(7) [OF that] p by simp
  have "\<exists>j. ip = Some j \<and> live (s j) \<and> (\<forall>st. (k(p := Linked np)) j \<noteq> Exiting st)" using d(1) by auto
  moreover have "pending ((k(p := Linked np)) q) = Some m \<Longrightarrow> s m = USED" for q m
    using d(6) [of q m] np by (auto split: if_splits)
  moreover have "pending ((k(p := Linked np)) q) = Some m \<Longrightarrow> pending ((k(p := Linked np)) r) = Some m \<Longrightarrow> q = r"
    for q r m using d(7) [of q m r] other [of q] other [of r] by (auto split: if_splits)
  moreover have "(k(p := Linked np)) q = Forked m \<Longrightarrow> (par(np := Some p)) m = None" for q m
    using d(8) [of q m] other [of q] by (auto split: if_splits)
  moreover have "\<exists>q. (k(p := Linked np)) q = Forked j"
    if h: "s j \<noteq> UNUSED" "ip \<noteq> Some j" "(par(np := Some p)) j = None" for j
  proof -
    have j: "j \<noteq> np" using h(3) by auto
    then obtain q where q: "k q = Forked j" using d(9) [OF h(1,2)] h(3) by auto
    have "q \<noteq> p" using q p j by auto
    with q show ?thesis by (intro exI [of _ q]) simp
  qed
  moreover have "(par(np := Some p)) j = None" if "s j = UNUSED" for j
    using that np d(3) [of j] by auto
  moreover have "live (s q)" if "(par(np := Some p)) j = Some q" for j q
    using that lp d(4) [of j q] by (auto split: if_splits)
  moreover have "live (s q)" if "(k(p := Linked np)) q \<noteq> Idle" for q
    using that lp d(5) [of q] by (auto split: if_splits)
  ultimately show ?thesis using d(2) by (intro tree_invI) blast+
qed

lemma tree_inv_ready:
  assumes t: "tree_inv s par ip k" and p: "k p = Linked np"
  shows "tree_inv (s(np := RUNNABLE)) par ip (k(p := Idle))"
proof -
  note d = tree_invD [OF t]
  have np: "s np = USED" using d(6) [of p np] p by simp
  have other: "q = p" if "pending (k q) = Some np" for q using d(7) [OF that] p by simp
  have live: "live ((s(np := RUNNABLE)) q)" if "live (s q)" for q using that by simp
  have "\<exists>j. ip = Some j \<and> live ((s(np := RUNNABLE)) j) \<and> (\<forall>st. (k(p := Idle)) j \<noteq> Exiting st)"
    using d(1) live by auto
  moreover have "pending ((k(p := Idle)) q) = Some m \<Longrightarrow> (s(np := RUNNABLE)) m = USED" for q m
    using d(6) [of q m] other [of q] by (auto split: if_splits)
  moreover have "pending ((k(p := Idle)) q) = Some m \<Longrightarrow> pending ((k(p := Idle)) r) = Some m \<Longrightarrow> q = r"
    for q r m using d(7) [of q m r] by (auto split: if_splits)
  moreover have "(k(p := Idle)) q = Forked m \<Longrightarrow> par m = None" for q m
    using d(8) [of q m] by (auto split: if_splits)
  moreover have "\<exists>q. (k(p := Idle)) q = Forked j"
    if h: "(s(np := RUNNABLE)) j \<noteq> UNUSED" "ip \<noteq> Some j" "par j = None" for j
  proof -
    have "s j \<noteq> UNUSED" using h(1) np by (auto split: if_splits)
    then obtain q where q: "k q = Forked j" using d(9) h(2,3) by blast
    have "q \<noteq> p" using q p by auto
    with q show ?thesis by (intro exI [of _ q]) simp
  qed
  moreover have "(s(np := RUNNABLE)) j = UNUSED" if "NPROC \<le> j" for j using d(2) [OF that] np by auto
  moreover have "par j = None" if "(s(np := RUNNABLE)) j = UNUSED" for j
    using that d(3) [of j] by (auto split: if_splits)
  moreover have "live ((s(np := RUNNABLE)) q)" if "par j = Some q" for j q using live [OF d(4) [OF that]] .
  moreover have "live ((s(np := RUNNABLE)) q)" if "(k(p := Idle)) q \<noteq> Idle" for q
    using that live [OF d(5), of q] by (auto split: if_splits)
  ultimately show ?thesis by (intro tree_invI) blast+
qed

lemma tree_inv_exiting:
  assumes t: "tree_inv s par ip k" and "k p = Idle" and "live (s p)" and "ip \<noteq> Some p"
  shows "tree_inv s par ip (k(p := Exiting x))"
proof -
  note d = tree_invD [OF t]
  have "\<exists>q. (k(p := Exiting x)) q = Forked j" if "\<exists>q. k q = Forked j" for j
    using that assms(2) by (metis fun_upd_other kpc.distinct(1))
  then show ?thesis
    using assms d unfolding tree_inv_def by (auto split: if_splits)
qed

lemma tree_inv_zombie:
  assumes t: "tree_inv s par ip k" and p: "k p = Exiting x"
  shows "tree_inv (s(p := ZOMBIE)) (\<lambda>i. if i < NPROC \<and> par i = Some p then ip else par i) ip (k(p := Idle))"
proof -
  note d = tree_invD [OF t]
  have lp: "live (s p)" using d(5) [of p] p by simp
  then have nu: "s p \<noteq> UNUSED" "s p \<noteq> USED" by auto
  have plt: "p < NPROC" using d(2) [of p] nu by (cases "p < NPROC") auto
  obtain i0 where i0: "ip = Some i0" "live (s i0)" "i0 \<noteq> p" "\<forall>st. k i0 \<noteq> Exiting st"
    using d(1) p by auto
  define par' where "par' = (\<lambda>i. if i < NPROC \<and> par i = Some p then ip else par i)"
  have none: "par' i = None \<longleftrightarrow> par i = None" for i using i0 by (auto simp: par'_def)
  have big: "par i = None" if "NPROC \<le> i" for i using d(2,3) that by blast
  have "live ((s(p := ZOMBIE)) q)" if "par' i = Some q" for i q
  proof -
    have "q \<noteq> p \<and> live (s q)"
      using that i0 d(4) [of i q] big [of i] by (cases "i < NPROC") (auto simp: par'_def split: if_splits)
    then show ?thesis by simp
  qed
  moreover have "pending ((k(p := Idle)) q) = Some m \<Longrightarrow> (s(p := ZOMBIE)) m = USED" for q m
    using d(6) [of q m] nu by (auto split: if_splits)
  moreover have "pending ((k(p := Idle)) q) = Some m \<Longrightarrow> pending ((k(p := Idle)) r) = Some m \<Longrightarrow> q = r"
    for q r m using d(7) [of q m r] by (auto split: if_splits)
  moreover have "\<exists>q. (k(p := Idle)) q = Forked j"
    if h: "(s(p := ZOMBIE)) j \<noteq> UNUSED" "ip \<noteq> Some j" "par j = None" for j
  proof -
    have "s j \<noteq> UNUSED" using h(1) nu by (auto split: if_splits)
    then obtain q where q: "k q = Forked j" using d(9) h(2,3) by blast
    then have "q \<noteq> p" using p by auto
    with q show ?thesis by (intro exI [of _ q]) simp
  qed
  moreover have "(k(p := Idle)) q = Forked m \<Longrightarrow> par m = None" for q m
    using d(8) [of q m] by (auto split: if_splits)
  moreover have "(k(p := Idle)) q \<noteq> Idle \<Longrightarrow> live ((s(p := ZOMBIE)) q)" for q
    using d(5) [of q] by (auto split: if_splits)
  moreover have "(s(p := ZOMBIE)) j = UNUSED" if "NPROC \<le> j" for j using d(2) [OF that] that plt by auto
  moreover have "par' j = None" if "(s(p := ZOMBIE)) j = UNUSED" for j
    using that none d(3) [of j] by (auto split: if_splits)
  moreover have "\<exists>j. ip = Some j \<and> live ((s(p := ZOMBIE)) j) \<and> (\<forall>st. (k(p := Idle)) j \<noteq> Exiting st)"
    using i0 by auto
  ultimately show ?thesis
    unfolding par'_def [symmetric] using none by (intro tree_invI) blast+
qed

lemma tree_inv_clear:
  assumes t: "tree_inv s par ip k" and i: "\<not> live (s i)" "s i \<noteq> USED" "ip \<noteq> Some i"
  shows "tree_inv (s(i := UNUSED)) (par(i := None)) ip k"
proof -
  note d = tree_invD [OF t]
  have l: "live ((s(i := UNUSED)) q) \<longleftrightarrow> live (s q)" for q using i(1) by simp
  have u: "(s(i := UNUSED)) q = USED \<longleftrightarrow> s q = USED" for q using i(2) by simp
  show ?thesis
    using d i unfolding tree_inv_def l u by (auto split: if_splits)
qed


subsection \<open>Every step keeps them\<close>

text \<open>Steps that do not touch the table.\<close>

definition same_table :: "'w kst \<Rightarrow> 'w kst \<Rightarrow> bool" where
  "same_table st st' \<longleftrightarrow> states st' = states st \<and> pids st' = pids st \<and> parents st' = parents st
     \<and> nextpid st' = nextpid st \<and> initproc st' = initproc st \<and> cpu_proc st' = cpu_proc st"

lemma same_table_refl [simp]: "same_table st st"
  by (simp add: same_table_def)

lemma same_table_trans: "same_table a b \<Longrightarrow> same_table b c \<Longrightarrow> same_table a c"
  by (simp add: same_table_def)

lemma same_table_world [simp]: "same_table st (st\<lparr>world := w\<rparr>)"
  by (simp add: same_table_def)

lemma same_table_upd:
  assumes "p_state (f (procs st i)) = p_state (procs st i)" "p_pid (f (procs st i)) = p_pid (procs st i)"
    "p_parent (f (procs st i)) = p_parent (procs st i)"
  shows "same_table st (upd_proc i f st)"
  using assms by (auto simp: same_table_def states_def pids_def parents_def fun_eq_iff)

lemma table_inv_same:
  "table_inv (st, k) \<Longrightarrow> same_table st st' \<Longrightarrow> table_inv (st', k)"
  by (simp add: table_inv_def same_table_def)

lemma close_fd_table: "close_fd ops me fd st = Ok st' \<Longrightarrow> same_table st st'"
  by (auto simp: close_fd_def kbind_eq_Ok lower_Ok split: option.splits
           intro!: same_table_trans [OF same_table_world same_table_upd])


lemma close_fds_table: "kfold (close_fd ops me) fds st = Ok st' \<Longrightarrow> same_table st st'"
  by (induction fds arbitrary: st)
     (auto simp: kbind_eq_Ok dest: close_fd_table intro: same_table_trans)

lemma exit_files_table:
  assumes "exit_files ops me st = Ok st'"
  shows "same_table st st'" and "initproc st \<noteq> Some me"
proof -
  obtain st1 w where 1: "kfold (close_fd ops me) [0..<NOFILE] st = Ok st1"
    and 2: "st' = upd_proc me (\<lambda>p. p\<lparr>p_cwd := None\<rparr>) (st1\<lparr>world := w\<rparr>)"
    and "initproc st \<noteq> Some me"
    using assms by (auto simp: exit_files_def kbind_eq_Ok lower_Ok simp del: upd_proc_world split: if_splits)
  have "same_table st1 st'"
    unfolding 2 by (rule same_table_trans [OF same_table_world same_table_upd]) simp_all
  then show "same_table st st'" using close_fds_table [OF 1] same_table_trans by blast
  show "initproc st \<noteq> Some me" by fact
qed

lemma growproc_table:
  assumes "growproc ops me n st = Ok (r, st')"
  shows "same_table st st'"
proof -
  have u: "same_table st (upd_proc me (\<lambda>p. p\<lparr>p_sz := x\<rparr>) (st\<lparr>world := w\<rparr>))" for w x
    by (rule same_table_trans [OF same_table_world same_table_upd]) simp_all
  consider "0 < n" | "n < 0" | "n = 0" by linarith
  then show ?thesis
  proof cases
    case 1
    then obtain x w where w: "(if x = 0 then Ok (- 1, st\<lparr>world := w\<rparr>)
        else Ok (0, upd_proc me (\<lambda>p. p\<lparr>p_sz := x\<rparr>) (st\<lparr>world := w\<rparr>))) = Ok (r, st')"
      using assms by (auto simp: growproc_def Let_def kbind_eq_Ok lower_ret_Ok simp del: upd_proc_world)
    show ?thesis
    proof (cases "x = 0")
      case True
      with w have "st' = st\<lparr>world := w\<rparr>" by simp
      then show ?thesis by simp
    next
      case False
      with w have "st' = upd_proc me (\<lambda>p. p\<lparr>p_sz := x\<rparr>) (st\<lparr>world := w\<rparr>)"
        by (simp del: upd_proc_world)
      then show ?thesis using u by (simp del: upd_proc_world)
    qed
  next
    case 2
    then obtain x w where "st' = upd_proc me (\<lambda>p. p\<lparr>p_sz := x\<rparr>) (st\<lparr>world := w\<rparr>)"
      using assms by (auto simp: growproc_def Let_def kbind_eq_Ok lower_ret_Ok simp del: upd_proc_world)
    then show ?thesis using u by (simp del: upd_proc_world)
  next
    case 3
    then show ?thesis using assms by (simp add: growproc_def)
  qed
qed

lemma copy_int_world: "copy_int ops me va v st = Ok (b, st') \<Longrightarrow> \<exists>w. st' = st\<lparr>world := w\<rparr>"
  by (cases st) (auto simp: copy_int_def kbind_eq_Ok lower_ret_Ok split: if_splits)

lemma wait2_scan_table:
  assumes "wait2_scan ops me addr res is hk st = Ok (t, st')"
  shows "(\<exists>w. st' = st\<lparr>world := w\<rparr>)
     \<or> (\<exists>i w. i \<in> set is \<and> states st i = ZOMBIE \<and> parents st i = Some me \<and> t = Returned (pids st i)
            \<and> st' = (upd_proc i cleared st)\<lparr>world := w\<rparr>)"
  using assms
proof (induction "is" arbitrary: hk)
  case Nil
  then show ?case by (cases st) (auto split: if_splits)
next
  case (Cons i "is")
  show ?case
  proof (cases "p_parent (procs st i) = Some me \<and> p_state (procs st i) = ZOMBIE")
    case False
    then have "\<exists>hk'. wait2_scan ops me addr res is hk' st = Ok (t, st')"
      using Cons.prems by (auto split: if_splits)
    then show ?thesis using Cons.IH by fastforce
  next
    case True
    then obtain b1 st1 where 1: "copy_int ops me addr (p_xstate (procs st i)) st = Ok (b1, st1)"
      using Cons.prems by (auto simp: kbind_eq_Ok Let_def)
    then obtain w1 where w1: "st1 = st\<lparr>world := w1\<rparr>" using copy_int_world by blast
    show ?thesis
    proof (cases b1)
      case True
      then show ?thesis using Cons.prems 1 w1 \<open>p_parent _ = _ \<and> _\<close> by (auto simp: Let_def)
    next
      case b1: False
      obtain b2 st2 where 2: "copy_int ops me res (p_counter (procs st1 i)) st1 = Ok (b2, st2)"
        using Cons.prems 1 b1 True by (auto simp: kbind_eq_Ok Let_def)
      then obtain w2 where w2: "st2 = st\<lparr>world := w2\<rparr>" using copy_int_world w1 by fastforce
      show ?thesis
      proof (cases b2)
        case b2: True
        then show ?thesis using Cons.prems 1 2 b1 w2 True by (auto simp: Let_def)
      next
        case b2: False
        then have "freeproc ops i st2 = Ok st'" and t: "t = Returned (p_pid (procs st i))"
          using Cons.prems 1 2 b1 True by (auto simp: Let_def kbind_eq_Ok)
        then obtain w3 where "st' = (upd_proc i cleared st2)\<lparr>world := w3\<rparr>" using freeproc_Ok by blast
        then have "st' = (upd_proc i cleared st)\<lparr>world := w3\<rparr>" by (simp add: w2)
        then show ?thesis using t True by (auto simp: states_def parents_def pids_def)
      qed
    qed
  qed
qed

lemma kill_table:
  "woken (states st) (states (snd (kill pid st)))" "pids (snd (kill pid st)) = pids st"
  "parents (snd (kill pid st)) = parents st" "nextpid (snd (kill pid st)) = nextpid st"
  "initproc (snd (kill pid st)) = initproc st" "cpu_proc (snd (kill pid st)) = cpu_proc st"
  by (auto simp: kill_def woken_def states_def pids_def parents_def fun_eq_iff split: option.split)

lemma exit_zombie_table:
  "\<exists>s1. woken (states st) s1 \<and> s1 me = states st me \<and> states (exit_zombie c me x st) = s1(me := ZOMBIE)"
  "pids (exit_zombie c me x st) = pids st"
  "parents (exit_zombie c me x st)
     = (\<lambda>i. if i < NPROC \<and> parents st i = Some me then initproc st else parents st i)"
  "nextpid (exit_zombie c me x st) = nextpid st" "initproc (exit_zombie c me x st) = initproc st"
  "cpu_proc (exit_zombie c me x st) = (cpu_proc st)(c := None)"
proof -
  let ?r = "reparent me st"
  note r = reparent_table [of st me]
  define w where "w = (case p_parent (procs ?r me) of None \<Rightarrow> ?r | Some pp \<Rightarrow> wakeup (Proc_chan pp) (Some me) ?r)"
  have e: "exit_zombie c me x st
      = switch_out c (upd_proc me (\<lambda>p. p\<lparr>p_xstate := x, p_state := ZOMBIE\<rparr>) w)"
    by (simp add: exit_zombie_def Let_def w_def)
  have w: "woken (states ?r) (states w)" "states w me = states ?r me" "pids w = pids ?r"
    "parents w = parents ?r" "nextpid w = nextpid ?r" "initproc w = initproc ?r" "cpu_proc w = cpu_proc ?r"
    by (auto simp: w_def wakeup_table wakeup_rest split: option.split)
  have p: "pids w = (pids w)(me := p_pid (procs w me))" "parents w = (parents w)(me := p_parent (procs w me))"
    by (auto simp: pids_def parents_def)
  show "\<exists>s1. woken (states st) s1 \<and> s1 me = states st me \<and> states (exit_zombie c me x st) = s1(me := ZOMBIE)"
    using w r by (intro exI [of _ "states w"]) (auto simp: e switch_out_def intro: woken_trans)
  show "pids (exit_zombie c me x st) = pids st" using w r p(1) by (simp add: e switch_out_def)
  show "parents (exit_zombie c me x st)
     = (\<lambda>i. if i < NPROC \<and> parents st i = Some me then initproc st else parents st i)"
    using w r p(2) by (simp add: e switch_out_def)
  show "nextpid (exit_zombie c me x st) = nextpid st" "initproc (exit_zombie c me x st) = initproc st"
    "cpu_proc (exit_zombie c me x st) = (cpu_proc st)(c := None)"
    using w r by (simp_all add: e switch_out_def)
qed

lemma table_invI:
  "pid_inv (states st) (pids st) (nextpid st) \<Longrightarrow> cpu_inv (states st) (cpu_proc st) \<Longrightarrow>
     tree_inv (states st) (parents st) (initproc st) k \<Longrightarrow> table_inv (st, k)"
  by (simp add: table_inv_def)

lemma table_invD:
  assumes "table_inv (st, k)"
  shows "pid_inv (states st) (pids st) (nextpid st)" "cpu_inv (states st) (cpu_proc st)"
    "tree_inv (states st) (parents st) (initproc st) k"
  using assms by (simp_all add: table_inv_def)

lemma table_inv_woken:
  assumes "table_inv (st, k)" and "woken (states st) (states st')" and "pids st' = pids st"
    and "parents st' = parents st" and "nextpid st' = nextpid st" and "initproc st' = initproc st"
    and "cpu_proc st' = cpu_proc st"
  shows "table_inv (st', k)"
  using table_invD [OF assms(1)] assms(2-7) pid_inv_woken cpu_inv_woken tree_inv_woken
  by (intro table_invI) simp_all

lemma table_inv_running:
  assumes "table_inv (st, k)" and "cpu_proc st c = Some p"
  shows "states st p = RUNNING"
  using table_invD(2) [OF assms(1)] assms(2) by (auto simp: cpu_inv_def)

lemma table_inv_cleared:
  assumes "table_inv (st, k)" and "states st i = ZOMBIE \<or> states st i = UNUSED"
    and "states st' = (states st)(i := UNUSED)" "pids st' = (pids st)(i := 0)"
    "parents st' = (parents st)(i := None)" "initproc st' = initproc st" "cpu_proc st' = cpu_proc st"
    and n: "nextpid st' = nextpid st \<or> nextpid st' = nextpid st + 1"
  shows "table_inv (st', k)"
proof (rule table_invI)
  note d = table_invD [OF assms(1)]
  have "pid_inv ((states st)(i := UNUSED)) ((pids st)(i := 0)) (nextpid st)" by (rule pid_inv_clear [OF d(1)])
  then show "pid_inv (states st') (pids st') (nextpid st')" using assms(3,4) n pid_inv_next by auto
  show "cpu_inv (states st') (cpu_proc st')"
    using cpu_inv_set [OF d(2), of i UNUSED] assms(2,3,7) by auto
  have "initproc st \<noteq> Some i" using tree_invD(1) [OF d(3)] assms(2) by auto
  then show "tree_inv (states st') (parents st') (initproc st') k"
    using tree_inv_clear [OF d(3), of i] assms(2,3,5,6) by auto
qed

lemma pstep_inv: "pstep ops fr x y \<Longrightarrow> table_inv x \<Longrightarrow> table_inv y"
proof (induction rule: pstep.induct)
  case (schedule s c i j s' k)
  note d = table_invD [OF schedule(3)]
  have j: "states s j = RUNNABLE" and s': "s' = Proc.schedule c j s"
    using schedule(2) by (auto simp: scheduler_scan_def find_Some_iff states_def split: option.splits)
  show ?case
  proof (rule table_invI)
    show "pid_inv (states s') (pids s') (nextpid s')"
      using pid_inv_set [OF d(1), of j RUNNING] j by (simp add: s' Proc.schedule_def pids_def)
    show "cpu_inv (states s') (cpu_proc s')"
      using cpu_inv_in [OF d(2) schedule(1), of j] j by (simp add: s' Proc.schedule_def)
    show "tree_inv (states s') (parents s') (initproc s') k"
      using tree_inv_live [OF d(3), of j RUNNING] j by (simp add: s' Proc.schedule_def parents_def)
  qed
next
  case (fork_fails s c p k s')
  from fork_create_None [OF fork_fails(3)] show ?case
  proof (elim disjE exE conjE)
    fix i assume i: "states s i = UNUSED" "procs s' = (procs s)(i := cleared (procs s' i))"
      "nextpid s' = nextpid s + 1"
    have "states s' = (states s)(i := UNUSED)" "pids s' = (pids s)(i := 0)" "parents s' = (parents s)(i := None)"
      using arg_cong [OF i(2), of "\<lambda>f j. p_state (f j)"] arg_cong [OF i(2), of "\<lambda>f j. p_pid (f j)"]
        arg_cong [OF i(2), of "\<lambda>f j. p_parent (f j)"]
      by (auto simp: states_def pids_def parents_def fun_eq_iff)
    then show ?thesis
      using table_inv_cleared [OF fork_fails(4), of i s'] i fork_create_None(2,3) [OF fork_fails(3)] by simp
  qed (use fork_fails in simp)
next
  case (fork_create s c p k np pid s')
  note run = table_inv_running [OF fork_create(5,1)]
  note d = table_invD [OF fork_create(5)]
  have "states s p \<noteq> UNUSED" using run by simp
  note f = fork_create_Some [OF fork_create(3) this fork_create(4)]
  have t: "states s' = (states s)(np := USED)" "pids s' = (pids s)(np := nextpid s)" "parents s' = parents s"
    using f(7) by (auto simp: states_def pids_def parents_def fun_eq_iff)
  show ?case
  proof (rule table_invI)
    show "pid_inv (states s') (pids s') (nextpid s')"
      using pid_inv_alloc [OF d(1) f(2), of USED] by (simp add: t f(4))
    show "cpu_inv (states s') (cpu_proc s')"
      using cpu_inv_set [OF d(2), of np USED] f(2) by (simp add: t f(6))
    show "tree_inv (states s') (parents s') (initproc s') (k(p := Forked np))"
      using tree_inv_alloc [OF d(3) f(1,2) fork_create(2)] run by (simp add: t f(5))
  qed
next
  case (fork_link s c p k np)
  note d = table_invD [OF fork_link(3)]
  have "states (fork_link p np s) = states s" "pids (fork_link p np s) = pids s"
    "parents (fork_link p np s) = (parents s)(np := Some p)"
    by (auto simp: fork_link_def states_def pids_def parents_def)
  then show ?case
    using d tree_inv_link [OF d(3) fork_link(2)]
    by (intro table_invI) (simp_all add: fork_link_def)
next
  case (fork_ready s c p k np)
  note d = table_invD [OF fork_ready(3)]
  have np: "states s np = USED" using tree_invD(6) [OF d(3), of p np] fork_ready(2) by simp
  have "states (fork_ready np s) = (states s)(np := RUNNABLE)" "pids (fork_ready np s) = pids s"
    "parents (fork_ready np s) = parents s"
    by (auto simp: fork_ready_def states_def pids_def parents_def)
  then show ?case
    using pid_inv_set [OF d(1), of np RUNNABLE] cpu_inv_set [OF d(2), of np RUNNABLE]
      tree_inv_ready [OF d(3) fork_ready(2)] d np
    by (intro table_invI) (simp_all add: fork_ready_def)
next
  case (sleep s c p k ch)
  note d = table_invD [OF sleep(2)]
  note run = table_inv_running [OF sleep(2,1)]
  show ?case
    using pid_inv_set [OF d(1), of p SLEEPING] cpu_inv_out [OF d(2) sleep(1), of SLEEPING]
      tree_inv_live [OF d(3), of p SLEEPING] run
    by (intro table_invI) (simp_all add: Proc.sleep_def switch_out_def pids_def parents_def)
next
  case (sleep_wake s c p k)
  show ?case
    by (rule table_inv_same [OF sleep_wake(2)]) (simp add: Proc.sleep_wake_def same_table_upd)
next
  case (yield s c p k)
  note d = table_invD [OF yield(2)]
  note run = table_inv_running [OF yield(2,1)]
  show ?case
    using pid_inv_set [OF d(1), of p RUNNABLE] cpu_inv_out [OF d(2) yield(1), of RUNNABLE]
      tree_inv_live [OF d(3), of p RUNNABLE] run
    by (intro table_invI) (simp_all add: Proc.yield_def switch_out_def pids_def parents_def)
next
  case (wakeup s k ch c)
  show ?case
    by (rule table_inv_woken [OF wakeup]) (simp_all add: wakeup_table wakeup_rest)
next
  case (kill s c p k pid)
  show ?case
    by (rule table_inv_woken [OF kill(2)]) (simp_all add: kill_table)
next
  case (setkilled s c p k)
  show ?case
    by (rule table_inv_same [OF setkilled(2)]) (simp add: Proc.setkilled_def same_table_upd)
next
  case (exit_files s c p k s' status)
  note e = exit_files_table [OF exit_files(3)]
  note run = table_inv_running [OF exit_files(4,1)]
  have "table_inv (s', k)" by (rule table_inv_same [OF exit_files(4) e(1)])
  note d = table_invD [OF this]
  have "live (states s' p)" "initproc s' \<noteq> Some p" using run e by (simp_all add: same_table_def)
  then show ?case
    using d tree_inv_exiting [OF d(3) exit_files(2)] by (intro table_invI) simp_all
next
  case (exit_zombie s c p k status)
  note d = table_invD [OF exit_zombie(3)]
  note run = table_inv_running [OF exit_zombie(3,1)]
  note e = exit_zombie_table [where c = c and me = p and x = status and st = s]
  obtain s1 where s1: "woken (states s) s1" "s1 p = states s p"
    "states (Proc.exit_zombie c p status s) = s1(p := ZOMBIE)" using e(1) by blast
  have p1: "pid_inv s1 (pids s) (nextpid s)" "cpu_inv s1 (cpu_proc s)" "tree_inv s1 (parents s) (initproc s) k"
    using pid_inv_woken [OF d(1) s1(1)] cpu_inv_woken [OF d(2) s1(1)] tree_inv_woken [OF d(3) s1(1)] .
  show ?case
    using pid_inv_set [OF p1(1), of p ZOMBIE] cpu_inv_out [OF p1(2) exit_zombie(1), of ZOMBIE]
      tree_inv_zombie [OF p1(3) exit_zombie(2)] run s1(2)
    by (intro table_invI) (simp_all add: s1(3) e(2-6))
next
  case (wait2 s c p k addr res t s')
  from wait2_scan_table [OF wait2(3) [unfolded wait2_turn_def]] show ?case
  proof (elim disjE exE conjE)
    fix w assume "s' = s\<lparr>world := w\<rparr>"
    then show ?thesis using table_inv_same [OF wait2(4)] by simp
  next
    fix i w assume i: "states s i = ZOMBIE" "s' = (upd_proc i cleared s)\<lparr>world := w\<rparr>"
    then show ?thesis by (intro table_inv_cleared [OF wait2(4), of i]) simp_all
  qed
next
  case (growproc s c p n r s' k)
  show ?case by (rule table_inv_same [OF growproc(3) growproc_table [OF growproc(2)]])
next
  case (own s c p q k)
  show ?case
    by (rule table_inv_same [OF own(3)], rule same_table_upd) (use own(2) in \<open>simp_all add: private_update_def\<close>)
next
  case (ext s k w)
  show ?case by (rule table_inv_same [OF ext]) simp
qed


subsection \<open>Boot\<close>

lemma procinit_table:
  "states (procinit st) = (\<lambda>i. if i < NPROC then UNUSED else states st i)" "pids (procinit st) = pids st"
  "parents (procinit st) = parents st" "nextpid (procinit st) = nextpid st"
  "cpu_proc (procinit st) = cpu_proc st"
proof -
  let ?f = "\<lambda>i. upd_proc i (\<lambda>p. p\<lparr>p_state := UNUSED, p_kstack := KSTACK i\<rparr>)"
  have "states (fold ?f [0..<n] st) = (\<lambda>i. if i < n then UNUSED else states st i)
      \<and> pids (fold ?f [0..<n] st) = pids st \<and> parents (fold ?f [0..<n] st) = parents st
      \<and> nextpid (fold ?f [0..<n] st) = nextpid st \<and> cpu_proc (fold ?f [0..<n] st) = cpu_proc st" for n
  proof (induction n)
    case (Suc n)
    let ?s = "fold ?f [0..<n] st"
    have "states (?f n ?s) = (states ?s)(n := UNUSED)" "pids (?f n ?s) = pids ?s"
      "parents (?f n ?s) = parents ?s" by (simp_all add: pids_def parents_def fun_eq_iff)
    with Suc show ?case by (auto simp: fun_eq_iff less_Suc_eq)
  qed simp
  from this [of NPROC] show
    "states (procinit st) = (\<lambda>i. if i < NPROC then UNUSED else states st i)" "pids (procinit st) = pids st"
    "parents (procinit st) = parents st" "nextpid (procinit st) = nextpid st"
    "cpu_proc (procinit st) = cpu_proc st"
    unfolding procinit_def by blast+
qed

lemma userinit_table:
  assumes "userinit ops fr st = Ok st'"
  shows "\<exists>i. i < NPROC \<and> states st i = UNUSED \<and> states st' = (states st)(i := RUNNABLE)
     \<and> pids st' = (pids st)(i := nextpid st) \<and> parents st' = parents st
     \<and> nextpid st' = nextpid st + 1 \<and> initproc st' = Some i \<and> cpu_proc st' = cpu_proc st"
proof -
  obtain i st1 where 1: "allocproc ops fr st = Ok (Some i, st1)"
    using assms by (auto simp: userinit_def kbind_eq_Ok split: option.splits)
  note a = allocproc_Some [OF 1]
  obtain w cwd where st': "st' = upd_proc i (\<lambda>p. p\<lparr>p_cwd := cwd, p_state := RUNNABLE\<rparr>)
     ((upd_proc i (\<lambda>p. p\<lparr>p_sz := PGSIZE, p_tf := (p_tf p)(Epc := 0, Sp := PGSIZE),
                    p_name := safestrcpy16 (p_name p) initcode_name\<rparr>)
       (st1\<lparr>initproc := Some i\<rparr>))\<lparr>world := w\<rparr>)"
    using assms 1 unfolding userinit_def
    by (auto simp: kbind_eq_Ok lower_Ok lower_ret_Ok Let_def upd_proc_def)
  have t: "states st1 = (states st)(i := USED)" "pids st1 = (pids st)(i := nextpid st)"
    "parents st1 = parents st" "nextpid st1 = nextpid st + 1" "cpu_proc st1 = cpu_proc st"
    using a(3) by (auto simp: states_def pids_def parents_def fun_eq_iff)
  have "states st' = (states st)(i := RUNNABLE) \<and> pids st' = (pids st)(i := nextpid st)
      \<and> parents st' = parents st \<and> nextpid st' = nextpid st + 1 \<and> initproc st' = Some i
      \<and> cpu_proc st' = cpu_proc st"
    unfolding st' using t by (auto simp: fun_eq_iff states_def pids_def parents_def)
  with a(1,2) show ?thesis by blast
qed

lemma boot_inv:
  assumes "zero_table st" and "userinit ops fr (procinit st) = Ok st'"
  shows "table_inv (st', \<lambda>_. Idle)"
proof -
  obtain i where i: "i < NPROC" "states st' = (states (procinit st))(i := RUNNABLE)"
    "pids st' = (pids (procinit st))(i := nextpid (procinit st))" "parents st' = parents (procinit st)"
    "nextpid st' = nextpid (procinit st) + 1" "initproc st' = Some i" "cpu_proc st' = cpu_proc (procinit st)"
    using userinit_table [OF assms(2)] by blast
  have z: "states (procinit st) = (\<lambda>_. UNUSED)" "pids (procinit st) = (\<lambda>_. 0)"
    "parents (procinit st) = (\<lambda>_. None)" "nextpid (procinit st) = 1" "cpu_proc (procinit st) = (\<lambda>_. None)"
    using assms(1) by (auto simp: zero_table_def procinit_table fun_eq_iff)
  show ?thesis
    using i z by (intro table_invI) (auto simp: pid_inv_def cpu_inv_def tree_inv_def split: if_splits)
qed

lemma preach_inv: "preach ops fr x \<Longrightarrow> table_inv x"
proof (induction rule: preach.induct)
  case (boot st st')
  then show ?case by (rule boot_inv)
next
  case (step s t)
  then show ?case using pstep_inv by blast
qed

text \<open>A machine that boots, for examples: memory never runs out and nothing fails.\<close>

definition demo_kops :: "unit kops" where
  "demo_kops = \<lparr>k_kalloc = (\<lambda>w. (0x80010000, w)), k_kfree = (\<lambda>_ w. Ok w),
     k_proc_pagetable = (\<lambda>_ w. Ok (0x80020000, w)), k_proc_freepagetable = (\<lambda>_ _ w. Ok w),
     k_uvmfirst = (\<lambda>_ w. Ok w), k_uvmcopy = (\<lambda>_ _ _ w. Ok (0, w)), k_uvmalloc = (\<lambda>_ _ n w. Ok (n, w)),
     k_uvmdealloc = (\<lambda>_ _ n w. Ok (n, w)), k_copyout = (\<lambda>_ _ _ w. Ok (0, w)), k_filedup = (\<lambda>_ w. Ok w),
     k_fileclose = (\<lambda>_ w. Ok w), k_idup = (\<lambda>_ w. Ok w), k_put_cwd = (\<lambda>_ w. Ok w),
     k_namei_root = (\<lambda>w. Ok (Some 0, w))\<rparr>"

definition zero_proc :: proc where
  "zero_proc = \<lparr>p_state = UNUSED, p_chan = None, p_killed = 0, p_xstate = 0, p_pid = 0, p_parent = None,
     p_kstack = 0, p_sz = 0, p_pagetable = 0, p_trapframe = 0, p_tf = (\<lambda>_. 0), p_context = (0, 0),
     p_ofile = replicate NOFILE None, p_cwd = None, p_name = replicate 16 0, p_strace = 0, p_counter = 0\<rparr>"

definition demo_zero :: "unit kst" where
  "demo_zero = \<lparr>procs = (\<lambda>_. zero_proc), nextpid = 1, initproc = None, cpu_proc = (\<lambda>_. None), world = ()\<rparr>"

lemma find_first: "P 0 \<Longrightarrow> 0 < n \<Longrightarrow> find P [0..<n] = Some 0"
  by (simp add: upt_conv_Cons)

lemma demo_boots:
  "\<exists>st'. userinit demo_kops 0 (procinit demo_zero) = Ok st'
     \<and> initproc st' = Some 0 \<and> states st' 0 = RUNNABLE \<and> p_ofile (procs st' 1) = replicate NOFILE None"
proof -
  have "p_state (procs (procinit demo_zero) 0) = UNUSED"
    using fun_cong [OF procinit_table(1) [of demo_zero], of 0] by (simp add: states_def)
  then have f: "find (\<lambda>i. p_state (procs (procinit demo_zero) i) = UNUSED) [0..<NPROC] = Some 0"
    by (intro find_first) auto
  have o: "p_ofile (procs (procinit demo_zero) 1) = replicate NOFILE None"
  proof -
    have "p_ofile (procs (fold (\<lambda>i. upd_proc i (\<lambda>p. p\<lparr>p_state := UNUSED, p_kstack := KSTACK i\<rparr>)) [0..<n] demo_zero) 1)
        = replicate NOFILE None" for n
      by (induction n) (auto simp: demo_zero_def zero_proc_def)
    then show ?thesis by (simp add: procinit_def)
  qed
  show ?thesis
    unfolding userinit_def allocproc_def f
    using o by (simp add: allocpid_def Let_def demo_kops_def lower_def lower_ret_def states_def)
qed

lemma demo_reach: "\<exists>st'. preach demo_kops 0 (st', \<lambda>_. Idle) \<and> initproc st' = Some 0 \<and> states st' 0 = RUNNABLE
    \<and> p_ofile (procs st' 1) = replicate NOFILE None"
proof -
  obtain st' where st': "userinit demo_kops 0 (procinit demo_zero) = Ok st'"
    "initproc st' = Some 0 \<and> states st' 0 = RUNNABLE \<and> p_ofile (procs st' 1) = replicate NOFILE None"
    using demo_boots by blast
  have "zero_table demo_zero"
    by (simp add: zero_table_def demo_zero_def zero_proc_def states_def pids_def parents_def)
  from preach.boot [OF this st'(1)] st'(2) show ?thesis by blast
qed


section \<open>Properties\<close>



text \<open>C14: No process is ever orphaned: in every reachable state every process except the first is
  either being created by a running \<open>fork\<close> or has a parent, and a parent is always a process that
  is alive (not free, not a zombie), so somebody can wait for it. The first process stays alive.\<close>

theorem every_process_has_a_living_parent:
  assumes "preach ops fr (st, k)"
  shows "(\<forall>i. p_state (procs st i) \<noteq> UNUSED \<and> initproc st \<noteq> Some i \<longrightarrow>
            (\<exists>p. p_parent (procs st i) = Some p \<or> k p = Forked i))
     \<and> (\<forall>i p. p_parent (procs st i) = Some p \<longrightarrow> live (p_state (procs st p)))
     \<and> (\<exists>i. initproc st = Some i \<and> live (p_state (procs st i)))"
proof -
  have "table_inv (st, k)" by (rule preach_inv [OF assms])
  note d = tree_invD [OF table_invD(3) [OF this], unfolded states_def parents_def]
  show ?thesis using d(1,4,9) by (metis option.exhaust)
qed

lemma every_process_has_a_living_parent_witness:
  "\<exists>st k i. preach demo_kops 0 (st, k) \<and> initproc st = Some i \<and> live (p_state (procs st i))"
proof -
  obtain st where st: "preach demo_kops 0 (st, \<lambda>_. Idle)" using demo_reach by blast
  from every_process_has_a_living_parent [OF this] st show ?thesis by blast
qed




definition zombie_child :: "nat \<Rightarrow> 'w kst \<Rightarrow> nat \<Rightarrow> bool" where
  "zombie_child me st i \<longleftrightarrow> p_parent (procs st i) = Some me \<and> p_state (procs st i) = ZOMBIE"

text \<open>The scan of \<open>wait2\<close> stops at the first zombie child of the list.\<close>

lemma wait2_scan_spec:
  assumes "wait2_scan ops me addr res is hk st = Ok (t, st')"
  shows "case find (zombie_child me st) is of
      Some i \<Rightarrow> t = Returned (p_pid (procs st i)) \<and> procs st' = (procs st)(i := cleared (procs st i))
             \<or> t = Returned (- 1) \<and> procs st' = procs st \<and> (addr \<noteq> 0 \<or> res \<noteq> 0)
    | None \<Rightarrow> procs st' = procs st \<and> t = (if (hk \<or> (\<exists>i \<in> set is. p_parent (procs st i) = Some me)) \<and> killed me st = 0
                                      then Sleeps else Returned (- 1))"
  using assms
proof (induction "is" arbitrary: hk)
  case Nil
  then show ?case by (auto split: if_splits)
next
  case (Cons i "is")
  show ?case
  proof (cases "zombie_child me st i")
    case False
    define hk' where "hk' = (hk \<or> p_parent (procs st i) = Some me)"
    have "wait2_scan ops me addr res is hk' st = Ok (t, st')"
      using Cons.prems False by (auto simp: zombie_child_def hk'_def split: if_splits)
    from Cons.IH [OF this] False show ?thesis
      by (cases "find (zombie_child me st) is") (auto simp: hk'_def)
  next
    case z: True
    then have z': "p_parent (procs st i) = Some me" "p_state (procs st i) = ZOMBIE"
      by (auto simp: zombie_child_def)
    obtain b1 st1 where 1: "copy_int ops me addr (p_xstate (procs st i)) st = Ok (b1, st1)"
      using Cons.prems z' by (auto simp: kbind_eq_Ok Let_def)
    have b1: "b1 \<Longrightarrow> addr \<noteq> 0" using 1 by (auto simp: copy_int_def)
    obtain w1 where w1: "st1 = st\<lparr>world := w1\<rparr>" using copy_int_world 1 by blast
    show ?thesis
    proof (cases b1)
      case True
      then have "t = Returned (- 1)" "st' = st1" using Cons.prems z' 1 by (auto simp: Let_def)
      then show ?thesis using z b1 True w1 by simp
    next
      case nb1: False
      obtain b2 st2 where 2: "copy_int ops me res (p_counter (procs st1 i)) st1 = Ok (b2, st2)"
        using Cons.prems 1 nb1 z' by (auto simp: kbind_eq_Ok Let_def)
      have b2: "b2 \<Longrightarrow> res \<noteq> 0" using 2 by (auto simp: copy_int_def)
      obtain w2 where w2: "st2 = st1\<lparr>world := w2\<rparr>" using copy_int_world 2 by blast
      show ?thesis
      proof (cases b2)
        case True
        then have "t = Returned (- 1)" "st' = st2" using Cons.prems z' 1 2 nb1 by (auto simp: Let_def)
        then show ?thesis using z b2 True w1 w2 by simp
      next
        case False
        then have "freeproc ops i st2 = Ok st'" and t: "t = Returned (p_pid (procs st i))"
          using Cons.prems 1 2 nb1 z' by (auto simp: Let_def kbind_eq_Ok)
        then obtain w3 where "st' = (upd_proc i cleared st2)\<lparr>world := w3\<rparr>" using freeproc_Ok by blast
        then show ?thesis using z t w1 w2 by simp
      qed
    qed
  qed
qed



lemma wait2_scan_zombie:
  assumes "\<forall>j \<in> set pre. \<not> zombie_child me st j" and "zombie_child me st i"
  shows "wait2_scan ops me addr res (pre @ i # post) hk st =
     kbind (copy_int ops me addr (p_xstate (procs st i)) st) (\<lambda>(bad, st').
        if bad then Ok (Returned (- 1), st') else
        kbind (copy_int ops me res (p_counter (procs st' i)) st') (\<lambda>(bad, st').
        if bad then Ok (Returned (- 1), st') else
        kbind (freeproc ops i st') (\<lambda>st'. Ok (Returned (p_pid (procs st i)), st'))))"
  using assms
proof (induction pre arbitrary: hk)
  case Nil
  then show ?case by (simp add: zombie_child_def Let_def)
next
  case (Cons j pre)
  then show ?case by (auto simp: zombie_child_def)
qed

text \<open>\<open>reparent\<close> and \<open>wakeup\<close> change nothing but states and parents.\<close>

lemma reparent_keeps:
  assumes s: "\<And>q x. f (q\<lparr>p_state := x\<rparr>) = f q" and p: "\<And>q x. f (q\<lparr>p_parent := x\<rparr>) = f q"
  shows "f (procs (wakeup ch me st) i) = f (procs st i)" and "f (procs (reparent pr st) i) = f (procs st i)"
proof -
  show w: "f (procs (wakeup ch me st) i) = f (procs st i)" for ch me st by (simp add: wakeup_procs s)
  have one: "f (procs (reparent_one pr j st) i) = f (procs st i)" for j st
    by (auto simp: reparent_one_def w p split: option.split)
  have "f (procs (fold (reparent_one pr) js st) i) = f (procs st i)" for js st
    by (induction js arbitrary: st) (simp_all add: one)
  then show "f (procs (reparent pr st) i) = f (procs st i)" by (simp add: reparent_def)
qed

lemma exit_zombie_keeps:
  assumes "\<And>q x. f (q\<lparr>p_state := x\<rparr>) = f q" and "\<And>q x. f (q\<lparr>p_parent := x\<rparr>) = f q"
    and "\<And>q x. f (q\<lparr>p_xstate := x\<rparr>) = f q"
  shows "f (procs (exit_zombie c me x st) i) = f (procs st i)"
proof -
  note k = reparent_keeps [of f, OF assms(1,2)]
  show ?thesis
    unfolding exit_zombie_def Let_def
    by (cases "p_parent (procs (reparent me st) me)") (simp_all add: switch_out_def assms k)
qed

text \<open>C17: An exit status reaches the parent. When process \<open>p\<close> exits with status \<open>x\<close>, a parent
  asleep in \<open>wait\<close> becomes runnable, and the parent's next turn of \<open>wait(addr)\<close> returns \<open>p\<close>'s pid
  after copying the four bytes of \<open>x\<close> to \<open>addr\<close>, provided the memory layers do their part (the
  copy succeeds, freeing does not panic) and no lower-numbered child is already waiting.\<close>

theorem exit_status_reaches_parent:
  assumes "p < NPROC" and "p_parent (procs st p) = Some q" and "q \<noteq> p" and "q < NPROC"
    and "\<And>j. j < p \<Longrightarrow> \<not> zombie_child q (exit_zombie c p x st) j"
    and "addr \<noteq> 0" and "k_copyout ops (p_pagetable (procs st q)) addr (bytes32 (of_int x)) (world st) = Ok (0, w1)"
    and "freeproc ops p ((exit_zombie c p x st)\<lparr>world := w1\<rparr>) = Ok st2"
  shows "wait1_turn ops q addr (exit_zombie c p x st) = Ok (Returned (p_pid (procs st p)), st2)
       \<and> (p_state (procs st q) = SLEEPING \<and> p_chan (procs st q) = Some (Proc_chan q) \<longrightarrow>
            p_state (procs (exit_zombie c p x st) q) = RUNNABLE)"
proof -
  let ?r = "reparent p st" and ?z = "exit_zombie c p x st"
  note e = exit_zombie_table [where c = c and me = p and x = x and st = st]
  have pr: "p_parent (procs ?r p) = Some q"
    using reparent_table [of st p] assms(2,3) by (auto simp: parents_def fun_eq_iff)
  have ze: "?z = switch_out c (upd_proc p (\<lambda>q. q\<lparr>p_xstate := x, p_state := ZOMBIE\<rparr>)
      (wakeup (Proc_chan q) (Some p) ?r))"
    by (simp add: exit_zombie_def pr)
  have wz: "world ?z = world st" using reparent_table [of st p] by (simp add: ze switch_out_def wakeup_rest)
  have xs: "p_xstate (procs ?z p) = x" "p_state (procs ?z p) = ZOMBIE" by (simp_all add: ze switch_out_def)
  have "p_parent (procs ?z p) = Some q" using fun_cong [OF e(3), of p] assms(2,3) by (simp add: parents_def)
  then have z: "zombie_child q ?z p" using xs by (simp add: zombie_child_def)
  have pid: "p_pid (procs ?z p) = p_pid (procs st p)" by (rule exit_zombie_keeps) simp_all
  have pt: "p_pagetable (procs ?z q) = p_pagetable (procs st q)" by (rule exit_zombie_keeps) simp_all
  have c1: "copy_int ops q addr (p_xstate (procs ?z p)) ?z = Ok (False, ?z\<lparr>world := w1\<rparr>)"
    using assms(6,7) by (simp add: copy_int_def pt wz xs lower_ret_def)
  have up: "[0..<NPROC] = [0..<p] @ p # [Suc p..<NPROC]"
    using assms(1) upt_add_eq_append [of 0 p "NPROC - p"] upt_conv_Cons [of p NPROC] by simp
  have "wait1_turn ops q addr ?z = Ok (Returned (p_pid (procs st p)), st2)"
    unfolding wait1_turn_def wait2_turn_def up
    using assms(5,8) z c1 pid by (subst wait2_scan_zombie) (auto simp: copy_int_def)
  moreover have "p_state (procs ?z q) = RUNNABLE"
    if "p_state (procs st q) = SLEEPING" "p_chan (procs st q) = Some (Proc_chan q)"
  proof -
    have ch: "p_chan (procs ?r q) = Some (Proc_chan q)"
      using reparent_keeps(2) [of p_chan p st q] that(2) by simp
    have "states ?r q = SLEEPING \<or> states ?r q = RUNNABLE"
      using reparent_table [of st p] that(1) unfolding woken_def by (metis states_def)
    then show ?thesis
      using ch assms(3,4) by (auto simp: ze switch_out_def wakeup_procs states_def)
  qed
  ultimately show ?thesis by blast
qed

lemma demo_frees: "\<exists>st'. freeproc demo_kops i st = Ok st'"
proof -
  have "lower (k_kfree demo_kops x) s = Ok s" "lower (k_proc_freepagetable demo_kops x y) s = Ok s" for x y s
    by (simp_all add: lower_def demo_kops_def)
  then show ?thesis by (simp add: freeproc_def Let_def)
qed

lemma exit_status_reaches_parent_witness:
  "\<exists>st st2. p_chan (procs st 0) = Some (Proc_chan 0)
     \<and> wait1_turn demo_kops 0 4096 (exit_zombie 0 1 7 st) = Ok (Returned 9, st2)
     \<and> p_state (procs (exit_zombie 0 1 7 st) 0) = RUNNABLE"
proof -
  define st where "st = demo_zero\<lparr>procs := (\<lambda>_. zero_proc)
      (0 := zero_proc\<lparr>p_state := SLEEPING, p_chan := Some (Proc_chan 0), p_pid := 8\<rparr>,
       1 := zero_proc\<lparr>p_state := RUNNING, p_pid := 9, p_parent := Some 0\<rparr>)\<rparr>"
  let ?z = "exit_zombie 0 1 7 st"
  have nz: "\<not> zombie_child 0 ?z j" if "j < 1" for j
  proof -
    have "parents ?z 0 = None"
      using fun_cong [OF exit_zombie_table(3) [where c = 0 and me = 1 and x = 7 and st = st], of 0]
      by (simp add: parents_def st_def zero_proc_def)
    then show ?thesis using that by (simp add: zombie_child_def parents_def)
  qed
  obtain st2 where f: "freeproc demo_kops 1 (?z\<lparr>world := ()\<rparr>) = Ok st2" using demo_frees by blast
  have "k_copyout demo_kops (p_pagetable (procs st 0)) 4096 (bytes32 (of_int 7)) (world st) = Ok (0, ())"
    by (simp add: demo_kops_def)
  moreover have "p_parent (procs st 1) = Some 0" "p_state (procs st 0) = SLEEPING"
    "p_chan (procs st 0) = Some (Proc_chan 0)" "p_pid (procs st 1) = 9"
    by (simp_all add: st_def)
  ultimately show ?thesis
    using exit_status_reaches_parent [of 1 st 0 0 7 4096 demo_kops "()" st2, OF _ _ _ _ nz _ _ f]
    by (intro exI [of _ st] exI [of _ st2]) simp
qed

text \<open>A slot of the process table is recycled without clearing its system call counter and its
  trace flag: free a process and let \<open>fork\<close> create the next one in its slot, and the new process
  starts with the counter that \<open>wait2\<close> reports and the \<open>strace\<close> setting of its predecessor.\<close>

theorem recycled_slot_keeps_counter:
  assumes "freeproc ops i st = Ok st1" and "fork_create ops fr me st1 = Ok (Some (i, pid), st2)"
    and "p_state (procs st1 me) \<noteq> UNUSED" and "length (p_ofile (procs st i)) = NOFILE"
  shows "p_counter (procs st2 i) = p_counter (procs st i) \<and> p_strace (procs st2 i) = p_strace (procs st i)"
proof -
  obtain w where w: "st1 = (upd_proc i cleared st)\<lparr>world := w\<rparr>" using freeproc_Ok [OF assms(1)] by blast
  have "states st1 me \<noteq> UNUSED" "length (p_ofile (procs st1 i)) = NOFILE"
    using assms(3,4) by (cases "me = i"; simp add: states_def w)+
  then show ?thesis using fork_create_Some(7) [OF assms(2)] by (auto simp: w)
qed

lemma recycled_slot_keeps_counter_witness:
  "\<exists>st st1 st2 pid. p_counter (procs st 0) = 21 \<and> freeproc demo_kops 0 st = Ok st1
     \<and> fork_create demo_kops 0 1 st1 = Ok (Some (0, pid), st2) \<and> p_counter (procs st2 0) = 21"
proof -
  define st where "st = demo_zero\<lparr>procs := (\<lambda>_. zero_proc)(0 := zero_proc\<lparr>p_state := ZOMBIE, p_pid := 8, p_counter := 21\<rparr>,
       1 := zero_proc\<lparr>p_state := RUNNING, p_pid := 9\<rparr>)\<rparr>"
  obtain st1 where 1: "freeproc demo_kops 0 st = Ok st1" using demo_frees by blast
  then obtain w where w: "st1 = (upd_proc 0 cleared st)\<lparr>world := w\<rparr>" using freeproc_Ok by blast
  have "find (\<lambda>i. p_state (procs st1 i) = UNUSED) [0..<NPROC] = Some 0"
    by (intro find_first) (simp_all add: w)
  then obtain X where X: "allocproc demo_kops 0 st1 = Ok (Some 0, X)"
    unfolding allocproc_def by (auto simp: allocpid_def Let_def demo_kops_def lower_ret_def)
  have ok: "lower_ret (k_uvmcopy demo_kops x y z) s = Ok (0, s)" "lower (k_filedup demo_kops f) s = Ok s"
    "lower (k_idup demo_kops g) s = Ok s" for x y z s f g
    by (simp_all add: lower_ret_def lower_def demo_kops_def)
  have dup: "\<exists>s'. kfold (dup_file demo_kops 1 0) is s = Ok s'" for s "is"
    by (induction "is" arbitrary: s) (auto simp: dup_file_def ok split: option.split)
  obtain Y where Y: "kfold (dup_file demo_kops 1 0) [0..<NOFILE]
      (upd_proc 0 (\<lambda>q. q\<lparr>p_sz := p_sz (procs X 1), p_tf := (p_tf (procs X 1))(A0 := 0)\<rparr>) X) = Ok Y"
    using dup by blast
  have "\<exists>pid st2. fork_create demo_kops 0 1 st1 = Ok (Some (0, pid), st2)"
    unfolding fork_create_def X by (simp add: ok Let_def) (use Y in \<open>simp add: ok Let_def\<close>)
  then obtain pid st2 where 2: "fork_create demo_kops 0 1 st1 = Ok (Some (0, pid), st2)" by blast
  have c: "p_counter (procs st 0) = 21" by (simp add: st_def)
  have "p_counter (procs st2 0) = 21"
    using recycled_slot_keeps_counter [OF 1 2] by (simp add: w st_def zero_proc_def)
  with c 1 2 show ?thesis by blast
qed

text \<open>\<open>kill(0)\<close> does not fail although no process has pid 0: it finds a free slot of the table
  (its pid is 0), reports success, and leaves \<open>killed\<close> set there, so the next process allocated in
  that slot is killed from birth.\<close>

theorem kill_0_poisons_free_slot:
  assumes "p_state (procs st i) = UNUSED" and "i < NPROC"
    and "\<And>j. p_pid (procs st j) = 0 \<longleftrightarrow> p_state (procs st j) = UNUSED"
    and "\<And>j. j < i \<Longrightarrow> p_state (procs st j) \<noteq> UNUSED"
  shows "fst (kill 0 st) = 0 \<and> p_state (procs (snd (kill 0 st)) i) = UNUSED
     \<and> (\<forall>r st'. allocproc ops fr (snd (kill 0 st)) = Ok (Some r, st') \<longrightarrow> r = i \<and> p_killed (procs st' r) = 1)"
proof -
  have f: "find (\<lambda>j. p_pid (procs st j) = 0) [0..<NPROC] = Some i"
    using assms by (auto simp: find_Some_iff intro!: exI [of _ i])
  then have k: "kill 0 st = (0, upd_proc i (\<lambda>p. p\<lparr>p_killed := 1, p_state :=
      (if p_state p = SLEEPING then RUNNABLE else p_state p)\<rparr>) st)" by (simp add: kill_def)
  let ?s = "snd (kill 0 st)"
  have s: "p_state (procs ?s j) = p_state (procs st j)" for j using assms(1) by (simp add: k)
  have "r = i \<and> p_killed (procs st' r) = 1" if a: "allocproc ops fr ?s = Ok (Some r, st')" for r st'
  proof -
    have "find (\<lambda>j. p_state (procs ?s j) = UNUSED) [0..<NPROC] = Some i"
      unfolding s using assms by (auto simp: find_Some_iff intro!: exI [of _ i])
    moreover have "find (\<lambda>j. p_state (procs ?s j) = UNUSED) [0..<NPROC] = Some r"
    proof (cases "find (\<lambda>j. p_state (procs ?s j) = UNUSED) [0..<NPROC]")
      case None
      then show ?thesis using a by (simp add: allocproc_def)
    next
      case (Some j)
      obtain tf w where "k_kalloc ops (world ?s) = (tf, w)" by fastforce
      with Some a have "j = r"
        by (auto simp: allocproc_def allocpid_def Let_def kbind_eq_Ok split: if_splits)
      with Some show ?thesis by simp
    qed
    ultimately have "r = i" by simp
    then show ?thesis using allocproc_Some(3) [OF a] by (auto simp: k)
  qed
  then show ?thesis using k s assms(1) by simp
qed

lemma kill_0_poisons_free_slot_witness:
  "fst (kill 0 demo_zero) = 0 \<and> (\<exists>st'. allocproc demo_kops 0 (snd (kill 0 demo_zero)) = Ok (Some 0, st')
      \<and> p_killed (procs st' 0) = 1)"
proof -
  have t: "fst (kill 0 demo_zero) = 0 \<and> p_state (procs (snd (kill 0 demo_zero)) 0) = UNUSED
     \<and> (\<forall>r st'. allocproc demo_kops 0 (snd (kill 0 demo_zero)) = Ok (Some r, st') \<longrightarrow> r = 0 \<and> p_killed (procs st' r) = 1)"
    by (rule kill_0_poisons_free_slot) (simp_all add: demo_zero_def zero_proc_def)
  then have "find (\<lambda>i. p_state (procs (snd (kill 0 demo_zero)) i) = UNUSED) [0..<NPROC] = Some 0"
    by (intro find_first) simp_all
  then have "\<exists>st'. allocproc demo_kops 0 (snd (kill 0 demo_zero)) = Ok (Some 0, st')"
    unfolding allocproc_def by (auto simp: allocpid_def Let_def demo_kops_def lower_ret_def)
  with t show ?thesis by blast
qed

end
