(* ===== verification/Uart.thy ===== *)
theory Uart imports Ring begin

text \<open>
  The serial port driver, kernel/uart.c: the transmit ring \<open>uart_tx_buf\<close> with its 64-bit
  counters, \<open>uartputc\<close>, \<open>uartstart\<close>, \<open>uartputc_sync\<close>, \<open>uartgetc\<close> and \<open>uartinit\<close>.

  The device is seen through its registers: \<open>ready k\<close> is the transmit-idle bit of LSR after \<open>k\<close>
  bytes were written to THR, \<open>thr\<close> the bytes written so far, \<open>rhr\<close> the input not yet read. The
  critical sections of \<open>uart_tx_lock\<close> are atomic. The theorem is that output is a queue: bytes
  reach THR in the order they were put, none lost or repeated.
\<close>

abbreviation UART_TX_BUF_SIZE :: nat where "UART_TX_BUF_SIZE \<equiv> 32"

record uart =
  tx_buf :: "u8 list"
  tx_w :: u64
  tx_r :: u64
  thr :: "u8 list"
  rhr :: "u8 list"
  regs :: "(nat \<times> u8) list"   \<comment> \<open>writes to the control registers, oldest first\<close>

section \<open>Operations\<close>

text \<open>The register writes of \<open>uartinit\<close>: IER is 1, FCR 2, LCR 3; 0 and 1 select the baud rate
  while the latch bit of LCR is set.\<close>

definition uartinit :: "uart \<Rightarrow> uart" where
  "uartinit u = u\<lparr>regs := regs u @ [(1, 0x00), (3, 0x80), (0, 0x03), (1, 0x00), (3, 0x03), (2, 0x07), (1, 0x03)]\<rparr>"

definition tx_put :: "u8 \<Rightarrow> uart \<Rightarrow> uart" where
  "tx_put c u = u\<lparr>tx_buf := (tx_buf u)[unat (tx_w u) mod UART_TX_BUF_SIZE := c], tx_w := tx_w u + 1\<rparr>"

definition tx_get :: "uart \<Rightarrow> u8 \<times> uart" where
  "tx_get u = (tx_buf u ! (unat (tx_r u) mod UART_TX_BUF_SIZE), u\<lparr>tx_r := tx_r u + 1\<rparr>)"

function uartstart :: "(nat \<Rightarrow> bool) \<Rightarrow> uart \<Rightarrow> uart" where
  "uartstart ready u =
     (if tx_w u = tx_r u then u
      else if \<not> ready (length (thr u)) then u
      else let (c, u) = tx_get u in uartstart ready (u\<lparr>thr := thr u @ [c]\<rparr>))"
  by pat_completeness auto
termination
proof (relation "measure (\<lambda>(ready, u). unat (tx_w u - tx_r u))", simp, clarsimp)
  fix ready u c v
  assume "tx_w u \<noteq> tx_r u" and "(c, v) = tx_get u"
  then have "tx_w v = tx_w u" "tx_r v = tx_r u + 1" by (simp_all add: tx_get_def)
  then show "unat (tx_w v - tx_r v) < unat (tx_w u - tx_r u)"
    using unat_diff_dec [OF \<open>tx_w u \<noteq> tx_r u\<close>] unat_diff_0_iff [of "tx_w u" "tx_r u"] \<open>tx_w u \<noteq> tx_r u\<close>
    by simp
qed

declare uartstart.simps [simp del]

text \<open>One turn of \<open>uartputc\<close>. \<open>Blocked\<close>: after a panic it spins for ever; with a full buffer it
  sleeps on \<open>uart_tx_r\<close> until \<open>uartstart\<close> made room.\<close>

definition uartputc :: "bool \<Rightarrow> (nat \<Rightarrow> bool) \<Rightarrow> u8 \<Rightarrow> uart \<Rightarrow> uart kres" where
  "uartputc panicked ready c u =
     (if panicked then Blocked
      else if tx_w u = tx_r u + of_nat UART_TX_BUF_SIZE then Blocked
      else Ok (uartstart ready (tx_put c u)))"

text \<open>\<open>uartputc_sync\<close> writes THR directly; \<open>Blocked\<close> while the device is not ready.\<close>

definition uartputc_sync :: "bool \<Rightarrow> (nat \<Rightarrow> bool) \<Rightarrow> u8 \<Rightarrow> uart \<Rightarrow> uart kres" where
  "uartputc_sync panicked ready c u =
     (if panicked then Blocked
      else if \<not> ready (length (thr u)) then Blocked
      else Ok (u\<lparr>thr := thr u @ [c]\<rparr>))"

definition uartgetc :: "uart \<Rightarrow> int \<times> uart" where
  "uartgetc u = (case rhr u of [] \<Rightarrow> (- 1, u) | c # cs \<Rightarrow> (uint c, u\<lparr>rhr := cs\<rparr>))"

section \<open>The transmit ring is a bounded queue\<close>

definition tx_count :: "uart \<Rightarrow> nat" where
  "tx_count u = unat (tx_w u - tx_r u)"

definition tx_elems :: "uart \<Rightarrow> u8 list" where
  "tx_elems u = ring_list (tx_buf u) (unat (tx_r u)) (tx_count u)"

definition tx_inv :: "uart \<Rightarrow> bool" where
  "tx_inv u \<longleftrightarrow> length (tx_buf u) = UART_TX_BUF_SIZE \<and> tx_count u \<le> UART_TX_BUF_SIZE"

lemma length_tx_elems [simp]: "length (tx_elems u) = tx_count u"
  by (simp add: tx_elems_def)

lemma tx_empty_iff: "tx_w u = tx_r u \<longleftrightarrow> tx_elems u = []"
  by (auto simp: tx_elems_def tx_count_def unat_diff_0_iff)

lemma unat_of_nat_32: "unat (of_nat 32 :: u64) = 32"
  by simp

lemma tx_full_iff: "tx_count u = 32 \<longleftrightarrow> tx_w u = tx_r u + 32"
proof
  assume "tx_count u = 32"
  then have "tx_w u - tx_r u = of_nat 32" unfolding tx_count_def by (metis word_unat_eq_iff unat_of_nat_32)
  then show "tx_w u = tx_r u + 32" by (simp add: diff_eq_eq add.commute)
next
  assume "tx_w u = tx_r u + 32"
  then show "tx_count u = 32" by (simp add: tx_count_def)
qed

lemma dvd_64: "(32 :: nat) dvd 2 ^ LENGTH(64)"
  by simp

lemma tx_put_elems:
  assumes "tx_inv u" and "tx_count u < UART_TX_BUF_SIZE"
  shows "tx_count (tx_put c u) = Suc (tx_count u)" and "tx_elems (tx_put c u) = tx_elems u @ [c]"
proof -
  show n: "tx_count (tx_put c u) = Suc (tx_count u)"
    using assms(2) unat_diff_inc [of "tx_w u" "tx_r u" 32] by (simp add: tx_count_def tx_put_def)
  have w: "unat (tx_w u) mod 32 = (unat (tx_r u) + tx_count u) mod 32"
    using unat_add_mod [OF dvd_64, of "tx_r u" "tx_count u"] by (simp add: tx_count_def)
  have "ring_list ((tx_buf u)[(unat (tx_r u) + tx_count u) mod length (tx_buf u) := c]) (unat (tx_r u)) (Suc (tx_count u))
      = ring_list (tx_buf u) (unat (tx_r u)) (tx_count u) @ [c]"
    using assms by (intro ring_list_push) (simp add: tx_inv_def)
  then show "tx_elems (tx_put c u) = tx_elems u @ [c]"
    using assms(1) n w by (simp add: tx_elems_def tx_put_def tx_inv_def)
qed

lemma tx_get_elems:
  assumes "tx_inv u" and "tx_elems u \<noteq> []"
  shows "tx_count (snd (tx_get u)) = tx_count u - 1" and "tx_elems u = fst (tx_get u) # tx_elems (snd (tx_get u))"
proof -
  have ne: "tx_w u \<noteq> tx_r u" using assms(2) tx_empty_iff by blast
  show n: "tx_count (snd (tx_get u)) = tx_count u - 1"
    using unat_diff_dec [OF ne] by (simp add: tx_count_def tx_get_def)
  have pos: "0 < tx_count u" using assms(2) by (simp add: tx_elems_def)
  have len: "length (tx_buf u) = 32" using assms(1) by (simp add: tx_inv_def)
  have "ring_list (tx_buf u) (Suc (unat (tx_r u))) m = ring_list (tx_buf u) (unat (tx_r u + 1)) m" for m
    using unat_Suc_mod [OF dvd_64, of "tx_r u"] by (intro ring_list_cong_mod) (simp add: len)
  then show "tx_elems u = fst (tx_get u) # tx_elems (snd (tx_get u))"
    using ring_list_pop [OF pos, of "tx_buf u" "unat (tx_r u)"] n len
    by (simp add: tx_elems_def tx_get_def)
qed

interpretation tq: bounded_fifo tx_put tx_get tx_elems tx_inv UART_TX_BUF_SIZE
proof unfold_locales
  fix q :: uart and x :: u8
  assume q: "tx_inv q"
  show "length (tx_elems q) \<le> UART_TX_BUF_SIZE" using q by (simp add: tx_inv_def)
  { assume l: "length (tx_elems q) < UART_TX_BUF_SIZE"
    then show "tx_elems (tx_put x q) = tx_elems q @ [x]" using tx_put_elems(2) [OF q] by simp
    show "tx_inv (tx_put x q)"
      using q l tx_put_elems(1) [OF q] by (simp add: tx_inv_def) (simp add: tx_put_def) }
  { assume ne: "tx_elems q \<noteq> []"
    show "fst (tx_get q) = hd (tx_elems q)" and "tx_elems (snd (tx_get q)) = tl (tx_elems q)"
      using tx_get_elems(2) [OF q ne] by (metis list.sel)+
    show "tx_inv (snd (tx_get q))"
      using q tx_get_elems(1) [OF q ne] unfolding tx_inv_def by (auto simp: tx_get_def) }
qed

section \<open>What goes out\<close>

text \<open>\<open>uartstart\<close> moves a prefix of the ring to THR.\<close>

lemma uartstart_spec:
  "tx_inv u \<Longrightarrow> tx_inv (uartstart ready u)
     \<and> thr (uartstart ready u) @ tx_elems (uartstart ready u) = thr u @ tx_elems u
     \<and> rhr (uartstart ready u) = rhr u
     \<and> (tx_elems (uartstart ready u) = [] \<or> \<not> ready (length (thr (uartstart ready u))))"
proof (induction ready u rule: uartstart.induct)
  case (1 ready u)
  show ?case
  proof (cases "tx_w u = tx_r u \<or> \<not> ready (length (thr u))")
    case True
    then have "uartstart ready u = u" by (subst uartstart.simps) auto
    then show ?thesis using True 1(2) tx_empty_iff by auto
  next
    case False
    obtain c v where g: "tx_get u = (c, v)" by fastforce
    let ?v = "v\<lparr>thr := thr v @ [c]\<rparr>"
    have step: "uartstart ready u = uartstart ready ?v"
      using False g by (subst uartstart.simps) simp
    have ne: "tx_elems u \<noteq> []" using False tx_empty_iff by blast
    have v: "thr v = thr u" "rhr v = rhr u" using g by (auto simp: tx_get_def)
    have "tx_inv v" "tx_elems u = c # tx_elems v"
      using tq.inv_get [OF 1(2) ne] tx_get_elems(2) [OF 1(2) ne] g by auto
    moreover have "tx_inv ?v = tx_inv v" "tx_elems ?v = tx_elems v"
      by (simp_all add: tx_inv_def tx_elems_def tx_count_def)
    ultimately show ?thesis
      using 1(1) [of "(c, v)" c v] False g v step by simp
  qed
qed

text \<open>Everything that can happen to the driver's transmit side.\<close>

inductive uart_trace :: "u8 list \<Rightarrow> uart \<Rightarrow> bool" where
  boot: "length (tx_buf u) = UART_TX_BUF_SIZE \<Longrightarrow> tx_w u = 0 \<Longrightarrow> tx_r u = 0 \<Longrightarrow> thr u = [] \<Longrightarrow>
    uart_trace [] (uartinit u)"
| putc: "uart_trace xs u \<Longrightarrow> uartputc panicked ready c u = Ok v \<Longrightarrow> uart_trace (xs @ [c]) v"
| intr: "uart_trace xs u \<Longrightarrow> uart_trace xs (uartstart ready u)"
| getc: "uart_trace xs u \<Longrightarrow> uart_trace xs (snd (uartgetc u))"

text \<open>C18: Serial output is a lossless queue. Whatever the order of \<open>uartputc\<close> calls, transmit
  interrupts and reads, and whatever the device answers, the bytes written to the transmit
  register followed by those in the ring are the bytes given to \<open>uartputc\<close>, in order; at most 32
  wait; and a call of \<open>uartstart\<close> leaves bytes waiting only if the device is busy.\<close>

theorem uart_output_is_lossless:
  assumes "uart_trace xs u"
  shows "thr u @ tx_elems u = xs \<and> length (tx_elems u) \<le> UART_TX_BUF_SIZE
     \<and> (tx_elems (uartstart ready u) = [] \<or> \<not> ready (length (thr (uartstart ready u))))"
proof -
  have "tx_inv u \<and> thr u @ tx_elems u = xs"
    using assms
  proof induction
    case (boot u)
    then show ?case by (simp add: uartinit_def tx_inv_def tx_elems_def tx_count_def)
  next
    case (putc xs u panicked ready c v)
    then have v: "v = uartstart ready (tx_put c u)" and ne: "tx_w u \<noteq> tx_r u + 32"
      by (auto simp: uartputc_def split: if_splits)
    have "tx_count u \<noteq> 32" using tx_full_iff ne by blast
    then have lt: "length (tx_elems u) < 32" using putc.IH by (simp add: tx_inv_def)
    have "thr (tx_put c u) = thr u" by (simp add: tx_put_def)
    then show ?case
      using uartstart_spec [OF tq.inv_put [of u c]] tq.elems_put [of u c] putc.IH lt by (auto simp: v)
  next
    case (intr xs u ready)
    have i: "tx_inv u" and e: "thr u @ tx_elems u = xs" using intr.IH by blast+
    show ?case using uartstart_spec [OF i, of ready] e by simp
  next
    case (getc xs u)
    then show ?case
      by (auto simp: uartgetc_def tx_inv_def tx_elems_def tx_count_def split: list.split)
  qed
  then show ?thesis using uartstart_spec [of u ready] by (auto simp: tx_inv_def)
qed

lemma uart_output_is_lossless_witness:
  "\<exists>u. uart_trace [72, 105] u \<and> thr u @ tx_elems u = [72, 105]"
proof -
  define u0 where "u0 = uartinit \<lparr>tx_buf = replicate 32 0, tx_w = 0, tx_r = 0, thr = [], rhr = [], regs = []\<rparr>"
  have t0: "uart_trace [] u0" unfolding u0_def by (rule uart_trace.boot) simp_all
  obtain u1 where u1: "uartputc False (\<lambda>_. False) 72 u0 = Ok u1" "tx_w u1 = 1" "tx_r u1 = 0"
    by (simp add: uartputc_def u0_def uartinit_def tx_put_def uartstart.simps)
  then obtain u2 where u2: "uartputc False (\<lambda>_. True) 105 u1 = Ok u2"
    by (simp add: uartputc_def)
  have "uart_trace (([] @ [72]) @ [105]) u2"
    by (rule uart_trace.putc [OF uart_trace.putc [OF t0 u1(1)] u2])
  then have "uart_trace [72, 105] u2" by simp
  with uart_output_is_lossless [OF this] show ?thesis by blast
qed

end
