(* ===== verification/Console.thy ===== *)
theory Console imports Uart begin

text \<open>
  The console, kernel/console.c: the input ring \<open>cons\<close> with its three free-running 32-bit
  counters (\<open>r\<close> read, \<open>w\<close> written, \<open>e\<close> edited), the interrupt handler \<open>consoleintr\<close> that does
  the line editing, \<open>consoleread\<close> and \<open>consolewrite\<close>, and \<open>uartintr\<close> of kernel/uart.c, which
  feeds the handler.

  What is promised is stated on an abstract line editor: the bytes from \<open>r\<close> to \<open>w\<close> are the
  committed input, those from \<open>w\<close> to \<open>e\<close> the line being edited. The critical sections of
  \<open>cons.lock\<close> are atomic; \<open>consoleread\<close> is one turn of its loop, up to the next sleep.
\<close>

abbreviation INPUT_BUF_SIZE :: nat where "INPUT_BUF_SIZE \<equiv> 128"
abbreviation BACKSPACE :: int where "BACKSPACE \<equiv> 0x100"

text \<open>The macro \<open>C(x)\<close>: \<open>C('P')\<close> is 16, \<open>C('U')\<close> 21, \<open>C('H')\<close> 8 and \<open>C('D')\<close> 4.\<close>

definition ctrl :: "char \<Rightarrow> int" where
  "ctrl x = int (of_char x) - int (of_char (CHR 0x40))"

lemma ctrl_values [simp]:
  "ctrl (CHR ''P'') = 16" "ctrl (CHR ''U'') = 21" "ctrl (CHR ''H'') = 8" "ctrl (CHR ''D'') = 4"
  by (simp_all add: ctrl_def)

record console =
  cons_buf :: "u8 list"
  cons_r :: u32
  cons_w :: u32
  cons_e :: u32
  con_uart :: uart

section \<open>Operations\<close>

definition consputc :: "bool \<Rightarrow> (nat \<Rightarrow> bool) \<Rightarrow> int \<Rightarrow> uart \<Rightarrow> uart kres" where
  "consputc panicked ready c u =
     (if c = BACKSPACE then
        kbind (uartputc_sync panicked ready 8 u) (\<lambda>u.
        kbind (uartputc_sync panicked ready 32 u) (\<lambda>u.
        uartputc_sync panicked ready 8 u))
      else uartputc_sync panicked ready (word_of_int c) u)"

definition con_putc :: "bool \<Rightarrow> (nat \<Rightarrow> bool) \<Rightarrow> int \<Rightarrow> console \<Rightarrow> console kres" where
  "con_putc panicked ready c s =
     kbind (consputc panicked ready c (con_uart s)) (\<lambda>u. Ok (s\<lparr>con_uart := u\<rparr>))"

text \<open>The loop of the case \<open>C('U')\<close>.\<close>

function kill_line :: "bool \<Rightarrow> (nat \<Rightarrow> bool) \<Rightarrow> console \<Rightarrow> console kres" where
  "kill_line panicked ready s =
     (if cons_e s \<noteq> cons_w s \<and> cons_buf s ! (unat (cons_e s - 1) mod INPUT_BUF_SIZE) \<noteq> 10 then
        kbind (con_putc panicked ready BACKSPACE (s\<lparr>cons_e := cons_e s - 1\<rparr>)) (kill_line panicked ready)
      else Ok s)"
  by pat_completeness auto
termination
proof (relation "measure (\<lambda>(p, ready, s). unat (cons_e s - cons_w s))", simp, clarsimp)
  fix p ready s t
  assume ne: "cons_e s \<noteq> cons_w s" and "con_putc p ready BACKSPACE (s\<lparr>cons_e := cons_e s - 1\<rparr>) = Ok t"
  then have "cons_e t = cons_e s - 1" "cons_w t = cons_w s"
    by (auto simp: con_putc_def kbind_eq_Ok)
  moreover have "unat (cons_e s - cons_w s) \<noteq> 0" using ne unat_diff_0_iff by blast
  moreover have "cons_e s - 1 - cons_w s = (cons_e s - cons_w s) - 1" by simp
  ultimately show "unat (cons_e t - cons_w t) < unat (cons_e s - cons_w s)"
    using unat_dec [of "cons_e s - cons_w s"] ne by (simp only:) auto
qed

declare kill_line.simps [simp del]

text \<open>
  The end of the default case: store the byte, and commit the line when it is complete. The
  second component of the result is whether \<open>wakeup(&cons.r)\<close> was called.
\<close>

definition store_input :: "int \<Rightarrow> console \<Rightarrow> console \<times> bool" where
  "store_input c s =
     (let s = s\<lparr>cons_buf := (cons_buf s)[unat (cons_e s) mod INPUT_BUF_SIZE := word_of_int c],
                cons_e := cons_e s + 1\<rparr> in
      if c = 10 \<or> c = ctrl (CHR ''D'') \<or> cons_e s - cons_r s = of_nat INPUT_BUF_SIZE
      then (s\<lparr>cons_w := cons_e s\<rparr>, True)
      else (s, False))"

text \<open>
  The interrupt handler. \<open>dump\<close> is the text \<open>procdump\<close> prints through \<open>consputc\<close>. \<close>

definition consoleintr ::
    "u8 list \<Rightarrow> bool \<Rightarrow> (nat \<Rightarrow> bool) \<Rightarrow> int \<Rightarrow> console \<Rightarrow> (console \<times> bool) kres" where
  "consoleintr dump panicked ready c s =
     (if c = ctrl (CHR ''P'') then
        kbind (kfold (\<lambda>x. con_putc panicked ready (uint x)) dump s) (\<lambda>s. Ok (s, False))
      else if c = ctrl (CHR ''U'') then
        kbind (kill_line panicked ready s) (\<lambda>s. Ok (s, False))
      else if c = ctrl (CHR ''H'') \<or> c = 0x7f then
        (if cons_e s \<noteq> cons_w s then
           kbind (con_putc panicked ready BACKSPACE (s\<lparr>cons_e := cons_e s - 1\<rparr>)) (\<lambda>s. Ok (s, False))
         else Ok (s, False))
      else if c \<noteq> 0 \<and> cons_e s - cons_r s < of_nat INPUT_BUF_SIZE then
        let c = (if c = 13 then 10 else c) in
        kbind (con_putc panicked ready c s) (\<lambda>s. Ok (store_input c s))
      else Ok (s, False))"

text \<open>
  \<open>consoleread\<close> up to the end or the next sleep. \<open>copy a b\<close> is whether \<open>either_copyout\<close> of the
  byte \<open>b\<close> to address \<open>a\<close> succeeds; \<open>out\<close> collects the bytes stored, in order. \<open>ReadSleep n\<close>
  resumes with \<open>n\<close> bytes still wanted.
\<close>

datatype read_result = ReadRet int | ReadSleep int

function consoleread_loop ::
    "bool \<Rightarrow> (u64 \<Rightarrow> u8 \<Rightarrow> bool) \<Rightarrow> int \<Rightarrow> u64 \<Rightarrow> int \<Rightarrow> u8 list \<Rightarrow> console \<Rightarrow> read_result \<times> u8 list \<times> console" where
  "consoleread_loop kld copy target dst n out s =
     (if n > 0 then
        if cons_r s = cons_w s then (if kld then (ReadRet (- 1), out, s) else (ReadSleep n, out, s))
        else
          let c = cons_buf s ! (unat (cons_r s) mod INPUT_BUF_SIZE);
              s = s\<lparr>cons_r := cons_r s + 1\<rparr> in
          if uint c = ctrl (CHR ''D'') then
            (if n < target then (ReadRet (target - n), out, s\<lparr>cons_r := cons_r s - 1\<rparr>)
             else (ReadRet (target - n), out, s))
          else if \<not> copy dst c then (ReadRet (target - n), out, s)
          else if c = 10 then (ReadRet (target - (n - 1)), out @ [c], s)
          else consoleread_loop kld copy target (dst + 1) (n - 1) (out @ [c]) s
      else (ReadRet (target - n), out, s))"
  by pat_completeness auto
termination
  by (relation "measure (\<lambda>(k, copy, t, d, n, out, s). nat n)") auto

declare consoleread_loop.simps [simp del]

definition consoleread ::
    "bool \<Rightarrow> (u64 \<Rightarrow> u8 \<Rightarrow> bool) \<Rightarrow> u64 \<Rightarrow> int \<Rightarrow> console \<Rightarrow> read_result \<times> u8 list \<times> console" where
  "consoleread kld copy dst n s = consoleread_loop kld copy n dst n [] s"

text \<open>
  \<open>consolewrite\<close>, up to the first \<open>uartputc\<close> that has to wait. \<open>fetch a\<close> is \<open>either_copyin\<close> of
  the byte at address \<open>a\<close>. The result is \<open>i\<close>, and whether the call is over.
\<close>

function consolewrite_loop ::
    "bool \<Rightarrow> (nat \<Rightarrow> bool) \<Rightarrow> (u64 \<Rightarrow> u8 option) \<Rightarrow> u64 \<Rightarrow> int \<Rightarrow> int \<Rightarrow> uart \<Rightarrow> int \<times> bool \<times> uart" where
  "consolewrite_loop panicked ready fetch src n i u =
     (if i < n then
        case fetch (src + word_of_int i) of
          None \<Rightarrow> (i, True, u)
        | Some c \<Rightarrow> (case uartputc panicked ready c u of
                      Ok v \<Rightarrow> consolewrite_loop panicked ready fetch src n (i + 1) v
                    | _ \<Rightarrow> (i, False, u))
      else (i, True, u))"
  by pat_completeness auto
termination
  by (relation "measure (\<lambda>(p, rd, f, s, n, i, u). nat (n - i))") auto

declare consolewrite_loop.simps [simp del]

definition consolewrite ::
    "bool \<Rightarrow> (nat \<Rightarrow> bool) \<Rightarrow> (u64 \<Rightarrow> u8 option) \<Rightarrow> u64 \<Rightarrow> int \<Rightarrow> uart \<Rightarrow> int \<times> bool \<times> uart" where
  "consolewrite panicked ready fetch src n u = consolewrite_loop panicked ready fetch src n 0 u"

section \<open>Echo\<close>

definition echo_of :: "int \<Rightarrow> u8 list" where
  "echo_of c = (if c = BACKSPACE then [8, 32, 8] else [word_of_int c])"

definition con_echo :: "u8 list \<Rightarrow> console \<Rightarrow> console" where
  "con_echo bs s = s\<lparr>con_uart := (con_uart s)\<lparr>thr := thr (con_uart s) @ bs\<rparr>\<rparr>"

lemma con_echo_simps [simp]:
  "cons_buf (con_echo bs s) = cons_buf s" "cons_r (con_echo bs s) = cons_r s"
  "cons_w (con_echo bs s) = cons_w s" "cons_e (con_echo bs s) = cons_e s"
  "thr (con_uart (con_echo bs s)) = thr (con_uart s) @ bs"
  "rhr (con_uart (con_echo bs s)) = rhr (con_uart s)"
  "tx_inv (con_uart (con_echo bs s)) = tx_inv (con_uart s)"
  "con_echo bs (con_echo as s) = con_echo (as @ bs) s" "con_echo [] s = s"
  by (simp_all add: con_echo_def tx_inv_def tx_count_def)

text \<open>The output routine either echoes or spins, and it spins only after a panic or while the
  device is busy.\<close>

definition echoes :: "bool \<Rightarrow> (nat \<Rightarrow> bool) \<Rightarrow> u8 list \<Rightarrow> console \<Rightarrow> console kres \<Rightarrow> bool" where
  "echoes panicked ready bs s m \<longleftrightarrow>
     m = Ok (con_echo bs s) \<or> (m = Blocked \<and> (panicked \<or> (\<exists>k. \<not> ready k)))"

lemma con_putc_echoes: "echoes p ready (echo_of c) s (con_putc p ready c s)"
  by (auto simp: echoes_def con_putc_def consputc_def uartputc_sync_def echo_of_def con_echo_def)

lemma con_putc_OkD: "con_putc p ready c s = Ok t \<Longrightarrow> t = con_echo (echo_of c) s"
  using con_putc_echoes [of p ready c s] by (auto simp: echoes_def)

lemma echoes_kbind:
  "echoes p ready as s m \<Longrightarrow> (\<And>t. t = con_echo as s \<Longrightarrow> echoes p ready bs t (f t))
     \<Longrightarrow> echoes p ready (as @ bs) s (kbind m f)"
  by (auto simp: echoes_def)

lemma con_puts_echoes: "echoes p ready dump s (kfold (\<lambda>x. con_putc p ready (uint x)) dump s)"
proof (induction dump arbitrary: s)
  case Nil
  then show ?case by (simp add: echoes_def)
next
  case (Cons x dump)
  have "uint x \<noteq> BACKSPACE" using uint_lt2p [of x] by (intro notI) simp
  then have "echo_of (uint x) = [x]" by (simp add: echo_of_def)
  then show ?case
    using echoes_kbind [OF con_putc_echoes [of p ready "uint x" s] Cons.IH] by simp
qed

section \<open>The abstract line editor\<close>

definition committed :: "console \<Rightarrow> u8 list" where
  "committed s = ring_list (cons_buf s) (unat (cons_r s)) (unat (cons_w s - cons_r s))"

definition editing :: "console \<Rightarrow> u8 list" where
  "editing s = ring_list (cons_buf s) (unat (cons_w s)) (unat (cons_e s - cons_w s))"

definition cinv :: "console \<Rightarrow> bool" where
  "cinv s \<longleftrightarrow> length (cons_buf s) = INPUT_BUF_SIZE
     \<and> length (committed s) + length (editing s) \<le> INPUT_BUF_SIZE
     \<and> 10 \<notin> set (editing s)"

text \<open>What a key does to the committed input and the line being edited.\<close>

definition edit_line :: "u8 \<Rightarrow> u8 list \<times> u8 list \<Rightarrow> u8 list \<times> u8 list" where
  "edit_line c = (\<lambda>(com, ed).
     if c = 16 then (com, ed)
     else if c = 21 then (com, [])
     else if c = 8 \<or> c = 127 then (com, butlast ed)
     else if c = 0 \<or> length com + length ed = INPUT_BUF_SIZE then (com, ed)
     else let ed' = ed @ [if c = 13 then 10 else c] in
       if c = 13 \<or> c = 10 \<or> c = 4 \<or> length com + length ed' = INPUT_BUF_SIZE then (com @ ed', [])
       else (com, ed'))"

text \<open>What it shows on the screen.\<close>

definition edit_echo :: "u8 list \<Rightarrow> u8 \<Rightarrow> u8 list \<times> u8 list \<Rightarrow> u8 list" where
  "edit_echo dump c = (\<lambda>(com, ed).
     if c = 16 then dump
     else if c = 21 then concat (replicate (length ed) [8, 32, 8])
     else if c = 8 \<or> c = 127 then (if ed = [] then [] else [8, 32, 8])
     else if c = 0 \<or> length com + length ed = INPUT_BUF_SIZE then []
     else [if c = 13 then 10 else c])"

lemma con_echo_lists [simp]:
  "committed (con_echo bs s) = committed s" "editing (con_echo bs s) = editing s"
  "cinv (con_echo bs s) = cinv s"
  by (simp_all add: cinv_def committed_def editing_def)

lemma length_con_lists [simp]:
  "length (committed s) = unat (cons_w s - cons_r s)" "length (editing s) = unat (cons_e s - cons_w s)"
  by (simp_all add: committed_def editing_def)

lemma editing_Nil_iff: "editing s = [] \<longleftrightarrow> cons_e s = cons_w s"
  by (auto simp: editing_def unat_diff_0_iff)

lemma dvd_32: "(128 :: nat) dvd 2 ^ LENGTH(32)"
  by simp

lemma unat_buffered:
  assumes "cinv s"
  shows "unat (cons_e s - cons_r s) = unat (cons_w s - cons_r s) + unat (cons_e s - cons_w s)"
proof -
  have eq: "cons_e s - cons_r s = (cons_w s - cons_r s) + (cons_e s - cons_w s)" by simp
  have "unat (cons_w s - cons_r s) + unat (cons_e s - cons_w s) < 2 ^ LENGTH(32)"
    using assms by (simp add: cinv_def)
  then show ?thesis unfolding eq by (rule unat_add_lem [THEN iffD1])
qed

lemma ring_list_add:
  "ring_list buf r (m + n) = ring_list buf r m @ ring_list buf (r + m) n"
proof (induction n)
  case (Suc n)
  then show ?case by (simp add: ring_list_Suc add.assoc)
qed simp

lemma unat_via_diff:
  fixes a b :: u32
  shows "unat a mod 128 = (unat b + unat (a - b)) mod 128"
  using unat_add_mod [OF dvd_32, of b "unat (a - b)"] by simp

lemma con_lists_append:
  assumes "cinv s"
  shows "committed s @ editing s = ring_list (cons_buf s) (unat (cons_r s)) (unat (cons_e s - cons_r s))"
proof -
  have "ring_list (cons_buf s) (unat (cons_r s) + unat (cons_w s - cons_r s)) n
      = ring_list (cons_buf s) (unat (cons_w s)) n" for n
    using unat_via_diff [of "cons_w s" "cons_r s"] assms
    by (intro ring_list_cong_mod) (simp add: cinv_def)
  then show ?thesis
    using unat_buffered [OF assms] by (simp add: ring_list_add committed_def editing_def)
qed

section \<open>The cases of the handler\<close>

text \<open>Dropping the last byte of the line.\<close>

lemma edit_drop:
  assumes "cinv s" and "cons_e s \<noteq> cons_w s"
  defines "t \<equiv> s\<lparr>cons_e := cons_e s - 1\<rparr>"
  shows "committed t = committed s" and "editing t = butlast (editing s)" and "cinv t"
    and "editing s = editing t @ [cons_buf s ! (unat (cons_e s - 1) mod INPUT_BUF_SIZE)]"
proof -
  let ?n = "unat (cons_e s - 1 - cons_w s)"
  have len: "length (cons_buf s) = 128" using assms(1) by (simp add: cinv_def)
  have n: "unat (cons_e s - cons_w s) = Suc ?n"
    using assms(2) unat_diff_0_iff [of "cons_e s" "cons_w s"] unat_dec [of "cons_e s - cons_w s"]
    by (simp add: algebra_simps)
  have idx: "unat (cons_e s - 1) mod 128 = (unat (cons_w s) + ?n) mod 128"
    by (rule unat_via_diff)
  show c: "committed t = committed s" by (simp add: t_def committed_def)
  have e: "editing s = editing t @ [cons_buf s ! (unat (cons_e s - 1) mod INPUT_BUF_SIZE)]"
    by (simp add: t_def editing_def n ring_list_Suc len idx)
  then show "editing s = editing t @ [cons_buf s ! (unat (cons_e s - 1) mod INPUT_BUF_SIZE)]" .
  from e show b: "editing t = butlast (editing s)" by simp
  have "length (editing t) \<le> length (editing s)" "set (editing t) \<subseteq> set (editing s)"
    using e by auto
  then show "cinv t" using assms(1) c len unfolding cinv_def by (auto simp: t_def)
qed

lemma kill_line_echoes:
  assumes "cinv s"
  shows "echoes p ready (concat (replicate (length (editing s)) [8, 32, 8])) (s\<lparr>cons_e := cons_w s\<rparr>)
           (kill_line p ready s)"
  using assms
proof (induction p ready s rule: kill_line.induct)
  case (1 p ready s)
  show ?case
  proof (cases "cons_e s = cons_w s")
    case True
    then have "s\<lparr>cons_e := cons_w s\<rparr> = s" by simp
    then show ?thesis using True by (subst kill_line.simps) (simp add: echoes_def)
  next
    case False
    let ?t = "s\<lparr>cons_e := cons_e s - 1\<rparr>"
    let ?c = "cons_buf s ! (unat (cons_e s - 1) mod INPUT_BUF_SIZE)"
    note d = edit_drop [OF 1(2) False]
    have c10: "?c \<noteq> 10" using 1(2) d(4) unfolding cinv_def by (metis in_set_conv_decomp)
    have unf: "kill_line p ready s = kbind (con_putc p ready BACKSPACE ?t) (kill_line p ready)"
      using False c10 by (subst kill_line.simps) simp
    show ?thesis
    proof (cases "con_putc p ready BACKSPACE ?t")
      case (Ok u)
      then have u: "u = con_echo [8, 32, 8] ?t" using con_putc_OkD by (fastforce simp: echo_of_def)
      have "echoes p ready (concat (replicate (length (editing u)) [8, 32, 8])) (u\<lparr>cons_e := cons_w u\<rparr>)
              (kill_line p ready u)"
        using 1(1) [OF conjI [OF False c10] Ok] d(3) u by simp
      moreover have "u\<lparr>cons_e := cons_w u\<rparr> = con_echo [8, 32, 8] (s\<lparr>cons_e := cons_w s\<rparr>)"
        by (simp add: u con_echo_def)
      moreover have "length (editing s) = Suc (length (editing u))"
        using arg_cong [OF d(4), of length] u by (simp del: length_con_lists)
      ultimately show ?thesis using Ok unf by (simp add: echoes_def del: length_con_lists)
    next
      case Blocked
      then show ?thesis
        using con_putc_echoes [of p ready BACKSPACE ?t] unf by (simp add: echoes_def)
    qed (use con_putc_echoes [of p ready BACKSPACE ?t] in \<open>simp_all add: echoes_def\<close>)
  qed
qed

text \<open>Appending a byte.\<close>

lemma edit_append:
  fixes s :: console and d :: u8
  assumes "cinv s" and lt: "unat (cons_e s - cons_r s) < INPUT_BUF_SIZE"
  defines "t \<equiv> s\<lparr>cons_buf := (cons_buf s)[unat (cons_e s) mod INPUT_BUF_SIZE := d], cons_e := cons_e s + 1\<rparr>"
  shows "committed t = committed s" and "editing t = editing s @ [d]"
    and "unat (cons_e t - cons_r t) = Suc (unat (cons_e s - cons_r s))"
    and "committed (t\<lparr>cons_w := cons_e t\<rparr>) = committed s @ editing s @ [d]"
    and "editing (t\<lparr>cons_w := cons_e t\<rparr>) = []"
proof -
  have len: "length (cons_buf s) = 128" using assms(1) by (simp add: cinv_def)
  note b = unat_buffered [OF assms(1)]
  have idx: "unat (cons_e s) mod 128 = (unat (cons_w s) + unat (cons_e s - cons_w s)) mod 128"
    and idr: "unat (cons_e s) mod 128 = (unat (cons_r s) + unat (cons_e s - cons_r s)) mod 128"
    by (rule unat_via_diff)+
  show suc: "unat (cons_e t - cons_r t) = Suc (unat (cons_e s - cons_r s))"
    using unat_diff_inc [OF lt] by (simp add: t_def)
  have sucw: "unat (cons_e s + 1 - cons_w s) = Suc (unat (cons_e s - cons_w s))"
    using unat_diff_inc [of "cons_e s" "cons_w s" 128] lt b by simp
  have m: "unat (cons_e s - cons_w s) < length (cons_buf s)" using lt b len by simp
  show "editing t = editing s @ [d]"
    using ring_list_push [OF m, where x = d and r = "unat (cons_w s)"] idx sucw len
    by (simp add: editing_def t_def)
  have m2: "unat (cons_e s - cons_r s) < length (cons_buf s)" using lt len by simp
  show "committed t = committed s"
    using ring_list_update_outside [OF _ m2, of "unat (cons_w s - cons_r s)" "unat (cons_r s)" d] idr len b
    by (simp add: committed_def t_def)
  show "committed (t\<lparr>cons_w := cons_e t\<rparr>) = committed s @ editing s @ [d]"
    using ring_list_push [OF m2, where x = d and r = "unat (cons_r s)"] idr suc len
      con_lists_append [OF assms(1)]
    by (simp add: committed_def [of "_\<lparr>cons_w := _\<rparr>"] t_def)
  show "editing (t\<lparr>cons_w := cons_e t\<rparr>) = []" by (simp add: editing_def)
qed

lemma uint_u8_eq_iff [simp]:
  fixes c :: u8
  shows "(uint c = 16) = (c = 16)" "(uint c = 21) = (c = 21)" "(uint c = 8) = (c = 8)" "(uint c = 127) = (c = 127)"
    "(uint c = 13) = (c = 13)" "(uint c = 10) = (c = 10)" "(uint c = 4) = (c = 4)" "(uint c = 0) = (c = 0)"
  by (simp_all add: word_uint_eq_iff)

text \<open>A printable byte, or one that ends the line, when there is room.\<close>

lemma consoleintr_store:
  fixes c :: u8
  assumes inv: "cinv s" and c: "c \<notin> {0, 8, 16, 21, 127}"
    and room: "length (committed s) + length (editing s) \<noteq> INPUT_BUF_SIZE"
    and m: "consoleintr dump p ready (uint c) s = Ok (t, woke)"
  shows "cinv t \<and> (committed t, editing t) = edit_line c (committed s, editing s)
    \<and> thr (con_uart t) = thr (con_uart s) @ [if c = 13 then 10 else c]
    \<and> (woke \<longleftrightarrow> committed t \<noteq> committed s)"
proof -
  define d :: u8 where "d = (if c = 13 then 10 else c)"
  define di :: int where "di = (if c = 13 then 10 else uint c)"
  have di: "word_of_int di = d" "(di = 10) = (d = 10)" "(di = 4) = (d = 4)"
    by (auto simp: di_def d_def)
  have lt: "unat (cons_e s - cons_r s) < INPUT_BUF_SIZE"
    using room inv unat_buffered [OF inv] by (simp add: cinv_def)
  then have ltw: "cons_e s - cons_r s < 128" by (simp add: word_less_nat_alt)
  have "echo_of di = [d]"
    using uint_lt2p [of c] di(1) by (auto simp: echo_of_def di_def split: if_splits)
  then obtain u where u: "u = con_echo [d] s" and rest: "store_input di u = (t, woke)"
    using m c ltw by (auto simp: consoleintr_def di_def [symmetric] Let_def kbind_eq_Ok dest!: con_putc_OkD)
  define v where "v = u\<lparr>cons_buf := (cons_buf u)[unat (cons_e u) mod INPUT_BUF_SIZE := d], cons_e := cons_e u + 1\<rparr>"
  have store: "(t, woke) = (if d = 10 \<or> d = 4 \<or> cons_e v - cons_r v = of_nat INPUT_BUF_SIZE
      then (v\<lparr>cons_w := cons_e v\<rparr>, True) else (v, False))"
    unfolding rest [symmetric] store_input_def Let_def ctrl_values di v_def ..
  have ui: "cinv u" "unat (cons_e u - cons_r u) < INPUT_BUF_SIZE" using inv lt by (simp_all add: u)
  note app = edit_append [OF ui, of d, folded v_def]
  have lists: "committed u = committed s" "editing u = editing s" by (simp_all add: u)
  have len: "length (cons_buf v) = 128" using inv by (simp add: v_def u cinv_def)
  have full: "cons_e v - cons_r v = of_nat INPUT_BUF_SIZE
      \<longleftrightarrow> length (committed s) + length (editing s @ [d]) = INPUT_BUF_SIZE"
    using app(3) unat_buffered [OF inv] by (simp add: word_unat_eq_iff u)
  have thr: "thr (con_uart v) = thr (con_uart s) @ [d]" by (simp add: v_def u)
  have cd: "(c = 13 \<or> c = 10 \<or> c = 4) = (d = 10 \<or> d = 4)" by (auto simp: d_def)
  show ?thesis
  proof (cases "d = 10 \<or> d = 4 \<or> cons_e v - cons_r v = of_nat INPUT_BUF_SIZE")
    case True
    then have t: "t = v\<lparr>cons_w := cons_e v\<rparr>" "woke" using store by simp_all
    have c': "committed t = committed s @ editing s @ [d]" "editing t = []"
      using app(4,5) lists by (simp_all add: t)
    moreover have "length (committed s @ editing s @ [d]) \<le> INPUT_BUF_SIZE"
      using lt unat_buffered [OF inv] by simp
    moreover have "edit_line c (committed s, editing s) = (committed s @ editing s @ [d], [])"
      using c room True full cd by (simp add: edit_line_def d_def [symmetric] Let_def del: length_con_lists) blast
    ultimately show ?thesis
      using len thr unfolding cinv_def by (simp add: t d_def [symmetric] del: length_con_lists)
  next
    case False
    then have t: "t = v" "\<not> woke" using store by simp_all
    have c': "committed t = committed s" "editing t = editing s @ [d]"
      using app(1,2) lists by (simp_all add: t)
    moreover have "length (committed s) + length (editing s @ [d]) \<le> INPUT_BUF_SIZE"
      using lt unat_buffered [OF inv] by simp
    moreover have "edit_line c (committed s, editing s) = (committed s, editing s @ [d])"
      using c room False full cd by (simp add: edit_line_def d_def Let_def del: length_con_lists)
    moreover have "10 \<notin> set (editing s @ [d])" using inv False by (simp add: cinv_def)
    ultimately show ?thesis
      using len thr t unfolding cinv_def by (simp add: d_def [symmetric] del: length_con_lists)
  qed
qed

lemma consoleintr_spec:
  assumes "cinv s"
  shows "case consoleintr dump p ready (uint c) s of
      Ok (t, woke) \<Rightarrow> cinv t \<and> (committed t, editing t) = edit_line c (committed s, editing s)
        \<and> thr (con_uart t) = thr (con_uart s) @ edit_echo dump c (committed s, editing s)
        \<and> (woke \<longleftrightarrow> committed t \<noteq> committed s)
    | Blocked \<Rightarrow> p \<or> (\<exists>k. \<not> ready k)
    | _ \<Rightarrow> False"
proof -
  let ?m = "consoleintr dump p ready (uint c) s"
  have full: "(cons_e s - cons_r s < 128) = (length (committed s) + length (editing s) \<noteq> INPUT_BUF_SIZE)"
    using assms unat_buffered [OF assms] by (auto simp: word_less_nat_alt cinv_def)
  consider "c = 16" | "c = 21" | "c = 8 \<or> c = 127" | "c \<notin> {8, 16, 21, 127}" "c = 0 \<or> \<not> cons_e s - cons_r s < 128"
    | "c \<notin> {0, 8, 16, 21, 127}" "cons_e s - cons_r s < 128" by blast
  then show ?thesis
  proof cases
    case 1
    then have "?m = kbind (kfold (\<lambda>x. con_putc p ready (uint x)) dump s) (\<lambda>s. Ok (s, False))"
      by (simp add: consoleintr_def)
    then show ?thesis
      using con_puts_echoes [of p ready dump s] assms 1
      by (auto simp: echoes_def edit_line_def edit_echo_def)
  next
    case 2
    have t: "cinv (s\<lparr>cons_e := cons_w s\<rparr>)" "committed (s\<lparr>cons_e := cons_w s\<rparr>) = committed s"
        "editing (s\<lparr>cons_e := cons_w s\<rparr>) = []"
      using assms by (auto simp: cinv_def committed_def editing_def)
    from 2 have "?m = kbind (kill_line p ready s) (\<lambda>s. Ok (s, False))" by (simp add: consoleintr_def)
    then show ?thesis
      using kill_line_echoes [OF assms, of p ready] 2 t
      by (auto simp: echoes_def edit_line_def edit_echo_def)
  next
    case 3
    show ?thesis
    proof (cases "cons_e s = cons_w s")
      case True
      then have "editing s = []" by (simp add: editing_Nil_iff)
      moreover have "?m = Ok (s, False)" using 3 True by (auto simp: consoleintr_def)
      ultimately show ?thesis using assms 3 by (auto simp: edit_line_def edit_echo_def)
    next
      case False
      then have ne: "editing s \<noteq> []" by (simp add: editing_Nil_iff)
      have m: "?m = kbind (con_putc p ready BACKSPACE (s\<lparr>cons_e := cons_e s - 1\<rparr>)) (\<lambda>s. Ok (s, False))"
        using 3 False by (auto simp: consoleintr_def)
      have "echo_of BACKSPACE = [8, 32, 8]" by (simp add: echo_of_def)
      then show ?thesis
        using con_putc_echoes [of p ready BACKSPACE "s\<lparr>cons_e := cons_e s - 1\<rparr>"] 3 ne m
          edit_drop(1-3) [OF assms False]
        by (auto simp: echoes_def edit_line_def edit_echo_def)
    qed
  next
    case 4
    then have "?m = Ok (s, False)" by (auto simp: consoleintr_def)
    then show ?thesis using 4 full assms by (auto simp: edit_line_def edit_echo_def)
  next
    case 5
    let ?d = "if uint c = 13 then 10 else uint c"
    have echo: "edit_echo dump c (committed s, editing s) = [if c = 13 then 10 else c]"
      using 5 full by (simp add: edit_echo_def)
    have m: "?m = kbind (con_putc p ready ?d s) (\<lambda>s. Ok (store_input ?d s))"
      using 5 by (auto simp: consoleintr_def Let_def)
    show ?thesis
    proof (cases "con_putc p ready ?d s")
      case (Ok u)
      then obtain t woke where t: "?m = Ok (t, woke)" using m by (metis kbind.simps(1) surj_pair)
      show ?thesis
        using consoleintr_store [OF assms 5(1) _ t] 5(2) full echo t by simp
    qed (use con_putc_echoes [of p ready ?d s] m in \<open>auto simp: echoes_def\<close>)
  qed
qed

lemma consoleintr_edits:
  assumes "cinv s" and "consoleintr dump p ready (uint c) s = Ok (t, woke)"
  shows "cinv t" and "(committed t, editing t) = edit_line c (committed s, editing s)"
  using consoleintr_spec [OF assms(1), where dump = dump and p = p and ready = ready and c = c] by (simp_all add: assms(2))

text \<open>C19: The interrupt handler is a line editor. For every key \<open>c\<close>, the handler turns the committed
  input and the line being edited into what \<open>edit_line\<close> says, shows what \<open>edit_echo\<close> says, wakes
  the readers exactly when it committed something, and can fail to return only after a panic or
  because the device never becomes ready.\<close>

theorem consoleintr_is_a_line_editor:
  assumes "cinv s"
  shows "case consoleintr dump p ready (uint c) s of
      Ok (t, woke) \<Rightarrow> cinv t \<and> (committed t, editing t) = edit_line c (committed s, editing s)
        \<and> thr (con_uart t) = thr (con_uart s) @ edit_echo dump c (committed s, editing s)
        \<and> (woke \<longleftrightarrow> committed t \<noteq> committed s)
    | Blocked \<Rightarrow> p \<or> (\<exists>k. \<not> ready k)
    | _ \<Rightarrow> False"
  using assms by (rule consoleintr_spec)

text \<open>A console on which \<open>h\<close> and Return were typed after an edited line, in full.\<close>

definition console0 :: console where
  "console0 = \<lparr>cons_buf = replicate 128 0, cons_r = 0xffffffff, cons_w = 0xffffffff, cons_e = 0xffffffff,
     con_uart = \<lparr>tx_buf = replicate 32 0, tx_w = 0, tx_r = 0, thr = [], rhr = [], regs = []\<rparr>\<rparr>"

lemma cinv_console0: "cinv console0"
  by (simp add: cinv_def committed_def editing_def console0_def)

lemma consoleintr_is_a_line_editor_witness:
  "\<exists>t u. consoleintr [] False (\<lambda>_. True) 104 console0 = Ok (t, False) \<and> committed t = [] \<and> editing t = [104]
       \<and> consoleintr [] False (\<lambda>_. True) 13 t = Ok (u, True) \<and> committed u = [104, 10] \<and> editing u = []
       \<and> thr (con_uart u) = [104, 10]"
proof -
  let ?intr = "consoleintr [] False (\<lambda>_. True)"
  have e0: "committed console0 = []" "editing console0 = []"
    by (simp_all add: committed_def editing_def console0_def)
  have t0: "thr (con_uart console0) = []" by (simp add: console0_def)
  have ok: "case ?intr (uint c) s of Ok (t, woke) \<Rightarrow> cinv t
      \<and> (committed t, editing t) = edit_line c (committed s, editing s)
      \<and> thr (con_uart t) = thr (con_uart s) @ edit_echo [] c (committed s, editing s)
      \<and> (woke \<longleftrightarrow> committed t \<noteq> committed s) | _ \<Rightarrow> False" if "cinv s" for c s
    using consoleintr_is_a_line_editor [OF that, where dump = "[]" and p = False and ready = "\<lambda>_. True" and c = c]
    by (auto split: kres.splits)
  obtain t w where t: "?intr 104 console0 = Ok (t, w)" "cinv t" "(committed t, editing t) = ([], [104])"
      "thr (con_uart t) = [104]" "w \<longleftrightarrow> committed t \<noteq> []"
    using ok [OF cinv_console0, of 104] e0 t0
    by (auto simp: edit_line_def edit_echo_def split: kres.splits)
  obtain u w' where u: "?intr 13 t = Ok (u, w')" "(committed u, editing u) = ([104, 10], [])"
      "thr (con_uart u) = [104, 10]" "w' \<longleftrightarrow> committed u \<noteq> committed t"
    using ok [OF t(2), of 13] t(3,4)
    by (auto simp: edit_line_def edit_echo_def split: kres.splits)
  show ?thesis using t u by (intro exI [of _ t] exI [of _ u]) auto
qed

section \<open>Reading a line\<close>

lemma committed_Nil_iff: "committed s = [] \<longleftrightarrow> cons_r s = cons_w s"
  by (auto simp: committed_def unat_diff_0_iff)

lemma committed_pop:
  assumes "cinv s" and "cons_r s \<noteq> cons_w s"
  defines "t \<equiv> s\<lparr>cons_r := cons_r s + 1\<rparr>"
  shows "committed s = cons_buf s ! (unat (cons_r s) mod INPUT_BUF_SIZE) # committed t"
    and "editing t = editing s" and "cinv t"
proof -
  have len: "length (cons_buf s) = 128" using assms(1) by (simp add: cinv_def)
  have pos: "0 < unat (cons_w s - cons_r s)"
    using assms(2) unat_diff_0_iff [of "cons_w s" "cons_r s"] by fastforce
  have n: "unat (cons_w s - (cons_r s + 1)) = unat (cons_w s - cons_r s) - 1"
    using assms(2) by (intro unat_diff_dec) simp
  have "ring_list (cons_buf s) (Suc (unat (cons_r s))) m = ring_list (cons_buf s) (unat (cons_r s + 1)) m" for m
    using unat_Suc_mod [OF dvd_32, of "cons_r s"] by (intro ring_list_cong_mod) (simp add: len)
  then show c: "committed s = cons_buf s ! (unat (cons_r s) mod INPUT_BUF_SIZE) # committed t"
    using ring_list_pop [OF pos, of "cons_buf s" "unat (cons_r s)"] n len
    by (simp add: committed_def t_def)
  show e: "editing t = editing s" by (simp add: editing_def t_def)
  have "length (committed s) = Suc (length (committed t))" by (simp add: c del: length_con_lists)
  then show "cinv t" using assms(1) e len unfolding cinv_def by (simp add: t_def del: length_con_lists)
qed

text \<open>What a call of \<open>consoleread\<close> may have done to the committed input: \<open>com\<close> before, \<open>com'\<close>
  after, with the bytes \<open>out\<close> stored at \<open>dst\<close>.\<close>

definition read_post ::
    "bool \<Rightarrow> (u64 \<Rightarrow> u8 \<Rightarrow> bool) \<Rightarrow> u64 \<Rightarrow> int \<Rightarrow> u8 list \<Rightarrow> read_result \<Rightarrow> u8 list \<Rightarrow> u8 list \<Rightarrow> bool" where
  "read_post kld copy dst n com res out com' \<longleftrightarrow>
     4 \<notin> set out \<and> 10 \<notin> set (butlast out) \<and> length out \<le> nat n \<and>
     (res = ReadSleep (n - int (length out)) \<and> \<not> kld \<and> com = out \<and> com' = [] \<and> int (length out) < n
    \<or> res = ReadRet (- 1) \<and> kld \<and> com = out \<and> com' = [] \<and> int (length out) < n
    \<or> res = ReadRet (int (length out)) \<and>
        (com = out @ com' \<and> (n \<le> int (length out) \<or> out \<noteq> [] \<and> (last out = 10 \<or> (\<exists>cs. com' = 4 # cs)))
       \<or> com = 4 # com' \<and> out = []
       \<or> (\<exists>c. com = out @ c # com' \<and> \<not> copy (dst + of_nat (length out)) c)))"

lemma consoleread_loop_post:
  assumes "consoleread_loop kld copy target d n out0 s = (res, out, t)"
    and "cinv s" and "target = n + int (length out0)" and "d = dst + of_nat (length out0)"
    and "4 \<notin> set out0" and "10 \<notin> set out0" and "out0 = [] \<or> 0 \<le> n"
  shows "cinv t \<and> editing t = editing s \<and> read_post kld copy dst target (out0 @ committed s) res out (committed t)"
  using assms
proof (induction kld copy target d n out0 s rule: consoleread_loop.induct)
  case (1 kld copy target d n out0 s)
  note prems = 1(2-) and len = 1(4)
  have nodup: "10 \<notin> set (butlast out0)" using prems(6) by (auto dest: in_set_butlastD)
  let ?c = "cons_buf s ! (unat (cons_r s) mod INPUT_BUF_SIZE)" and ?s = "s\<lparr>cons_r := cons_r s + 1\<rparr>"
  have unread: "?s\<lparr>cons_r := cons_r ?s - 1\<rparr> = s" by simp
  consider "\<not> n > 0" | "n > 0" "cons_r s = cons_w s"
    | "n > 0" "cons_r s \<noteq> cons_w s" "?c = 4"
    | "n > 0" "cons_r s \<noteq> cons_w s" "?c \<noteq> 4" "\<not> copy d ?c"
    | "n > 0" "cons_r s \<noteq> cons_w s" "?c \<noteq> 4" "copy d ?c" "?c = 10"
    | "n > 0" "cons_r s \<noteq> cons_w s" "?c \<noteq> 4" "copy d ?c" "?c \<noteq> 10" by blast
  then show ?case
  proof cases
    case 1
    then have "res = ReadRet (int (length out0))" "out = out0" "t = s"
      using prems(1) len by (subst (asm) consoleread_loop.simps; simp)+
    then show ?thesis using 1 prems(2,5-7) nodup len unfolding read_post_def by auto
  next
    case 2
    then have "res = (if kld then ReadRet (- 1) else ReadSleep n)" "out = out0" "t = s"
      using prems(1) by (subst (asm) consoleread_loop.simps; simp split: if_splits)+
    moreover have "committed s = []" using 2 by (simp add: committed_Nil_iff)
    ultimately show ?thesis using 2 prems(2,5-7) nodup len unfolding read_post_def by auto
  next
    case 3
    note pop = committed_pop [OF prems(2) 3(2)]
    have "res = ReadRet (int (length out0)) \<and> out = out0 \<and> t = (if n < target then s else ?s)"
      using prems(1) 3 unread len by (subst (asm) consoleread_loop.simps) (auto simp: Let_def split: if_splits)
    then show ?thesis using 3 prems(2,5-7) nodup len pop unfolding read_post_def by auto
  next
    case 4
    note pop = committed_pop [OF prems(2) 4(2)]
    have "res = ReadRet (int (length out0)) \<and> out = out0 \<and> t = ?s"
      using prems(1) 4 len by (subst (asm) consoleread_loop.simps) (auto simp: Let_def)
    then show ?thesis using 4 prems(2,4-7) nodup len pop unfolding read_post_def by auto
  next
    case 5
    note pop = committed_pop [OF prems(2) 5(2)]
    have "res = ReadRet (int (length (out0 @ [?c]))) \<and> out = out0 @ [?c] \<and> t = ?s"
      using prems(1) 5 len by (subst (asm) consoleread_loop.simps) (auto simp: Let_def)
    then show ?thesis using 5 prems(2,4-7) nodup len pop unfolding read_post_def by auto
  next
    case 6
    note pop = committed_pop [OF prems(2) 6(2)]
    have u: "uint ?c \<noteq> ctrl (CHR ''D'')" using 6(3) by simp
    have rec: "consoleread_loop kld copy target (d + 1) (n - 1) (out0 @ [?c]) ?s = (res, out, t)"
      using prems(1) 6 by (subst (asm) consoleread_loop.simps) (simp add: Let_def)
    have "cinv t \<and> editing t = editing ?s \<and>
        read_post kld copy dst target ((out0 @ [?c]) @ committed ?s) res out (committed t)"
      using 6 prems u len by (intro 1(1) [OF _ _ refl refl u _ _ rec]) (auto simp: pop(3))
    then show ?thesis using pop by simp
  qed
qed

text \<open>C20: \<open>consoleread\<close> delivers at most one line and loses nothing. The bytes it stores are the
  next bytes of the committed input, at most \<open>n\<close>, no newline before the last and never a
  control-D; what it does not deliver stays committed, in order, with two exceptions: a control-D at
  the start of a read is consumed (and gives a 0-byte result), and a byte whose copy to the user
  faults is lost. The line being edited is not touched. It sleeps only with nothing left to read.\<close>

theorem consoleread_delivers_a_line:
  assumes "cinv s" and "consoleread kld copy dst n s = (res, out, t)"
  shows "cinv t \<and> editing t = editing s \<and> read_post kld copy dst n (committed s) res out (committed t)"
  using consoleread_loop_post [OF assms(2) [unfolded consoleread_def] assms(1), of dst] by simp

lemma consoleread_delivers_a_line_witness:
  "\<exists>t. consoleread False (\<lambda>_ _. True) 0x4000 100
         (console0\<lparr>cons_buf := [10, 4] @ replicate 125 0 @ [104], cons_w := 2, cons_e := 2\<rparr>) = (ReadRet 2, [104, 10], t)
     \<and> committed t = [4]"
proof -
  let ?s = "console0\<lparr>cons_buf := [10, 4] @ replicate 125 0 @ [104], cons_w := 2, cons_e := 2\<rparr>"
  have buf: "cons_buf ?s ! 127 = 104" by (simp add: nth_append nth_Cons')
  have inv: "cinv ?s" by (simp add: cinv_def committed_def editing_def console0_def)
  have com: "committed ?s = [104, 10, 4]"
    using buf by (simp add: committed_def console0_def ring_list_def nth_append nth_Cons' upt_rec)
  obtain res out t where t: "consoleread False (\<lambda>_ _. True) 0x4000 100 ?s = (res, out, t)"
    using prod_cases3 by blast
  from consoleread_delivers_a_line [OF inv t, unfolded com]
  have "read_post False (\<lambda>_ _. True) 0x4000 100 [104, 10, 4] res out (committed t)" by blast
  then have "res = ReadRet 2 \<and> out = [104, 10] \<and> committed t = [4]"
    unfolding read_post_def by (auto simp: append_eq_Cons_conv Cons_eq_append_conv)
  with t show ?thesis by auto
qed

section \<open>The interrupt routine of the UART\<close>

lemma kill_line_rhr:
  "kill_line p ready s = Ok t \<Longrightarrow> rhr (con_uart t) = rhr (con_uart s)"
proof (induction p ready s rule: kill_line.induct)
  case (1 p ready s)
  show ?case
  proof (cases "cons_e s \<noteq> cons_w s \<and> cons_buf s ! (unat (cons_e s - 1) mod INPUT_BUF_SIZE) \<noteq> 10")
    case True
    then obtain u where u: "con_putc p ready BACKSPACE (s\<lparr>cons_e := cons_e s - 1\<rparr>) = Ok u"
        and rest: "kill_line p ready u = Ok t"
      using 1(2) by (subst (asm) kill_line.simps) (auto simp: kbind_eq_Ok)
    then show ?thesis using 1(1) [OF True u rest] con_putc_OkD [OF u] by simp
  next
    case False
    then show ?thesis using 1(2) by (subst (asm) kill_line.simps) auto
  qed
qed

lemma consoleintr_rhr:
  assumes "consoleintr dump p ready c s = Ok (t, woke)"
  shows "rhr (con_uart t) = rhr (con_uart s)"
proof -
  have "kfold (\<lambda>x. con_putc p ready (uint x)) dump s = Ok u \<Longrightarrow> rhr (con_uart u) = rhr (con_uart s)" for u
    using con_puts_echoes [of p ready dump s] by (auto simp: echoes_def)
  with assms show ?thesis
    by (auto simp: consoleintr_def store_input_def Let_def kbind_eq_Ok split: if_splits
        dest!: con_putc_OkD dest: kill_line_rhr)
qed

function uartintr_loop :: "u8 list \<Rightarrow> bool \<Rightarrow> (nat \<Rightarrow> bool) \<Rightarrow> console \<Rightarrow> console kres" where
  "uartintr_loop dump p ready s =
     (let (c, u) = uartgetc (con_uart s) in
      if c = - 1 then Ok (s\<lparr>con_uart := u\<rparr>)
      else kbind (consoleintr dump p ready c (s\<lparr>con_uart := u\<rparr>)) (\<lambda>(s, woke). uartintr_loop dump p ready s))"
  by pat_completeness auto
termination
  by (relation "measure (\<lambda>(dump, p, ready, s). length (rhr (con_uart s)))")
    (auto simp: uartgetc_def dest!: consoleintr_rhr split: list.splits)

declare uartintr_loop.simps [simp del]

definition uartintr :: "u8 list \<Rightarrow> bool \<Rightarrow> (nat \<Rightarrow> bool) \<Rightarrow> console \<Rightarrow> console kres" where
  "uartintr dump p ready s =
     kbind (uartintr_loop dump p ready s) (\<lambda>s. Ok (s\<lparr>con_uart := uartstart ready (con_uart s)\<rparr>))"

text \<open>A whole burst of input is edited in order.\<close>

lemma uartintr_loop_edits:
  assumes "cinv s" and "uartintr_loop dump p ready s = Ok t"
  shows "cinv t \<and> rhr (con_uart t) = []
    \<and> (committed t, editing t) = fold edit_line (rhr (con_uart s)) (committed s, editing s)"
  using assms
proof (induction "rhr (con_uart s)" arbitrary: s)
  case Nil
  from Nil.prems(2) have "t = s"
    by (subst (asm) uartintr_loop.simps) (simp add: uartgetc_def flip: Nil.hyps)
  then show ?case using Nil by simp
next
  case (Cons c cs)
  let ?u = "s\<lparr>con_uart := (con_uart s)\<lparr>rhr := cs\<rparr>\<rparr>"
  have lists: "cinv ?u" "committed ?u = committed s" "editing ?u = editing s"
    using Cons.prems(1) by (simp_all add: cinv_def committed_def editing_def)
  have get: "uartgetc (con_uart s) = (uint c, (con_uart s)\<lparr>rhr := cs\<rparr>)"
    by (simp add: uartgetc_def flip: Cons.hyps(2))
  have "uint c \<noteq> - 1" using uint_ge_0 [of c] by (intro notI) simp
  then obtain v woke where v: "consoleintr dump p ready (uint c) ?u = Ok (v, woke)"
      and rest: "uartintr_loop dump p ready v = Ok t"
    using Cons.prems(2) get by (subst (asm) uartintr_loop.simps) (auto simp: kbind_eq_Ok)
  have "cinv v" "(committed v, editing v) = edit_line c (committed s, editing s)"
    using consoleintr_edits [OF lists(1) v] lists by simp_all
  moreover have "cs = rhr (con_uart v)" using consoleintr_rhr [OF v] by simp
  ultimately show ?case using Cons.hyps(1) [of v] rest by (simp flip: Cons.hyps(2))
qed

end
