(* ===== verification/PageTable.thy ===== *)
theory PageTable imports VM begin

text \<open>
  What the routines of VM compute, stated on an abstract page table: the function \<open>vpte\<close> from
  virtual addresses to page-table entries.

  A page-table page is reached from the root by a path of indices (\<open>descend\<close>; the last index
  comes first in the list). \<open>pt_ok\<close> is the shape invariant: different paths lead to different
  pages, all of them pages of the allocator and none of them free. The lemmas say what one store
  does to the tree: a new page hung below an invalid entry changes no translation, a store to a
  last-level entry changes exactly one, a store elsewhere none.
\<close>

section \<open>Entries and indices\<close>

lemma PX_less: "PX l va < 512"
proof -
  have "PX l va = take_bit 9 (drop_bit (12 + 9 * l) va)"
    unfolding PX_def take_bit_eq_mask by (simp add: mask_eq_exp_minus_1)
  then have "unat (PX l va) = unat (drop_bit (12 + 9 * l) va) mod 512"
    by (simp add: take_bit_eq_mod unat_mod_distrib)
  then show ?thesis by (simp add: word_less_nat_alt)
qed

lemma aligned_bits: "aligned x \<Longrightarrow> n < 12 \<Longrightarrow> \<not> bit x n"
proof -
  assume "aligned x" and n: "n < 12"
  then have "take_bit 12 x = 0" by (simp add: word_unat_eq_iff unat_take12 aligned_def)
  then have "\<not> bit (take_bit 12 x) n" by simp
  with n show "\<not> bit x n" by (simp add: bit_take_bit_iff)
qed

lemma flag_bits: "(f :: u64) < 1024 \<Longrightarrow> 10 \<le> n \<Longrightarrow> \<not> bit f n"
proof -
  assume f: "f < 1024" and n: "10 \<le> n"
  then have "unat f mod 1024 = unat f" by (simp add: word_less_nat_alt)
  then have "take_bit 10 f = f" by (simp add: word_unat_eq_iff take_bit_eq_mod unat_mod_distrib)
  then show "\<not> bit f n" using n by (metis bit_take_bit_iff not_less)
qed

lemma PTE2PA_PA2PTE: "aligned x \<Longrightarrow> f < 1024 \<Longrightarrow> PTE2PA (PA2PTE x OR f) = x"
proof (rule bit_word_eqI)
  fix n assume x: "aligned x" and f: "f < 1024" and n: "n < LENGTH(64)"
  show "bit (PTE2PA (PA2PTE x OR f)) n = bit x n"
  proof (cases "n < 12")
    case True
    then show ?thesis using aligned_bits [OF x True] by (simp add: PTE2PA_def bit_simps)
  next
    case False
    then show ?thesis using n flag_bits [OF f, of "10 + (n - 12)"]
      by (auto simp: PTE2PA_def PA2PTE_def bit_simps not_less)
  qed
qed

lemma PTE_FLAGS_PA2PTE: "f < 1024 \<Longrightarrow> PTE_FLAGS (PA2PTE x OR f) = f"
proof -
  assume f: "f < 1024"
  have "take_bit 10 (PA2PTE x OR f) = f"
    by (rule bit_word_eqI) (use flag_bits [OF f] in \<open>auto simp: PA2PTE_def bit_simps not_less\<close>)
  moreover have "0x3FF = (mask 10 :: u64)" by (simp add: mask_eq_exp_minus_1)
  ultimately show ?thesis unfolding PTE_FLAGS_def take_bit_eq_mask by simp
qed

lemma aligned_PTE2PA: "aligned (PTE2PA e)"
proof -
  have "take_bit 12 (PTE2PA e) = 0" by (rule bit_word_eqI) (auto simp: PTE2PA_def bit_simps)
  then have "unat (PTE2PA e) mod 4096 = 0" using unat_take12 [of "PTE2PA e"] by simp
  then show ?thesis by (simp add: aligned_def)
qed

definition valid :: "u64 \<Rightarrow> bool" where
  "valid e \<longleftrightarrow> e AND PTE_V \<noteq> 0"

lemma valid_or [simp]: "valid (e OR PTE_V)"
proof -
  have "bit ((e OR PTE_V) AND PTE_V) 0" by (simp add: bit_simps)
  then show ?thesis unfolding valid_def by (metis bit_0_eq bot_apply bot_bool_def)
qed

lemma valid_0 [simp]: "\<not> valid 0"
  by (simp add: valid_def)

section \<open>The tree\<close>

fun descend :: "memory \<Rightarrow> u64 \<Rightarrow> u64 list \<Rightarrow> u64 option" where
  "descend m r [] = Some r"
| "descend m r (i # q) =
     (case descend m r q of
        None \<Rightarrow> None
      | Some a \<Rightarrow> let e = load64 m (a + 8 * i) in if valid e then Some (PTE2PA e) else None)"

definition node_path :: "u64 list \<Rightarrow> bool" where
  "node_path q \<longleftrightarrow> length q \<le> 2 \<and> (\<forall>i \<in> set q. i < 512)"

definition pt_pages :: "memory \<Rightarrow> u64 \<Rightarrow> u64 set" where
  "pt_pages m r = {a. \<exists>q. node_path q \<and> descend m r q = Some a}"

definition pt_ok :: "u64 \<Rightarrow> u64 list \<Rightarrow> memory \<Rightarrow> u64 \<Rightarrow> bool" where
  "pt_ok kend xs m r \<longleftrightarrow>
     (\<forall>a \<in> pt_pages m r. page_ok kend a \<and> a \<notin> set xs)
   \<and> (\<forall>p q. node_path p \<longrightarrow> node_path q \<longrightarrow> descend m r p \<noteq> None \<longrightarrow> descend m r p = descend m r q \<longrightarrow> p = q)"

text \<open>The entry at the last level, 0 where the path does not exist.\<close>

definition pte :: "memory \<Rightarrow> u64 \<Rightarrow> u64 \<Rightarrow> u64 list \<Rightarrow> u64" where
  "pte m r k q = (case descend m r q of None \<Rightarrow> 0 | Some b \<Rightarrow> load64 m (b + 8 * k))"

definition vpte :: "memory \<Rightarrow> u64 \<Rightarrow> u64 \<Rightarrow> u64" where
  "vpte m r va = pte m r (PX 0 va) [PX 1 va, PX 2 va]"

lemma node_path_simps [simp]:
  "node_path []" "node_path [i] \<longleftrightarrow> i < 512" "node_path [i, j] \<longleftrightarrow> i < 512 \<and> j < 512"
  by (auto simp: node_path_def)

lemma node_path_tl: "node_path (i # q) \<Longrightarrow> node_path q \<and> i < 512"
  by (auto simp: node_path_def)

lemma pt_pagesI: "node_path q \<Longrightarrow> descend m r q = Some a \<Longrightarrow> a \<in> pt_pages m r"
  by (auto simp: pt_pages_def)

lemma pt_okD:
  assumes "pt_ok kend xs m r" and "node_path q" and "descend m r q = Some a"
  shows "page_ok kend a" and "aligned a" and "a \<notin> set xs" and "a \<in> pt_pages m r" and "a \<noteq> 0"
  using assms pt_pagesI [OF assms(2,3)] by (auto simp: pt_ok_def page_ok_def)

lemma pt_ok_inj:
  "pt_ok kend xs m r \<Longrightarrow> node_path p \<Longrightarrow> node_path q \<Longrightarrow> descend m r p = Some a \<Longrightarrow> descend m r q = Some a \<Longrightarrow> p = q"
  unfolding pt_ok_def by (metis option.distinct(1))

lemma pt_ok_subset: "pt_ok kend xs m r \<Longrightarrow> set ys \<subseteq> set xs \<Longrightarrow> pt_ok kend ys m r"
  by (auto simp: pt_ok_def)

section \<open>Frame: memory outside the tree\<close>

text \<open>\<open>keeps P m m'\<close>: the pages of \<open>P\<close> have the same contents in both memories.\<close>

definition keeps :: "u64 set \<Rightarrow> memory \<Rightarrow> memory \<Rightarrow> bool" where
  "keeps P m m' \<longleftrightarrow> (\<forall>p \<in> P. \<forall>x. in_page p x \<longrightarrow> m' x = m x)"

lemma keeps_refl [simp]: "keeps P m m"
  by (simp add: keeps_def)

lemma keeps_trans: "keeps P m m' \<Longrightarrow> keeps P m' m'' \<Longrightarrow> keeps P m m''"
  by (simp add: keeps_def)

lemma keeps_mono: "keeps P m m' \<Longrightarrow> Q \<subseteq> P \<Longrightarrow> keeps Q m m'"
  by (auto simp: keeps_def)

lemma only_page_keeps: "only_page p m m' \<Longrightarrow> aligned p \<Longrightarrow> p \<notin> P \<Longrightarrow> \<forall>a \<in> P. aligned a \<Longrightarrow> keeps P m m'"
  unfolding keeps_def only_page_def using in_page_unique by blast

lemma keeps_load64: "keeps P m m' \<Longrightarrow> p \<in> P \<Longrightarrow> i < 512 \<Longrightarrow> load64 m' (p + 8 * i) = load64 m (p + 8 * i)"
  by (intro load64_cong) (simp add: keeps_def slot_in_page)

lemma keeps_descend:
  assumes "keeps (pt_pages m r) m m'" and "node_path q"
  shows "descend m' r q = descend m r q"
  using assms(2)
proof (induction q)
  case (Cons i q)
  then have q: "node_path q" "i < 512" using node_path_tl by auto
  show ?case
  proof (cases "descend m r q")
    case (Some a)
    then have "load64 m' (a + 8 * i) = load64 m (a + 8 * i)"
      using keeps_load64 [OF assms(1)] pt_pagesI [OF q(1)] q(2) by blast
    then show ?thesis using Cons.IH [OF q(1)] Some by simp
  qed (simp add: Cons.IH [OF q(1)])
qed simp

lemma keeps_tree:
  assumes "keeps (pt_pages m r) m m'"
  shows "pt_pages m' r = pt_pages m r" and "pt_ok kend xs m' r = pt_ok kend xs m r"
    and "node_path q \<Longrightarrow> k < 512 \<Longrightarrow> pte m' r k q = pte m r k q"
proof -
  note d = keeps_descend [OF assms]
  show p: "pt_pages m' r = pt_pages m r" using d by (auto simp: pt_pages_def)
  show "pt_ok kend xs m' r = pt_ok kend xs m r" unfolding pt_ok_def p using d by auto
  show "pte m' r k q = pte m r k q" if "node_path q" "k < 512"
    using d [OF that(1)] keeps_load64 [OF assms] pt_pagesI [OF that(1)] that(2)
    by (auto simp: pte_def split: option.split)
qed

lemma keeps_vpte: "keeps (pt_pages m r) m m' \<Longrightarrow> vpte m' r va = vpte m r va"
  by (simp add: vpte_def keeps_tree(3) PX_less)

section \<open>Stores to the tree\<close>

text \<open>A zeroed page \<open>x\<close> is hung below the invalid entry \<open>i\<close> of the page \<open>a\<close>.\<close>

lemma pt_grow:
  assumes ok: "pt_ok kend (x # xs) m r" and x: "page_ok kend x" "x \<notin> set xs"
    and q: "node_path (i # q)" "descend m r q = Some a" and inval: "\<not> valid (load64 m (a + 8 * i))"
  defines "m' \<equiv> store64 (mem_fill m x 0 PGSIZE) (a + 8 * i) (PA2PTE x OR PTE_V)"
  shows "\<And>p. node_path p \<Longrightarrow> descend m' r p = (if p = i # q then Some x else descend m r p)"
    and "pt_pages m' r = insert x (pt_pages m r)" and "pt_ok kend xs m' r"
    and "\<And>k p. node_path p \<Longrightarrow> length p = 2 \<Longrightarrow> k < 512 \<Longrightarrow> pte m' r k p = pte m r k p"
proof -
  have nq: "node_path q" and i: "i < 512" using node_path_tl [OF q(1)] by auto
  note a = pt_okD [OF ok nq q(2)]
  have ax: "aligned x" using x by (simp add: page_ok_def)
  have nx: "b \<noteq> x" if "node_path p" "descend m r p = Some b" for p b
    using pt_okD(3) [OF ok that] by auto
  have ax': "a \<noteq> x" using nx [OF nq q(2)] .
  have fill: "load64 (mem_fill m x 0 PGSIZE) (b + 8 * j) = load64 m (b + 8 * j)" if "b \<noteq> x" "aligned b" "j < 512" for b j
    using load64_other_page [OF only_page_fill ax that(2) _ that(3)] that(1) by blast
  have new: "load64 m' (x + 8 * j) = 0" if "j < 512" for j
    using load64_other_page [OF only_page_store64 [OF i] a(2) ax ax' that] load64_fill_0 [OF that]
    by (simp add: m'_def)
  have slot: "load64 m' (a + 8 * i) = PA2PTE x OR PTE_V" by (simp add: m'_def)
  have other: "load64 m' (b + 8 * j) = load64 m (b + 8 * j)"
    if "b \<noteq> x" "aligned b" "j < 512" "b \<noteq> a \<or> j \<noteq> i" for b j
  proof (cases "b = a")
    case True
    then show ?thesis
      using that fill [OF that(1-3)] load_store_other_slot [OF i that(3)] unfolding m'_def by fastforce
  next
    case False
    then show ?thesis
      using load64_other_page [OF only_page_store64 [OF i] a(2) that(2) _ that(3)] fill [OF that(1-3)]
      unfolding m'_def by metis
  qed
  show d: "descend m' r p = (if p = i # q then Some x else descend m r p)" if "node_path p" for p
    using that
  proof (induction p)
    case (Cons j p)
    then have p: "node_path p" "j < 512" using node_path_tl by auto
    note IH = Cons.IH [OF p(1)]
    show ?case
    proof (cases "p = i # q")
      case True
      then have "descend m' r (j # p) = None" using IH new [OF p(2)] by simp
      moreover have "descend m r p = None" using True q(2) inval by (simp add: Let_def)
      moreover have "j # p \<noteq> i # q" using True by simp
      ultimately show ?thesis by simp
    next
      case False
      show ?thesis
      proof (cases "descend m r p")
        case None
        then have "j # p \<noteq> i # q" using q(2) by auto
        then show ?thesis using None IH False by simp
      next
        case (Some b)
        note b = pt_okD [OF ok p(1) Some]
        show ?thesis
        proof (cases "b = a \<and> j = i")
          case True
          then have "p = q" using pt_ok_inj [OF ok p(1) nq Some] q(2) by simp
          then show ?thesis
            using IH False Some True slot PTE2PA_PA2PTE [OF ax, of PTE_V] by (simp add: Let_def)
        next
          case ne: False
          then have jp: "j # p \<noteq> i # q" using Some q(2) by auto
          show ?thesis
            unfolding if_not_P [OF jp]
            using IH False Some other [OF nx [OF p(1) Some] b(2) p(2)] ne by (simp add: Let_def)
        qed
      qed
    qed
  qed simp
  have iq: "descend m r (i # q) = None" using q(2) inval by (simp add: Let_def)
  show pages: "pt_pages m' r = insert x (pt_pages m r)"
  proof (intro set_eqI iffI)
    fix b assume "b \<in> pt_pages m' r"
    then obtain p where p: "node_path p" "descend m' r p = Some b" by (auto simp: pt_pages_def)
    then show "b \<in> insert x (pt_pages m r)" using d [OF p(1)] pt_pagesI [OF p(1)] by (auto split: if_splits)
  next
    fix b assume "b \<in> insert x (pt_pages m r)"
    then consider "b = x" | p where "node_path p" "descend m r p = Some b" by (auto simp: pt_pages_def)
    then show "b \<in> pt_pages m' r"
    proof cases
      case 1
      then show ?thesis using d [OF q(1)] pt_pagesI [OF q(1)] by simp
    next
      case 2
      then have "descend m' r p = Some b" using d [OF 2(1)] iq by auto
      then show ?thesis by (rule pt_pagesI [OF 2(1)])
    qed
  qed
  have "p = p'" if "node_path p" "node_path p'" "descend m' r p = Some b" "descend m' r p' = Some b" for p p' b
    using that d [OF that(1)] d [OF that(2)] nx pt_ok_inj [OF ok that(1,2)] by (auto split: if_splits)
  then show "pt_ok kend xs m' r"
    unfolding pt_ok_def pages using ok x by (auto simp: pt_ok_def)
  fix k :: u64 and p assume p: "node_path p" "length p = 2" and k: "k < 512"
  have lq: "length q \<le> 1" using q(1) by (simp add: node_path_def)
  show "pte m' r k p = pte m r k p"
  proof (cases "p = i # q")
    case True
    then show ?thesis using d [OF p(1)] iq new [OF k] by (simp add: pte_def)
  next
    case False
    have "load64 m' (b + 8 * k) = load64 m (b + 8 * k)" if b: "descend m r p = Some b" for b
    proof (rule other [OF nx [OF p(1) b] pt_okD(2) [OF ok p(1) b] k])
      have "b \<noteq> a" using pt_ok_inj [OF ok p(1) nq b] q(2) p(2) lq by auto
      then show "b \<noteq> a \<or> k \<noteq> i" ..
    qed
    then show ?thesis using d [OF p(1)] False by (simp add: pte_def split: option.split)
  qed
qed

text \<open>A store to a last-level entry.\<close>

lemma pt_set:
  fixes m :: memory and v :: u64
  assumes ok: "pt_ok kend xs m r" and q: "node_path q" "length q = 2" "descend m r q = Some b" and k: "k < 512"
  defines "m' \<equiv> store64 m (b + 8 * k) v"
  shows "\<And>p. node_path p \<Longrightarrow> descend m' r p = descend m r p"
    and "pt_pages m' r = pt_pages m r" and "pt_ok kend ys m' r = pt_ok kend ys m r"
    and "\<And>j p. node_path p \<Longrightarrow> length p = 2 \<Longrightarrow> j < 512 \<Longrightarrow>
           pte m' r j p = (if j = k \<and> p = q then v else pte m r j p)"
proof -
  note b = pt_okD [OF ok q(1,3)]
  have other: "load64 m' (c + 8 * j) = load64 m (c + 8 * j)" if "aligned c" "c \<noteq> b" "j < 512" for c j
    using load64_other_page [OF only_page_store64 [OF k] b(2) that(1) _ that(3)] that(2)
    unfolding m'_def by metis
  show d: "descend m' r p = descend m r p" if "node_path p" for p
    using that
  proof (induction p)
    case (Cons j p)
    then have p: "node_path p" "j < 512" using node_path_tl by auto
    have lp: "length p \<le> 1" using Cons.prems by (simp add: node_path_def)
    show ?case
    proof (cases "descend m r p")
      case (Some c)
      have "c \<noteq> b" using pt_ok_inj [OF ok p(1) q(1) Some] q(2,3) lp by auto
      then show ?thesis
        using Cons.IH [OF p(1)] Some other [OF pt_okD(2) [OF ok p(1) Some] _ p(2)] by simp
    qed (simp add: Cons.IH [OF p(1)])
  qed simp
  show pages: "pt_pages m' r = pt_pages m r" using d by (auto simp: pt_pages_def)
  show "pt_ok kend ys m' r = pt_ok kend ys m r" unfolding pt_ok_def pages using d by auto
  fix j :: u64 and p assume p: "node_path p" "length p = 2" and j: "j < 512"
  show "pte m' r j p = (if j = k \<and> p = q then v else pte m r j p)"
  proof (cases "descend m r p")
    case None
    then show ?thesis using d [OF p(1)] q(3) by (auto simp: pte_def)
  next
    case (Some c)
    show ?thesis
    proof (cases "c = b")
      case True
      then have "p = q" using pt_ok_inj [OF ok p(1) q(1) Some] q(3) by simp
      then show ?thesis
        using True Some d [OF p(1)] load_store_other_slot [OF k j] by (simp add: pte_def m'_def)
    next
      case False
      then have "p \<noteq> q" using Some q(3) by auto
      then show ?thesis
        using False Some d [OF p(1)] other [OF pt_okD(2) [OF ok p(1) Some] False j] by (simp add: pte_def)
    qed
  qed
qed

section \<open>walk\<close>

text \<open>
  \<open>extends\<close> is what building page tables may do: take pages from the free list, hang them in the
  tree of \<open>r\<close>, and write only to pages that were in the tree or free.
\<close>

definition outside :: "memory \<Rightarrow> u64 \<Rightarrow> u64 list \<Rightarrow> u64 set" where
  "outside m r xs = {a. aligned a \<and> a \<notin> pt_pages m r \<and> a \<notin> set xs}"

definition extends :: "u64 \<Rightarrow> memory \<Rightarrow> u64 list \<Rightarrow> memory \<Rightarrow> u64 list \<Rightarrow> bool" where
  "extends r m xs m' ys \<longleftrightarrow>
     set ys \<subseteq> set xs \<and> pt_pages m r \<subseteq> pt_pages m' r \<and> pt_pages m' r \<subseteq> pt_pages m r \<union> (set xs - set ys)
   \<and> keeps (outside m r xs) m m'"

lemma extends_refl [simp]: "extends r m xs m xs"
  by (simp add: extends_def)

lemma extends_trans:
  assumes "extends r m xs m' ys" and "extends r m' ys m'' zs"
  shows "extends r m xs m'' zs"
proof -
  have "outside m r xs \<subseteq> outside m' r ys" using assms(1) by (auto simp: extends_def outside_def)
  then have "keeps (outside m r xs) m m''"
    using assms keeps_trans keeps_mono unfolding extends_def by metis
  then show ?thesis using assms by (auto simp: extends_def)
qed

definition vm_inv :: "u64 \<Rightarrow> kmem \<Rightarrow> u64 list \<Rightarrow> u64 \<Rightarrow> bool" where
  "vm_inv kend s xs r \<longleftrightarrow> free_list kend s xs \<and> pt_ok kend xs (pmem s) r"

text \<open>The indices of \<open>va\<close> above level \<open>l\<close>.\<close>

definition va_path :: "u64 \<Rightarrow> nat \<Rightarrow> u64 list" where
  "va_path va l = map (\<lambda>k. PX k va) [l + 1..<3]"

lemma va_path_simps:
  "va_path va 2 = []" "l < 2 \<Longrightarrow> va_path va l = PX (Suc l) va # va_path va (Suc l)"
  "va_path va 0 = [PX 1 va, PX 2 va]"
proof -
  show "l < 2 \<Longrightarrow> va_path va l = PX (Suc l) va # va_path va (Suc l)"
    by (simp add: va_path_def upt_conv_Cons)
qed (simp_all add: va_path_def upt_conv_Cons flip: numeral_2_eq_2)

lemma node_va_path: "node_path (va_path va l)"
  by (auto simp: va_path_def node_path_def PX_less)

lemma page_slot_nonzero: "page_ok kend b \<Longrightarrow> k < 512 \<Longrightarrow> b + 8 * k \<noteq> 0"
proof
  assume b: "page_ok kend b" and k: "k < 512" and z: "b + 8 * k = 0"
  have "unat b < 0x88000000" "unat b \<noteq> 0" using b by (auto simp: page_ok_def PHYSTOP_def word_less_nat_alt word_unat_eq_iff)
  moreover have "unat (8 * k) < 4096" using slot_unat [OF k, of 0] k by (simp add: word_less_nat_alt)
  ultimately have "unat (b + 8 * k) \<noteq> 0" by (simp add: unat_word_ariths)
  with z show False by simp
qed

lemma only_page_extends:
  assumes "only_page x m m'" and "aligned x" and "x \<in> set xs" and "pt_ok kend xs m r"
    and "set ys \<subseteq> set xs"
  shows "extends r m xs m' ys \<and> pt_ok kend ys m' r \<and> pt_pages m' r = pt_pages m r \<and> (\<forall>va. vpte m' r va = vpte m r va)"
proof -
  have nx: "x \<notin> pt_pages m r" "\<forall>a \<in> pt_pages m r. aligned a"
    using assms(3,4) by (auto simp: pt_ok_def page_ok_def)
  have k: "keeps (pt_pages m r) m m'" by (rule only_page_keeps [OF assms(1,2) nx])
  have "x \<notin> outside m r xs" "\<forall>a \<in> outside m r xs. aligned a" using assms(3) by (simp_all add: outside_def)
  then have "keeps (outside m r xs) m m'" by (rule only_page_keeps [OF assms(1,2)])
  moreover have "pt_ok kend ys m' r" using keeps_tree(2) [OF k] pt_ok_subset [OF assms(4,5)] by blast
  ultimately show ?thesis
    using assms(5) keeps_tree(1) [OF k] keeps_vpte [OF k] by (simp add: extends_def)
qed

text \<open>One level of \<open>walk\<close> that allocates.\<close>

lemma walk_grow:
  assumes inv: "vm_inv kend s xs r" and q: "node_path (i # q)" "descend (pmem s) r q = Some a"
    and inval: "\<not> valid (load64 (pmem s) (a + 8 * i))" and k: "kalloc s = (x, t)" "x \<noteq> 0"
  defines "u \<equiv> t\<lparr>pmem := store64 (mem_fill (pmem t) x 0 PGSIZE) (a + 8 * i) (PA2PTE x OR PTE_V)\<rparr>"
  shows "\<exists>ys. vm_inv kend u ys r \<and> extends r (pmem s) xs (pmem u) ys
     \<and> descend (pmem u) r (i # q) = Some x \<and> (\<forall>va. vpte (pmem u) r va = vpte (pmem s) r va)"
proof -
  have fl: "free_list kend s xs" and ok: "pt_ok kend xs (pmem s) r" using inv by (simp_all add: vm_inv_def)
  obtain ys where ys: "xs = x # ys" "page_ok kend x" "x \<notin> set ys" "free_list kend t ys" "only_page x (pmem s) (pmem t)"
    using kalloc_spec [OF fl] k by auto
  have ax: "aligned x" using ys(2) by (simp add: page_ok_def)
  have nq: "node_path q" "i < 512" using node_path_tl [OF q(1)] by auto
  note a = pt_okD [OF ok nq(1) q(2)]
  have axne: "a \<noteq> x" using a(3) ys(1) by auto
  have ke: "keeps (pt_pages (pmem s) r) (pmem s) (pmem t)"
    using only_page_keeps [OF ys(5) ax, of "pt_pages (pmem s) r"] ok ys(1) by (auto simp: pt_ok_def page_ok_def)
  have t: "pt_ok kend (x # ys) (pmem t) r" "descend (pmem t) r q = Some a"
      "\<not> valid (load64 (pmem t) (a + 8 * i))" "pt_pages (pmem t) r = pt_pages (pmem s) r"
      "\<And>va. vpte (pmem t) r va = vpte (pmem s) r va"
    using keeps_tree(1,2) [OF ke] keeps_vpte [OF ke] keeps_descend [OF ke nq(1)] ok q(2) inval ys(1)
      keeps_load64 [OF ke a(4) nq(2)] by auto
  note g = pt_grow [OF t(1) ys(2,3) q(1) t(2,3)]
  have mu: "pmem u = store64 (mem_fill (pmem t) x 0 PGSIZE) (a + 8 * i) (PA2PTE x OR PTE_V)" by (simp add: u_def)
  have "free_list kend (t\<lparr>pmem := mem_fill (pmem t) x 0 PGSIZE\<rparr>) ys"
    using free_list_frame [OF ys(4) _ _ ax ys(3)] only_page_fill by simp
  then have "free_list kend u ys"
    using free_list_frame [OF _ _ _ a(2), of kend "t\<lparr>pmem := mem_fill (pmem t) x 0 PGSIZE\<rparr>" ys u] a(3) ys(1)
      only_page_store64 [OF nq(2)] by (simp add: u_def)
  then have "vm_inv kend u ys r" using g(3) by (simp add: vm_inv_def mu)
  moreover have "extends r (pmem s) xs (pmem u) ys"
  proof -
    have al: "\<forall>b \<in> outside (pmem s) r xs. aligned b" "x \<notin> outside (pmem s) r xs" "a \<notin> outside (pmem s) r xs"
      using a(4) ys(1) by (auto simp: outside_def)
    have "keeps (outside (pmem s) r xs) (pmem s) (mem_fill (pmem t) x 0 PGSIZE)"
      using only_page_keeps [OF only_page_trans [OF ys(5) only_page_fill] ax al(2,1)] .
    moreover have "keeps (outside (pmem s) r xs) (mem_fill (pmem t) x 0 PGSIZE) (pmem u)"
      unfolding mu using only_page_keeps [OF only_page_store64 [OF nq(2)] a(2) al(3,1)] .
    ultimately have "keeps (outside (pmem s) r xs) (pmem s) (pmem u)" by (rule keeps_trans)
    then show ?thesis using g(2) t(4) ys(1,3) by (auto simp: extends_def mu)
  qed
  moreover have "descend (pmem u) r (i # q) = Some x" using g(1) [OF q(1)] by (simp add: mu)
  moreover have "vpte (pmem u) r va = vpte (pmem s) r va" for va
    using g(4) [of "[PX 1 va, PX 2 va]" "PX 0 va"] t(5) [of va] by (simp add: vpte_def mu PX_less)
  ultimately show ?thesis by blast
qed

lemma walk_loop_alloc:
  assumes "l \<le> 2" and "vm_inv kend s xs r" and "descend (pmem s) r (va_path va l) = Some a"
    and "walk_loop va True l a s = (p, t)"
  shows "\<exists>ys. vm_inv kend t ys r \<and> extends r (pmem s) xs (pmem t) ys
     \<and> (\<forall>vb. vpte (pmem t) r vb = vpte (pmem s) r vb)
     \<and> (if p = 0 then ys = [] else \<exists>b. descend (pmem t) r (va_path va 0) = Some b \<and> p = b + 8 * PX 0 va)"
  using assms
proof (induction l arbitrary: a s xs)
  case 0
  have "page_ok kend a" using pt_okD(1) [OF _ node_va_path 0(3)] 0(2) by (auto simp: vm_inv_def)
  then have "p \<noteq> 0" using 0(4) page_slot_nonzero [OF _ PX_less] by auto
  then show ?case using 0 by (intro exI [of _ xs]) auto
next
  case (Suc l)
  let ?e = "load64 (pmem s) (a + 8 * PX (Suc l) va)"
  have path: "va_path va l = PX (Suc l) va # va_path va (Suc l)" using Suc.prems(1) by (simp add: va_path_simps)
  show ?case
  proof (cases "valid ?e")
    case True
    then have "descend (pmem s) r (va_path va l) = Some (PTE2PA ?e)" using Suc.prems(3) path by (simp add: Let_def)
    moreover have "walk_loop va True l (PTE2PA ?e) s = (p, t)"
      using Suc.prems(4) True by (simp add: Let_def valid_def)
    ultimately show ?thesis using Suc.IH [OF _ Suc.prems(2)] Suc.prems(1) by simp
  next
    case False
    obtain x s1 where k: "kalloc s = (x, s1)" by fastforce
    show ?thesis
    proof (cases "x = 0")
      case True
      have "free_list kend s xs" using Suc.prems(2) by (simp add: vm_inv_def)
      then have "s1 = s" "xs = []" using kalloc_spec [of kend s xs] k True by (auto simp: page_ok_def)
      moreover have "p = 0" "t = s1"
        using Suc.prems(4) False k True by (auto simp: Let_def valid_def)
      ultimately show ?thesis using Suc.prems(2) by (intro exI [of _ xs]) auto
    next
      case x: False
      define u where "u = s1\<lparr>pmem := store64 (mem_fill (pmem s1) x 0 PGSIZE) (a + 8 * PX (Suc l) va) (PA2PTE x OR PTE_V)\<rparr>"
      obtain ys where ys: "vm_inv kend u ys r" "extends r (pmem s) xs (pmem u) ys"
          "descend (pmem u) r (va_path va l) = Some x" "\<forall>vb. vpte (pmem u) r vb = vpte (pmem s) r vb"
        using walk_grow [OF Suc.prems(2) _ Suc.prems(3) False k x, folded u_def] node_va_path [of va l] path by metis
      have "walk_loop va True l x u = (p, t)"
        using Suc.prems(4) False k x by (simp add: Let_def valid_def u_def)
      then obtain zs where "vm_inv kend t zs r" "extends r (pmem u) ys (pmem t) zs"
          "\<forall>vb. vpte (pmem t) r vb = vpte (pmem u) r vb"
          "if p = 0 then zs = [] else \<exists>b. descend (pmem t) r (va_path va 0) = Some b \<and> p = b + 8 * PX 0 va"
        using Suc.IH [OF _ ys(1,3)] Suc.prems(1) by auto
      then show ?thesis using extends_trans [OF ys(2)] ys(4) by (intro exI [of _ zs]) auto
    qed
  qed
qed

lemma walk_loop_lookup:
  assumes "l \<le> 2" and "pt_ok kend xs (pmem s) r" and "descend (pmem s) r (va_path va l) = Some a"
    and "walk_loop va False l a s = (p, t)"
  shows "t = s \<and> (if p = 0 then vpte (pmem s) r va = 0
     else \<exists>b. descend (pmem s) r (va_path va 0) = Some b \<and> p = b + 8 * PX 0 va)"
  using assms
proof (induction l arbitrary: a)
  case 0
  have "page_ok kend a" using pt_okD(1) [OF 0(2) node_va_path 0(3)] .
  then have "p \<noteq> 0" using 0(4) page_slot_nonzero [OF _ PX_less] by auto
  then show ?case using 0 by auto
next
  case (Suc l)
  let ?e = "load64 (pmem s) (a + 8 * PX (Suc l) va)"
  have path: "va_path va l = PX (Suc l) va # va_path va (Suc l)" using Suc.prems(1) by (simp add: va_path_simps)
  show ?case
  proof (cases "valid ?e")
    case True
    then have "descend (pmem s) r (va_path va l) = Some (PTE2PA ?e)" using Suc.prems(3) path by (simp add: Let_def)
    moreover have "walk_loop va False l (PTE2PA ?e) s = (p, t)"
      using Suc.prems(4) True by (simp add: Let_def valid_def)
    ultimately show ?thesis using Suc.IH [OF _ Suc.prems(2)] Suc.prems(1) by simp
  next
    case False
    have none: "descend (pmem s) r (va_path va l) = None" using Suc.prems(3) path False by (simp add: Let_def)
    have "descend (pmem s) r (va_path va 0) = None"
    proof (cases "l = 0")
      case True
      with none show ?thesis by simp
    next
      case False
      then have "l = 1" using Suc.prems(1) by simp
      with none show ?thesis using va_path_simps(2) [of 0 va] by simp
    qed
    then have "vpte (pmem s) r va = 0" by (simp add: vpte_def pte_def va_path_simps)
    moreover have "p = 0" "t = s" using Suc.prems(4) False by (auto simp: Let_def valid_def)
    ultimately show ?thesis by simp
  qed
qed

section \<open>Virtual pages\<close>

lemma bit_PX: "bit (PX l va) j \<longleftrightarrow> j < 9 \<and> bit va (12 + 9 * l + j)"
proof -
  have "PX l va = take_bit 9 (drop_bit (12 + 9 * l) va)"
    unfolding PX_def take_bit_eq_mask by (simp add: mask_eq_exp_minus_1)
  then show ?thesis by (simp add: bit_take_bit_iff bit_drop_bit_eq)
qed

lemma PX_bit_eq:
  assumes "PX l va = PX l vb" and "12 + 9 * l \<le> n" and "n < 12 + 9 * l + 9"
  shows "bit va n = bit vb n"
proof -
  have "bit (PX l va) (n - (12 + 9 * l)) = bit (PX l vb) (n - (12 + 9 * l))" using assms(1) by simp
  then show ?thesis using assms(2,3) by (simp add: bit_PX less_diff_conv2)
qed

lemma bit_PGROUNDDOWN: "bit (PGROUNDDOWN a) n \<longleftrightarrow> 12 \<le> n \<and> bit a n"
proof -
  have "PGSIZE - 1 = mask 12" by (simp add: mask_eq_exp_minus_1)
  then have "PGROUNDDOWN a = a AND NOT (mask 12)" by (simp only: PGROUNDDOWN_def)
  then show ?thesis by (auto simp: bit_simps dest: bit_imp_le_length)
qed

lemma MAXVA_bits: "va < MAXVA \<Longrightarrow> 38 \<le> n \<Longrightarrow> \<not> bit va n"
proof -
  assume va: "va < MAXVA" and n: "38 \<le> n"
  then have "unat va mod 2 ^ 38 = unat va" by (simp add: word_less_nat_alt unat_MAXVA)
  then have "take_bit 38 va = va" by (simp add: word_unat_eq_iff take_bit_eq_mod unat_mod_distrib)
  then show "\<not> bit va n" using n by (metis bit_take_bit_iff not_less)
qed

lemma PX_PGROUNDDOWN: "PX l (PGROUNDDOWN va) = PX l va"
  by (rule bit_word_eqI) (auto simp: bit_PX bit_PGROUNDDOWN)

lemma same_page:
  assumes "va < MAXVA" and "vb < MAXVA"
  shows "PX 0 va = PX 0 vb \<and> PX 1 va = PX 1 vb \<and> PX 2 va = PX 2 vb \<longleftrightarrow> PGROUNDDOWN va = PGROUNDDOWN vb"
proof
  assume px: "PX 0 va = PX 0 vb \<and> PX 1 va = PX 1 vb \<and> PX 2 va = PX 2 vb"
  show "PGROUNDDOWN va = PGROUNDDOWN vb"
  proof (rule bit_word_eqI)
    fix n assume "n < LENGTH(64)"
    consider "n < 12" | "12 \<le> n" "n < 21" | "21 \<le> n" "n < 30" | "30 \<le> n" "n < 38" | "38 \<le> n" by linarith
    then show "bit (PGROUNDDOWN va) n = bit (PGROUNDDOWN vb) n"
    proof cases
      case 2
      then show ?thesis using px PX_bit_eq [of 0 va vb n] by (simp add: bit_PGROUNDDOWN)
    next
      case 3
      then show ?thesis using px PX_bit_eq [of 1 va vb n] by (simp add: bit_PGROUNDDOWN)
    next
      case 4
      then show ?thesis using px PX_bit_eq [of 2 va vb n] by (simp add: bit_PGROUNDDOWN)
    qed (use MAXVA_bits [OF assms(1)] MAXVA_bits [OF assms(2)] in \<open>simp_all add: bit_PGROUNDDOWN\<close>)
  qed
next
  assume "PGROUNDDOWN va = PGROUNDDOWN vb"
  then show "PX 0 va = PX 0 vb \<and> PX 1 va = PX 1 vb \<and> PX 2 va = PX 2 vb"
    using PX_PGROUNDDOWN by metis
qed

lemma vpte_PGROUNDDOWN: "vpte m r (PGROUNDDOWN va) = vpte m r va"
  by (simp add: vpte_def PX_PGROUNDDOWN)

text \<open>A store through the pointer that \<open>walk\<close> returned for \<open>va\<close>.\<close>

lemma store_vpte:
  fixes s :: kmem and v :: u64
  assumes inv: "vm_inv kend s xs r" and d: "descend (pmem s) r (va_path va 0) = Some b"
    and va: "va < MAXVA"
  defines "t \<equiv> s\<lparr>pmem := store64 (pmem s) (b + 8 * PX 0 va) v\<rparr>"
  shows "vm_inv kend t xs r" and "extends r (pmem s) xs (pmem t) xs"
    and "\<And>vb. vb < MAXVA \<Longrightarrow> vpte (pmem t) r vb = (if PGROUNDDOWN vb = PGROUNDDOWN va then v else vpte (pmem s) r vb)"
    and "load64 (pmem s) (b + 8 * PX 0 va) = vpte (pmem s) r va"
proof -
  have ok: "pt_ok kend xs (pmem s) r" and fl: "free_list kend s xs" using inv by (simp_all add: vm_inv_def)
  have q: "node_path [PX 1 va, PX 2 va]" "length [PX 1 va, PX 2 va] = 2" by (simp_all add: PX_less)
  have dq: "descend (pmem s) r [PX 1 va, PX 2 va] = Some b" using d by (simp add: va_path_simps)
  note b = pt_okD [OF ok q(1) dq]
  note set = pt_set [OF ok q dq PX_less [of 0 va], where v = v]
  have mt: "pmem t = store64 (pmem s) (b + 8 * PX 0 va) v" by (simp add: t_def)
  have "free_list kend t xs"
    using free_list_frame [OF fl _ _ b(2,3), of t] only_page_store64 [OF PX_less] by (simp add: t_def)
  then show "vm_inv kend t xs r" using set(3) ok by (simp add: vm_inv_def mt)
  have "b \<notin> outside (pmem s) r xs" "\<forall>a \<in> outside (pmem s) r xs. aligned a" using b(4) by (simp_all add: outside_def)
  then have "keeps (outside (pmem s) r xs) (pmem s) (pmem t)"
    unfolding mt by (rule only_page_keeps [OF only_page_store64 [OF PX_less] b(2)])
  then show "extends r (pmem s) xs (pmem t) xs" using set(2) by (simp add: extends_def mt)
  show "load64 (pmem s) (b + 8 * PX 0 va) = vpte (pmem s) r va" unfolding vpte_def pte_def dq by simp
  fix vb assume vb: "vb < MAXVA"
  show "vpte (pmem t) r vb = (if PGROUNDDOWN vb = PGROUNDDOWN va then v else vpte (pmem s) r vb)"
    using set(4) [of "[PX 1 vb, PX 2 vb]" "PX 0 vb"] same_page [OF vb va]
    unfolding vpte_def mt by (auto simp: PX_less)
qed

section \<open>mappages\<close>

text \<open>The table \<open>m'\<close> is \<open>m\<close> with \<open>c\<close> pages from \<open>first\<close> on mapped to consecutive pages from \<open>pa\<close> on.\<close>

definition mapped :: "u64 \<Rightarrow> u64 \<Rightarrow> u64 \<Rightarrow> u64 \<Rightarrow> nat \<Rightarrow> memory \<Rightarrow> memory \<Rightarrow> bool" where
  "mapped r first pa perm c m m' \<longleftrightarrow>
     (\<forall>vb < MAXVA. vpte m' r vb =
        (if unat first \<le> unat (PGROUNDDOWN vb) \<and> unat (PGROUNDDOWN vb) < unat first + 4096 * c
         then PA2PTE (pa + (PGROUNDDOWN vb - first)) OR perm OR PTE_V
         else vpte m r vb))"

lemma mapped_0: "mapped r first pa perm 0 m m' \<longleftrightarrow> (\<forall>vb < MAXVA. vpte m' r vb = vpte m r vb)"
  by (auto simp: mapped_def)

lemma aligned_next:
  assumes "aligned p" and "aligned q" and "unat p \<le> unat q" and "p \<noteq> q"
  shows "unat p + 4096 \<le> unat q"
proof -
  obtain j k where "unat p = 4096 * j" "unat q = 4096 * k" using assms(1,2) by (metis alignedE)
  moreover have "unat p \<noteq> unat q" using assms(4) by (simp add: word_unat_eq_iff)
  ultimately show ?thesis using assms(3) by simp
qed

lemma mapped_Suc:
  assumes "mapped r (a + PGSIZE) (pa + PGSIZE) perm c m1 m2" and "aligned a" and "a < MAXVA"
    and "\<And>vb. vb < MAXVA \<Longrightarrow> vpte m1 r vb = (if PGROUNDDOWN vb = a then PA2PTE pa OR perm OR PTE_V else vpte m r vb)"
  shows "mapped r a pa perm (Suc c) m m2"
  unfolding mapped_def
proof (intro allI impI)
  fix vb assume vb: "vb < MAXVA"
  let ?p = "PGROUNDDOWN vb"
  have a': "unat (a + PGSIZE) = unat a + 4096"
    using assms(3) by (simp add: word_less_nat_alt unat_MAXVA unat_word_ariths)
  have v2: "vpte m2 r vb = (if unat a + 4096 \<le> unat ?p \<and> unat ?p < unat a + 4096 + 4096 * c
      then PA2PTE (pa + (?p - a)) OR perm OR PTE_V else vpte m1 r vb)"
    using assms(1) vb by (simp add: mapped_def a')
  consider "?p = a" | "?p \<noteq> a" "unat a \<le> unat ?p" "unat a + 4096 \<le> unat ?p" | "?p \<noteq> a" "\<not> unat a \<le> unat ?p"
    using aligned_next [OF assms(2) aligned_PGROUNDDOWN [of vb]] by metis
  then show "vpte m2 r vb = (if unat a \<le> unat ?p \<and> unat ?p < unat a + 4096 * Suc c
      then PA2PTE (pa + (?p - a)) OR perm OR PTE_V else vpte m r vb)"
    by cases (use v2 assms(4) [OF vb] in simp_all)
qed

text \<open>One turn of the loop, up to the decision whether it was the last.\<close>

lemma mappages_turn:
  assumes inv: "vm_inv kend s xs r" and al: "aligned a" and lt: "a < MAXVA"
  obtains (no_memory) t where "mappages_loop r a final pa perm s = Ok (- 1, t)" "vm_inv kend t [] r"
      "extends r (pmem s) xs (pmem t) []" "mapped r a pa perm 0 (pmem s) (pmem t)"
    | (remap) "mappages_loop r a final pa perm s = Panic ''mappages: remap''" "valid (vpte (pmem s) r a)"
    | (set) t ys where "mappages_loop r a final pa perm s =
        (if a = final then Ok (0, t) else mappages_loop r (a + PGSIZE) final (pa + PGSIZE) perm t)"
      "vm_inv kend t ys r" "extends r (pmem s) xs (pmem t) ys"
      "\<And>vb. vb < MAXVA \<Longrightarrow> vpte (pmem t) r vb =
         (if PGROUNDDOWN vb = a then PA2PTE pa OR perm OR PTE_V else vpte (pmem s) r vb)"
proof -
  obtain p u where p: "walk_loop a True 2 r s = (p, u)" by fastforce
  have w: "walk r a True s = Ok (p, u)" using lt p by (simp add: walk_def not_le)
  have "descend (pmem s) r (va_path a 2) = Some r" by (simp add: va_path_simps)
  then obtain ys where ys: "vm_inv kend u ys r" "extends r (pmem s) xs (pmem u) ys"
      "\<forall>vb. vpte (pmem u) r vb = vpte (pmem s) r vb"
      "if p = 0 then ys = [] else \<exists>b. descend (pmem u) r (va_path a 0) = Some b \<and> p = b + 8 * PX 0 a"
    using walk_loop_alloc [OF _ inv _ p] by auto
  have pg: "PGROUNDDOWN a = a" using al by (simp add: word_unat_eq_iff unat_PGROUNDDOWN aligned_def)
  show ?thesis
  proof (cases "p = 0")
    case True
    then have "mappages_loop r a final pa perm s = Ok (- 1, u)" by (subst mappages_loop.simps) (simp add: w)
    then show ?thesis using no_memory True ys by (simp add: mapped_0)
  next
    case False
    then obtain b where b: "descend (pmem u) r (va_path a 0) = Some b" "p = b + 8 * PX 0 a" using ys(4) by auto
    note st = store_vpte(1-3) [OF ys(1) b(1) lt, where v = "PA2PTE pa OR perm OR PTE_V", folded b(2)]
    note old = store_vpte(4) [OF ys(1) b(1) lt, folded b(2)]
    show ?thesis
    proof (cases "valid (vpte (pmem s) r a)")
      case True
      then have "load64 (pmem u) p AND PTE_V \<noteq> 0" using old ys(3) by (simp add: valid_def)
      then have "mappages_loop r a final pa perm s = Panic ''mappages: remap''"
        using False by (subst mappages_loop.simps) (simp add: w)
      then show ?thesis using remap True by blast
    next
      case inval: False
      then have "load64 (pmem u) p AND PTE_V = 0" using old ys(3) by (simp add: valid_def)
      then have "mappages_loop r a final pa perm s =
        (let t = u\<lparr>pmem := store64 (pmem u) p (PA2PTE pa OR perm OR PTE_V)\<rparr> in
         if a = final then Ok (0, t) else mappages_loop r (a + PGSIZE) final (pa + PGSIZE) perm t)"
        using False by (subst mappages_loop.simps) (simp add: w)
      then show ?thesis
        using set [OF _ st(1) extends_trans [OF ys(2) st(2)]] st(3) ys(3) pg by (simp add: Let_def)
    qed
  qed
qed

lemma mappages_loop_spec:
  assumes "vm_inv kend s xs r" and "aligned a" and "unat final = unat a + 4096 * n" and "final < MAXVA"
  shows "case mappages_loop r a final pa perm s of
      Ok (res, t) \<Rightarrow> \<exists>ys. vm_inv kend t ys r \<and> extends r (pmem s) xs (pmem t) ys
        \<and> (res = 0 \<and> mapped r a pa perm (Suc n) (pmem s) (pmem t)
          \<or> res = - 1 \<and> ys = [] \<and> (\<exists>c \<le> n. mapped r a pa perm c (pmem s) (pmem t)))
    | Panic msg \<Rightarrow> \<exists>vb < MAXVA. unat a \<le> unat vb \<and> unat vb \<le> unat final \<and> valid (vpte (pmem s) r vb)
    | _ \<Rightarrow> False"
  using assms
proof (induction n arbitrary: a pa s xs)
  case (0 a pa s xs)
  then have fa: "final = a" by (simp add: word_unat_eq_iff)
  then have lt: "a < MAXVA" using 0 by simp
  show ?case
  proof (cases rule: mappages_turn [OF 0(1,2) lt, of final pa perm])
    case (3 t ys)
    have "mapped r (a + PGSIZE) (pa + PGSIZE) perm 0 (pmem t) (pmem t)" by (simp add: mapped_0)
    from mapped_Suc [OF this 0(2) lt 3(4)] show ?thesis using 3(1-3) fa by auto
  qed (use lt fa in auto)
next
  case (Suc n a pa s xs)
  have lt: "a < MAXVA" and ne: "a \<noteq> final"
    using Suc.prems(3,4) by (auto simp: word_less_nat_alt)
  have a': "unat (a + PGSIZE) = unat a + 4096"
    using lt by (simp add: word_less_nat_alt unat_MAXVA unat_word_ariths)
  show ?case
  proof (cases rule: mappages_turn [OF Suc.prems(1,2) lt, of final pa perm])
    case (1 t)
    then show ?thesis by auto
  next
    case 2
    then show ?thesis using lt Suc.prems(3) by auto
  next
    case (3 t ys)
    have eq: "mappages_loop r a final pa perm s = mappages_loop r (a + PGSIZE) final (pa + PGSIZE) perm t"
      using 3(1) ne by simp
    have f: "unat final = unat (a + PGSIZE) + 4096 * n" using Suc.prems(3) a' by simp
    note IH = Suc.IH [OF 3(2) aligned_add [OF Suc.prems(2)] f Suc.prems(4), of "pa + PGSIZE"]
    note grow = mapped_Suc [OF _ Suc.prems(2) lt 3(4)]
    show ?thesis
    proof (cases "mappages_loop r (a + PGSIZE) final (pa + PGSIZE) perm t")
      case (Ok q)
      obtain res u where q: "q = (res, u)" by fastforce
      obtain zs where zs: "vm_inv kend u zs r" "extends r (pmem t) ys (pmem u) zs"
          "res = 0 \<and> mapped r (a + PGSIZE) (pa + PGSIZE) perm (Suc n) (pmem t) (pmem u)
           \<or> res = - 1 \<and> zs = [] \<and> (\<exists>c \<le> n. mapped r (a + PGSIZE) (pa + PGSIZE) perm c (pmem t) (pmem u))"
        using IH Ok q by auto
      have "res = 0 \<and> mapped r a pa perm (Suc (Suc n)) (pmem s) (pmem u)
           \<or> res = - 1 \<and> zs = [] \<and> (\<exists>c \<le> Suc n. mapped r a pa perm c (pmem s) (pmem u))"
        using zs(3) grow by (metis Suc_le_mono)
      then show ?thesis using eq Ok q zs(1) extends_trans [OF 3(3) zs(2)] by auto
    next
      case (Panic msg)
      then obtain vb where vb: "vb < MAXVA" "unat a + 4096 \<le> unat vb" "unat vb \<le> unat final" "valid (vpte (pmem t) r vb)"
        using IH a' by auto
      have "PGROUNDDOWN vb \<noteq> a"
      proof
        assume "PGROUNDDOWN vb = a"
        then have "unat a = unat vb - unat vb mod 4096" using unat_PGROUNDDOWN by metis
        moreover have "unat vb mod 4096 < 4096" by simp
        ultimately show False using vb(2) by linarith
      qed
      then have "valid (vpte (pmem s) r vb)" using vb(4) 3(4) [OF vb(1)] by simp
      then show ?thesis using eq Panic vb by auto
    qed (use IH eq in auto)
  qed
qed

lemma mappages_spec:
  assumes "vm_inv kend s xs r" and "0 < sz" and "unat va + unat sz \<le> unat MAXVA"
  shows "case mappages r va sz pa perm s of
      Ok (res, t) \<Rightarrow> \<exists>ys. vm_inv kend t ys r \<and> extends r (pmem s) xs (pmem t) ys
        \<and> (res = 0 \<and> (\<forall>vb < MAXVA. vpte (pmem t) r vb =
               (if PGROUNDDOWN va \<le> PGROUNDDOWN vb \<and> PGROUNDDOWN vb \<le> va + sz - 1
                then PA2PTE (pa + (PGROUNDDOWN vb - PGROUNDDOWN va)) OR perm OR PTE_V else vpte (pmem s) r vb))
          \<or> res = - 1 \<and> ys = [] \<and> (\<exists>c. 4096 * c < unat va mod 4096 + unat sz
              \<and> mapped r (PGROUNDDOWN va) pa perm c (pmem s) (pmem t)))
    | Panic msg \<Rightarrow> \<exists>vb < MAXVA. PGROUNDDOWN va \<le> vb \<and> vb \<le> va + sz - 1 \<and> valid (vpte (pmem s) r vb)
    | _ \<Rightarrow> False"
proof -
  let ?a = "PGROUNDDOWN va" and ?e = "va + sz - 1"
  have sz: "0 < unat sz" using assms(2) by (simp add: word_less_nat_alt)
  have e: "unat ?e = unat va + unat sz - 1"
  proof -
    have "unat (va + sz) = unat va + unat sz" using assms(3) by (simp add: unat_MAXVA unat_word_ariths)
    moreover have "va + sz \<noteq> 0" using calculation sz by (auto simp: word_unat_eq_iff)
    ultimately show ?thesis by (simp add: unat_dec)
  qed
  have emax: "?e < MAXVA" using e sz assms(3) by (simp add: word_less_nat_alt)
  have pe: "unat (PGROUNDDOWN ?e) = unat ?e - unat ?e mod 4096" and pa: "unat ?a = unat va - unat va mod 4096"
    by (rule unat_PGROUNDDOWN)+
  define n where "n = (unat va mod 4096 + unat sz - 1) div 4096"
  have va: "unat va = unat ?a + unat va mod 4096" using pa by simp
  have "unat ?e = unat ?a + (unat va mod 4096 + unat sz - 1)" using e va sz by linarith
  moreover obtain k where k: "unat ?a = 4096 * k" using aligned_PGROUNDDOWN by (rule alignedE)
  ultimately have "unat (PGROUNDDOWN ?e) = unat ?a + 4096 * n"
    unfolding pe minus_mod_eq_mult_div n_def by (simp add: div_add1_eq)
  moreover have fmax: "PGROUNDDOWN ?e < MAXVA" using emax pe by (simp add: word_less_nat_alt)
  ultimately have post: "case mappages_loop r ?a (PGROUNDDOWN ?e) pa perm s of
      Ok (res, t) \<Rightarrow> \<exists>ys. vm_inv kend t ys r \<and> extends r (pmem s) xs (pmem t) ys
        \<and> (res = 0 \<and> mapped r ?a pa perm (Suc n) (pmem s) (pmem t)
          \<or> res = - 1 \<and> ys = [] \<and> (\<exists>c \<le> n. mapped r ?a pa perm c (pmem s) (pmem t)))
    | Panic msg \<Rightarrow> \<exists>vb < MAXVA. unat ?a \<le> unat vb \<and> unat vb \<le> unat (PGROUNDDOWN ?e) \<and> valid (vpte (pmem s) r vb)
    | _ \<Rightarrow> False"
    using mappages_loop_spec [OF assms(1) aligned_PGROUNDDOWN [of va]] by blast
  have range: "unat (PGROUNDDOWN vb) < unat ?a + 4096 * Suc n \<longleftrightarrow> PGROUNDDOWN vb \<le> ?e"
    if ge: "unat ?a \<le> unat (PGROUNDDOWN vb)" for vb
  proof -
    obtain j where j: "unat (PGROUNDDOWN vb) = 4096 * j" using aligned_PGROUNDDOWN by (rule alignedE)
    define x where "x = unat va mod 4096 + unat sz - 1"
    have ue: "unat ?e = 4096 * k + x" using e va sz k by (simp add: x_def)
    have "4096 * n \<le> x" "x < 4096 * Suc n"
      using dividend_less_times_div [of 4096 x] unfolding n_def x_def [symmetric] by simp_all
    then have "4096 * j < 4096 * k + 4096 * Suc n" "4096 * j \<le> 4096 * k + x" if "j \<le> k + n"
      using that by linarith+
    moreover have "\<not> 4096 * j < 4096 * k + 4096 * Suc n" "\<not> 4096 * j \<le> 4096 * k + x" if h: "\<not> j \<le> k + n"
    proof -
      obtain i where "j = k + Suc n + i" using h less_imp_Suc_add [of "k + n" j] by auto
      then show "\<not> 4096 * j < 4096 * k + 4096 * Suc n" "\<not> 4096 * j \<le> 4096 * k + x"
        using \<open>x < 4096 * Suc n\<close> by simp_all
    qed
    ultimately show ?thesis unfolding word_le_nat_alt ue j k by blast
  qed
  have cn: "4096 * c < unat va mod 4096 + unat sz" if "c \<le> n" for c
  proof -
    have "4096 * c \<le> 4096 * n" using that by simp
    also have "\<dots> \<le> unat va mod 4096 + unat sz - 1" by (simp add: n_def)
    finally show ?thesis using sz by linarith
  qed
  have eq: "mappages r va sz pa perm s = mappages_loop r ?a (PGROUNDDOWN ?e) pa perm s"
    using assms(2) by (auto simp: mappages_def)
  show ?thesis
  proof (cases "mappages_loop r ?a (PGROUNDDOWN ?e) pa perm s")
    case (Ok q)
    obtain res t where q: "q = (res, t)" by fastforce
    then obtain ys where ys: "vm_inv kend t ys r" "extends r (pmem s) xs (pmem t) ys"
        "res = 0 \<and> mapped r ?a pa perm (Suc n) (pmem s) (pmem t)
         \<or> res = - 1 \<and> ys = [] \<and> (\<exists>c \<le> n. mapped r ?a pa perm c (pmem s) (pmem t))"
      using post Ok by auto
    have "mapped r ?a pa perm (Suc n) (pmem s) (pmem t) \<longleftrightarrow> (\<forall>vb < MAXVA. vpte (pmem t) r vb =
               (if ?a \<le> PGROUNDDOWN vb \<and> PGROUNDDOWN vb \<le> ?e
                then PA2PTE (pa + (PGROUNDDOWN vb - ?a)) OR perm OR PTE_V else vpte (pmem s) r vb))"
      unfolding mapped_def word_le_nat_alt [of ?a] using range by (metis (no_types, lifting))
    then show ?thesis using ys Ok q eq cn by auto
  next
    case (Panic msg)
    then obtain vb where vb: "vb < MAXVA" "unat ?a \<le> unat vb" "unat vb \<le> unat (PGROUNDDOWN ?e)" "valid (vpte (pmem s) r vb)"
      using post by auto
    then have "?a \<le> vb" "vb \<le> ?e" using pe by (simp_all add: word_le_nat_alt)
    with vb show ?thesis using Panic eq by auto
  qed (use post in auto)
qed

text \<open>A new table is well-formed and maps nothing.\<close>

lemma uvmcreate_spec:
  assumes "free_list kend s xs" and "uvmcreate s = (r, t)" and "r \<noteq> 0"
  shows "\<exists>ys. xs = r # ys \<and> vm_inv kend t ys r \<and> pt_pages (pmem t) r = {r} \<and> (\<forall>va. vpte (pmem t) r va = 0)
     \<and> only_page r (pmem s) (pmem t)"
proof -
  obtain u where k: "kalloc s = (r, u)" and t: "t = u\<lparr>pmem := mem_fill (pmem u) r 0 PGSIZE\<rparr>"
    using assms(2,3) by (auto simp: uvmcreate_def split: prod.splits if_splits)
  obtain ys where ys: "xs = r # ys" "page_ok kend r" "r \<notin> set ys" "free_list kend u ys" "only_page r (pmem s) (pmem u)"
    using kalloc_spec [OF assms(1)] k assms(3) by auto
  have ar: "aligned r" using ys(2) by (simp add: page_ok_def)
  have only: "only_page r (pmem u) (pmem t)" by (simp add: t only_page_fill)
  have fl: "free_list kend t ys" using free_list_frame [OF ys(4) only _ ar ys(3)] by (simp add: t)
  have none: "descend (pmem t) r q = None" if "node_path q" "q \<noteq> []" for q
    using that
  proof (induction q)
    case (Cons i q)
    show ?case
    proof (cases "q = []")
      case True
      then show ?thesis using Cons.prems load64_fill_0 [of i "pmem u" r] by (simp add: t Let_def)
    qed (use Cons node_path_tl [OF Cons.prems(1)] in simp)
  qed simp
  have pages: "pt_pages (pmem t) r = {r}"
  proof (intro set_eqI iffI)
    fix a assume "a \<in> pt_pages (pmem t) r"
    then obtain q where q: "node_path q" "descend (pmem t) r q = Some a" by (auto simp: pt_pages_def)
    then show "a \<in> {r}" using none [OF q(1)] by (cases "q = []") auto
  qed (auto intro: pt_pagesI [of "[]"])
  have "p = q" if "node_path p" "node_path q" "descend (pmem t) r p \<noteq> None" "descend (pmem t) r p = descend (pmem t) r q" for p q
    using none [OF that(1)] none [OF that(2)] that(3,4) by metis
  then have "pt_ok kend ys (pmem t) r" unfolding pt_ok_def pages using ys(2,3) by blast
  moreover have "vpte (pmem t) r va = 0" for va
    using none [of "[PX 1 va, PX 2 va]"] by (simp add: vpte_def pte_def PX_less)
  ultimately show ?thesis
    using fl ys(1) pages only_page_trans [OF ys(5) only] by (auto simp: vm_inv_def)
qed

text \<open>A machine with four free pages.\<close>

definition demo_kmem :: kmem where
  "demo_kmem = \<lparr>pmem = store64 (store64 (store64 (\<lambda>_. 0) 0x87fff000 0x87ffe000) 0x87ffe000 0x87ffd000) 0x87ffd000 0x87ffc000,
     freelist = 0x87fff000\<rparr>"

lemma demo_free_list: "free_list 0x87ff0000 demo_kmem [0x87fff000, 0x87ffe000, 0x87ffd000, 0x87ffc000]"
proof -
  have other: "load64 (store64 m a v) b = load64 m b" if "aligned a" "aligned b" "a \<noteq> b" for m a v b
    using load64_other_page [OF only_page_store64_0 that, of 0 m v] by simp
  have al: "aligned 0x87fff000" "aligned 0x87ffe000" "aligned 0x87ffd000" "aligned 0x87ffc000"
    by (simp_all add: aligned_def)
  have "load64 (\<lambda>_. 0) a = 0" for a by (simp add: load64_def)
  then show ?thesis
    using al by (simp add: free_list_def demo_kmem_def other page_ok_def PHYSTOP_def)
qed

text \<open>It with one user page mapped, as a process has it.\<close>

lemma demo_mapped:
  "\<exists>s t ys. uvmcreate demo_kmem = (0x87fff000, s) \<and> mappages 0x87fff000 0x3000 4096 0x87654000 22 s = Ok (0, t)
     \<and> vm_inv 0x87ff0000 t ys 0x87fff000 \<and> 0x87654000 \<notin> pt_pages (pmem t) 0x87fff000
     \<and> (\<forall>vb < MAXVA. vpte (pmem t) 0x87fff000 vb = (if PGROUNDDOWN vb = 0x3000 then PA2PTE 0x87654000 OR 23 else 0))"
proof -
  obtain s where s: "uvmcreate demo_kmem = (0x87fff000, s)"
    by (simp add: uvmcreate_def kalloc_def demo_kmem_def Let_def)
  obtain ys where ys: "ys = [0x87ffe000, 0x87ffd000, 0x87ffc000]" "vm_inv 0x87ff0000 s ys 0x87fff000"
      "pt_pages (pmem s) 0x87fff000 = {0x87fff000}" "\<forall>va. vpte (pmem s) 0x87fff000 va = 0"
    using uvmcreate_spec [OF demo_free_list s] by auto
  have lt: "(0 :: u64) < 4096" "unat (0x3000 :: u64) + unat (4096 :: u64) \<le> unat MAXVA" by (simp_all add: unat_MAXVA)
  note m = mappages_spec [OF ys(2) lt, where pa = "0x87654000" and perm = 22]
  have "case mappages 0x87fff000 0x3000 4096 0x87654000 22 (snd (uvmcreate demo_kmem)) of Ok (r, t) \<Rightarrow> r = 0 | _ \<Rightarrow> False"
    by code_simp
  then obtain t where t: "mappages 0x87fff000 0x3000 4096 0x87654000 22 s = Ok (0, t)"
    using s by (auto split: kres.splits prod.splits)
  obtain zs where zs: "vm_inv 0x87ff0000 t zs 0x87fff000" "extends 0x87fff000 (pmem s) ys (pmem t) zs"
    using m unfolding t by auto
  have "pt_pages (pmem t) 0x87fff000 \<subseteq> {0x87fff000, 0x87ffe000, 0x87ffd000, 0x87ffc000}"
    using zs(2) unfolding extends_def ys(1,3) by auto
  then have np: "0x87654000 \<notin> pt_pages (pmem t) 0x87fff000" by auto
  have v: "vpte (pmem t) 0x87fff000 vb = (if PGROUNDDOWN 0x3000 \<le> PGROUNDDOWN vb \<and> PGROUNDDOWN vb \<le> 0x3000 + 4096 - 1
      then PA2PTE (0x87654000 + (PGROUNDDOWN vb - PGROUNDDOWN 0x3000)) OR 22 OR PTE_V else vpte (pmem s) 0x87fff000 vb)"
    if "vb < MAXVA" for vb
    using m that unfolding t by auto
  have pg: "PGROUNDDOWN 0x3000 = 0x3000" by (simp add: PGROUNDDOWN_def)
  have one: "PGROUNDDOWN 0x3000 \<le> PGROUNDDOWN vb \<and> PGROUNDDOWN vb \<le> 0x3000 + 4096 - 1 \<longleftrightarrow> PGROUNDDOWN vb = 0x3000" for vb
  proof
    assume h: "PGROUNDDOWN 0x3000 \<le> PGROUNDDOWN vb \<and> PGROUNDDOWN vb \<le> 0x3000 + 4096 - 1"
    have "aligned 0x3000" by (simp add: aligned_def)
    moreover have "unat (0x3000 :: u64) \<le> unat (PGROUNDDOWN vb)" "\<not> unat (0x3000 :: u64) + 4096 \<le> unat (PGROUNDDOWN vb)"
      using h unfolding pg by (simp_all add: word_le_nat_alt)
    ultimately show "PGROUNDDOWN vb = 0x3000" using aligned_next [OF _ aligned_PGROUNDDOWN] by metis
  qed (simp add: pg)
  have f: "(22 :: u64) OR 1 = 23" by simp
  have "vpte (pmem t) 0x87fff000 vb = (if PGROUNDDOWN vb = 0x3000 then PA2PTE 0x87654000 OR 23 else 0)"
    if "vb < MAXVA" for vb
    using v [OF that, unfolded one] ys(4) f pg by (cases "PGROUNDDOWN vb = 0x3000") (simp_all add: or.assoc)
  with s t zs(1) np show ?thesis by blast
qed

text \<open>C22: \<open>mappages\<close> is an update of the abstract page table. On a well-formed table whose pages are
  disjoint from the free list, and an address range below \<open>MAXVA\<close>, it returns 0 having mapped
  every page of the range, consecutively from \<open>pa\<close>, and changed the entry of no other address; or
  it returns -1 because the allocator is exhausted, having mapped the pages of a prefix of the
  range; or it panics, and then some page of the range was mapped already. Page-table pages are
  taken from the free list, and memory outside the table and the free pages is not written.\<close>

theorem mappages_correct:
  assumes "vm_inv kend s xs r" and "0 < sz" and "unat va + unat sz \<le> unat MAXVA"
  shows "case mappages r va sz pa perm s of
      Ok (res, t) \<Rightarrow> \<exists>ys. vm_inv kend t ys r \<and> extends r (pmem s) xs (pmem t) ys
        \<and> (res = 0 \<and> (\<forall>vb < MAXVA. vpte (pmem t) r vb =
               (if PGROUNDDOWN va \<le> PGROUNDDOWN vb \<and> PGROUNDDOWN vb \<le> va + sz - 1
                then PA2PTE (pa + (PGROUNDDOWN vb - PGROUNDDOWN va)) OR perm OR PTE_V else vpte (pmem s) r vb))
          \<or> res = - 1 \<and> ys = [] \<and> (\<exists>c. 4096 * c < unat va mod 4096 + unat sz
              \<and> mapped r (PGROUNDDOWN va) pa perm c (pmem s) (pmem t)))
    | Panic msg \<Rightarrow> \<exists>vb < MAXVA. PGROUNDDOWN va \<le> vb \<and> vb \<le> va + sz - 1 \<and> valid (vpte (pmem s) r vb)
    | _ \<Rightarrow> False"
  using mappages_spec [OF assms] .

lemma mappages_correct_witness:
  "\<exists>s t. uvmcreate demo_kmem = (0x87fff000, s) \<and> mappages 0x87fff000 0x3000 4096 0x87654000 22 s = Ok (0, t)
     \<and> vpte (pmem t) 0x87fff000 0x3000 = PA2PTE 0x87654000 OR 23"
proof -
  obtain s where s: "uvmcreate demo_kmem = (0x87fff000, s)"
    by (simp add: uvmcreate_def kalloc_def demo_kmem_def Let_def)
  obtain ys where ys: "vm_inv 0x87ff0000 s ys 0x87fff000" using uvmcreate_spec [OF demo_free_list s] by auto
  have lt: "(0 :: u64) < 4096" "unat (0x3000 :: u64) + unat (4096 :: u64) \<le> unat MAXVA" by (simp_all add: unat_MAXVA)
  obtain t where t: "mappages 0x87fff000 0x3000 4096 0x87654000 22 s = Ok (0, t)" using demo_mapped s by auto
  note m = mappages_correct [OF ys lt, where pa = "0x87654000" and perm = 22, unfolded t]
  have pg: "PGROUNDDOWN 0x3000 = 0x3000" by (simp add: PGROUNDDOWN_def)
  have c: "PGROUNDDOWN 0x3000 \<le> PGROUNDDOWN 0x3000 \<and> PGROUNDDOWN 0x3000 \<le> 0x3000 + 4096 - 1" unfolding pg by simp
  have "vpte (pmem t) 0x87fff000 vb = (if PGROUNDDOWN 0x3000 \<le> PGROUNDDOWN vb \<and> PGROUNDDOWN vb \<le> 0x3000 + 4096 - 1
      then PA2PTE (0x87654000 + (PGROUNDDOWN vb - PGROUNDDOWN 0x3000)) OR 22 OR PTE_V else vpte (pmem s) 0x87fff000 vb)"
    if "vb < MAXVA" for vb
    using m that by auto
  moreover have "0x3000 < MAXVA" by (simp add: word_less_nat_alt unat_MAXVA)
  ultimately have "vpte (pmem t) 0x87fff000 0x3000 = PA2PTE (0x87654000 + (PGROUNDDOWN 0x3000 - PGROUNDDOWN 0x3000)) OR 22 OR PTE_V"
    using c by metis
  moreover have "(22 :: u64) OR 1 = 23" by simp
  ultimately have "vpte (pmem t) 0x87fff000 0x3000 = PA2PTE 0x87654000 OR 23" by (metis diff_self add.right_neutral)
  with s t show ?thesis by blast
qed

end
