(* ===== verification/UserMemory.thy ===== *)
theory UserMemory imports PageTable begin

text \<open>
  Copying between the kernel and user memory: what \<open>copyout\<close>, \<open>copyin\<close> and \<open>copyinstr\<close> of
  kernel/vm.c do to the bytes a process sees. \<open>ubyte\<close> is the memory of the process as its page
  table presents it; \<open>user_sep\<close> says that its pages are distinct and are not page-table pages.
\<close>

section \<open>The memory of a process\<close>

definition upage :: "memory \<Rightarrow> u64 \<Rightarrow> u64 \<Rightarrow> u64 option" where
  "upage m r va =
     (let e = vpte m r va in
      if va < MAXVA \<and> valid e \<and> e AND PTE_U \<noteq> 0 \<and> PTE2PA e \<noteq> 0 then Some (PTE2PA e) else None)"

definition ubyte :: "memory \<Rightarrow> u64 \<Rightarrow> u64 \<Rightarrow> u8 option" where
  "ubyte m r va = map_option (\<lambda>p. m (p + (va - PGROUNDDOWN va))) (upage m r va)"

definition user_sep :: "memory \<Rightarrow> u64 \<Rightarrow> bool" where
  "user_sep m r \<longleftrightarrow>
     (\<forall>va p. upage m r va = Some p \<longrightarrow> p \<notin> pt_pages m r)
   \<and> (\<forall>va vb p. upage m r va = Some p \<longrightarrow> upage m r vb = Some p \<longrightarrow> PGROUNDDOWN va = PGROUNDDOWN vb)"

lemma PGROUNDDOWN_less_MAXVA: "PGROUNDDOWN va < MAXVA \<longleftrightarrow> va < MAXVA"
proof -
  have "unat MAXVA = 4096 * 2 ^ 26" by (simp add: unat_MAXVA)
  moreover obtain j where j: "unat (PGROUNDDOWN va) = 4096 * j" using aligned_PGROUNDDOWN by (rule alignedE)
  moreover have "unat va < unat (PGROUNDDOWN va) + 4096" "unat (PGROUNDDOWN va) \<le> unat va"
    by (simp_all add: unat_PGROUNDDOWN)
  ultimately show ?thesis by (cases "j < 67108864") (auto simp: word_less_nat_alt)
qed

lemma PGROUNDDOWN_idem [simp]: "PGROUNDDOWN (PGROUNDDOWN va) = PGROUNDDOWN va"
  by (rule bit_word_eqI) (simp add: bit_PGROUNDDOWN)

lemma upage_PGROUNDDOWN: "upage m r (PGROUNDDOWN va) = upage m r va"
  by (simp add: upage_def vpte_PGROUNDDOWN PGROUNDDOWN_less_MAXVA)

lemma aligned_upage: "upage m r va = Some p \<Longrightarrow> aligned p \<and> p \<noteq> 0 \<and> va < MAXVA"
  by (auto simp: upage_def Let_def aligned_PTE2PA split: if_splits)

lemma walkaddr_spec:
  assumes "pt_ok kend xs (pmem s) r"
  shows "walkaddr r va s = (case upage (pmem s) r va of None \<Rightarrow> 0 | Some p \<Rightarrow> p)"
proof (cases "va < MAXVA")
  case True
  obtain p t where p: "walk_loop va False 2 r s = (p, t)" by fastforce
  have "descend (pmem s) r (va_path va 2) = Some r" by (simp add: va_path_simps)
  then have t: "t = s" and d: "if p = 0 then vpte (pmem s) r va = 0
     else \<exists>b. descend (pmem s) r (va_path va 0) = Some b \<and> p = b + 8 * PX 0 va"
    using walk_loop_lookup [OF _ assms _ p] by auto
  have "load64 (pmem s) p = vpte (pmem s) r va" if "p \<noteq> 0"
    using d that by (auto simp: vpte_def pte_def va_path_simps)
  then show ?thesis
    using True p t d by (auto simp: walkaddr_def walk_def not_le upage_def valid_def Let_def)
next
  case False
  then show ?thesis by (simp add: walkaddr_def upage_def not_less Let_def)
qed

text \<open>Offsets inside a page.\<close>

lemma page_offset:
  assumes "j < unat (PGSIZE - (va - PGROUNDDOWN va))"
  shows "PGROUNDDOWN (va + of_nat j) = PGROUNDDOWN va"
proof -
  let ?o = "va - PGROUNDDOWN va"
  have o: "unat ?o = unat va mod 4096" by (simp add: PGROUNDDOWN_eq unat_take12)
  then have "?o \<le> PGSIZE" by (simp add: word_le_nat_alt)
  then have "unat (PGSIZE - ?o) = 4096 - unat ?o" by (simp add: unat_sub)
  then have "unat ?o + j < 4096" using assms o by simp
  then have "unat (?o + of_nat j) < 4096"
    by (simp add: unat_word_ariths unat_of_nat)
  then have "in_page (PGROUNDDOWN va) (PGROUNDDOWN va + (?o + of_nat j))"
    unfolding in_page_add by (simp add: word_less_nat_alt)
  then show ?thesis by (simp add: in_page_iff algebra_simps)
qed

lemma offset_less: "va - PGROUNDDOWN va < PGSIZE"
  by (simp add: PGROUNDDOWN_eq word_less_nat_alt unat_take12)

section \<open>copyout\<close>

lemma mem_store_in_page:
  assumes "length bs \<le> unat (PGSIZE - off)" and "off < PGSIZE"
  shows "only_page p m (mem_store m (p + off) bs)"
  unfolding only_page_def
proof (intro allI impI)
  fix x assume n: "\<not> in_page p x"
  have "\<not> unat (x - (p + off)) < length bs"
  proof
    assume l: "unat (x - (p + off)) < length bs"
    have "unat (PGSIZE - off) = 4096 - unat off" using assms(2) by (simp add: unat_sub word_less_nat_alt word_le_nat_alt)
    then have "unat (x - (p + off)) + unat off < 4096" using l assms(1) by simp
    then have "unat ((x - (p + off)) + off) < 4096" by (simp only: unat_word_ariths) (meson mod_less_eq_dividend order.strict_trans1)
    moreover have "(x - (p + off)) + off = x - p" by simp
    ultimately have "unat (x - p) < 4096" by metis
    with n show False by (simp add: in_page_def word_less_nat_alt)
  qed
  then show "mem_store m (p + off) bs x = m x" by (simp add: mem_store_def)
qed

text \<open>The effect of storing a piece that lies in one page.\<close>

lemma store_piece:
  assumes ok: "pt_ok kend xs m r" and sep: "user_sep m r" and p: "upage m r va = Some p"
    and len: "length bs \<le> unat (PGSIZE - (va - PGROUNDDOWN va))"
  defines "m' \<equiv> mem_store m (p + (va - PGROUNDDOWN va)) bs"
  shows "keeps (pt_pages m r) m m'"
    and "ubyte m' r a = (if unat (a - va) < length bs then Some (bs ! unat (a - va)) else ubyte m r a)"
proof -
  let ?off = "va - PGROUNDDOWN va"
  have ap: "aligned p" using aligned_upage [OF p] by blast
  have only: "only_page p m m'" unfolding m'_def by (rule mem_store_in_page [OF len offset_less])
  have np: "p \<notin> pt_pages m r" using sep p by (auto simp: user_sep_def)
  have al: "\<forall>a \<in> pt_pages m r. aligned a" using ok by (auto simp: pt_ok_def page_ok_def)
  show ke: "keeps (pt_pages m r) m m'" by (rule only_page_keeps [OF only ap np al])
  have up: "upage m' r b = upage m r b" for b by (simp add: upage_def keeps_vpte [OF ke])
  show "ubyte m' r a = (if unat (a - va) < length bs then Some (bs ! unat (a - va)) else ubyte m r a)"
  proof (cases "PGROUNDDOWN a = PGROUNDDOWN va")
    case True
    then have ua: "upage m r a = Some p" using p by (metis upage_PGROUNDDOWN)
    have "(p + (a - PGROUNDDOWN a)) - (p + ?off) = a - va" using True by simp
    then show ?thesis using ua up by (simp add: ubyte_def m'_def mem_store_def)
  next
    case False
    have ge: "\<not> unat (a - va) < length bs"
    proof
      assume "unat (a - va) < length bs"
      then have "PGROUNDDOWN (va + of_nat (unat (a - va))) = PGROUNDDOWN va" using len by (intro page_offset) simp
      with False show False by simp
    qed
    show ?thesis
    proof (cases "upage m r a")
      case None
      then show ?thesis using ge up by (simp add: ubyte_def)
    next
      case (Some q)
      then have "q \<noteq> p" using sep p False unfolding user_sep_def by blast
      moreover have "in_page q (q + (a - PGROUNDDOWN a))" by (simp add: offset_less)
      ultimately have "\<not> in_page p (q + (a - PGROUNDDOWN a))"
        using in_page_unique [OF ap] aligned_upage [OF Some] by blast
      then have "m' (q + (a - PGROUNDDOWN a)) = m (q + (a - PGROUNDDOWN a))"
        using only unfolding only_page_def by blast
      then show ?thesis using Some ge up by (simp add: ubyte_def)
    qed
  qed
qed

text \<open>The first \<open>k\<close> bytes of \<open>bs\<close> were stored at \<open>va\<close>: all of them, or up to the first page that
  is not the process's.\<close>

definition stored :: "u64 \<Rightarrow> u64 \<Rightarrow> u8 list \<Rightarrow> nat \<Rightarrow> int \<Rightarrow> memory \<Rightarrow> memory \<Rightarrow> bool" where
  "stored r va bs k res m m' \<longleftrightarrow>
     k \<le> length bs
   \<and> (if k = length bs then res = 0 else res = - 1 \<and> upage m r (va + of_nat k) = None)
   \<and> (\<forall>j < k. upage m r (va + of_nat j) \<noteq> None)
   \<and> (\<forall>a. ubyte m' r a = (if unat (a - va) < k then Some (bs ! unat (a - va)) else ubyte m r a))"

lemma stored_piece:
  assumes "stored r (va + of_nat n) (drop n bs) k res m1 m2" and "n \<le> length bs" and "length bs < 2 ^ 64"
    and up: "\<And>b. upage m1 r b = upage m r b" and "\<And>j. j < n \<Longrightarrow> upage m r (va + of_nat j) \<noteq> None"
    and piece: "\<And>a. ubyte m1 r a = (if unat (a - va) < n then Some (bs ! unat (a - va)) else ubyte m r a)"
  shows "stored r va bs (n + k) res m m2"
proof -
  note st = assms(1) [unfolded stored_def]
  have k: "n + k \<le> length bs" "n + k < 2 ^ 64" using st assms(2,3) by auto
  have "upage m r (va + of_nat j) \<noteq> None" if j: "j < n + k" for j
  proof (cases "j < n")
    case False
    then have "j - n < k" using j by simp
    then have "upage m1 r (va + of_nat n + of_nat (j - n)) \<noteq> None" using st by blast
    then show ?thesis using False by (simp add: up of_nat_diff add.assoc)
  qed (simp add: assms(5))
  moreover have "ubyte m2 r a = (if unat (a - va) < n + k then Some (bs ! unat (a - va)) else ubyte m r a)" for a
  proof -
    have eq: "a - (va + of_nat n) = (a - va) - of_nat n" by simp
    have "ubyte m2 r a = (if unat ((a - va) - of_nat n) < k then Some (drop n bs ! unat ((a - va) - of_nat n)) else ubyte m1 r a)"
      using st unfolding eq [symmetric] by blast
    then show ?thesis
      using piece [of a] unat_minus_of_nat [OF k(2), of "a - va"] assms(2) k
      by (cases "unat (a - va) < n") auto
  qed
  moreover have "if n + k = length bs then res = 0 else res = - 1 \<and> upage m r (va + of_nat (n + k)) = None"
    using st up assms(2) by (auto simp: add.assoc split: if_splits)
  ultimately show ?thesis using k(1) unfolding stored_def by blast
qed

lemma next_page: "PGROUNDDOWN va + PGSIZE = va + of_nat (unat (PGSIZE - (va - PGROUNDDOWN va)))"
  by simp

lemma copyout_spec:
  assumes "copyout r va bs s = (res, t)" and "pt_ok kend xs (pmem s) r" and "user_sep (pmem s) r"
    and "length bs < 2 ^ 64"
  shows "keeps (pt_pages (pmem s) r) (pmem s) (pmem t) \<and> freelist t = freelist s
     \<and> (\<exists>k. stored r va bs k res (pmem s) (pmem t))"
  using assms
proof (induction bs arbitrary: va s rule: length_induct)
  case (1 bs va s)
  note prems = 1(2-)
  show ?case
  proof (cases "bs = []")
    case True
    then have "res = 0" "t = s" using prems(1) by (simp_all add: copyout.simps)
    then show ?thesis using True by (intro conjI exI [of _ 0]) (auto simp: stored_def)
  next
    case False
    let ?va0 = "PGROUNDDOWN va"
    note wa = walkaddr_spec [OF prems(2), of ?va0, unfolded upage_PGROUNDDOWN]
    show ?thesis
    proof (cases "upage (pmem s) r va")
      case None
      then have "res = - 1" "t = s" using prems(1) False wa by (simp_all add: copyout.simps)
      then show ?thesis using None False by (intro conjI exI [of _ 0]) (auto simp: stored_def)
    next
      case (Some p)
      let ?off = "va - ?va0"
      define n where "n = min (unat (PGSIZE - ?off)) (length bs)"
      define u where "u = s\<lparr>pmem := mem_store (pmem s) (p + ?off) (take n bs)\<rparr>"
      have p0: "p \<noteq> 0" using aligned_upage [OF Some] by simp
      have n: "0 < n" "n \<le> length bs" "n \<le> unat (PGSIZE - ?off)"
        using False page_rest_pos [of va] by (auto simp: n_def)
      have "copyout r (?va0 + PGSIZE) (drop n bs) u = (res, t)"
        using prems(1) False wa Some p0 by (subst (asm) copyout.simps) (simp add: Let_def n_def u_def)
      moreover have "copyout r (?va0 + PGSIZE) (drop n bs) u = copyout r (va + of_nat n) (drop n bs) u"
      proof (cases "n = length bs")
        case False
        then have "n = unat (PGSIZE - ?off)" by (simp add: n_def min_def split: if_splits)
        then show ?thesis using next_page [of va] by metis
      qed (simp add: copyout.simps)
      ultimately have rec: "copyout r (va + of_nat n) (drop n bs) u = (res, t)" by simp
      have len: "length (take n bs) = n" "length (take n bs) \<le> unat (PGSIZE - ?off)" using n by simp_all
      note piece = store_piece [OF prems(2,3) Some len(2)]
      have mu: "pmem u = mem_store (pmem s) (p + ?off) (take n bs)" by (simp add: u_def)
      have ke: "keeps (pt_pages (pmem s) r) (pmem s) (pmem u)" using piece(1) by (simp only: mu)
      have up: "upage (pmem u) r b = upage (pmem s) r b" for b by (simp add: upage_def keeps_vpte [OF ke])
      have pages: "pt_pages (pmem u) r = pt_pages (pmem s) r" by (rule keeps_tree(1) [OF ke])
      have ok: "pt_ok kend xs (pmem u) r" using keeps_tree(2) [OF ke] prems(2) by blast
      have sep: "user_sep (pmem u) r" using prems(3) unfolding user_sep_def up pages .
      have "length (drop n bs) < length bs" "length (drop n bs) < 2 ^ 64" using n prems(4) by auto
      then obtain k where k: "keeps (pt_pages (pmem u) r) (pmem u) (pmem t)" "freelist t = freelist u"
          "stored r (va + of_nat n) (drop n bs) k res (pmem u) (pmem t)"
        using 1(1) rec ok sep by blast
      have "stored r va bs (n + k) res (pmem s) (pmem t)"
      proof (rule stored_piece [OF k(3) n(2) prems(4) up])
        fix j assume "j < n"
        then have "PGROUNDDOWN (va + of_nat j) = PGROUNDDOWN va" using n(3) by (intro page_offset) simp
        then have "upage (pmem s) r (va + of_nat j) = upage (pmem s) r va" by (metis upage_PGROUNDDOWN)
        then show "upage (pmem s) r (va + of_nat j) \<noteq> None" using Some by simp
      next
        fix a
        have "(take n bs) ! unat (a - va) = bs ! unat (a - va)" if "unat (a - va) < n" using that by simp
        then show "ubyte (pmem u) r a = (if unat (a - va) < n then Some (bs ! unat (a - va)) else ubyte (pmem s) r a)"
          using piece(2) [of a] unfolding len(1) mu by simp
      qed
      moreover have "keeps (pt_pages (pmem s) r) (pmem s) (pmem t)"
        using keeps_trans [OF ke] k(1) unfolding pages by blast
      ultimately show ?thesis using k(2) by (auto simp: u_def)
    qed
  qed
qed

section \<open>copyin\<close>

text \<open>The first \<open>k\<close> bytes were fetched from \<open>va\<close>.\<close>

definition fetched :: "memory \<Rightarrow> u64 \<Rightarrow> u64 \<Rightarrow> nat \<Rightarrow> u8 list \<Rightarrow> int \<Rightarrow> bool" where
  "fetched m r va n bs res \<longleftrightarrow>
     length bs \<le> n
   \<and> (if length bs = n then res = 0 else res = - 1 \<and> upage m r (va + of_nat (length bs)) = None)
   \<and> (\<forall>j < length bs. ubyte m r (va + of_nat j) = Some (bs ! j))"

lemma load_piece:
  assumes "upage m r va = Some p" and "n \<le> unat (PGSIZE - (va - PGROUNDDOWN va))" and "j < n"
  shows "ubyte m r (va + of_nat j) = Some (mem_load m (p + (va - PGROUNDDOWN va)) n ! j)"
proof -
  have pg: "PGROUNDDOWN (va + of_nat j) = PGROUNDDOWN va" using assms(2,3) by (intro page_offset) simp
  then have "upage m r (va + of_nat j) = Some p" using assms(1) by (metis upage_PGROUNDDOWN)
  then show ?thesis using assms(3) by (simp add: ubyte_def pg mem_load_def algebra_simps)
qed

lemma copyin_spec:
  assumes "copyin r va len s = (bs, res)" and "pt_ok kend xs (pmem s) r"
  shows "fetched (pmem s) r va len bs res"
  using assms(1)
proof (induction len arbitrary: va bs rule: less_induct)
  case (less len va bs)
  show ?case
  proof (cases "len = 0")
    case True
    then show ?thesis using less.prems by (simp add: copyin.simps fetched_def)
  next
    case False
    let ?va0 = "PGROUNDDOWN va"
    note wa = walkaddr_spec [OF assms(2), of ?va0, unfolded upage_PGROUNDDOWN]
    show ?thesis
    proof (cases "upage (pmem s) r va")
      case None
      then show ?thesis using less.prems False wa by (simp add: copyin.simps fetched_def)
    next
      case (Some p)
      let ?off = "va - ?va0"
      define n where "n = min (unat (PGSIZE - ?off)) len"
      define ls where "ls = mem_load (pmem s) (p + ?off) n"
      have p0: "p \<noteq> 0" using aligned_upage [OF Some] by simp
      have n: "0 < n" "n \<le> len" "n \<le> unat (PGSIZE - ?off)" using False page_rest_pos [of va] by (auto simp: n_def)
      obtain cs where cs: "copyin r (?va0 + PGSIZE) (len - n) s = (cs, res)" "bs = ls @ cs"
        using less.prems False wa Some p0
        by (subst (asm) copyin.simps) (auto simp: Let_def n_def ls_def split: prod.splits)
      have "copyin r (?va0 + PGSIZE) (len - n) s = copyin r (va + of_nat n) (len - n) s"
      proof (cases "n = len")
        case False
        then have "n = unat (PGSIZE - ?off)" by (simp add: n_def min_def split: if_splits)
        then show ?thesis using next_page [of va] by metis
      qed (simp add: copyin.simps)
      then have "copyin r (va + of_nat n) (len - n) s = (cs, res)" using cs(1) by simp
      then have IH: "fetched (pmem s) r (va + of_nat n) (len - n) cs res" using less.IH n by simp
      have lls: "length ls = n" by (simp add: ls_def mem_load_def)
      have "ubyte (pmem s) r (va + of_nat j) = Some (bs ! j)" if j: "j < length bs" for j
      proof (cases "j < n")
        case True
        then show ?thesis using load_piece [OF Some n(3) True] lls by (simp add: cs(2) ls_def nth_append)
      next
        case ge: False
        then have "j - n < length cs" using j lls cs(2) by simp
        then have "ubyte (pmem s) r (va + of_nat n + of_nat (j - n)) = Some (cs ! (j - n))"
          using IH unfolding fetched_def by blast
        then show ?thesis using ge lls by (simp add: cs(2) nth_append of_nat_diff add.assoc)
      qed
      moreover have "length bs \<le> len" "length bs = len \<longleftrightarrow> length cs = len - n"
        using IH n(2) lls cs(2) unfolding fetched_def by auto
      moreover have e: "va + of_nat n + of_nat (length cs) = va + of_nat (length bs)" by (simp add: cs(2) lls add.assoc)
      have "if length cs = len - n then res = 0 else res = - 1 \<and> upage (pmem s) r (va + of_nat (length bs)) = None"
        using IH unfolding fetched_def e by blast
      ultimately show ?thesis unfolding fetched_def by simp
    qed
  qed
qed

section \<open>copyinstr\<close>

lemma copystr_page_spec:
  assumes "copystr_page m p n = (bs, got)"
  shows "bs = (if got then takeWhile (\<lambda>b. b \<noteq> 0) (mem_load m p n) @ [0] else mem_load m p n)
     \<and> (got \<longleftrightarrow> 0 \<in> set (mem_load m p n))"
  using assms
proof (induction m p n arbitrary: bs rule: copystr_page.induct)
  case (2 m p n)
  have split: "mem_load m p (Suc n) = m p # mem_load m (p + 1) n"
    by (simp add: mem_load_def upt_conv_Cons map_Suc_upt [symmetric] del: upt_Suc) (simp add: add.assoc)
  then show ?case using 2 by (auto split: if_splits prod.splits)
qed (simp add: mem_load_def)

lemma copyinstr_spec:
  assumes "copyinstr r va max_len s = (bs, res)" and "pt_ok kend xs (pmem s) r"
  shows "res = 0 \<and> (\<exists>cs. bs = cs @ [0] \<and> 0 \<notin> set cs) \<and> length bs \<le> max_len
         \<and> (\<forall>j < length bs. ubyte (pmem s) r (va + of_nat j) = Some (bs ! j))
    \<or> res = - 1 \<and> 0 \<notin> set bs \<and> fetched (pmem s) r va max_len bs (if length bs = max_len then 0 else - 1)"
  using assms(1)
proof (induction max_len arbitrary: va bs rule: less_induct)
  case (less len va bs)
  show ?case
  proof (cases "len = 0")
    case True
    then show ?thesis using less.prems by (simp add: copyinstr.simps fetched_def)
  next
    case False
    let ?va0 = "PGROUNDDOWN va"
    note wa = walkaddr_spec [OF assms(2), of ?va0, unfolded upage_PGROUNDDOWN]
    show ?thesis
    proof (cases "upage (pmem s) r va")
      case None
      then show ?thesis using less.prems False wa by (simp add: copyinstr.simps fetched_def)
    next
      case (Some p)
      let ?off = "va - ?va0"
      define n where "n = min (unat (PGSIZE - ?off)) len"
      have p0: "p \<noteq> 0" using aligned_upage [OF Some] by simp
      have n: "0 < n" "n \<le> len" "n \<le> unat (PGSIZE - ?off)" using False page_rest_pos [of va] by (auto simp: n_def)
      let ?ls = "mem_load (pmem s) (p + ?off) n"
      obtain ls got where ls: "copystr_page (pmem s) (p + ?off) n = (ls, got)" by fastforce
      note page = copystr_page_spec [OF ls]
      have lls: "length ?ls = n" by (simp add: mem_load_def)
      have eq: "(if got then (ls, 0) else let (cs, r) = copyinstr r (?va0 + PGSIZE) (len - n) s in (ls @ cs, r)) = (bs, res)"
        using less.prems False wa Some p0 ls
        by (subst (asm) copyinstr.simps) (simp add: Let_def n_def split: if_splits)
      show ?thesis
      proof (cases got)
        case True
        let ?tw = "takeWhile (\<lambda>b. b \<noteq> 0) ?ls"
        have bs: "bs = ?tw @ [0]" "res = 0" using eq True page by auto
        have "0 \<in> set ?ls" using True page by simp
        then have "?tw \<noteq> ?ls" by (metis set_takeWhileD)
        then have "length ?tw \<noteq> length ?ls" by (metis order_refl take_all takeWhile_eq_take)
        then have lt: "length ?tw < n" "?ls ! length ?tw = 0"
          using lls nth_length_takeWhile [of "\<lambda>b. b \<noteq> 0" ?ls] length_takeWhile_le [of "\<lambda>b. b \<noteq> 0" ?ls] by auto
        have "ubyte (pmem s) r (va + of_nat j) = Some (bs ! j)" if j: "j < length bs" for j
        proof -
          have "bs ! j = ?ls ! j"
            using j lt bs(1) by (cases "j = length ?tw") (auto simp: nth_append takeWhile_nth)
          moreover have "j < n" using j lt bs(1) by simp
          ultimately show ?thesis using load_piece [OF Some n(3)] by simp
        qed
        moreover have "0 \<notin> set ?tw" by (auto dest: set_takeWhileD)
        ultimately show ?thesis using bs lt(1) n(2) by auto
      next
        case ngot: False
        obtain cs where cs: "copyinstr r (?va0 + PGSIZE) (len - n) s = (cs, res)" "bs = ?ls @ cs"
          using eq ngot page by (auto split: prod.splits)
        have "copyinstr r (?va0 + PGSIZE) (len - n) s = copyinstr r (va + of_nat n) (len - n) s"
        proof (cases "n = len")
          case False
          then have "n = unat (PGSIZE - ?off)" by (simp add: n_def min_def split: if_splits)
          then show ?thesis using next_page [of va] by metis
        qed (simp add: copyinstr.simps)
        then have "copyinstr r (va + of_nat n) (len - n) s = (cs, res)" using cs(1) by simp
        note IH = less.IH [OF _ this] 
        have first: "ubyte (pmem s) r (va + of_nat j) = Some (bs ! j)" if "j < n" for j
          using load_piece [OF Some n(3) that] that lls by (simp add: cs(2) nth_append)
        have both: "ubyte (pmem s) r (va + of_nat j) = Some (bs ! j)"
          if all: "\<forall>i < length cs. ubyte (pmem s) r (va + of_nat n + of_nat i) = Some (cs ! i)" and j: "j < length bs" for j
        proof (cases "j < n")
          case ge: False
          then have "j - n < length cs" using j lls cs(2) by simp
          then have "ubyte (pmem s) r (va + of_nat n + of_nat (j - n)) = Some (cs ! (j - n))" using all by blast
          then show ?thesis using ge lls by (simp add: cs(2) nth_append of_nat_diff add.assoc)
        qed (rule first)
        have n0: "0 \<notin> set ?ls" using ngot page by simp
        have e: "va + of_nat n + of_nat (length cs) = va + of_nat (length bs)" by (simp add: cs(2) lls add.assoc)
        from IH n consider
            (ok) zs where "res = 0" "cs = zs @ [0]" "0 \<notin> set zs" "length cs \<le> len - n"
              "\<forall>i < length cs. ubyte (pmem s) r (va + of_nat n + of_nat i) = Some (cs ! i)"
          | (fail) "res = - 1" "0 \<notin> set cs"
              "fetched (pmem s) r (va + of_nat n) (len - n) cs (if length cs = len - n then 0 else - 1)"
          by auto
        then show ?thesis
        proof cases
          case ok
          have "bs = (?ls @ zs) @ [0]" "0 \<notin> set (?ls @ zs)" "length bs \<le> len"
            using ok n0 cs(2) lls n(2) by auto
          then show ?thesis using both [OF ok(5)] ok(1) by blast
        next
          case fail
          note f = fail(3) [unfolded fetched_def e]
          have l: "length bs = n + length cs" by (simp add: cs(2) lls)
          have "length bs \<le> len" using f l n(2) by auto
          moreover have "upage (pmem s) r (va + of_nat (length bs)) = None" if h: "length bs \<noteq> len"
          proof -
            have "length cs \<noteq> len - n" using h l n(2) by simp
            then show ?thesis using f by simp
          qed
          ultimately have "fetched (pmem s) r va len bs (if length bs = len then 0 else - 1)"
            using both f unfolding fetched_def by auto
          moreover have "0 \<notin> set bs" using n0 fail(2) cs(2) by simp
          ultimately show ?thesis using fail(1) by blast
        qed
      qed
    qed
  qed
qed

section \<open>Round trip\<close>

text \<open>C23: What the kernel copies out to a process it reads back, and nothing else changes. If
  \<open>copyout\<close> returns 0, \<open>copyin\<close> of the same range gives the same bytes; it returns -1 exactly when
  some byte of the range is not in a page of the process; in both cases the page table and every
  byte of the process outside the range are what they were.\<close>

theorem copyout_copyin_roundtrip:
  assumes "pt_ok kend xs (pmem s) r" and "user_sep (pmem s) r" and "length bs < 2 ^ 64"
    and "copyout r va bs s = (res, t)"
  shows "(res = 0 \<and> copyin r va (length bs) t = (bs, 0)
        \<or> res = - 1 \<and> (\<exists>j < length bs. upage (pmem s) r (va + of_nat j) = None))
    \<and> (\<forall>a. vpte (pmem t) r a = vpte (pmem s) r a)
    \<and> (\<forall>a. unat (a - va) \<ge> length bs \<longrightarrow> ubyte (pmem t) r a = ubyte (pmem s) r a)"
proof -
  obtain k where ke: "keeps (pt_pages (pmem s) r) (pmem s) (pmem t)" and k: "stored r va bs k res (pmem s) (pmem t)"
    using copyout_spec [OF assms(4,1,2,3)] by blast
  note st = k [unfolded stored_def]
  have ok: "pt_ok kend xs (pmem t) r" using keeps_tree(2) [OF ke] assms(1) by blast
  have up: "upage (pmem t) r b = upage (pmem s) r b" for b by (simp add: upage_def keeps_vpte [OF ke])
  have "copyin r va (length bs) t = (bs, 0)" if kl: "k = length bs"
  proof -
    obtain cs res' where cs: "copyin r va (length bs) t = (cs, res')" by fastforce
    have f: "fetched (pmem t) r va (length bs) cs res'" by (rule copyin_spec [OF cs ok])
    have len: "length cs = length bs"
    proof (rule ccontr)
      assume "length cs \<noteq> length bs"
      then have "length cs < k" "upage (pmem s) r (va + of_nat (length cs)) = None"
        using f kl unfolding fetched_def up by auto
      then show False using st by blast
    qed
    moreover have "cs ! j = bs ! j" if j: "j < length cs" for j
    proof -
      have u: "unat (of_nat j :: u64) = j" using j len assms(3) by (simp add: unat_of_nat)
      have "ubyte (pmem t) r (va + of_nat j) = Some (bs ! j)"
        using st j len kl u by simp
      moreover have "ubyte (pmem t) r (va + of_nat j) = Some (cs ! j)" using f j unfolding fetched_def by blast
      ultimately show ?thesis by simp
    qed
    ultimately have "cs = bs" by (simp add: nth_equalityI)
    moreover have "res' = 0" using f len unfolding fetched_def by simp
    ultimately show ?thesis using cs by simp
  qed
  moreover have "k < length bs \<and> upage (pmem s) r (va + of_nat k) = None \<and> res = - 1" if "k \<noteq> length bs"
    using st that by auto
  moreover have "res = 0" if "k = length bs" using st that by auto
  ultimately have "res = 0 \<and> copyin r va (length bs) t = (bs, 0)
      \<or> res = - 1 \<and> (\<exists>j < length bs. upage (pmem s) r (va + of_nat j) = None)" by blast
  moreover have "\<forall>a. unat (a - va) \<ge> length bs \<longrightarrow> ubyte (pmem t) r a = ubyte (pmem s) r a"
    using st by auto
  ultimately show ?thesis using keeps_vpte [OF ke] by blast
qed

lemma demo_user:
  "\<exists>s :: kmem. pt_ok 0x87ff0000 [] (pmem s) 0x87fff000 \<and> user_sep (pmem s) 0x87fff000
     \<and> upage (pmem s) 0x87fff000 0x3ffe \<noteq> None \<and> upage (pmem s) 0x87fff000 0x4000 = None"
proof -
  obtain t ys where t: "vm_inv 0x87ff0000 t ys 0x87fff000" "0x87654000 \<notin> pt_pages (pmem t) 0x87fff000"
     "\<forall>vb < MAXVA. vpte (pmem t) 0x87fff000 vb = (if PGROUNDDOWN vb = 0x3000 then PA2PTE 0x87654000 OR 23 else 0)"
    using demo_mapped by auto
  have pa: "PTE2PA (PA2PTE 0x87654000 OR 23) = 0x87654000" by (rule PTE2PA_PA2PTE) (simp_all add: aligned_def)
  have fl: "valid (PA2PTE 0x87654000 OR 23)" "(PA2PTE 0x87654000 OR 23) AND PTE_U \<noteq> 0"
    by (simp_all add: valid_def PA2PTE_def)
  have up: "upage (pmem t) 0x87fff000 vb = (if vb < MAXVA \<and> PGROUNDDOWN vb = 0x3000 then Some 0x87654000 else None)" for vb
    using t(3) fl pa by (cases "PGROUNDDOWN vb = 0x3000") (simp_all add: upage_def Let_def)
  have "user_sep (pmem t) 0x87fff000" unfolding user_sep_def up using t(2) by (auto split: if_splits)
  moreover have "pt_ok 0x87ff0000 [] (pmem t) 0x87fff000"
    using t(1) pt_ok_subset [of _ ys _ _ "[]"] by (auto simp: vm_inv_def)
  moreover have "PGROUNDDOWN 0x3ffe = 0x3000" "PGROUNDDOWN 0x4000 \<noteq> 0x3000" by (simp_all add: PGROUNDDOWN_def)
  moreover have "0x3ffe < MAXVA" by (simp add: word_less_nat_alt unat_MAXVA)
  ultimately show ?thesis using up by (intro exI [of _ t]) simp
qed

lemma copyout_copyin_roundtrip_witness:
  "\<exists>s t. upage (pmem s) 0x87fff000 0x3ffe \<noteq> None \<and> copyout 0x87fff000 0x3ffe [7] s = (0, t)
     \<and> copyin 0x87fff000 0x3ffe 1 t = ([7], 0)"
proof -
  obtain s :: kmem where s: "pt_ok 0x87ff0000 [] (pmem s) 0x87fff000" "user_sep (pmem s) 0x87fff000"
      "upage (pmem s) 0x87fff000 0x3ffe \<noteq> None" using demo_user by blast
  obtain res t where t: "copyout 0x87fff000 0x3ffe [7] s = (res, t)" by fastforce
  have len: "length [7 :: u8] < 2 ^ 64" by simp
  from copyout_copyin_roundtrip [OF s(1,2) len t] s(3)
  have "res = 0" "copyin 0x87fff000 0x3ffe 1 t = ([7], 0)" by auto
  with s(3) t show ?thesis by blast
qed

end
