(* ===== verification/Fs.thy ===== *)
theory Fs imports KString begin

text \<open>
  The file system, kernel/fs.c: block allocator, inode table, file contents, directories and
  path names.

  It runs on blocks as the layers below present them inside a transaction (theories BufferCache
  and Log): \<open>d_blk\<close> is the contents of every block as the buffer cache shows them, \<open>d_locked\<close>
  the blocks whose buffer the running process holds, \<open>d_logged\<close> the blocks the current
  transactions have logged and \<open>d_cap\<close> how many fit in the log. \<open>tx_bread\<close> of a block one already
  holds would sleep for ever; \<open>tx_log_write\<close> panics when the log is full. There is one device, so
  block numbers alone name blocks, as the comment on \<open>sb\<close> in fs.c has it.

  Pointers to \<open>struct inode\<close> are indices into the inode table; the critical sections of
  \<open>itable.lock\<close> are atomic, and an inode's sleep lock is the flag \<open>i_locked\<close>. Loop counters that
  are \<open>int\<close> or \<open>uint\<close> in C and cannot overflow for the sizes a 32-bit block number allows are
  natural numbers.
\<close>

section \<open>Blocks in a transaction\<close>

record tdisk =
  d_blk :: "u32 \<Rightarrow> u8 list"
  d_locked :: "u32 list"
  d_logged :: "u32 list"
  d_cap :: nat

record superblock =
  sb_magic :: u32
  sb_size :: u32
  sb_nblocks :: u32
  sb_ninodes :: u32
  sb_nlog :: u32
  sb_logstart :: u32
  sb_inodestart :: u32
  sb_bmapstart :: u32

record inode =
  i_dev :: u32
  i_inum :: u32
  i_ref :: int
  i_locked :: bool
  i_valid :: bool
  i_type :: u16
  i_major :: u16
  i_minor :: u16
  i_nlink :: u16
  i_size :: u32
  i_addrs :: "u32 list"

record fs =
  disk :: tdisk
  itable :: "inode list"
  sb :: superblock

abbreviation (input) BSIZE :: nat where "BSIZE \<equiv> 1024"
abbreviation (input) BPB :: nat where "BPB \<equiv> 8192"
abbreviation (input) IPB :: nat where "IPB \<equiv> 16"
abbreviation (input) NDIRECT :: nat where "NDIRECT \<equiv> 12"
abbreviation (input) NINDIRECT :: nat where "NINDIRECT \<equiv> 256"
abbreviation (input) MAXFILE :: nat where "MAXFILE \<equiv> 268"
abbreviation (input) NINODE :: nat where "NINODE \<equiv> 50"
abbreviation (input) DIRSIZ :: nat where "DIRSIZ \<equiv> 14"
abbreviation (input) DIRENT :: nat where "DIRENT \<equiv> 16"   \<comment> \<open>\<open>sizeof(struct dirent)\<close>\<close>
abbreviation (input) T_DIR :: u16 where "T_DIR \<equiv> 1"
abbreviation (input) T_FILE :: u16 where "T_FILE \<equiv> 2"
abbreviation (input) T_DEVICE :: u16 where "T_DEVICE \<equiv> 3"

definition blk :: "u32 \<Rightarrow> fs \<Rightarrow> u8 list" where
  "blk b s = d_blk (disk s) b"

definition set_blk :: "u32 \<Rightarrow> u8 list \<Rightarrow> fs \<Rightarrow> fs" where
  "set_blk b d s = s\<lparr>disk := (disk s)\<lparr>d_blk := (d_blk (disk s))(b := d)\<rparr>\<rparr>"

definition tx_bread :: "u32 \<Rightarrow> fs \<Rightarrow> fs kres" where
  "tx_bread b s =
     (if b \<in> set (d_locked (disk s)) then Blocked
      else Ok (s\<lparr>disk := (disk s)\<lparr>d_locked := b # d_locked (disk s)\<rparr>\<rparr>))"

definition tx_log_write :: "u32 \<Rightarrow> fs \<Rightarrow> fs kres" where
  "tx_log_write b s =
     (if b \<in> set (d_logged (disk s)) then Ok s
      else if length (d_logged (disk s)) \<ge> d_cap (disk s) then Panic ''too big a transaction''
      else Ok (s\<lparr>disk := (disk s)\<lparr>d_logged := d_logged (disk s) @ [b]\<rparr>\<rparr>))"

definition tx_brelse :: "u32 \<Rightarrow> fs \<Rightarrow> fs kres" where
  "tx_brelse b s =
     (if b \<in> set (d_locked (disk s))
      then Ok (s\<lparr>disk := (disk s)\<lparr>d_locked := remove1 b (d_locked (disk s))\<rparr>\<rparr>)
      else Panic ''brelse'')"

section \<open>The super block\<close>

definition readsb :: "fs \<Rightarrow> fs kres" where
  "readsb s =
     kbind (tx_bread 1 s) (\<lambda>s.
     let d = blk 1 s in
     tx_brelse 1 (s\<lparr>sb := \<lparr>sb_magic = get32 d 0, sb_size = get32 d 4, sb_nblocks = get32 d 8,
       sb_ninodes = get32 d 12, sb_nlog = get32 d 16, sb_logstart = get32 d 20,
       sb_inodestart = get32 d 24, sb_bmapstart = get32 d 28\<rparr>\<rparr>))"

text \<open>\<open>init\<close> is \<open>initlog\<close> (theory Log) as it acts on the blocks.\<close>

definition fsinit :: "(superblock \<Rightarrow> fs \<Rightarrow> fs kres) \<Rightarrow> fs \<Rightarrow> fs kres" where
  "fsinit init s =
     kbind (readsb s) (\<lambda>s.
     if sb_magic (sb s) \<noteq> 0x10203040 then Panic ''invalid file system'' else init (sb s) s)"

section \<open>Block allocation\<close>

definition BBLOCK :: "nat \<Rightarrow> fs \<Rightarrow> u32" where
  "BBLOCK b s = of_nat (b div BPB) + sb_bmapstart (sb s)"

definition bzero :: "u32 \<Rightarrow> fs \<Rightarrow> fs kres" where
  "bzero bno s =
     kbind (tx_bread bno s) (\<lambda>s.
     kbind (tx_log_write bno (set_blk bno (replicate BSIZE 0) s)) (tx_brelse bno))"

text \<open>The bit of block \<open>bi\<close> in a bitmap block: \<open>data[bi/8] & (1 << (bi % 8))\<close>.\<close>

definition bit_used :: "u8 list \<Rightarrow> nat \<Rightarrow> bool" where
  "bit_used d bi \<longleftrightarrow> d ! (bi div 8) AND push_bit (bi mod 8) 1 \<noteq> 0"

definition bit_set :: "nat \<Rightarrow> u8 list \<Rightarrow> u8 list" where
  "bit_set bi d = d[bi div 8 := d ! (bi div 8) OR push_bit (bi mod 8) 1]"

definition bit_clear :: "nat \<Rightarrow> u8 list \<Rightarrow> u8 list" where
  "bit_clear bi d = d[bi div 8 := d ! (bi div 8) AND NOT (push_bit (bi mod 8) 1)]"

text \<open>One bitmap block: the body of the outer loop. \<open>sz\<close> is \<open>sb.size\<close>.\<close>

definition balloc_block :: "nat \<Rightarrow> nat \<Rightarrow> fs \<Rightarrow> (u32 option \<times> fs) kres" where
  "balloc_block sz b s =
     (let bb = BBLOCK b s in
      kbind (tx_bread bb s) (\<lambda>s.
      case find (\<lambda>bi. \<not> bit_used (blk bb s) bi) [0..<min BPB (sz - b)] of
        Some bi \<Rightarrow>
          kbind (tx_log_write bb (set_blk bb (bit_set bi (blk bb s)) s)) (\<lambda>s.
          kbind (tx_brelse bb s) (\<lambda>s.
          kbind (bzero (of_nat (b + bi)) s) (\<lambda>s. Ok (Some (of_nat (b + bi)), s))))
      | None \<Rightarrow> kbind (tx_brelse bb s) (\<lambda>s. Ok (None, s))))"

function balloc_loop :: "nat \<Rightarrow> nat \<Rightarrow> fs \<Rightarrow> (u32 \<times> fs) kres" where
  "balloc_loop sz b s =
     (if b < sz then
        kbind (balloc_block sz b s) (\<lambda>(found, s).
        case found of Some addr \<Rightarrow> Ok (addr, s) | None \<Rightarrow> balloc_loop sz (b + BPB) s)
      else Ok (0, s))"
  by pat_completeness auto
termination
  by (relation "measure (\<lambda>(sz, b, s). sz - b)") auto

declare balloc_loop.simps [simp del]

definition balloc :: "fs \<Rightarrow> (u32 \<times> fs) kres" where
  "balloc s = balloc_loop (unat (sb_size (sb s))) 0 s"

definition bfree :: "u32 \<Rightarrow> fs \<Rightarrow> fs kres" where
  "bfree b s =
     (let bb = BBLOCK (unat b) s; bi = unat b mod BPB in
      kbind (tx_bread bb s) (\<lambda>s.
      if \<not> bit_used (blk bb s) bi then Panic ''freeing free block''
      else kbind (tx_log_write bb (set_blk bb (bit_clear bi (blk bb s)) s)) (tx_brelse bb)))"

section \<open>Inodes\<close>

definition IBLOCK :: "u32 \<Rightarrow> fs \<Rightarrow> u32" where
  "IBLOCK i s = i div of_nat IPB + sb_inodestart (sb s)"

text \<open>The offset of an inode in its block, and the fields of \<open>struct dinode\<close> there.\<close>

definition dinode_off :: "u32 \<Rightarrow> nat" where
  "dinode_off inum = 64 * (unat inum mod IPB)"

definition get_dinode :: "u8 list \<Rightarrow> nat \<Rightarrow> inode \<Rightarrow> inode" where
  "get_dinode d off ip = ip\<lparr>i_type := get16 d off, i_major := get16 d (off + 2), i_minor := get16 d (off + 4),
     i_nlink := get16 d (off + 6), i_size := get32 d (off + 8),
     i_addrs := map (\<lambda>k. get32 d (off + 12 + 4 * k)) [0..<NDIRECT + 1]\<rparr>"

fun put32s :: "u32 list \<Rightarrow> nat \<Rightarrow> u8 list \<Rightarrow> u8 list" where
  "put32s [] off d = d"
| "put32s (w # ws) off d = put32s ws (off + 4) (set32 d off w)"

definition put_dinode :: "inode \<Rightarrow> nat \<Rightarrow> u8 list \<Rightarrow> u8 list" where
  "put_dinode ip off d =
     put32s (i_addrs ip) (off + 12)
       (set32 (set16 (set16 (set16 (set16 d off (i_type ip)) (off + 2) (i_major ip)) (off + 4) (i_minor ip))
          (off + 6) (i_nlink ip)) (off + 8) (i_size ip))"

definition node :: "nat \<Rightarrow> fs \<Rightarrow> inode" where
  "node i s = itable s ! i"

definition set_node :: "nat \<Rightarrow> inode \<Rightarrow> fs \<Rightarrow> fs" where
  "set_node i ip s = s\<lparr>itable := (itable s)[i := ip]\<rparr>"

definition upd_node :: "nat \<Rightarrow> (inode \<Rightarrow> inode) \<Rightarrow> fs \<Rightarrow> fs" where
  "upd_node i f s = set_node i (f (node i s)) s"

definition iinit :: "fs \<Rightarrow> fs" where
  "iinit s = s\<lparr>itable := map (\<lambda>ip. ip\<lparr>i_locked := False\<rparr>) (itable s)\<rparr>"

definition iget :: "u32 \<Rightarrow> u32 \<Rightarrow> fs \<Rightarrow> (nat \<times> fs) kres" where
  "iget dev inum s =
     (case find (\<lambda>i. i_ref (node i s) > 0 \<and> i_dev (node i s) = dev \<and> i_inum (node i s) = inum) [0..<NINODE] of
        Some i \<Rightarrow> Ok (i, upd_node i (\<lambda>ip. ip\<lparr>i_ref := i_ref ip + 1\<rparr>) s)
      | None \<Rightarrow>
         (case find (\<lambda>i. i_ref (node i s) = 0) [0..<NINODE] of
            None \<Rightarrow> Panic ''iget: no inodes''
          | Some i \<Rightarrow> Ok (i, upd_node i (\<lambda>ip. ip\<lparr>i_dev := dev, i_inum := inum, i_ref := 1, i_valid := False\<rparr>) s)))"

text \<open>\<open>inum\<close> is an \<open>int\<close> compared with the unsigned \<open>sb.ninodes\<close>.\<close>

function ialloc_loop :: "nat \<Rightarrow> u32 \<Rightarrow> u16 \<Rightarrow> nat \<Rightarrow> fs \<Rightarrow> (nat option \<times> fs) kres" where
  "ialloc_loop ninodes dev type inum s =
     (if inum < ninodes then
        let ib = IBLOCK (of_nat inum) s; off = dinode_off (of_nat inum) in
        kbind (tx_bread ib s) (\<lambda>s.
        if get16 (blk ib s) off = 0 then
          let d = set16 (put_bytes (blk ib s) off (replicate 64 0)) off type in
          kbind (tx_log_write ib (set_blk ib d s)) (\<lambda>s.
          kbind (tx_brelse ib s) (\<lambda>s.
          kbind (iget dev (of_nat inum) s) (\<lambda>(i, s). Ok (Some i, s))))
        else kbind (tx_brelse ib s) (ialloc_loop ninodes dev type (inum + 1)))
      else Ok (None, s))"
  by pat_completeness auto
termination
  by (relation "measure (\<lambda>(n, dev, type, inum, s). n - inum)") auto

declare ialloc_loop.simps [simp del]

definition ialloc :: "u32 \<Rightarrow> u16 \<Rightarrow> fs \<Rightarrow> (nat option \<times> fs) kres" where
  "ialloc dev type s = ialloc_loop (unat (sb_ninodes (sb s))) dev type 1 s"

definition iupdate :: "nat \<Rightarrow> fs \<Rightarrow> fs kres" where
  "iupdate i s =
     (let ip = node i s; ib = IBLOCK (i_inum ip) s in
      kbind (tx_bread ib s) (\<lambda>s.
      kbind (tx_log_write ib (set_blk ib (put_dinode ip (dinode_off (i_inum ip)) (blk ib s)) s)) (tx_brelse ib)))"

definition idup :: "nat \<Rightarrow> fs \<Rightarrow> nat \<times> fs" where
  "idup i s = (i, upd_node i (\<lambda>ip. ip\<lparr>i_ref := i_ref ip + 1\<rparr>) s)"

text \<open>A NULL argument is \<open>None\<close>.\<close>

definition ilock :: "nat option \<Rightarrow> fs \<Rightarrow> fs kres" where
  "ilock p s =
     (case p of None \<Rightarrow> Panic ''ilock''
      | Some i \<Rightarrow>
        if i_ref (node i s) < 1 then Panic ''ilock''
        else if i_locked (node i s) then Blocked
        else let s = upd_node i (\<lambda>ip. ip\<lparr>i_locked := True\<rparr>) s in
          if i_valid (node i s) then Ok s
          else let ib = IBLOCK (i_inum (node i s)) s in
            kbind (tx_bread ib s) (\<lambda>s.
            let s = upd_node i (get_dinode (blk ib s) (dinode_off (i_inum (node i s)))) s in
            kbind (tx_brelse ib s) (\<lambda>s.
            let s = upd_node i (\<lambda>ip. ip\<lparr>i_valid := True\<rparr>) s in
            if i_type (node i s) = 0 then Panic ''ilock: no type'' else Ok s)))"

definition iunlock :: "nat option \<Rightarrow> fs \<Rightarrow> fs kres" where
  "iunlock p s =
     (case p of None \<Rightarrow> Panic ''iunlock''
      | Some i \<Rightarrow>
        if \<not> i_locked (node i s) \<or> i_ref (node i s) < 1 then Panic ''iunlock''
        else Ok (upd_node i (\<lambda>ip. ip\<lparr>i_locked := False\<rparr>) s))"

text \<open>\<open>itrunc\<close>. The loop frees the direct blocks, then those the indirect block lists.\<close>

definition itrunc :: "nat \<Rightarrow> fs \<Rightarrow> fs kres" where
  "itrunc i s =
     kbind (kfold (\<lambda>k s.
         let a = i_addrs (node i s) ! k in
         if a \<noteq> 0 then
           kbind (bfree a s) (\<lambda>s. Ok (upd_node i (\<lambda>ip. ip\<lparr>i_addrs := (i_addrs ip)[k := 0]\<rparr>) s))
         else Ok s) [0..<NDIRECT] s) (\<lambda>s.
     kbind (let a = i_addrs (node i s) ! NDIRECT in
         if a \<noteq> 0 then
           kbind (tx_bread a s) (\<lambda>s.
           kbind (kfold (\<lambda>j s.
               let b = get32 (blk a s) (4 * j) in if b \<noteq> 0 then bfree b s else Ok s) [0..<NINDIRECT] s) (\<lambda>s.
           kbind (tx_brelse a s) (\<lambda>s.
           kbind (bfree a s) (\<lambda>s.
           Ok (upd_node i (\<lambda>ip. ip\<lparr>i_addrs := (i_addrs ip)[NDIRECT := 0]\<rparr>) s)))))
         else Ok s) (\<lambda>s.
     iupdate i (upd_node i (\<lambda>ip. ip\<lparr>i_size := 0\<rparr>) s)))"

definition iput :: "nat \<Rightarrow> fs \<Rightarrow> fs kres" where
  "iput i s =
     kbind
       (if i_ref (node i s) = 1 \<and> i_valid (node i s) \<and> i_nlink (node i s) = 0 then
          if i_locked (node i s) then Blocked
          else kbind (itrunc i (upd_node i (\<lambda>ip. ip\<lparr>i_locked := True\<rparr>) s)) (\<lambda>s.
            kbind (iupdate i (upd_node i (\<lambda>ip. ip\<lparr>i_type := 0\<rparr>) s)) (\<lambda>s.
            Ok (upd_node i (\<lambda>ip. ip\<lparr>i_valid := False, i_locked := False\<rparr>) s)))
        else Ok s) (\<lambda>s.
     Ok (upd_node i (\<lambda>ip. ip\<lparr>i_ref := i_ref ip - 1\<rparr>) s))"

definition iunlockput :: "nat \<Rightarrow> fs \<Rightarrow> fs kres" where
  "iunlockput i s = kbind (iunlock (Some i) s) (iput i)"

section \<open>File contents\<close>

text \<open>The direct block slot \<open>k\<close> (or, for \<open>k = NDIRECT\<close>, the indirect block), allocated on demand.\<close>

definition bmap_slot :: "nat \<Rightarrow> nat \<Rightarrow> fs \<Rightarrow> (u32 \<times> fs) kres" where
  "bmap_slot i k s =
     (let addr = i_addrs (node i s) ! k in
      if addr = 0 then
        kbind (balloc s) (\<lambda>(addr, s).
        if addr = 0 then Ok (0, s)
        else Ok (addr, upd_node i (\<lambda>ip. ip\<lparr>i_addrs := (i_addrs ip)[k := addr]\<rparr>) s))
      else Ok (addr, s))"

definition bmap :: "nat \<Rightarrow> nat \<Rightarrow> fs \<Rightarrow> (u32 \<times> fs) kres" where
  "bmap i bn s =
     (if bn < NDIRECT then bmap_slot i bn s
      else let bn = bn - NDIRECT in
        if bn < NINDIRECT then
          kbind (bmap_slot i NDIRECT s) (\<lambda>(ib, s).
          if ib = 0 then Ok (0, s)
          else
            kbind (tx_bread ib s) (\<lambda>s.
            let addr = get32 (blk ib s) (4 * bn) in
            kbind
              (if addr = 0 then
                 kbind (balloc s) (\<lambda>(addr, s).
                 if addr \<noteq> 0 then
                   kbind (tx_log_write ib (set_blk ib (set32 (blk ib s) (4 * bn) addr) s)) (\<lambda>s. Ok (addr, s))
                 else Ok (0, s))
               else Ok (addr, s)) (\<lambda>(addr, s).
            kbind (tx_brelse ib s) (\<lambda>s. Ok (addr, s)))))
        else Panic ''bmap: out of range'')"

record stat =
  st_dev :: u32
  st_ino :: u32
  st_type :: u16
  st_nlink :: u16
  st_size :: u64

definition stati :: "nat \<Rightarrow> fs \<Rightarrow> stat" where
  "stati i s =
     (let ip = node i s in
      \<lparr>st_dev = i_dev ip, st_ino = i_inum ip, st_type = i_type ip, st_nlink = i_nlink ip, st_size = ucast (i_size ip)\<rparr>)"

text \<open>
  The destination of \<open>readi\<close> is reached through \<open>either_copyout\<close>: \<open>cp k bs\<close> stores the bytes \<open>bs\<close>
  at offset \<open>k\<close> of the destination, in a state \<open>'m\<close> of the caller, and says whether it could.
  \<open>kbuf\<close> is the case of a kernel buffer, which collects the bytes.
\<close>

type_synonym 'm copier = "nat \<Rightarrow> u8 list \<Rightarrow> 'm \<Rightarrow> bool \<times> 'm"

definition kbuf :: "u8 list copier" where
  "kbuf k bs m = (True, m @ bs)"

function readi_loop :: "'m copier \<Rightarrow> nat \<Rightarrow> nat \<Rightarrow> nat \<Rightarrow> nat \<Rightarrow> 'm \<Rightarrow> fs \<Rightarrow> (int \<times> 'm \<times> fs) kres" where
  "readi_loop cp i off n tot m s =
     (if tot < n then
        kbind (bmap i ((off + tot) div BSIZE) s) (\<lambda>(addr, s).
        if addr = 0 then Ok (int tot, m, s)
        else
          kbind (tx_bread addr s) (\<lambda>s.
          let k = min (n - tot) (BSIZE - (off + tot) mod BSIZE);
              (ok, m) = cp tot (get_bytes (blk addr s) ((off + tot) mod BSIZE) k) m in
          kbind (tx_brelse addr s) (\<lambda>s.
          if \<not> ok then Ok (- 1, m, s) else readi_loop cp i off n (tot + k) m s)))
      else Ok (int tot, m, s))"
  by pat_completeness auto
termination
  by (relation "measure (\<lambda>(cp, i, off, n, tot, m, s). n - tot)") auto

declare readi_loop.simps [simp del]

definition readi :: "'m copier \<Rightarrow> nat \<Rightarrow> u32 \<Rightarrow> u32 \<Rightarrow> 'm \<Rightarrow> fs \<Rightarrow> (int \<times> 'm \<times> fs) kres" where
  "readi cp i off n m s =
     (let sz = i_size (node i s) in
      if off > sz \<or> off + n < off then Ok (0, m, s)
      else let n = (if off + n > sz then sz - off else n) in
        readi_loop cp i (unat off) (unat n) 0 m s)"

text \<open>
  The source of \<open>writei\<close>: \<open>src k n\<close> is what \<open>either_copyin\<close> fetches of the \<open>n\<close> bytes at offset \<open>k\<close>
  of the source, and whether it got them all. What it fetched before a fault is in the buffer.
\<close>

type_synonym fetcher = "nat \<Rightarrow> nat \<Rightarrow> u8 list \<times> bool"

definition ksrc :: "u8 list \<Rightarrow> fetcher" where
  "ksrc bs k n = (take n (drop k bs), True)"

function writei_loop :: "fetcher \<Rightarrow> nat \<Rightarrow> nat \<Rightarrow> nat \<Rightarrow> nat \<Rightarrow> fs \<Rightarrow> (nat \<times> fs) kres" where
  "writei_loop src i off n tot s =
     (if tot < n then
        kbind (bmap i ((off + tot) div BSIZE) s) (\<lambda>(addr, s).
        if addr = 0 then Ok (tot, s)
        else
          kbind (tx_bread addr s) (\<lambda>s.
          let k = min (n - tot) (BSIZE - (off + tot) mod BSIZE);
              (bs, ok) = src tot k;
              s = set_blk addr (put_bytes (blk addr s) ((off + tot) mod BSIZE) bs) s in
          if \<not> ok then kbind (tx_brelse addr s) (\<lambda>s. Ok (tot, s))
          else
            kbind (tx_log_write addr s) (\<lambda>s.
            kbind (tx_brelse addr s) (writei_loop src i off n (tot + k)))))
      else Ok (tot, s))"
  by pat_completeness auto
termination
  by (relation "measure (\<lambda>(src, i, off, n, tot, s). n - tot)") auto

declare writei_loop.simps [simp del]

definition writei :: "fetcher \<Rightarrow> nat \<Rightarrow> u32 \<Rightarrow> u32 \<Rightarrow> fs \<Rightarrow> (int \<times> fs) kres" where
  "writei src i off n s =
     (if off > i_size (node i s) \<or> off + n < off then Ok (- 1, s)
      else if off + n > of_nat (MAXFILE * BSIZE) then Ok (- 1, s)
      else
        kbind (writei_loop src i (unat off) (unat n) 0 s) (\<lambda>(tot, s).
        let off = off + of_nat tot;
            s = (if off > i_size (node i s) then upd_node i (\<lambda>ip. ip\<lparr>i_size := off\<rparr>) s else s) in
        kbind (iupdate i s) (\<lambda>s. Ok (int tot, s))))"

section \<open>Directories\<close>

text \<open>A \<open>struct dirent\<close> is 16 bytes: \<open>inum\<close>, then 14 bytes of name.\<close>

definition de_inum :: "u8 list \<Rightarrow> u16" where "de_inum de = get16 de 0"
definition de_name :: "u8 list \<Rightarrow> u8 list" where "de_name de = drop 2 de"

definition namecmp :: "u8 list \<Rightarrow> u8 list \<Rightarrow> int" where
  "namecmp s t = strncmp s t DIRSIZ"

text \<open>\<open>readi(dp, 0, &de, off, sizeof(de))\<close>; the callers panic unless it gives 16.\<close>

definition read_dirent :: "nat \<Rightarrow> nat \<Rightarrow> fs \<Rightarrow> (int \<times> u8 list \<times> fs) kres" where
  "read_dirent dp off s = readi kbuf dp (of_nat off) (of_nat DIRENT) [] s"

function dirlookup_loop :: "nat \<Rightarrow> u8 list \<Rightarrow> nat \<Rightarrow> nat \<Rightarrow> fs \<Rightarrow> ((nat \<times> nat) option \<times> fs) kres" where
  "dirlookup_loop dp name sz off s =
     (if off < sz then
        kbind (read_dirent dp off s) (\<lambda>(r, de, s).
        if r \<noteq> int DIRENT then Panic ''dirlookup read''
        else if de_inum de = 0 then dirlookup_loop dp name sz (off + DIRENT) s
        else if namecmp name (de_name de) = 0 then
          kbind (iget (i_dev (node dp s)) (ucast (de_inum de)) s) (\<lambda>(i, s). Ok (Some (i, off), s))
        else dirlookup_loop dp name sz (off + DIRENT) s)
      else Ok (None, s))"
  by pat_completeness auto
termination
  by (relation "measure (\<lambda>(dp, name, sz, off, s). sz - off)") auto

declare dirlookup_loop.simps [simp del]

definition dirlookup :: "nat \<Rightarrow> u8 list \<Rightarrow> fs \<Rightarrow> ((nat \<times> nat) option \<times> fs) kres" where
  "dirlookup dp name s =
     (if i_type (node dp s) \<noteq> T_DIR then Panic ''dirlookup not DIR''
      else dirlookup_loop dp name (unat (i_size (node dp s))) 0 s)"

function free_dirent :: "nat \<Rightarrow> nat \<Rightarrow> nat \<Rightarrow> fs \<Rightarrow> (nat \<times> fs) kres" where
  "free_dirent dp sz off s =
     (if off < sz then
        kbind (read_dirent dp off s) (\<lambda>(r, de, s).
        if r \<noteq> int DIRENT then Panic ''dirlink read''
        else if de_inum de = 0 then Ok (off, s)
        else free_dirent dp sz (off + DIRENT) s)
      else Ok (off, s))"
  by pat_completeness auto
termination
  by (relation "measure (\<lambda>(dp, sz, off, s). sz - off)") auto

declare free_dirent.simps [simp del]

definition mk_dirent :: "u8 list \<Rightarrow> u16 \<Rightarrow> u8 list" where
  "mk_dirent name inum = bytes16 inum @ strncpy name DIRSIZ"

definition dirlink :: "nat \<Rightarrow> u8 list \<Rightarrow> u32 \<Rightarrow> fs \<Rightarrow> (int \<times> fs) kres" where
  "dirlink dp name inum s =
     kbind (dirlookup dp name s) (\<lambda>(found, s).
     case found of
       Some (i, off) \<Rightarrow> kbind (iput i s) (\<lambda>s. Ok (- 1, s))
     | None \<Rightarrow>
         kbind (free_dirent dp (unat (i_size (node dp s))) 0 s) (\<lambda>(off, s).
         kbind (writei (ksrc (mk_dirent name (ucast inum))) dp (of_nat off) (of_nat DIRENT) s) (\<lambda>(r, s).
         Ok (if r \<noteq> int DIRENT then - 1 else 0, s))))"

section \<open>Paths\<close>

text \<open>The result is the rest of the path and the 14-byte buffer \<open>name\<close>.\<close>

definition skipelem :: "u8 list \<Rightarrow> u8 list \<Rightarrow> (u8 list \<times> u8 list) option" where
  "skipelem path name =
     (let path = dropWhile (\<lambda>c. c = 47) path in
      if path = [] \<or> hd path = 0 then None
      else let el = takeWhile (\<lambda>c. c \<noteq> 47 \<and> c \<noteq> 0) path;
               path = drop (length el) path in
        Some (dropWhile (\<lambda>c. c = 47) path,
              if length el \<ge> DIRSIZ then put_bytes name 0 (take DIRSIZ el) else put_bytes name 0 (el @ [0])))"

lemma skipelem_shorter: "skipelem path name = Some (rest, n) \<Longrightarrow> length rest < length path"
proof -
  assume a: "skipelem path name = Some (rest, n)"
  let ?p = "dropWhile (\<lambda>c. c = 47) path"
  let ?el = "takeWhile (\<lambda>c. c \<noteq> 47 \<and> c \<noteq> 0) ?p"
  have ne: "?p \<noteq> []" "hd ?p \<noteq> 0" and r: "rest = dropWhile (\<lambda>c. c = 47) (drop (length ?el) ?p)"
    using a by (auto simp: skipelem_def Let_def split: if_splits)
  have "hd ?p \<noteq> 47" using hd_dropWhile [of "\<lambda>c. c = 47" path] ne(1) by simp
  then have "?el \<noteq> []" using ne by (cases ?p) auto
  then have "length (drop (length ?el) ?p) < length ?p" using ne(1) by simp
  moreover have "length rest \<le> length (drop (length ?el) ?p)" unfolding r by (rule length_dropWhile_le)
  moreover have "length ?p \<le> length path" by (rule length_dropWhile_le)
  ultimately show ?thesis by linarith
qed

text \<open>\<open>at_end path\<close> is \<open>*path == '\0'\<close>.\<close>

definition at_end :: "u8 list \<Rightarrow> bool" where
  "at_end path \<longleftrightarrow> path = [] \<or> hd path = 0"

function namex_loop :: "bool \<Rightarrow> nat \<Rightarrow> u8 list \<Rightarrow> u8 list \<Rightarrow> fs \<Rightarrow> (nat option \<times> u8 list \<times> fs) kres" where
  "namex_loop parent ip path name s =
     (case skipelem path name of
        None \<Rightarrow> if parent then kbind (iput ip s) (\<lambda>s. Ok (None, name, s)) else Ok (Some ip, name, s)
      | Some (path, name) \<Rightarrow>
          kbind (ilock (Some ip) s) (\<lambda>s.
          if i_type (node ip s) \<noteq> T_DIR then kbind (iunlockput ip s) (\<lambda>s. Ok (None, name, s))
          else if parent \<and> at_end path then kbind (iunlock (Some ip) s) (\<lambda>s. Ok (Some ip, name, s))
          else kbind (dirlookup ip name s) (\<lambda>(found, s).
            case found of
              None \<Rightarrow> kbind (iunlockput ip s) (\<lambda>s. Ok (None, name, s))
            | Some (nxt, off) \<Rightarrow> kbind (iunlockput ip s) (namex_loop parent nxt path name))))"
  by pat_completeness auto
termination
  by (relation "measure (\<lambda>(parent, ip, path, name, s). length path)") (auto dest: skipelem_shorter)

declare namex_loop.simps [simp del]

text \<open>\<open>cwd\<close> is \<open>myproc()->cwd\<close>; ROOTDEV and ROOTINO are 1.\<close>

definition namex :: "nat \<Rightarrow> u8 list \<Rightarrow> bool \<Rightarrow> u8 list \<Rightarrow> fs \<Rightarrow> (nat option \<times> u8 list \<times> fs) kres" where
  "namex cwd path parent name s =
     kbind (if path \<noteq> [] \<and> hd path = 47 then iget 1 1 s else Ok (idup cwd s)) (\<lambda>(ip, s).
     namex_loop parent ip path name s)"

definition namei :: "nat \<Rightarrow> u8 list \<Rightarrow> fs \<Rightarrow> (nat option \<times> fs) kres" where
  "namei cwd path s =
     kbind (namex cwd path False (replicate DIRSIZ 0) s) (\<lambda>(ip, name, s). Ok (ip, s))"

definition nameiparent :: "nat \<Rightarrow> u8 list \<Rightarrow> u8 list \<Rightarrow> fs \<Rightarrow> (nat option \<times> u8 list \<times> fs) kres" where
  "nameiparent cwd path name s = namex cwd path True name s"

section \<open>The name of the current directory\<close>

text \<open>The loop of \<open>diriname\<close>: the 14 bytes of the name of the entry for \<open>inum\<close>.\<close>

function diriname_loop :: "nat \<Rightarrow> u16 \<Rightarrow> nat \<Rightarrow> nat \<Rightarrow> fs \<Rightarrow> (u8 list option \<times> fs) kres" where
  "diriname_loop dp inum sz off s =
     (if off < sz then
        kbind (read_dirent dp off s) (\<lambda>(r, de, s).
        if r \<noteq> int DIRENT then Panic ''diriname read''
        else if de_inum de = 0 then diriname_loop dp inum sz (off + DIRENT) s
        else if de_inum de = inum then Ok (Some (strncpy (de_name de) DIRSIZ), s)
        else diriname_loop dp inum sz (off + DIRENT) s)
      else Ok (None, s))"
  by pat_completeness auto
termination
  by (relation "measure (\<lambda>(dp, inum, sz, off, s). sz - off)") auto

declare diriname_loop.simps [simp del]

text \<open>
  \<open>diriname\<close> as \<open>getcwd\<close> calls it, with both output arguments: the result, the name and the
  parent's number. With fewer than two entries the parent's number would be uninitialised, and
  \<open>strlen\<close> of a name of 14 characters without NUL reads past the array: both are \<open>Fault\<close>.
\<close>

definition diriname :: "nat \<Rightarrow> u16 \<Rightarrow> fs \<Rightarrow> (int \<times> u8 list \<times> u16 \<times> fs) kres" where
  "diriname dp inum s =
     kbind (ilock (Some dp) s) (\<lambda>s.
     if i_type (node dp s) \<noteq> T_DIR then Panic ''diriname not DIR''
     else
       kbind (read_dirent dp DIRENT s) (\<lambda>(r, de, s).
       if length de < 2 then Fault
       else
         kbind (diriname_loop dp inum (unat (i_size (node dp s))) 0 s) (\<lambda>(found, s).
         kbind (iunlockput dp s) (\<lambda>s.
         case found of
           None \<Rightarrow> Ok (- 1, [], de_inum de, s)
         | Some name \<Rightarrow> if 0 \<notin> set name then Fault else Ok (int (strlen name), name, de_inum de, s)))))"

text \<open>A store to the buffer, and the loop. \<open>fuel\<close> bounds the number of directories climbed; the C
  loop does not end in a cycle of directories.\<close>

definition buf_set :: "nat \<Rightarrow> u8 list \<Rightarrow> u8 list \<Rightarrow> u8 list kres" where
  "buf_set k bs buf = (if k + length bs \<le> length buf then Ok (put_bytes buf k bs) else Fault)"

fun getcwd_loop ::
    "nat \<Rightarrow> u32 \<Rightarrow> nat \<Rightarrow> u16 \<Rightarrow> u16 \<Rightarrow> nat \<Rightarrow> u8 list \<Rightarrow> fs \<Rightarrow> (nat \<times> u8 list \<times> fs) kres" where
  "getcwd_loop 0 dev i icurrent last_parent bufp buf s = Blocked"
| "getcwd_loop (Suc fuel) dev i icurrent last_parent bufp buf s =
     (if icurrent = 1 then Ok (bufp, buf, s)
      else
        kbind (diriname i icurrent s) (\<lambda>(r, name, iparent, s).
        if r = - 1 then Ok (bufp, buf, s)
        else if icurrent \<noteq> last_parent \<and> \<not> strlen name < bufp then Ok (bufp, buf, s)
        else
          kbind (if icurrent \<noteq> last_parent then
                   kbind (buf_set (bufp - strlen name) (cstr name) buf) (\<lambda>buf.
                   kbind (buf_set (bufp - strlen name - 1) [47] buf) (\<lambda>buf. Ok (bufp - strlen name - 1, buf)))
                 else Ok (bufp, buf)) (\<lambda>(bufp, buf).
          kbind (iget dev (ucast iparent) s) (\<lambda>(i, s).
          getcwd_loop fuel dev i last_parent iparent bufp buf s))))"

definition getcwd :: "nat \<Rightarrow> nat \<Rightarrow> u8 list option \<Rightarrow> u32 \<Rightarrow> fs \<Rightarrow> (int \<times> u8 list option \<times> fs) kres" where
  "getcwd fuel cwd buf bsz s =
     kbind (ilock (Some cwd) s) (\<lambda>s.
     if i_type (node cwd s) \<noteq> T_DIR then Panic ''getcwd not DIR''
     else case buf of
       None \<Rightarrow> kbind (iunlock (Some cwd) s) (\<lambda>s. Ok (- 1, buf, s))
     | Some b \<Rightarrow>
       if bsz \<le> 1 then kbind (iunlock (Some cwd) s) (\<lambda>s. Ok (- 1, buf, s))
       else if i_inum (node cwd s) = 1 then
         kbind (buf_set 0 [47, 0] b) (\<lambda>b.
         kbind (iunlock (Some cwd) s) (\<lambda>s. Ok (0, Some b, s)))
       else
         kbind (buf_set (unat bsz - 1) [0] b) (\<lambda>b.
         kbind (iget (i_dev (node cwd s)) (i_inum (node cwd s)) s) (\<lambda>(i, s).
         let inum = ucast (i_inum (node cwd s)) in
         kbind (iunlock (Some cwd) s) (\<lambda>s.
         kbind (getcwd_loop fuel (i_dev (node cwd s)) i inum inum (unat bsz - 2) b s) (\<lambda>(bufp, b, s).
         Ok (0, Some (put_bytes b 0 (get_bytes b bufp (unat bsz - bufp))), s))))))"

end
