(* ===== verification/FsAlloc.thy ===== *)
theory FsAlloc imports Fs begin

text \<open>
  The block allocator of kernel/fs.c, \<open>balloc\<close> and \<open>bfree\<close>, against its abstract specification:
  a set of used blocks, kept in the bitmap. \<open>alloc_inv\<close> is what the layout made by mkfs gives: every
  block has 1024 bytes, the bitmap blocks (and block 0) are themselves marked used.
\<close>

section \<open>Bits\<close>

lemma bit_used_iff: "bit_used d bi \<longleftrightarrow> bit (d ! (bi div 8)) (bi mod 8)"
  by (simp add: bit_used_def bit_iff_and_push_bit_not_eq_0)

lemma length_bit_set [simp]: "length (bit_set bi d) = length d" "length (bit_clear bi d) = length d"
  by (simp_all add: bit_set_def bit_clear_def)

lemma same_bit: "bj div 8 = bi div 8 \<Longrightarrow> bj mod 8 = bi mod 8 \<Longrightarrow> bj = (bi :: nat)"
  by (metis div_mult_mod_eq)

lemma bit_mask: "bit (push_bit (bi mod 8) 1 :: u8) (bj mod 8) \<longleftrightarrow> bj mod 8 = bi mod 8"
  unfolding bit_push_bit_iff bit_1_iff by (auto simp: not_le)

lemma bit_used_bit_set:
  assumes "bi div 8 < length d"
  shows "bit_used (bit_set bi d) bj \<longleftrightarrow> bj = bi \<or> bit_used d bj"
proof (cases "bj div 8 = bi div 8")
  case True
  then have "bj = bi \<longleftrightarrow> bj mod 8 = bi mod 8" using same_bit by blast
  then show ?thesis unfolding bit_used_iff bit_set_def using True assms by (simp only: nth_list_update_eq bit_or_iff bit_mask) blast
qed (auto simp: bit_used_iff bit_set_def)

lemma bit_used_bit_clear:
  assumes "bi div 8 < length d"
  shows "bit_used (bit_clear bi d) bj \<longleftrightarrow> bj \<noteq> bi \<and> bit_used d bj"
proof (cases "bj div 8 = bi div 8")
  case True
  have "bit (NOT (push_bit (bi mod 8) 1) :: u8) (bj mod 8) \<longleftrightarrow> bj mod 8 \<noteq> bi mod 8"
    unfolding bit_not_iff bit_mask by simp
  moreover have "bj = bi \<longleftrightarrow> bj mod 8 = bi mod 8" using True same_bit by blast
  ultimately show ?thesis
    unfolding bit_used_iff bit_clear_def using True assms by (simp only: nth_list_update_eq bit_and_iff) blast
qed (auto simp: bit_used_iff bit_clear_def)

section \<open>Blocks in a transaction\<close>

definition tx_locked :: "fs \<Rightarrow> u32 list" where "tx_locked s = d_locked (disk s)"
definition tx_logged :: "fs \<Rightarrow> u32 list" where "tx_logged s = d_logged (disk s)"

text \<open>\<open>log_room s n\<close>: \<open>n\<close> more blocks can be logged.\<close>

definition log_room :: "fs \<Rightarrow> nat \<Rightarrow> bool" where
  "log_room s n \<longleftrightarrow> length (tx_logged s) + n \<le> d_cap (disk s)"

lemma blk_set_blk [simp]: "blk b' (set_blk b d s) = (if b' = b then d else blk b' s)"
  by (simp add: blk_def set_blk_def)

lemma set_blk_frame [simp]:
  "itable (set_blk b d s) = itable s" "sb (set_blk b d s) = sb s" "tx_locked (set_blk b d s) = tx_locked s"
  "tx_logged (set_blk b d s) = tx_logged s" "log_room (set_blk b d s) n = log_room s n" "BBLOCK k (set_blk b d s) = BBLOCK k s"
  "IBLOCK j (set_blk b d s) = IBLOCK j s" "node i (set_blk b d s) = node i s"
  "d_cap (disk (set_blk b d s)) = d_cap (disk s)"
  by (simp_all add: set_blk_def tx_locked_def tx_logged_def log_room_def BBLOCK_def IBLOCK_def node_def)

text \<open>\<open>same_blocks s t\<close>: \<open>t\<close> differs from \<open>s\<close> only in the locked and the logged blocks.\<close>

definition same_blocks :: "fs \<Rightarrow> fs \<Rightarrow> bool" where
  "same_blocks s t \<longleftrightarrow> d_blk (disk t) = d_blk (disk s) \<and> itable t = itable s \<and> sb t = sb s \<and> d_cap (disk t) = d_cap (disk s)"

lemma same_blocksD:
  "same_blocks s t \<Longrightarrow> blk b t = blk b s" "same_blocks s t \<Longrightarrow> node i t = node i s"
  "same_blocks s t \<Longrightarrow> BBLOCK k t = BBLOCK k s" "same_blocks s t \<Longrightarrow> IBLOCK j t = IBLOCK j s"
  "same_blocks s t \<Longrightarrow> itable t = itable s" "same_blocks s t \<Longrightarrow> sb t = sb s"
  by (simp_all add: same_blocks_def blk_def node_def BBLOCK_def IBLOCK_def)

lemma tx_bread_ok:
  assumes "b \<notin> set (tx_locked s)"
  obtains t where "tx_bread b s = Ok t" "same_blocks s t" "tx_locked t = b # tx_locked s" "tx_logged t = tx_logged s"
proof
  show "tx_bread b s = Ok (s\<lparr>disk := (disk s)\<lparr>d_locked := b # d_locked (disk s)\<rparr>\<rparr>)"
    using assms by (simp add: tx_bread_def tx_locked_def)
qed (simp_all add: same_blocks_def tx_locked_def tx_logged_def)

lemma tx_log_write_ok:
  assumes "b \<in> set (tx_logged s) \<or> log_room s 1"
  obtains t where "tx_log_write b s = Ok t" "same_blocks s t" "tx_locked t = tx_locked s"
    "tx_logged t = (if b \<in> set (tx_logged s) then tx_logged s else tx_logged s @ [b])"
proof
  show "tx_log_write b s = Ok (if b \<in> set (tx_logged s) then s else s\<lparr>disk := (disk s)\<lparr>d_logged := d_logged (disk s) @ [b]\<rparr>\<rparr>)"
    using assms by (auto simp: tx_log_write_def tx_logged_def log_room_def)
qed (simp_all add: same_blocks_def tx_locked_def tx_logged_def)

lemma tx_brelse_ok:
  assumes "tx_locked s = b # L"
  obtains t where "tx_brelse b s = Ok t" "same_blocks s t" "tx_locked t = L" "tx_logged t = tx_logged s"
proof
  show "tx_brelse b s = Ok (s\<lparr>disk := (disk s)\<lparr>d_locked := L\<rparr>\<rparr>)"
    using assms by (simp add: tx_brelse_def tx_locked_def)
qed (simp_all add: same_blocks_def tx_locked_def tx_logged_def)

text \<open>The idiom of reading a block, changing it, logging it and releasing it.\<close>

lemma modify_steps:
  assumes "b \<notin> set (tx_locked s)" and "b \<in> set (tx_logged s) \<or> log_room s 1"
  obtains u v t where "tx_bread b s = Ok u" "same_blocks s u" "tx_log_write b (set_blk b d u) = Ok v" "tx_brelse b v = Ok t"
    "same_blocks (set_blk b d s) t" "tx_locked t = tx_locked s"
    "tx_logged t = (if b \<in> set (tx_logged s) then tx_logged s else tx_logged s @ [b])"
proof -
  obtain u where u: "tx_bread b s = Ok u" "same_blocks s u" "tx_locked u = b # tx_locked s" "tx_logged u = tx_logged s"
    using tx_bread_ok [OF assms(1)] by blast
  have "d_cap (disk u) = d_cap (disk s)" using u(2) by (simp add: same_blocks_def)
  then have "b \<in> set (tx_logged (set_blk b d u)) \<or> log_room (set_blk b d u) 1"
    using assms(2) u(4) by (auto simp: log_room_def)
  then obtain v where v: "tx_log_write b (set_blk b d u) = Ok v" "same_blocks (set_blk b d u) v" "tx_locked v = b # tx_locked s"
      "tx_logged v = (if b \<in> set (tx_logged s) then tx_logged s else tx_logged s @ [b])"
    using tx_log_write_ok u(3,4) by (metis set_blk_frame(3,4))
  obtain t where t: "tx_brelse b v = Ok t" "same_blocks v t" "tx_locked t = tx_locked s" "tx_logged t = tx_logged v"
    using tx_brelse_ok [OF v(3)] by blast
  have "same_blocks (set_blk b d s) t"
    using u(2) v(2) t(2) by (simp add: same_blocks_def set_blk_def)
  then show ?thesis using that u(1,2) v(1,4) t by simp
qed

lemma bzero_ok:
  assumes "b \<notin> set (tx_locked s)" and "b \<in> set (tx_logged s) \<or> log_room s 1"
  obtains t where "bzero b s = Ok t" "same_blocks (set_blk b (replicate BSIZE 0) s) t" "tx_locked t = tx_locked s"
    "tx_logged t = (if b \<in> set (tx_logged s) then tx_logged s else tx_logged s @ [b])"
  by (rule modify_steps [OF assms, of "replicate BSIZE 0"]) (rule that, simp_all add: bzero_def)

section \<open>The set of used blocks\<close>

definition fs_size :: "fs \<Rightarrow> nat" where "fs_size s = unat (sb_size (sb s))"

definition block_used :: "nat \<Rightarrow> fs \<Rightarrow> bool" where
  "block_used b s \<longleftrightarrow> bit_used (blk (BBLOCK b s) s) (b mod BPB)"

definition is_bitmap :: "nat \<Rightarrow> fs \<Rightarrow> bool" where
  "is_bitmap b s \<longleftrightarrow> (\<exists>k < fs_size s. BBLOCK k s = of_nat b)"

definition alloc_inv :: "fs \<Rightarrow> bool" where
  "alloc_inv s \<longleftrightarrow> (\<forall>b. length (blk b s) = BSIZE) \<and> block_used 0 s \<and>
     unat (sb_bmapstart (sb s)) + fs_size s div BPB < fs_size s \<and>
     (\<forall>b < fs_size s. is_bitmap b s \<longrightarrow> block_used b s)"

text \<open>The blocks \<open>balloc\<close> may touch are not locked by the caller.\<close>

definition alloc_ready :: "fs \<Rightarrow> bool" where
  "alloc_ready s \<longleftrightarrow> (\<forall>b < fs_size s. is_bitmap b s \<or> \<not> block_used b s \<longrightarrow> of_nat b \<notin> set (tx_locked s))"

lemma fs_size_less: "fs_size s < 2 ^ 32"
  using unsigned_less [of "sb_size (sb s)"] by (simp add: fs_size_def)

lemma unat_of_block: "b < fs_size s \<Longrightarrow> unat (of_nat b :: u32) = b"
  using fs_size_less [of s] by (simp add: unat_of_nat take_bit_eq_mod)

lemma of_nat_block_eq: "b < fs_size s \<Longrightarrow> c < fs_size s \<Longrightarrow> (of_nat b :: u32) = of_nat c \<longleftrightarrow> b = c"
  using unat_of_block by metis

lemma unat_BBLOCK:
  assumes "alloc_inv s" "b < fs_size s"
  shows "unat (BBLOCK b s) = b div BPB + unat (sb_bmapstart (sb s))" "unat (BBLOCK b s) < fs_size s"
proof -
  have "b div BPB \<le> fs_size s div BPB" using assms(2) by (simp add: div_le_mono)
  then have l: "b div BPB + unat (sb_bmapstart (sb s)) < fs_size s" using assms(1) unfolding alloc_inv_def by linarith
  have "BBLOCK b s = of_nat (b div BPB + unat (sb_bmapstart (sb s)))" by (simp add: BBLOCK_def)
  then show e: "unat (BBLOCK b s) = b div BPB + unat (sb_bmapstart (sb s))" using unat_of_block [OF l] by simp
  show "unat (BBLOCK b s) < fs_size s" unfolding e by (rule l)
qed

lemma BBLOCK_eq:
  "alloc_inv s \<Longrightarrow> b < fs_size s \<Longrightarrow> c < fs_size s \<Longrightarrow> BBLOCK b s = BBLOCK c s \<longleftrightarrow> b div BPB = c div BPB"
  using unat_BBLOCK(1) [of s b] unat_BBLOCK(1) [of s c] by (metis BBLOCK_def add_right_imp_eq)

lemma BBLOCK_bitmap:
  assumes "alloc_inv s" "b < fs_size s"
  shows "is_bitmap (unat (BBLOCK b s)) s" "block_used (unat (BBLOCK b s)) s"
proof -
  show "is_bitmap (unat (BBLOCK b s)) s" using assms(2) by (auto simp: is_bitmap_def intro!: exI [of _ b])
  then show "block_used (unat (BBLOCK b s)) s" using assms unat_BBLOCK(2) [OF assms] by (simp add: alloc_inv_def)
qed

lemma fs_size_same: "same_blocks s t \<Longrightarrow> fs_size t = fs_size s" "fs_size (set_blk b d s) = fs_size s"
  by (simp_all add: fs_size_def same_blocksD)

lemma same_block_used: "same_blocks s t \<Longrightarrow> block_used b t = block_used b s"
  by (simp add: block_used_def same_blocksD)

lemma same_is_bitmap: "same_blocks s t \<Longrightarrow> is_bitmap b t = is_bitmap b s" "is_bitmap b (set_blk c d s) = is_bitmap b s"
  by (simp_all add: is_bitmap_def same_blocksD fs_size_same)

lemma same_alloc_inv: "same_blocks s t \<Longrightarrow> alloc_inv t = alloc_inv s"
  by (simp add: alloc_inv_def same_blocksD fs_size_same same_block_used same_is_bitmap)

lemma same_allocs:
  assumes "same_blocks s t" "tx_locked t = tx_locked s" "tx_logged t = tx_logged s"
  shows "alloc_inv t = alloc_inv s" "alloc_ready t = alloc_ready s" "log_room t n = log_room s n"
  using assms by (simp_all add: same_alloc_inv alloc_ready_def fs_size_same same_block_used same_is_bitmap log_room_def)
    (simp add: same_blocks_def)

text \<open>Setting and clearing the bit of a block changes that block's mark and no other.\<close>

lemma block_used_change:
  assumes inv: "alloc_inv s" and b: "b < fs_size s" and c: "c < fs_size s"
    and P: "\<And>j. bit_used d j \<longleftrightarrow> (if j = b mod BPB then v else bit_used (blk (BBLOCK b s) s) j)"
  shows "block_used c (set_blk (BBLOCK b s) d s) \<longleftrightarrow> (if c = b then v else block_used c s)"
proof (cases "c div BPB = b div BPB")
  case True
  then have "c = b \<longleftrightarrow> c mod BPB = b mod BPB" by (metis div_mult_mod_eq)
  then show ?thesis using True P BBLOCK_eq [OF inv c b] by (simp add: block_used_def)
next
  case False
  then show ?thesis using BBLOCK_eq [OF inv c b] by (auto simp: block_used_def)
qed

lemma bit_in_block: "alloc_inv s \<Longrightarrow> b mod BPB div 8 < length (blk c s)"
  by (simp add: alloc_inv_def less_mult_imp_div_less)

section \<open>Allocation\<close>

definition mark_used :: "nat \<Rightarrow> fs \<Rightarrow> fs" where
  "mark_used c s = set_blk (BBLOCK c s) (bit_set (c mod BPB) (blk (BBLOCK c s) s)) s"

definition mark_free :: "nat \<Rightarrow> fs \<Rightarrow> fs" where
  "mark_free c s = set_blk (BBLOCK c s) (bit_clear (c mod BPB) (blk (BBLOCK c s) s)) s"

lemma mark_frame [simp]:
  "fs_size (mark_used c s) = fs_size s" "fs_size (mark_free c s) = fs_size s"
  "is_bitmap b (mark_used c s) = is_bitmap b s" "is_bitmap b (mark_free c s) = is_bitmap b s"
  "sb (mark_used c s) = sb s" "sb (mark_free c s) = sb s"
  "itable (mark_used c s) = itable s" "itable (mark_free c s) = itable s"
  by (simp_all add: mark_used_def mark_free_def fs_size_same same_is_bitmap)

lemma block_used_mark:
  assumes "alloc_inv s" "b < fs_size s" "c < fs_size s"
  shows "block_used b (mark_used c s) \<longleftrightarrow> b = c \<or> block_used b s"
    "block_used b (mark_free c s) \<longleftrightarrow> b \<noteq> c \<and> block_used b s"
  using block_used_change [of s c b _ True] block_used_change [of s c b _ False] bit_in_block [of s c "BBLOCK c s"]
    bit_used_bit_set bit_used_bit_clear assms
  by (simp_all add: mark_used_def mark_free_def)

lemma blk_mark: "b \<noteq> BBLOCK c s \<Longrightarrow> blk b (mark_used c s) = blk b s" "b \<noteq> BBLOCK c s \<Longrightarrow> blk b (mark_free c s) = blk b s"
  by (simp_all add: mark_used_def mark_free_def)

lemma zero_in_size: "alloc_inv s \<Longrightarrow> 0 < fs_size s"
  by (auto simp: alloc_inv_def)

lemma alloc_inv_mark_used: "alloc_inv s \<Longrightarrow> c < fs_size s \<Longrightarrow> alloc_inv (mark_used c s)"
  using block_used_mark(1) zero_in_size [of s] unfolding alloc_inv_def
  by (auto simp: mark_used_def [symmetric]) (simp_all add: mark_used_def)

lemma alloc_inv_mark_free:
  "alloc_inv s \<Longrightarrow> c < fs_size s \<Longrightarrow> c \<noteq> 0 \<Longrightarrow> \<not> is_bitmap c s \<Longrightarrow> alloc_inv (mark_free c s)"
  using block_used_mark(2) zero_in_size [of s] unfolding alloc_inv_def
  by (auto simp: mark_free_def [symmetric]) (auto simp: mark_free_def)

text \<open>Writing a block that is not in the bitmap leaves the marks alone.\<close>

lemma BBLOCK_not:
  assumes "alloc_inv s" "b < fs_size s" "\<not> is_bitmap c s" "c < fs_size s"
  shows "BBLOCK b s \<noteq> of_nat c"
  using assms BBLOCK_bitmap(1) [of s b] unat_of_block by metis

lemma block_used_set_blk:
  "alloc_inv s \<Longrightarrow> b < fs_size s \<Longrightarrow> c < fs_size s \<Longrightarrow> \<not> is_bitmap c s \<Longrightarrow> block_used b (set_blk (of_nat c) d s) = block_used b s"
  using BBLOCK_not by (auto simp: block_used_def)

lemma alloc_inv_set_blk:
  "alloc_inv s \<Longrightarrow> c < fs_size s \<Longrightarrow> \<not> is_bitmap c s \<Longrightarrow> length d = BSIZE \<Longrightarrow> alloc_inv (set_blk (of_nat c) d s)"
  using block_used_set_blk [of s _ c d] zero_in_size [of s]
  by (auto simp: alloc_inv_def fs_size_same same_is_bitmap)

text \<open>What \<open>balloc\<close> has done when it returns block \<open>c\<close>.\<close>

definition allocated :: "nat \<Rightarrow> fs \<Rightarrow> fs \<Rightarrow> bool" where
  "allocated c s t \<longleftrightarrow> same_blocks (set_blk (of_nat c) (replicate BSIZE 0) (mark_used c s)) t \<and>
     tx_locked t = tx_locked s \<and> set (tx_logged t) = insert (BBLOCK c s) (insert (of_nat c) (set (tx_logged s))) \<and>
     length (tx_logged t) \<le> length (tx_logged s) + 2"

lemma allocatedD:
  assumes inv: "alloc_inv s" and c: "c < fs_size s" "\<not> block_used c s" and a: "allocated c s t"
  shows "alloc_inv t" "fs_size t = fs_size s" "itable t = itable s" "sb t = sb s"
    "\<And>b. b < fs_size s \<Longrightarrow> block_used b t \<longleftrightarrow> b = c \<or> block_used b s"
    "blk (of_nat c) t = replicate BSIZE 0"
    "\<And>b. b < fs_size s \<Longrightarrow> b \<noteq> c \<Longrightarrow> \<not> is_bitmap b s \<Longrightarrow> blk (of_nat b) t = blk (of_nat b) s"
proof -
  have nb: "\<not> is_bitmap c s" using inv c by (auto simp: alloc_inv_def)
  note s = a [unfolded allocated_def, THEN conjunct1] and inv' = alloc_inv_mark_used [OF inv c(1)]
  show "alloc_inv t"
    using same_alloc_inv [OF s] alloc_inv_set_blk [OF inv', of c "replicate BSIZE 0"] nb c(1) by simp
  show "fs_size t = fs_size s" "itable t = itable s" "sb t = sb s"
    using fs_size_same(1) [OF s] same_blocksD(5,6) [OF s] by (simp_all add: fs_size_same)
  show "block_used b t \<longleftrightarrow> b = c \<or> block_used b s" if "b < fs_size s" for b
    using same_block_used [OF s] block_used_set_blk [OF inv', of b c] block_used_mark(1) [OF inv that c(1)] nb c(1) that by simp
  show "blk (of_nat c) t = replicate BSIZE 0" using same_blocksD(1) [OF s] by simp
  show "blk (of_nat b) t = blk (of_nat b) s" if "b < fs_size s" "b \<noteq> c" "\<not> is_bitmap b s" for b
    using same_blocksD(1) [OF s] of_nat_block_eq [OF that(1) c(1)] that BBLOCK_not [OF inv c(1) that(3,1)] blk_mark(1)
    by simp
qed

lemma balloc_block_full:
  assumes "b < fs_size s" "\<And>c. b \<le> c \<Longrightarrow> c < b + BPB \<Longrightarrow> c < fs_size s \<Longrightarrow> block_used c s" "BPB dvd b"
    "alloc_inv s" "alloc_ready s"
  obtains t where "balloc_block (fs_size s) b s = Ok (None, t)" "same_blocks s t" "tx_locked t = tx_locked s" "tx_logged t = tx_logged s"
proof -
  let ?bb = "BBLOCK b s"
  have "?bb \<notin> set (tx_locked s)"
    using BBLOCK_bitmap(1) [OF assms(4,1)] unat_BBLOCK(2) [OF assms(4,1)] assms(5) by (auto simp: alloc_ready_def)
  then obtain u where u: "tx_bread ?bb s = Ok u" "same_blocks s u" "tx_locked u = ?bb # tx_locked s" "tx_logged u = tx_logged s"
    using tx_bread_ok by blast
  obtain t where t: "tx_brelse ?bb u = Ok t" "same_blocks u t" "tx_locked t = tx_locked s" "tx_logged t = tx_logged u"
    using tx_brelse_ok [OF u(3)] by blast
  have "bit_used (blk ?bb u) j" if "j < min BPB (fs_size s - b)" for j
  proof -
    have "b + j < fs_size s" "b + j < b + BPB" using that by linarith+
    then have "block_used (b + j) s" using assms(2) [of "b + j"] by simp
    moreover have "(b + j) div BPB = b div BPB" "(b + j) mod BPB = j" using assms(3) that by (auto elim!: dvdE)
    ultimately show ?thesis using same_blocksD(1) [OF u(2)] by (simp add: block_used_def BBLOCK_def)
  qed
  then have "find (\<lambda>bi. \<not> bit_used (blk ?bb u) bi) [0..<min BPB (fs_size s - b)] = None"
    by (simp only: find_upt_None) simp
  then have "balloc_block (fs_size s) b s = Ok (None, t)" using u(1) t(1) by (simp add: balloc_block_def)
  then show ?thesis using that u t by (simp add: same_blocks_def)
qed

lemma balloc_block_found:
  assumes c: "c < fs_size s" "\<not> block_used c s" "b \<le> c" "c < b + BPB" and first: "\<And>k. b \<le> k \<Longrightarrow> k < c \<Longrightarrow> block_used k s"
    and b: "BPB dvd b" and inv: "alloc_inv s" "alloc_ready s" and room: "log_room s 2"
  obtains t where "balloc_block (fs_size s) b s = Ok (Some (of_nat c), t)" "allocated c s t"
proof -
  let ?bb = "BBLOCK b s"
  obtain j where j: "c = b + j" using c(3) le_Suc_ex by blast
  have jb: "j < BPB" "(b + k) div BPB = b div BPB" "(b + k) mod BPB = k" if "k \<le> j" for k
    using b c(4) that j by (auto elim!: dvdE)
  have bb: "?bb = BBLOCK c s" using jb(2) [of j] j by (simp add: BBLOCK_def)
  have bl: "b < fs_size s" using c by simp
  have l: "?bb \<notin> set (tx_locked s)"
    using BBLOCK_bitmap(1) [OF inv(1) bl] unat_BBLOCK(2) [OF inv(1) bl] inv(2) by (auto simp: alloc_ready_def)
  have lc: "of_nat c \<notin> set (tx_locked s)" using inv(2) c by (simp add: alloc_ready_def)
  have "?bb \<in> set (tx_logged s) \<or> log_room s 1" using room by (simp add: log_room_def)
  then obtain u v t where st: "tx_bread ?bb s = Ok u" "same_blocks s u"
      "tx_log_write ?bb (set_blk ?bb (bit_set j (blk ?bb s)) u) = Ok v" "tx_brelse ?bb v = Ok t"
      "same_blocks (set_blk ?bb (bit_set j (blk ?bb s)) s) t" "tx_locked t = tx_locked s"
      "tx_logged t = (if ?bb \<in> set (tx_logged s) then tx_logged s else tx_logged s @ [?bb])"
    using modify_steps [OF l] by metis
  have blku: "blk ?bb u = blk ?bb s" by (rule same_blocksD(1) [OF st(2)])
  have "\<not> bit_used (blk ?bb s) j" using c(2) jb [of j] bb j by (simp add: block_used_def)
  moreover have "bit_used (blk ?bb s) k" if "k < j" for k
    using first [of "b + k"] jb [of k] that j by (simp add: block_used_def BBLOCK_def)
  ultimately have "find (\<lambda>bi. \<not> bit_used (blk ?bb u) bi) [0..<min BPB (fs_size s - b)] = Some j"
    unfolding find_upt_Some blku using jb(1) [of j] c(1) j by auto
  moreover have m: "same_blocks (mark_used c s) t" using st(5) bb jb(3) [of j] j by (simp add: mark_used_def)
  moreover have "d_cap (disk t) = d_cap (disk s)" using st(5) by (simp add: same_blocks_def)
  then have "of_nat c \<in> set (tx_logged t) \<or> log_room t 1" using room st(7) by (auto simp: log_room_def)
  then obtain w where w: "bzero (of_nat c) t = Ok w" "same_blocks (set_blk (of_nat c) (replicate BSIZE 0) t) w"
      "tx_locked w = tx_locked t" "tx_logged w = (if of_nat c \<in> set (tx_logged t) then tx_logged t else tx_logged t @ [of_nat c])"
    using bzero_ok [of "of_nat c" t] lc st(6) by metis
  ultimately have "balloc_block (fs_size s) b s = Ok (Some (of_nat c), w)"
    using st(1,3,4) blku j by (simp add: balloc_block_def)
  moreover have "allocated c s w"
    unfolding allocated_def using m w(2,3,4) st(6,7) bb by (auto simp: same_blocks_def set_blk_def)
  ultimately show ?thesis using that by blast
qed

lemma balloc_loop_first:
  assumes "BPB dvd b" "c < fs_size s" "\<not> block_used c s" "b \<le> c" "\<And>k. k < c \<Longrightarrow> block_used k s"
    "alloc_inv s" "alloc_ready s" "log_room s 2"
  shows "\<exists>s' t. balloc_loop (fs_size s) b s = Ok (of_nat c, t) \<and> same_blocks s s' \<and> tx_locked s' = tx_locked s \<and>
    tx_logged s' = tx_logged s \<and> allocated c s' t"
  using assms
proof (induction "c - b" arbitrary: b s rule: less_induct)
  case less
  have bs: "b < fs_size s" using less.prems(2,4) by simp
  show ?case
  proof (cases "c < b + BPB")
    case True
    obtain t where "balloc_block (fs_size s) b s = Ok (Some (of_nat c), t)" "allocated c s t"
      using balloc_block_found [of c s b] True less.prems by metis
    then have "balloc_loop (fs_size s) b s = Ok (of_nat c, t)" using bs by (simp add: balloc_loop.simps [of _ b])
    then show ?thesis using \<open>allocated c s t\<close> by (auto simp: same_blocks_def intro!: exI [of _ s])
  next
    case False
    have "\<And>k. b \<le> k \<Longrightarrow> k < b + BPB \<Longrightarrow> k < fs_size s \<Longrightarrow> block_used k s" using False less.prems(5) by simp
    then obtain u where u: "balloc_block (fs_size s) b s = Ok (None, u)" "same_blocks s u" "tx_locked u = tx_locked s"
        "tx_logged u = tx_logged s"
      using balloc_block_full [OF bs] less.prems(1,6,7) by metis
    have "c - (b + BPB) < c - b" "BPB dvd b + BPB" "b + BPB \<le> c" using False less.prems(1) by auto
    moreover have "c < fs_size u" "\<not> block_used c u" "\<And>k. k < c \<Longrightarrow> block_used k u"
      using less.prems(2,3,5) same_block_used [OF u(2)] fs_size_same(1) [OF u(2)] by simp_all
    moreover have "alloc_inv u" "alloc_ready u" "log_room u 2"
      using less.prems(6,7,8) same_allocs [OF u(2,3,4)] by simp_all
    ultimately obtain s' t where "balloc_loop (fs_size u) (b + BPB) u = Ok (of_nat c, t)" "same_blocks u s'"
        "tx_locked s' = tx_locked u" "tx_logged s' = tx_logged u" "allocated c s' t"
      using less.hyps by blast
    then show ?thesis
      using u bs fs_size_same(1) [OF u(2)]
      by (intro exI [of _ s'] exI [of _ t]) (simp add: balloc_loop.simps [of _ b] same_blocks_def)
  qed
qed

lemma balloc_loop_full:
  assumes "BPB dvd b" "\<And>k. k < fs_size s \<Longrightarrow> block_used k s" "alloc_inv s" "alloc_ready s"
  shows "\<exists>t. balloc_loop (fs_size s) b s = Ok (0, t) \<and> same_blocks s t \<and> tx_locked t = tx_locked s \<and> tx_logged t = tx_logged s"
  using assms
proof (induction "fs_size s - b" arbitrary: b s rule: less_induct)
  case less
  show ?case
  proof (cases "b < fs_size s")
    case True
    obtain u where u: "balloc_block (fs_size s) b s = Ok (None, u)" "same_blocks s u" "tx_locked u = tx_locked s"
        "tx_logged u = tx_logged s"
      using balloc_block_full [OF True] less.prems by metis
    have "fs_size u - (b + BPB) < fs_size s - b" "BPB dvd b + BPB"
      using True fs_size_same(1) [OF u(2)] less.prems(1) by auto
    moreover have "\<And>k. k < fs_size u \<Longrightarrow> block_used k u" "alloc_inv u" "alloc_ready u"
      using less.prems(2-4) same_block_used [OF u(2)] fs_size_same(1) [OF u(2)] same_allocs [OF u(2,3,4)] by simp_all
    ultimately obtain t where "balloc_loop (fs_size u) (b + BPB) u = Ok (0, t)" "same_blocks u t"
        "tx_locked t = tx_locked u" "tx_logged t = tx_logged u"
      using less.hyps by blast
    then show ?thesis
      using u True fs_size_same(1) [OF u(2)]
      by (intro exI [of _ t]) (simp add: balloc_loop.simps [of _ b] same_blocks_def)
  qed (auto simp: balloc_loop.simps same_blocks_def)
qed

lemma same_chain:
  assumes "same_blocks s s'" "tx_locked s' = tx_locked s" "tx_logged s' = tx_logged s"
  shows "allocated c s' t = allocated c s t"
proof -
  have "BBLOCK c s' = BBLOCK c s" "blk b s' = blk b s" for b using same_blocksD [OF assms(1)] by simp_all
  then show ?thesis using assms by (simp add: allocated_def mark_used_def same_blocks_def set_blk_def)
qed

lemma balloc_spec:
  assumes "alloc_inv s" "alloc_ready s" "log_room s 2"
  shows "c < fs_size s \<Longrightarrow> \<not> block_used c s \<Longrightarrow> (\<And>k. k < c \<Longrightarrow> block_used k s) \<Longrightarrow>
      \<exists>t. balloc s = Ok (of_nat c, t) \<and> allocated c s t"
    and "(\<And>k. k < fs_size s \<Longrightarrow> block_used k s) \<Longrightarrow>
      \<exists>t. balloc s = Ok (0, t) \<and> same_blocks s t \<and> tx_locked t = tx_locked s \<and> tx_logged t = tx_logged s"
proof -
  show "\<exists>t. balloc s = Ok (of_nat c, t) \<and> allocated c s t"
    if "c < fs_size s" "\<not> block_used c s" "\<And>k. k < c \<Longrightarrow> block_used k s"
    using balloc_loop_first [of 0 c s] that assms same_chain [of s _ c] by (auto simp: balloc_def fs_size_def [symmetric])
  show "\<exists>t. balloc s = Ok (0, t) \<and> same_blocks s t \<and> tx_locked t = tx_locked s \<and> tx_logged t = tx_logged s"
    if "\<And>k. k < fs_size s \<Longrightarrow> block_used k s"
    using balloc_loop_full [of 0 s] that assms by (simp add: balloc_def fs_size_def [symmetric])
qed

lemma bfree_spec:
  assumes inv: "alloc_inv s" and b: "b < fs_size s" "block_used b s"
    and l: "BBLOCK b s \<notin> set (tx_locked s)" "BBLOCK b s \<in> set (tx_logged s) \<or> log_room s 1"
  shows "\<exists>t. bfree (of_nat b) s = Ok t \<and> same_blocks (mark_free b s) t \<and> tx_locked t = tx_locked s \<and>
    set (tx_logged t) = insert (BBLOCK b s) (set (tx_logged s))"
proof -
  let ?d = "bit_clear (b mod BPB) (blk (BBLOCK b s) s)"
  obtain u v t where st: "tx_bread (BBLOCK b s) s = Ok u" "same_blocks s u"
      "tx_log_write (BBLOCK b s) (set_blk (BBLOCK b s) ?d u) = Ok v" "tx_brelse (BBLOCK b s) v = Ok t"
      "same_blocks (set_blk (BBLOCK b s) ?d s) t" "tx_locked t = tx_locked s"
      "tx_logged t = (if BBLOCK b s \<in> set (tx_logged s) then tx_logged s else tx_logged s @ [BBLOCK b s])"
    using modify_steps [OF l] by metis
  have "bfree (of_nat b) s = Ok t"
    using st(1,3,4) b(2) same_blocksD(1) [OF st(2)]
    by (simp add: bfree_def unat_of_block [OF b(1)] block_used_def)
  then show ?thesis using st by (auto simp: mark_free_def)
qed

lemma bfree_free_panics:
  assumes "b < fs_size s" "\<not> block_used b s" "BBLOCK b s \<notin> set (tx_locked s)"
  shows "bfree (of_nat b) s = Panic ''freeing free block''"
proof -
  obtain u where u: "tx_bread (BBLOCK b s) s = Ok u" "same_blocks s u" using tx_bread_ok [OF assms(3)] by blast
  then show ?thesis
    using assms(2) same_blocksD(1) [OF u(2)] by (simp add: bfree_def unat_of_block [OF assms(1)] block_used_def)
qed

section \<open>The properties\<close>

text \<open>C25: In a transaction with room for two more blocks, \<open>balloc\<close> returns the smallest block the bitmap
  does not mark, having marked it, zeroed it and tx_logged both blocks; every other block's mark and
  contents, the inode table and the locks are as before, and the bitmap stays consistent. It returns 0,
  with every block untouched, exactly when no block is free.\<close>

theorem balloc_takes_the_first_free_block:
  assumes "alloc_inv s" "alloc_ready s" "log_room s 2"
  shows "(\<exists>c t. balloc s = Ok (of_nat c, t) \<and> 0 < c \<and> c < fs_size s \<and> \<not> block_used c s \<and> (\<forall>k<c. block_used k s) \<and>
      alloc_inv t \<and> fs_size t = fs_size s \<and> (\<forall>b < fs_size s. block_used b t \<longleftrightarrow> b = c \<or> block_used b s) \<and>
      blk (of_nat c) t = replicate BSIZE 0 \<and>
      (\<forall>b < fs_size s. b \<noteq> c \<and> \<not> is_bitmap b s \<longrightarrow> blk (of_nat b) t = blk (of_nat b) s) \<and>
      itable t = itable s \<and> sb t = sb s \<and> tx_locked t = tx_locked s \<and>
      set (tx_logged t) = insert (BBLOCK c s) (insert (of_nat c) (set (tx_logged s)))) \<or>
    ((\<forall>k < fs_size s. block_used k s) \<and>
      (\<exists>t. balloc s = Ok (0, t) \<and> same_blocks s t \<and> tx_locked t = tx_locked s \<and> tx_logged t = tx_logged s))"
proof (cases "\<forall>k < fs_size s. block_used k s")
  case True
  then show ?thesis using balloc_spec(2) [OF assms] by simp
next
  case False
  define c where "c = (LEAST k. k < fs_size s \<and> \<not> block_used k s)"
  have c: "c < fs_size s" "\<not> block_used c s"
    unfolding c_def using False LeastI_ex [of "\<lambda>k. k < fs_size s \<and> \<not> block_used k s"] by auto
  have first: "\<And>k. k < c \<Longrightarrow> block_used k s" using not_less_Least c(1) unfolding c_def by fastforce
  obtain t where t: "balloc s = Ok (of_nat c, t)" "allocated c s t" using balloc_spec(1) [OF assms c first] by blast
  have "0 < c" using assms(1) c(2) by (cases c) (auto simp: alloc_inv_def)
  then show ?thesis
    using t c first allocatedD [OF assms(1) c t(2)] t(2) [unfolded allocated_def]
    by (intro disjI1 exI [of _ c] exI [of _ t]) auto
qed

text \<open>A disk of five blocks: block 2 is the bitmap, blocks 0 to 2 are in use.\<close>

definition demo_fs :: fs where
  "demo_fs = \<lparr>disk = \<lparr>d_blk = (\<lambda>b. if b = 2 then 7 # replicate 1023 0 else replicate BSIZE 0),
      d_locked = [], d_logged = [], d_cap = 10\<rparr>, itable = [],
    sb = \<lparr>sb_magic = 0x10203040, sb_size = 5, sb_nblocks = 2, sb_ninodes = 0, sb_nlog = 0, sb_logstart = 0,
      sb_inodestart = 0, sb_bmapstart = 2\<rparr>\<rparr>"

lemma demo_used: "b < 5 \<Longrightarrow> block_used b demo_fs \<longleftrightarrow> b < 3"
  by (subgoal_tac "b = 0 \<or> b = 1 \<or> b = 2 \<or> b = 3 \<or> b = 4")
    (auto simp: block_used_def bit_used_def demo_fs_def blk_def BBLOCK_def)

lemma demo_alloc: "alloc_inv demo_fs" "alloc_ready demo_fs" "log_room demo_fs 2" "fs_size demo_fs = 5"
proof -
  show s: "fs_size demo_fs = 5" by (simp add: fs_size_def demo_fs_def)
  have "BBLOCK k demo_fs = 2" if "k < 5" for k using that by (simp add: BBLOCK_def demo_fs_def)
  then have "is_bitmap b demo_fs \<Longrightarrow> b < 5 \<Longrightarrow> b = 2" for b
    using of_nat_block_eq [of b demo_fs 2] s by (fastforce simp: is_bitmap_def)
  then show "alloc_inv demo_fs"
    using demo_used s by (fastforce simp: alloc_inv_def blk_def demo_fs_def)
  show "alloc_ready demo_fs" "log_room demo_fs 2"
    by (simp_all add: alloc_ready_def log_room_def tx_locked_def tx_logged_def demo_fs_def)
qed

lemma balloc_takes_the_first_free_block_witness:
  "\<exists>t. balloc demo_fs = Ok (3, t) \<and> blk 3 t = replicate BSIZE 0 \<and> block_used 3 t"
  using balloc_takes_the_first_free_block [OF demo_alloc(1-3)] unfolding demo_alloc(4)
proof (elim disjE exE conjE)
  fix c t assume a: "balloc demo_fs = Ok (of_nat c, t)" "c < 5" "\<not> block_used c demo_fs" "\<forall>k<c. block_used k demo_fs"
    "\<forall>b<5. block_used b t = (b = c \<or> block_used b demo_fs)" "blk (of_nat c) t = replicate BSIZE 0"
  have "c = 3" using a(2-4) demo_used by (metis demo_used leI le_neq_implies_less less_irrefl numeral_less_iff semiring_norm(76,81) order_less_trans)
  then show ?thesis using a by auto
qed (use demo_used [of 3] in auto)

text \<open>C26: \<open>bfree\<close> of a data block that the bitmap marks clears that mark and nothing else, logs the bitmap
  block, keeps the bitmap consistent and makes the block free for the next \<open>balloc\<close>; of a free block it
  panics.\<close>

theorem bfree_frees_one_block_or_panics:
  assumes "alloc_inv s" "b < fs_size s" "0 < b" "\<not> is_bitmap b s"
    and "BBLOCK b s \<notin> set (tx_locked s)" "log_room s 1"
  shows "if block_used b s then
      \<exists>t. bfree (of_nat b) s = Ok t \<and> alloc_inv t \<and> (\<forall>k < fs_size s. block_used k t \<longleftrightarrow> k \<noteq> b \<and> block_used k s) \<and>
        (\<forall>k < fs_size s. \<not> is_bitmap k s \<longrightarrow> blk (of_nat k) t = blk (of_nat k) s) \<and>
        itable t = itable s \<and> tx_locked t = tx_locked s \<and> set (tx_logged t) = insert (BBLOCK b s) (set (tx_logged s))
    else bfree (of_nat b) s = Panic ''freeing free block''"
proof (cases "block_used b s")
  case True
  obtain t where t: "bfree (of_nat b) s = Ok t" "same_blocks (mark_free b s) t" "tx_locked t = tx_locked s"
      "set (tx_logged t) = insert (BBLOCK b s) (set (tx_logged s))"
    using bfree_spec [of s b] True assms by auto
  have "alloc_inv t" using same_alloc_inv [OF t(2)] alloc_inv_mark_free [of s b] assms by simp
  moreover have "block_used k t \<longleftrightarrow> k \<noteq> b \<and> block_used k s" if "k < fs_size s" for k
    using same_block_used [OF t(2)] block_used_mark(2) [OF assms(1) that assms(2)] by simp
  moreover have "blk (of_nat k) t = blk (of_nat k) s" if "k < fs_size s" "\<not> is_bitmap k s" for k
    using same_blocksD(1) [OF t(2)] blk_mark(2) BBLOCK_not [OF assms(1,2) that(2,1)] by metis
  moreover have "itable t = itable s" using same_blocksD(5) [OF t(2)] by simp
  ultimately show ?thesis using True t by auto
qed (use bfree_free_panics assms in auto)

lemma bfree_frees_one_block_or_panics_witness:
  "(\<exists>t. bfree 3 (mark_used 3 demo_fs) = Ok t \<and> \<not> block_used 3 t)"
proof -
  have "BBLOCK k demo_fs = 2" if "k < 5" for k using that by (simp add: BBLOCK_def demo_fs_def)
  then have nb: "\<not> is_bitmap 3 demo_fs" by (auto simp: is_bitmap_def demo_alloc(4))
  have "block_used 3 (mark_used 3 demo_fs)"
    using block_used_mark(1) [of demo_fs 3 3] demo_alloc by simp
  moreover have "alloc_inv (mark_used 3 demo_fs)" using alloc_inv_mark_used demo_alloc(1,4) by simp
  moreover have "BBLOCK 3 (mark_used 3 demo_fs) \<notin> set (tx_locked (mark_used 3 demo_fs))" "log_room (mark_used 3 demo_fs) 1"
    by (simp_all add: mark_used_def log_room_def tx_locked_def tx_logged_def demo_fs_def set_blk_def)
  ultimately show ?thesis
    using bfree_frees_one_block_or_panics [of "mark_used 3 demo_fs" 3] nb demo_alloc(4) by auto
qed

end
