(* ===== verification/File.thy ===== *)
theory File imports Fs Pipe Proc begin

text \<open>
  Open files, kernel/file.c, with \<open>pipealloc\<close> of kernel/pipe.c and the copies between user or
  kernel memory and kernel objects of kernel/proc.c.

  This is where the layers meet: the state of a system call is the memory with its page allocator
  (Kalloc, VM), the file system inside a transaction (Fs), the number of operations \<open>begin_op\<close> has
  admitted (Log), the table of open files, the pipes by the address of their page (Pipe), and the
  calling process (Proc). A call that has to wait is \<open>Blocked\<close>: what the others do meanwhile is the
  subject of the theories Pipe, Log and Proc. The wake-ups of \<open>pipeclose\<close> and the like are theirs, too.

  \<open>devsw\<close> is a parameter: what \<open>devsw[major].read\<close> and \<open>.write\<close> do, for the majors that have one.
\<close>

section \<open>State\<close>

datatype ftype = FD_NONE | FD_PIPE | FD_INODE | FD_DEVICE

record openfile =
  f_type :: ftype
  f_ref :: int
  f_readable :: bool
  f_writable :: bool
  f_pipe :: u64
  f_ip :: nat
  f_off :: u32
  f_major :: u16

record sysst =
  km :: kmem
  fsv :: fs
  outstanding :: nat
  ftab :: "openfile list"
  pipes :: "u64 \<Rightarrow> pipe"
  self :: proc

type_synonym devcall = "u64 \<Rightarrow> int \<Rightarrow> sysst \<Rightarrow> (int \<times> sysst) kres"
type_synonym devtab = "nat \<Rightarrow> devcall option \<times> devcall option"

abbreviation (input) NFILE :: nat where "NFILE \<equiv> 100"
abbreviation (input) NDEV :: int where "NDEV \<equiv> 10"
abbreviation (input) MAXOPBLOCKS :: nat where "MAXOPBLOCKS \<equiv> 10"
abbreviation (input) LOGSIZE :: nat where "LOGSIZE \<equiv> 30"

definition ofile :: "nat \<Rightarrow> sysst \<Rightarrow> openfile" where
  "ofile i s = ftab s ! i"

definition upd_file :: "nat \<Rightarrow> (openfile \<Rightarrow> openfile) \<Rightarrow> sysst \<Rightarrow> sysst" where
  "upd_file i g s = s\<lparr>ftab := (ftab s)[i := g (ftab s ! i)]\<rparr>"

definition ind :: "nat \<Rightarrow> sysst \<Rightarrow> inode" where
  "ind i s = node i (fsv s)"

text \<open>File-system routines in the larger state.\<close>

definition fs_do :: "(fs \<Rightarrow> fs kres) \<Rightarrow> sysst \<Rightarrow> sysst kres" where
  "fs_do f s = kbind (f (fsv s)) (\<lambda>x. Ok (s\<lparr>fsv := x\<rparr>))"

definition fs_get :: "(fs \<Rightarrow> ('a \<times> fs) kres) \<Rightarrow> sysst \<Rightarrow> ('a \<times> sysst) kres" where
  "fs_get f s = kbind (f (fsv s)) (\<lambda>(r, x). Ok (r, s\<lparr>fsv := x\<rparr>))"

text \<open>\<open>begin_op\<close> and \<open>end_op\<close> (theory Log) on the transaction disk: the last operation commits.\<close>

definition tx_begin_op :: "sysst \<Rightarrow> sysst kres" where
  "tx_begin_op s =
     (if length (d_logged (disk (fsv s))) + (outstanding s + 1) * MAXOPBLOCKS > LOGSIZE then Blocked
      else Ok (s\<lparr>outstanding := outstanding s + 1\<rparr>))"

definition tx_end_op :: "sysst \<Rightarrow> sysst kres" where
  "tx_end_op s =
     (let s = s\<lparr>outstanding := outstanding s - 1\<rparr> in
      Ok (if outstanding s = 0
          then s\<lparr>fsv := (fsv s)\<lparr>disk := (disk (fsv s))\<lparr>d_logged := []\<rparr>\<rparr>\<rparr> else s))"

section \<open>Copies\<close>

definition either_copyout :: "bool \<Rightarrow> u64 \<Rightarrow> u8 list \<Rightarrow> sysst \<Rightarrow> int \<times> sysst" where
  "either_copyout user_dst dst src s =
     (if user_dst then let (r, m) = copyout (p_pagetable (self s)) dst src (km s) in (r, s\<lparr>km := m\<rparr>)
      else (0, s\<lparr>km := (km s)\<lparr>pmem := mem_store (pmem (km s)) dst src\<rparr>\<rparr>))"

definition either_copyin :: "bool \<Rightarrow> u64 \<Rightarrow> nat \<Rightarrow> sysst \<Rightarrow> u8 list \<times> int" where
  "either_copyin user_src src len s =
     (if user_src then copyin (p_pagetable (self s)) src len (km s)
      else (mem_load (pmem (km s)) src len, 0))"

text \<open>The destination of \<open>readi\<close> and the source of \<open>writei\<close>.\<close>

definition copy_to :: "bool \<Rightarrow> u64 \<Rightarrow> sysst copier" where
  "copy_to user_dst dst k bs s = (let (r, s) = either_copyout user_dst (dst + of_nat k) bs s in (r \<noteq> - 1, s))"

definition copy_from :: "bool \<Rightarrow> u64 \<Rightarrow> sysst \<Rightarrow> fetcher" where
  "copy_from user_src src s k n = (let (bs, r) = either_copyin user_src (src + of_nat k) n s in (bs, r \<noteq> - 1))"

definition k_readi :: "nat \<Rightarrow> bool \<Rightarrow> u64 \<Rightarrow> u32 \<Rightarrow> u32 \<Rightarrow> sysst \<Rightarrow> (int \<times> sysst) kres" where
  "k_readi ip user_dst dst off n s =
     kbind (readi (copy_to user_dst dst) ip off n s (fsv s)) (\<lambda>(r, s, x). Ok (r, s\<lparr>fsv := x\<rparr>))"

definition k_writei :: "nat \<Rightarrow> bool \<Rightarrow> u64 \<Rightarrow> u32 \<Rightarrow> u32 \<Rightarrow> sysst \<Rightarrow> (int \<times> sysst) kres" where
  "k_writei ip user_src src off n s = fs_get (writei (copy_from user_src src s) ip off n) s"

section \<open>The table of open files\<close>

text \<open>\<open>fileinit\<close> only initialises the lock; the table is zero at boot.\<close>

definition no_file :: openfile where
  "no_file = \<lparr>f_type = FD_NONE, f_ref = 0, f_readable = False, f_writable = False, f_pipe = 0, f_ip = 0,
     f_off = 0, f_major = 0\<rparr>"

definition filealloc :: "sysst \<Rightarrow> nat option \<times> sysst" where
  "filealloc s =
     (case find (\<lambda>i. f_ref (ofile i s) = 0) [0..<NFILE] of
        Some i \<Rightarrow> (Some i, upd_file i (\<lambda>f. f\<lparr>f_ref := 1\<rparr>) s)
      | None \<Rightarrow> (None, s))"

definition filedup :: "nat \<Rightarrow> sysst \<Rightarrow> sysst kres" where
  "filedup i s =
     (if f_ref (ofile i s) < 1 then Panic ''filedup''
      else Ok (upd_file i (\<lambda>f. f\<lparr>f_ref := f_ref f + 1\<rparr>) s))"

text \<open>\<open>pipeclose\<close> of theory Pipe, with its \<open>kfree\<close>. \<open>kend\<close> is the end of the kernel image.\<close>

definition close_pipe :: "u64 \<Rightarrow> u64 \<Rightarrow> bool \<Rightarrow> sysst \<Rightarrow> sysst kres" where
  "close_pipe kend a writable s =
     kbind (pipeclose (pipes s a) writable) (\<lambda>(freed, pi, wk).
     let s = s\<lparr>pipes := (pipes s)(a := pi)\<rparr> in
     if freed then kbind (kfree kend a (km s)) (\<lambda>m. Ok (s\<lparr>km := m\<rparr>)) else Ok s)"

definition fileclose :: "u64 \<Rightarrow> nat \<Rightarrow> sysst \<Rightarrow> sysst kres" where
  "fileclose kend i s =
     (if f_ref (ofile i s) < 1 then Panic ''fileclose''
      else
        let s = upd_file i (\<lambda>f. f\<lparr>f_ref := f_ref f - 1\<rparr>) s in
        if f_ref (ofile i s) > 0 then Ok s
        else
          let ff = ofile i s; s = upd_file i (\<lambda>f. f\<lparr>f_ref := 0, f_type := FD_NONE\<rparr>) s in
          if f_type ff = FD_PIPE then close_pipe kend (f_pipe ff) (f_writable ff) s
          else if f_type ff = FD_INODE \<or> f_type ff = FD_DEVICE then
            kbind (tx_begin_op s) (\<lambda>s. kbind (fs_do (iput (f_ip ff)) s) tx_end_op)
          else Ok s)"

text \<open>The bytes of a \<open>struct stat\<close>: four bytes of padding, \<open>pad\<close>, precede \<open>size\<close>.\<close>

definition bytes64 :: "u64 \<Rightarrow> u8 list" where
  "bytes64 w = bytes32 (ucast w) @ bytes32 (ucast (drop_bit 32 w))"

definition stat_bytes :: "u8 list \<Rightarrow> stat \<Rightarrow> u8 list" where
  "stat_bytes pad st =
     bytes32 (st_dev st) @ bytes32 (st_ino st) @ bytes16 (st_type st) @ bytes16 (st_nlink st) @ pad @ bytes64 (st_size st)"

definition filestat :: "u8 list \<Rightarrow> nat \<Rightarrow> u64 \<Rightarrow> sysst \<Rightarrow> (int \<times> sysst) kres" where
  "filestat pad i addr s =
     (let f = ofile i s in
      if f_type f = FD_INODE \<or> f_type f = FD_DEVICE then
        kbind (fs_do (ilock (Some (f_ip f))) s) (\<lambda>s.
        let st = stati (f_ip f) (fsv s) in
        kbind (fs_do (iunlock (Some (f_ip f))) s) (\<lambda>s.
        let (r, m) = copyout (p_pagetable (self s)) addr (stat_bytes pad st) (km s); s = s\<lparr>km := m\<rparr> in
        Ok (if r < 0 then - 1 else 0, s)))
      else Ok (- 1, s))"

text \<open>\<open>piperead\<close> and \<open>pipewrite\<close> of theory Pipe on the pipe at address \<open>a\<close>; one that has to sleep is \<open>Blocked\<close>.\<close>

definition read_pipe :: "u64 \<Rightarrow> devcall" where
  "read_pipe a addr n s =
     kbind (piperead (p_killed (self s) \<noteq> 0)
         (\<lambda>va ch m. let (r, m) = copyout (p_pagetable (self s)) va [ch] m in if r = - 1 then None else Some m)
         addr n (pipes s a) (km s)) (\<lambda>((t, m), pi, wk).
     case t of Return r \<Rightarrow> Ok (r, s\<lparr>km := m, pipes := (pipes s)(a := pi)\<rparr>) | Sleep ch i \<Rightarrow> Blocked)"

definition write_pipe :: "u64 \<Rightarrow> devcall" where
  "write_pipe a addr n s =
     kbind (pipewrite (\<lambda>_. p_killed (self s) \<noteq> 0)
         (\<lambda>va. let (bs, r) = copyin (p_pagetable (self s)) va 1 (km s) in if r = - 1 then None else Some (hd bs))
         addr n (pipes s a)) (\<lambda>(t, pi, wk).
     case t of Return r \<Rightarrow> Ok (r, s\<lparr>pipes := (pipes s)(a := pi)\<rparr>) | Sleep ch i \<Rightarrow> Blocked)"

text \<open>\<open>major < 0 || major >= NDEV || !devsw[major].read\<close>\<close>

definition dev_fun :: "(nat \<Rightarrow> devcall option) \<Rightarrow> u16 \<Rightarrow> devcall option" where
  "dev_fun tab major = (if sint major < 0 \<or> sint major \<ge> NDEV then None else tab (unat major))"

definition fileread :: "devtab \<Rightarrow> nat \<Rightarrow> u64 \<Rightarrow> int \<Rightarrow> sysst \<Rightarrow> (int \<times> sysst) kres" where
  "fileread devsw i addr n s =
     (let f = ofile i s in
      if \<not> f_readable f then Ok (- 1, s)
      else case f_type f of
        FD_PIPE \<Rightarrow> read_pipe (f_pipe f) addr n s
      | FD_DEVICE \<Rightarrow>
          (case dev_fun (fst \<circ> devsw) (f_major f) of None \<Rightarrow> Ok (- 1, s) | Some rd \<Rightarrow> rd addr n s)
      | FD_INODE \<Rightarrow>
          kbind (fs_do (ilock (Some (f_ip f))) s) (\<lambda>s.
          kbind (k_readi (f_ip f) True addr (f_off f) (word_of_int n) s) (\<lambda>(r, s).
          let s = (if r > 0 then upd_file i (\<lambda>f. f\<lparr>f_off := f_off f + word_of_int r\<rparr>) s else s) in
          kbind (fs_do (iunlock (Some (f_ip f))) s) (\<lambda>s. Ok (r, s))))
      | FD_NONE \<Rightarrow> Panic ''fileread'')"

text \<open>One turn of the loop of \<open>filewrite\<close>, then the loop: at most 3 blocks per transaction.\<close>

abbreviation (input) FW_MAX :: int where "FW_MAX \<equiv> 3072"   \<comment> \<open>\<open>((MAXOPBLOCKS-1-1-2) / 2) * BSIZE\<close>\<close>

definition filewrite_turn :: "nat \<Rightarrow> u64 \<Rightarrow> int \<Rightarrow> sysst \<Rightarrow> (int \<times> sysst) kres" where
  "filewrite_turn i addr n1 s =
     kbind (tx_begin_op s) (\<lambda>s.
     kbind (fs_do (ilock (Some (f_ip (ofile i s)))) s) (\<lambda>s.
     kbind (k_writei (f_ip (ofile i s)) True addr (f_off (ofile i s)) (word_of_int n1) s) (\<lambda>(r, s).
     let s = (if r > 0 then upd_file i (\<lambda>f. f\<lparr>f_off := f_off f + word_of_int r\<rparr>) s else s) in
     kbind (fs_do (iunlock (Some (f_ip (ofile i s)))) s) (\<lambda>s.
     kbind (tx_end_op s) (\<lambda>s. Ok (r, s))))))"

function filewrite_loop :: "nat \<Rightarrow> u64 \<Rightarrow> int \<Rightarrow> int \<Rightarrow> sysst \<Rightarrow> (int \<times> sysst) kres" where
  "filewrite_loop fd addr n i s =
     (if i < n then
        let n1 = min (n - i) FW_MAX in
        kbind (filewrite_turn fd (addr + word_of_int i) n1 s) (\<lambda>(r, s).
        if r \<noteq> n1 then Ok (i, s) else filewrite_loop fd addr n (i + n1) s)
      else Ok (i, s))"
  by pat_completeness auto
termination
  by (relation "measure (\<lambda>(fd, addr, n, i, s). nat (n - i))") auto

declare filewrite_loop.simps [simp del]

definition filewrite :: "devtab \<Rightarrow> nat \<Rightarrow> u64 \<Rightarrow> int \<Rightarrow> sysst \<Rightarrow> (int \<times> sysst) kres" where
  "filewrite devsw i addr n s =
     (let f = ofile i s in
      if \<not> f_writable f then Ok (- 1, s)
      else case f_type f of
        FD_PIPE \<Rightarrow> write_pipe (f_pipe f) addr n s
      | FD_DEVICE \<Rightarrow>
          (case dev_fun (snd \<circ> devsw) (f_major f) of None \<Rightarrow> Ok (- 1, s) | Some wr \<Rightarrow> wr addr n s)
      | FD_INODE \<Rightarrow>
          kbind (filewrite_loop i addr n 0 s) (\<lambda>(k, s). Ok (if k = n then n else - 1, s))
      | FD_NONE \<Rightarrow> Panic ''filewrite'')"

definition close_opt :: "u64 \<Rightarrow> nat option \<Rightarrow> sysst \<Rightarrow> sysst kres" where
  "close_opt kend f s = (case f of None \<Rightarrow> Ok s | Some i \<Rightarrow> fileclose kend i s)"

definition pipealloc :: "u64 \<Rightarrow> sysst \<Rightarrow> ((nat \<times> nat) option \<times> sysst) kres" where
  "pipealloc kend s =
     (let (f0, s) = filealloc s;
          (f1, s) = (if f0 = None then (None, s) else filealloc s);
          (pi, m) = (if f0 = None \<or> f1 = None then (0, km s) else kalloc (km s));
          s = s\<lparr>km := m\<rparr> in
      if pi = 0 then
        kbind (close_opt kend f0 s) (\<lambda>s. kbind (close_opt kend f1 s) (\<lambda>s. Ok (None, s)))
      else
        let s = s\<lparr>pipes := (pipes s)(pi := pipe_init (pipes s pi))\<rparr>;
            s = upd_file (the f0) (\<lambda>f. f\<lparr>f_type := FD_PIPE, f_readable := True, f_writable := False, f_pipe := pi\<rparr>) s;
            s = upd_file (the f1) (\<lambda>f. f\<lparr>f_type := FD_PIPE, f_readable := False, f_writable := True, f_pipe := pi\<rparr>) s in
        Ok (Some (the f0, the f1), s))"

end
