(* ===== verification/Sysfile.thy ===== *)
theory Sysfile imports File begin

text \<open>
  System-call arguments (kernel/syscall.c) and the system calls on files (kernel/sysfile.c). A handler
  is one definition; its early returns are the branches. \<open>- 1\<close> is the 64-bit all-ones value the C
  handlers return. \<open>sys_exec\<close> is in theory Exec.

  Character arrays of the handlers that a failing copy leaves undefined are not looked at afterwards,
  so the bytes they hold before are not modelled; the last path element (\<open>char name[DIRSIZ]\<close>) starts
  as zeros.
\<close>

section \<open>Arguments\<close>

abbreviation (input) MAXPATH :: nat where "MAXPATH \<equiv> 128"

definition fetchaddr :: "u64 \<Rightarrow> sysst \<Rightarrow> u64 option" where
  "fetchaddr addr s =
     (if addr \<ge> p_sz (self s) \<or> addr + 8 > p_sz (self s) then None
      else let (bs, r) = copyin (p_pagetable (self s)) addr 8 (km s) in
        if r \<noteq> 0 then None
        else Some (ucast (get32 bs 0) OR push_bit 32 (ucast (get32 bs 4))))"

definition fetchstr :: "u64 \<Rightarrow> nat \<Rightarrow> sysst \<Rightarrow> int \<times> u8 list" where
  "fetchstr addr maxlen s =
     (let (bs, r) = copyinstr (p_pagetable (self s)) addr maxlen (km s) in
      if r < 0 then (- 1, bs) else (int (strlen bs), bs))"

definition argraw :: "nat \<Rightarrow> sysst \<Rightarrow> u64 kres" where
  "argraw n s =
     (if n < 6 then Ok (p_tf (self s) ([A0, A1, A2, A3, A4, A5] ! n)) else Panic ''argraw'')"

definition argint :: "nat \<Rightarrow> sysst \<Rightarrow> int kres" where
  "argint n s = kbind (argraw n s) (\<lambda>w. Ok (sint (ucast w :: u32)))"

definition argaddr :: "nat \<Rightarrow> sysst \<Rightarrow> u64 kres" where
  "argaddr n s = argraw n s"

definition argstr :: "nat \<Rightarrow> nat \<Rightarrow> sysst \<Rightarrow> (int \<times> u8 list) kres" where
  "argstr n maxlen s = kbind (argaddr n s) (\<lambda>a. Ok (fetchstr a maxlen s))"

section \<open>Descriptors\<close>

definition argfd :: "nat \<Rightarrow> sysst \<Rightarrow> (nat \<times> nat) option kres" where
  "argfd n s =
     kbind (argint n s) (\<lambda>fd.
     if fd < 0 \<or> fd \<ge> int NOFILE then Ok None
     else case p_ofile (self s) ! nat fd of None \<Rightarrow> Ok None | Some f \<Rightarrow> Ok (Some (nat fd, f)))"

definition set_fd :: "nat \<Rightarrow> nat option \<Rightarrow> sysst \<Rightarrow> sysst" where
  "set_fd fd f s = s\<lparr>self := (self s)\<lparr>p_ofile := (p_ofile (self s))[fd := f]\<rparr>\<rparr>"

definition fdalloc :: "nat \<Rightarrow> sysst \<Rightarrow> nat option \<times> sysst" where
  "fdalloc f s =
     (case find (\<lambda>fd. p_ofile (self s) ! fd = None) [0..<NOFILE] of
        Some fd \<Rightarrow> (Some fd, set_fd fd (Some f) s)
      | None \<Rightarrow> (None, s))"

text \<open>The common start of the calls on a descriptor: \<open>-1\<close> when it is not open.\<close>

definition with_fd :: "nat \<Rightarrow> (nat \<Rightarrow> nat \<Rightarrow> sysst \<Rightarrow> (int \<times> sysst) kres) \<Rightarrow> sysst \<Rightarrow> (int \<times> sysst) kres" where
  "with_fd n k s = kbind (argfd n s) (\<lambda>r. case r of None \<Rightarrow> Ok (- 1, s) | Some (fd, f) \<Rightarrow> k fd f s)"

definition sys_dup :: "sysst \<Rightarrow> (int \<times> sysst) kres" where
  "sys_dup s =
     with_fd 0 (\<lambda>_ f s.
       let (r, s) = fdalloc f s in
       case r of None \<Rightarrow> Ok (- 1, s)
       | Some fd \<Rightarrow> kbind (filedup f s) (\<lambda>s. Ok (int fd, s))) s"

definition sys_read :: "devtab \<Rightarrow> sysst \<Rightarrow> (int \<times> sysst) kres" where
  "sys_read devsw s =
     kbind (argaddr 1 s) (\<lambda>p. kbind (argint 2 s) (\<lambda>n.
     with_fd 0 (\<lambda>_ f. fileread devsw f p n) s))"

definition sys_write :: "devtab \<Rightarrow> sysst \<Rightarrow> (int \<times> sysst) kres" where
  "sys_write devsw s =
     kbind (argaddr 1 s) (\<lambda>p. kbind (argint 2 s) (\<lambda>n.
     with_fd 0 (\<lambda>_ f. filewrite devsw f p n) s))"

definition sys_close :: "u64 \<Rightarrow> sysst \<Rightarrow> (int \<times> sysst) kres" where
  "sys_close kend s =
     with_fd 0 (\<lambda>fd f s. kbind (fileclose kend f (set_fd fd None s)) (\<lambda>s. Ok (0, s))) s"

definition sys_fstat :: "u8 list \<Rightarrow> sysst \<Rightarrow> (int \<times> sysst) kres" where
  "sys_fstat pad s = kbind (argaddr 1 s) (\<lambda>st. with_fd 0 (\<lambda>_ f. filestat pad f st) s)"

section \<open>Paths\<close>

definition cwd :: "sysst \<Rightarrow> nat" where
  "cwd s = the (p_cwd (self s))"   \<comment> \<open>every process has one\<close>

definition k_namei :: "u8 list \<Rightarrow> sysst \<Rightarrow> (nat option \<times> sysst) kres" where
  "k_namei path s = fs_get (namei (cwd s) path) s"

definition k_nameiparent :: "u8 list \<Rightarrow> sysst \<Rightarrow> (nat option \<times> u8 list \<times> sysst) kres" where
  "k_nameiparent path s =
     kbind (nameiparent (cwd s) path (replicate DIRSIZ 0) (fsv s)) (\<lambda>(dp, name, x). Ok (dp, name, s\<lparr>fsv := x\<rparr>))"

definition op_return :: "'a \<Rightarrow> sysst \<Rightarrow> ('a \<times> sysst) kres" where
  "op_return r s = kbind (tx_end_op s) (\<lambda>s. Ok (r, s))"

definition add_nlink :: "nat \<Rightarrow> u16 \<Rightarrow> sysst \<Rightarrow> sysst kres" where
  "add_nlink i d s = fs_do (\<lambda>x. iupdate i (upd_node i (\<lambda>ip. ip\<lparr>i_nlink := i_nlink ip + d\<rparr>) x)) s"

definition sys_link_body :: "u8 list \<Rightarrow> u8 list \<Rightarrow> sysst \<Rightarrow> (int \<times> sysst) kres" where
  "sys_link_body old new s =
     kbind (k_namei old s) (\<lambda>(r, s).
     case r of None \<Rightarrow> op_return (- 1) s
     | Some ip \<Rightarrow>
       kbind (fs_do (ilock (Some ip)) s) (\<lambda>s.
       if i_type (ind ip s) = T_DIR then kbind (fs_do (iunlockput ip) s) (op_return (- 1))
       else
         kbind (add_nlink ip 1 s) (\<lambda>s.
         kbind (fs_do (iunlock (Some ip)) s) (\<lambda>s.
         let bad = (\<lambda>s.
           kbind (fs_do (ilock (Some ip)) s) (\<lambda>s.
           kbind (add_nlink ip (- 1) s) (\<lambda>s.
           kbind (fs_do (iunlockput ip) s) (op_return (- 1))))) in
         kbind (k_nameiparent new s) (\<lambda>(r, name, s).
         case r of None \<Rightarrow> bad s
         | Some dp \<Rightarrow>
           kbind (fs_do (ilock (Some dp)) s) (\<lambda>s.
           kbind (if i_dev (ind dp s) \<noteq> i_dev (ind ip s) then Ok (- 1, s)
                  else fs_get (dirlink dp name (i_inum (ind ip s))) s) (\<lambda>(r, s).
           kbind (fs_do (iunlockput dp) s) (\<lambda>s.
           if r < 0 then bad s
           else kbind (fs_do (iput ip) s) (op_return 0)))))))))"

definition sys_link :: "sysst \<Rightarrow> (int \<times> sysst) kres" where
  "sys_link s =
     kbind (argstr 0 MAXPATH s) (\<lambda>(r, old).
     if r < 0 then Ok (- 1, s)
     else
       kbind (argstr 1 MAXPATH s) (\<lambda>(r, new).
       if r < 0 then Ok (- 1, s)
       else kbind (tx_begin_op s) (sys_link_body old new)))"

function isdirempty_loop :: "nat \<Rightarrow> nat \<Rightarrow> nat \<Rightarrow> fs \<Rightarrow> (bool \<times> fs) kres" where
  "isdirempty_loop dp sz off s =
     (if off < sz then
        kbind (read_dirent dp off s) (\<lambda>(r, de, s).
        if r \<noteq> int DIRENT then Panic ''isdirempty: readi''
        else if de_inum de \<noteq> 0 then Ok (False, s)
        else isdirempty_loop dp sz (off + DIRENT) s)
      else Ok (True, s))"
  by pat_completeness auto
termination
  by (relation "measure (\<lambda>(dp, sz, off, s). sz - off)") auto

declare isdirempty_loop.simps [simp del]

definition isdirempty :: "nat \<Rightarrow> fs \<Rightarrow> (bool \<times> fs) kres" where
  "isdirempty dp s = isdirempty_loop dp (unat (i_size (node dp s))) (2 * DIRENT) s"

definition sys_unlink_body :: "u8 list \<Rightarrow> sysst \<Rightarrow> (int \<times> sysst) kres" where
  "sys_unlink_body path s =
     kbind (k_nameiparent path s) (\<lambda>(r, name, s).
     case r of None \<Rightarrow> op_return (- 1) s
     | Some dp \<Rightarrow>
       kbind (fs_do (ilock (Some dp)) s) (\<lambda>s.
       let bad = (\<lambda>s. kbind (fs_do (iunlockput dp) s) (op_return (- 1))) in
       if namecmp name [46, 0] = 0 \<or> namecmp name [46, 46, 0] = 0 then bad s
       else
         kbind (fs_get (dirlookup dp name) s) (\<lambda>(r, s).
         case r of None \<Rightarrow> bad s
         | Some (ip, off) \<Rightarrow>
           kbind (fs_do (ilock (Some ip)) s) (\<lambda>s.
           if sint (i_nlink (ind ip s)) < 1 then Panic ''unlink: nlink < 1''
           else
             kbind (if i_type (ind ip s) = T_DIR then fs_get (isdirempty ip) s else Ok (True, s)) (\<lambda>(empty, s).
             if \<not> empty then kbind (fs_do (iunlockput ip) s) bad
             else
               kbind (fs_get (writei (ksrc (replicate DIRENT 0)) dp (of_nat off) (of_nat DIRENT)) s) (\<lambda>(w, s).
               if w \<noteq> int DIRENT then Panic ''unlink: writei''
               else
                 kbind (if i_type (ind ip s) = T_DIR then add_nlink dp (- 1) s else Ok s) (\<lambda>s.
                 kbind (fs_do (iunlockput dp) s) (\<lambda>s.
                 kbind (add_nlink ip (- 1) s) (\<lambda>s.
                 kbind (fs_do (iunlockput ip) s) (op_return 0)))))))))) "

definition sys_unlink :: "sysst \<Rightarrow> (int \<times> sysst) kres" where
  "sys_unlink s =
     kbind (argstr 0 MAXPATH s) (\<lambda>(r, path).
     if r < 0 then Ok (- 1, s) else kbind (tx_begin_op s) (sys_unlink_body path))"

text \<open>\<open>create\<close>: the inode comes back locked.\<close>

definition create_new :: "nat \<Rightarrow> u8 list \<Rightarrow> nat \<Rightarrow> u16 \<Rightarrow> u16 \<Rightarrow> u16 \<Rightarrow> sysst \<Rightarrow> (nat option \<times> sysst) kres" where
  "create_new dp name ip type major minor s =
     (let fail = (\<lambda>s.
        kbind (fs_do (\<lambda>x. iupdate ip (upd_node ip (\<lambda>n. n\<lparr>i_nlink := 0\<rparr>) x)) s) (\<lambda>s.
        kbind (fs_do (iunlockput ip) s) (\<lambda>s.
        kbind (fs_do (iunlockput dp) s) (\<lambda>s. Ok (None, s))))) in
      kbind (fs_do (ilock (Some ip)) s) (\<lambda>s.
      kbind (fs_do (\<lambda>x. iupdate ip (upd_node ip (\<lambda>n. n\<lparr>i_major := major, i_minor := minor, i_nlink := 1\<rparr>) x)) s) (\<lambda>s.
      kbind (if type = T_DIR then
               kbind (fs_get (dirlink ip [46, 0] (i_inum (ind ip s))) s) (\<lambda>(r, s).
               if r < 0 then Ok (r, s) else fs_get (dirlink ip [46, 46, 0] (i_inum (ind dp s))) s)
             else Ok (0, s)) (\<lambda>(r, s).
      if r < 0 then fail s
      else
        kbind (fs_get (dirlink dp name (i_inum (ind ip s))) s) (\<lambda>(r, s).
        if r < 0 then fail s
        else
          kbind (if type = T_DIR then add_nlink dp 1 s else Ok s) (\<lambda>s.
          kbind (fs_do (iunlockput dp) s) (\<lambda>s. Ok (Some ip, s))))))))"

definition create :: "u8 list \<Rightarrow> u16 \<Rightarrow> u16 \<Rightarrow> u16 \<Rightarrow> sysst \<Rightarrow> (nat option \<times> sysst) kres" where
  "create path type major minor s =
     kbind (k_nameiparent path s) (\<lambda>(r, name, s).
     case r of None \<Rightarrow> Ok (None, s)
     | Some dp \<Rightarrow>
       kbind (fs_do (ilock (Some dp)) s) (\<lambda>s.
       kbind (fs_get (dirlookup dp name) s) (\<lambda>(r, s).
       case r of
         Some (ip, off) \<Rightarrow>
           kbind (fs_do (iunlockput dp) s) (\<lambda>s.
           kbind (fs_do (ilock (Some ip)) s) (\<lambda>s.
           if type = T_FILE \<and> (i_type (ind ip s) = T_FILE \<or> i_type (ind ip s) = T_DEVICE) then Ok (Some ip, s)
           else kbind (fs_do (iunlockput ip) s) (\<lambda>s. Ok (None, s))))
       | None \<Rightarrow>
           kbind (fs_get (ialloc (i_dev (ind dp s)) type) s) (\<lambda>(r, s).
           case r of None \<Rightarrow> kbind (fs_do (iunlockput dp) s) (\<lambda>s. Ok (None, s))
           | Some ip \<Rightarrow> create_new dp name ip type major minor s))))"

section \<open>Opening files\<close>

abbreviation (input) O_WRONLY :: u32 where "O_WRONLY \<equiv> 0x001"
abbreviation (input) O_RDWR :: u32 where "O_RDWR \<equiv> 0x002"
abbreviation (input) O_APPEND :: u32 where "O_APPEND \<equiv> 0x008"
abbreviation (input) O_CREATE :: u32 where "O_CREATE \<equiv> 0x200"
abbreviation (input) O_TRUNC :: u32 where "O_TRUNC \<equiv> 0x400"

text \<open>The inode \<open>sys_open\<close> works on, locked.\<close>

definition open_inode :: "u8 list \<Rightarrow> u32 \<Rightarrow> sysst \<Rightarrow> (nat option \<times> sysst) kres" where
  "open_inode path omode s =
     (if omode AND O_CREATE \<noteq> 0 then create path T_FILE 0 0 s
      else
        kbind (k_namei path s) (\<lambda>(r, s).
        case r of None \<Rightarrow> Ok (None, s)
        | Some ip \<Rightarrow>
          kbind (fs_do (ilock (Some ip)) s) (\<lambda>s.
          if i_type (ind ip s) = T_DIR \<and> omode \<noteq> 0 then
            kbind (fs_do (iunlockput ip) s) (\<lambda>s. Ok (None, s))
          else Ok (Some ip, s))))"

text \<open>The fields of the new open file.\<close>

definition init_file :: "nat \<Rightarrow> u32 \<Rightarrow> inode \<Rightarrow> openfile \<Rightarrow> openfile" where
  "init_file ip omode n f =
     (let f = (if i_type n = T_DEVICE then f\<lparr>f_type := FD_DEVICE, f_major := i_major n\<rparr>
               else f\<lparr>f_type := FD_INODE, f_off := (if omode AND O_APPEND \<noteq> 0 then i_size n else 0)\<rparr>) in
      f\<lparr>f_ip := ip, f_readable := (omode AND O_WRONLY = 0),
        f_writable := (omode AND O_WRONLY \<noteq> 0 \<or> omode AND O_RDWR \<noteq> 0)\<rparr>)"

definition open_file :: "u64 \<Rightarrow> nat \<Rightarrow> u32 \<Rightarrow> sysst \<Rightarrow> (int \<times> sysst) kres" where
  "open_file kend ip omode s =
     (let give_up = (\<lambda>s. kbind (fs_do (iunlockput ip) s) (op_return (- 1))) in
      if i_type (ind ip s) = T_DEVICE \<and> (sint (i_major (ind ip s)) < 0 \<or> sint (i_major (ind ip s)) \<ge> NDEV) then give_up s
      else
        let (r, s) = filealloc s in
        case r of None \<Rightarrow> give_up s
        | Some f \<Rightarrow>
          let (r, s) = fdalloc f s in
          (case r of None \<Rightarrow> kbind (fileclose kend f s) give_up
           | Some fd \<Rightarrow>
             let s = upd_file f (init_file ip omode (ind ip s)) s in
             kbind (if omode AND O_TRUNC \<noteq> 0 \<and> i_type (ind ip s) = T_FILE then fs_do (itrunc ip) s else Ok s) (\<lambda>s.
             kbind (fs_do (iunlock (Some ip)) s) (op_return (int fd)))))"

definition sys_open :: "u64 \<Rightarrow> sysst \<Rightarrow> (int \<times> sysst) kres" where
  "sys_open kend s =
     kbind (argint 1 s) (\<lambda>omode.
     kbind (argstr 0 MAXPATH s) (\<lambda>(r, path).
     if r < 0 then Ok (- 1, s)
     else
       kbind (tx_begin_op s) (\<lambda>s.
       kbind (open_inode path (word_of_int omode) s) (\<lambda>(r, s).
       case r of None \<Rightarrow> op_return (- 1) s | Some ip \<Rightarrow> open_file kend ip (word_of_int omode) s))))"

text \<open>\<open>sys_mkdir\<close> and \<open>sys_mknod\<close> after their arguments.\<close>

definition make_node :: "(int \<times> u8 list) \<Rightarrow> u16 \<Rightarrow> u16 \<Rightarrow> u16 \<Rightarrow> sysst \<Rightarrow> (int \<times> sysst) kres" where
  "make_node arg type major minor s =
     (if fst arg < 0 then op_return (- 1) s
      else
        kbind (create (snd arg) type major minor s) (\<lambda>(r, s).
        case r of None \<Rightarrow> op_return (- 1) s
        | Some ip \<Rightarrow> kbind (fs_do (iunlockput ip) s) (op_return 0)))"

definition sys_mkdir :: "sysst \<Rightarrow> (int \<times> sysst) kres" where
  "sys_mkdir s =
     kbind (tx_begin_op s) (\<lambda>s. kbind (argstr 0 MAXPATH s) (\<lambda>arg. make_node arg T_DIR 0 0 s))"

definition sys_mknod :: "sysst \<Rightarrow> (int \<times> sysst) kres" where
  "sys_mknod s =
     kbind (tx_begin_op s) (\<lambda>s.
     kbind (argint 1 s) (\<lambda>major. kbind (argint 2 s) (\<lambda>minor.
     kbind (argstr 0 MAXPATH s) (\<lambda>arg. make_node arg T_DEVICE (word_of_int major) (word_of_int minor) s))))"

text \<open>
  \<open>sys_getcwd\<close>. A negative \<open>sz\<close> passes the test and is a huge unsigned size for \<open>getcwd\<close> and
  \<open>copyout\<close>. The first faults unless the directory is the root; the second stops at the first user
  page that is not mapped, and is a \<open>Fault\<close> when it gets to a byte after the page of \<open>buf\<close>, the
  4097th. With \<open>buf\<close> NULL it faults on its first byte. \<open>fuel\<close> is that of \<open>getcwd\<close>.
\<close>

definition sys_getcwd :: "u64 \<Rightarrow> nat \<Rightarrow> sysst \<Rightarrow> (int \<times> sysst) kres" where
  "sys_getcwd kend fuel s =
     kbind (tx_begin_op s) (\<lambda>s.
     kbind (argaddr 0 s) (\<lambda>ubuf.
     kbind (argint 1 s) (\<lambda>sz.
     if sz > 4096 then op_return (- 1) s
     else
       let (buf, m) = kalloc (km s); s = s\<lparr>km := m\<rparr> in
       kbind (getcwd fuel (cwd s) (if buf = 0 then None else Some (mem_load (pmem (km s)) buf 4096))
                (word_of_int sz) (fsv s)) (\<lambda>(r, cs, x).
       let s = s\<lparr>fsv := x\<rparr>;
           s = (case cs of None \<Rightarrow> s | Some cs \<Rightarrow> s\<lparr>km := (km s)\<lparr>pmem := mem_store (pmem (km s)) buf cs\<rparr>\<rparr>) in
       if buf = 0 \<and> sz \<noteq> 0 then
         if walkaddr (p_pagetable (self s)) (PGROUNDDOWN ubuf) (km s) = 0 then op_return (- 1) s else Fault
       else
         let n = (if sz < 0 then 4097 else nat sz);
             (r, m) = copyout (p_pagetable (self s)) ubuf (mem_load (pmem (km s)) buf n) (km s);
             s = s\<lparr>km := m\<rparr> in
         if r < 0 then op_return (- 1) s
         else if sz < 0 then Fault
         else kbind (kfree kend buf (km s)) (\<lambda>m. op_return 0 (s\<lparr>km := m\<rparr>))))))"

definition sys_chdir :: "sysst \<Rightarrow> (int \<times> sysst) kres" where
  "sys_chdir s =
     kbind (tx_begin_op s) (\<lambda>s.
     kbind (argstr 0 MAXPATH s) (\<lambda>(r, path).
     if r < 0 then op_return (- 1) s
     else
       kbind (k_namei path s) (\<lambda>(r, s).
       case r of None \<Rightarrow> op_return (- 1) s
       | Some ip \<Rightarrow>
         kbind (fs_do (ilock (Some ip)) s) (\<lambda>s.
         if i_type (ind ip s) \<noteq> T_DIR then kbind (fs_do (iunlockput ip) s) (op_return (- 1))
         else
           kbind (fs_do (iunlock (Some ip)) s) (\<lambda>s.
           kbind (fs_do (iput (cwd s)) s) (\<lambda>s.
           kbind (tx_end_op s) (\<lambda>s.
           Ok (0, s\<lparr>self := (self s)\<lparr>p_cwd := Some ip\<rparr>\<rparr>))))))))"

definition sys_pipe :: "u64 \<Rightarrow> sysst \<Rightarrow> (int \<times> sysst) kres" where
  "sys_pipe kend s =
     kbind (argaddr 0 s) (\<lambda>fdarray.
     kbind (pipealloc kend s) (\<lambda>(r, s).
     case r of None \<Rightarrow> Ok (- 1, s)
     | Some (rfile, wfile) \<Rightarrow>
       let drop_both = (\<lambda>s. kbind (fileclose kend rfile s) (\<lambda>s. kbind (fileclose kend wfile s) (\<lambda>s. Ok (- 1, s))));
           (fd0, s) = fdalloc rfile s in
       case fd0 of None \<Rightarrow> drop_both s
       | Some fd0 \<Rightarrow>
         let (fd1, s) = fdalloc wfile s in
         (case fd1 of None \<Rightarrow> drop_both (set_fd fd0 None s)
          | Some fd1 \<Rightarrow>
            let pt = p_pagetable (self s);
                (r, m) = copyout pt fdarray (bytes32 (of_nat fd0)) (km s);
                (r, m) = (if r < 0 then (r, m) else copyout pt (fdarray + 4) (bytes32 (of_nat fd1)) m);
                s = s\<lparr>km := m\<rparr> in
            if r < 0 then drop_both (set_fd fd1 None (set_fd fd0 None s)) else Ok (0, s))))"

end
