(* ===== verification/Descriptors.thy ===== *)
theory Descriptors imports Sysfile begin

text \<open>
  File descriptors and reference counts: whatever sequence of file system calls a process makes, the
  reference count of every open file is the number of its descriptors for the file plus the references
  others hold. \<open>fr\<close> is the rule system that shows what a handler leaves alone: most of what the
  handlers do happens in the file system and in memory.
\<close>

section \<open>What leaves the descriptors alone\<close>

definition frame :: "sysst \<Rightarrow> sysst \<Rightarrow> bool" where
  "frame s t \<longleftrightarrow> map f_ref (ftab t) = map f_ref (ftab s) \<and> p_ofile (self t) = p_ofile (self s)"

definition fr :: "sysst \<Rightarrow> ('a \<times> sysst) kres \<Rightarrow> bool" where
  "fr s0 m \<longleftrightarrow> (\<forall>r t. m = Ok (r, t) \<longrightarrow> frame s0 t)"

lemma frame_refl [simp]: "frame s s"
  by (simp add: frame_def)

lemma frame_trans: "frame s t \<Longrightarrow> frame t u \<Longrightarrow> frame s u"
  by (simp add: frame_def)

lemma frame_simps [simp]:
  "frame s (t\<lparr>fsv := x\<rparr>) = frame s t" "frame s (t\<lparr>km := m\<rparr>) = frame s t"
  "frame s (t\<lparr>pipes := q\<rparr>) = frame s t" "frame s (t\<lparr>outstanding := n\<rparr>) = frame s t"
  "frame s (t\<lparr>self := (self t)\<lparr>p_cwd := c\<rparr>\<rparr>) = frame s t"
  by (simp_all add: frame_def)

lemma frame_upd_file: "(\<And>f. f_ref (g f) = f_ref f) \<Longrightarrow> frame s (upd_file i g t) = frame s t"
  by (auto simp: frame_def upd_file_def map_update) (metis list_update_id map_update nth_map list_update_beyond not_le
      length_map)+

lemma fr_Ok: "frame s t \<Longrightarrow> fr s (Ok (r, t))"
  by (simp add: fr_def)

lemma fr_stuck: "fr s (Panic m)" "fr s Blocked" "fr s Fault"
  by (simp_all add: fr_def)

lemma fr_kbind: "(\<And>x. m = Ok x \<Longrightarrow> fr s (k x)) \<Longrightarrow> fr s (kbind m k)"
  by (cases m) (simp_all add: fr_def)

lemma fr_then: "fr s m \<Longrightarrow> (\<And>r t. frame s t \<Longrightarrow> fr s (k (r, t))) \<Longrightarrow> fr s (kbind m k)"
  by (cases m) (auto simp: fr_def)

lemma fr_fs_do: "frame s t \<Longrightarrow> (\<And>u. frame s u \<Longrightarrow> fr s (k u)) \<Longrightarrow> fr s (kbind (fs_do f t) k)"
  by (auto simp: fs_do_def kbind_assoc intro!: fr_kbind)

lemma fr_fs_get: "frame s t \<Longrightarrow> (\<And>r u. frame s u \<Longrightarrow> fr s (k (r, u))) \<Longrightarrow> fr s (kbind (fs_get f t) k)"
  by (auto simp: fs_get_def kbind_assoc split_beta intro!: fr_kbind)

lemma fr_begin: "frame s t \<Longrightarrow> (\<And>u. frame s u \<Longrightarrow> fr s (k u)) \<Longrightarrow> fr s (kbind (tx_begin_op t) k)"
  by (simp add: tx_begin_op_def fr_stuck)

lemma fr_end: "frame s t \<Longrightarrow> (\<And>u. frame s u \<Longrightarrow> fr s (k u)) \<Longrightarrow> fr s (kbind (tx_end_op t) k)"
  by (simp add: tx_end_op_def Let_def)

lemma fr_return: "frame s t \<Longrightarrow> fr s (op_return r t)"
  by (auto simp: op_return_def tx_end_op_def fr_def Let_def)

lemma fr_nlink: "frame s t \<Longrightarrow> (\<And>u. frame s u \<Longrightarrow> fr s (k u)) \<Longrightarrow> fr s (kbind (add_nlink i d t) k)"
  unfolding add_nlink_def by (rule fr_fs_do)

lemma fr_namei: "frame s t \<Longrightarrow> (\<And>r u. frame s u \<Longrightarrow> fr s (k (r, u))) \<Longrightarrow> fr s (kbind (k_namei p t) k)"
  unfolding k_namei_def by (rule fr_fs_get)

lemma fr_nameiparent:
  "frame s t \<Longrightarrow> (\<And>r n u. frame s u \<Longrightarrow> fr s (k (r, n, u))) \<Longrightarrow> fr s (kbind (k_nameiparent p t) k)"
  by (auto simp: k_nameiparent_def kbind_assoc split_beta intro!: fr_kbind)

lemma fr_args:
  "(\<And>x. fr s (k x)) \<Longrightarrow> fr s (kbind (argint n t) k)"
  "(\<And>x. fr s (k' x)) \<Longrightarrow> fr s (kbind (argaddr n t) k')"
  "(\<And>r bs. fr s (k'' (r, bs))) \<Longrightarrow> fr s (kbind (argstr n l t) k'')"
  by (auto intro: fr_kbind)

lemma kbind_if: "kbind (if c then m else m') k = (if c then kbind m k else kbind m' k)"
  by simp

lemma fr_split: "fr s m \<Longrightarrow> fr s m' \<Longrightarrow> fr s (if c then m else m')"
  by simp

lemmas fr_rules = fr_Ok fr_stuck fr_fs_do fr_fs_get fr_begin fr_end fr_return fr_nlink fr_namei fr_nameiparent fr_args

lemma fr_create_new: "frame s t \<Longrightarrow> fr s (create_new dp name ip type major minor t)"
  unfolding create_new_def Let_def
  by (auto intro!: fr_rules simp: kbind_if kbind_assoc split: prod.split)

lemma fr_create: "frame s t \<Longrightarrow> fr s (create path type major minor t)"
  unfolding create_def by (auto intro!: fr_rules fr_create_new split: option.split)

lemma fr_sys_link: "fr s (sys_link s)"
  unfolding sys_link_def sys_link_body_def Let_def
  by (auto intro!: fr_rules simp: kbind_if kbind_assoc split: option.split)

lemma fr_sys_unlink: "fr s (sys_unlink s)"
  unfolding sys_unlink_def sys_unlink_body_def Let_def
  by (auto intro!: fr_rules simp: kbind_if kbind_assoc split: option.split prod.split)

lemma fr_make_node: "frame s t \<Longrightarrow> fr s (make_node arg type major minor t)"
  unfolding make_node_def by (auto intro!: fr_rules intro: fr_then [OF fr_create] split: option.split)

lemma fr_sys_mkdir: "fr s (sys_mkdir s)" "fr s (sys_mknod s)"
  unfolding sys_mkdir_def sys_mknod_def by (auto intro!: fr_rules fr_make_node)

lemma fr_sys_chdir: "fr s (sys_chdir s)"
  unfolding sys_chdir_def by (auto intro!: fr_rules split: option.split)

section \<open>Reading and writing\<close>

definition okp :: "('a \<Rightarrow> bool) \<Rightarrow> 'a kres \<Rightarrow> bool" where
  "okp Q m \<longleftrightarrow> (\<forall>x. m = Ok x \<longrightarrow> Q x)"

lemma okp_simps [simp]: "okp Q (Ok x) = Q x" "okp Q Blocked" "okp Q (Panic e)" "okp Q Fault"
  by (simp_all add: okp_def)

lemma okp_kbind: "(\<And>x. m = Ok x \<Longrightarrow> okp Q (k x)) \<Longrightarrow> okp Q (kbind m k)"
  by (cases m) simp_all

lemma readi_loop_keeps:
  assumes cp: "\<And>k bs m. P m \<Longrightarrow> P (snd (cp k bs m))"
  shows "P m \<Longrightarrow> okp (\<lambda>(r, m', t). P m') (readi_loop cp i off n tot m s)"
proof (induction "n - tot" arbitrary: tot m s rule: less_induct)
  case less
  have IH: "okp (\<lambda>(r, m', t). P m') (readi_loop cp i off n (tot + min (n - tot) (BSIZE - (off + tot) mod BSIZE)) m' s')"
    if "P m'" "tot < n" for m' s'
    using that less.hyps by simp
  have cp': "P (snd (cp k bs m))" for k bs using cp less.prems by blast
  show ?case
    by (subst readi_loop.simps) (auto simp: Let_def split_beta less.prems intro!: okp_kbind IH cp')
qed

lemma fr_readi:
  assumes "frame s t" and k: "\<And>r u. frame s u \<Longrightarrow> fr s (k (r, u))"
  shows "fr s (kbind (k_readi ip user dst off n t) k)"
proof -
  have "frame s (snd (copy_to user dst j bs u))" if "frame s u" for j bs u
    using that by (auto simp: copy_to_def either_copyout_def split_beta)
  then have "okp (\<lambda>(r, u, x). frame s u) (readi (copy_to user dst) ip off n t (fsv t))"
    using assms(1) readi_loop_keeps [where P = "frame s"] by (simp add: readi_def Let_def)
  then show ?thesis unfolding k_readi_def
    by (auto simp: kbind_assoc okp_def intro!: fr_kbind k)
qed

lemma fr_writei:
  "frame s t \<Longrightarrow> (\<And>r u. frame s u \<Longrightarrow> fr s (k (r, u))) \<Longrightarrow> fr s (kbind (k_writei ip user src off n t) k)"
  unfolding k_writei_def by (rule fr_fs_get)

definition keeps_devs :: "devtab \<Rightarrow> bool" where
  "keeps_devs devsw \<longleftrightarrow> (\<forall>k d addr n s. fst (devsw k) = Some d \<or> snd (devsw k) = Some d \<longrightarrow> fr s (d addr n s))"

lemma fr_pipes: "fr s (read_pipe a addr n s)" "fr s (write_pipe a addr n s)"
  unfolding read_pipe_def write_pipe_def
  by (auto simp: split_beta intro!: fr_kbind fr_Ok fr_stuck split: pturn.split)

lemma fr_fileread:
  assumes "keeps_devs devsw"
  shows "fr s (fileread devsw f addr n s)"
proof (cases "f_type (ofile f s)")
  case FD_DEVICE
  then show ?thesis
    using assms by (auto simp: fileread_def Let_def keeps_devs_def dev_fun_def intro!: fr_Ok split: option.split)
next
  case FD_INODE
  have "frame s (upd_file f (\<lambda>f. f\<lparr>f_off := f_off f + word_of_int r\<rparr>) u) = frame s u" for r u
    by (rule frame_upd_file) simp
  then show ?thesis using FD_INODE unfolding fileread_def Let_def
    by (auto intro!: fr_rules fr_readi)
qed (auto simp: fileread_def Let_def fr_pipes intro!: fr_Ok fr_stuck)

lemma fr_filewrite_turn:
  assumes "frame s t" and "\<And>r u. frame s u \<Longrightarrow> fr s (k (r, u))"
  shows "fr s (kbind (filewrite_turn f addr n1 t) k)"
proof -
  have "frame s (upd_file f (\<lambda>f. f\<lparr>f_off := f_off f + word_of_int r\<rparr>) u) = frame s u" for r u
    by (rule frame_upd_file) simp
  then show ?thesis
    unfolding filewrite_turn_def Let_def using assms by (auto simp: kbind_assoc intro!: fr_rules fr_writei)
qed

lemma fr_filewrite_loop: "frame s t \<Longrightarrow> fr s (filewrite_loop fd addr n i t)"
proof (induction "nat (n - i)" arbitrary: i t rule: less_induct)
  case less
  then show ?case
    by (subst filewrite_loop.simps) (auto simp: Let_def intro!: fr_Ok fr_filewrite_turn)
qed

lemma fr_filewrite:
  assumes "keeps_devs devsw"
  shows "fr s (filewrite devsw f addr n s)"
proof (cases "f_type (ofile f s)")
  case FD_DEVICE
  then show ?thesis
    using assms by (auto simp: filewrite_def Let_def keeps_devs_def dev_fun_def intro!: fr_Ok split: option.split)
next
  case FD_INODE
  then show ?thesis unfolding filewrite_def Let_def
    by (auto intro!: fr_Ok fr_then [OF fr_filewrite_loop])
qed (auto simp: filewrite_def Let_def fr_pipes intro!: fr_Ok fr_stuck)

lemma fr_filestat: "fr s (filestat pad f addr s)"
  unfolding filestat_def Let_def by (auto simp: split_beta intro!: fr_rules)

lemma fr_with_fd: "(\<And>fd f. fr s (k fd f s)) \<Longrightarrow> fr s (with_fd n k s)"
  unfolding with_fd_def by (auto intro!: fr_kbind fr_Ok split: option.split)

lemma fr_sys_read: "keeps_devs devsw \<Longrightarrow> fr s (sys_read devsw s)" "keeps_devs devsw \<Longrightarrow> fr s (sys_write devsw s)"
    "fr s (sys_fstat pad s)"
  unfolding sys_read_def sys_write_def sys_fstat_def
  by (auto intro!: fr_args fr_with_fd fr_fileread fr_filewrite fr_filestat)

lemma fr_sys_getcwd: "fr s (sys_getcwd kend fuel s)"
  unfolding sys_getcwd_def Let_def
  by (rule fr_begin, simp) (auto simp: split_beta intro!: fr_rules fr_kbind split: option.split)

section \<open>Counting references\<close>

text \<open>\<open>oth i\<close>: the references to open file \<open>i\<close> that are not descriptors of this process.\<close>

definition refs_ok :: "(nat \<Rightarrow> int) \<Rightarrow> sysst \<Rightarrow> bool" where
  "refs_ok oth s \<longleftrightarrow> length (ftab s) = NFILE \<and> length (p_ofile (self s)) = NOFILE \<and>
     (\<forall>i. Some i \<in> set (p_ofile (self s)) \<longrightarrow> i < NFILE) \<and>
     (\<forall>i < NFILE. f_ref (ofile i s) = int (count_list (p_ofile (self s)) (Some i)) + oth i)"

definition plus_ref :: "nat \<Rightarrow> (nat \<Rightarrow> int) \<Rightarrow> nat \<Rightarrow> int" where
  "plus_ref i oth = oth(i := oth i + 1)"

definition minus_ref :: "nat \<Rightarrow> (nat \<Rightarrow> int) \<Rightarrow> nat \<Rightarrow> int" where
  "minus_ref i oth = oth(i := oth i - 1)"

lemma plus_minus_ref [simp]:
  "plus_ref i (minus_ref i oth) = oth" "minus_ref i (plus_ref i oth) = oth"
  "minus_ref i (plus_ref j (plus_ref i oth)) = plus_ref j oth"
  by (auto simp: plus_ref_def minus_ref_def)

lemma plus_ref_commute: "plus_ref i (plus_ref j oth) = plus_ref j (plus_ref i oth)"
  by (auto simp: plus_ref_def)

lemma frame_refs:
  assumes "frame s t"
  shows "refs_ok oth t = refs_ok oth s"
proof -
  have l: "length (ftab t) = length (ftab s)" using assms by (metis frame_def length_map)
  have "f_ref (ofile i t) = f_ref (ofile i s)" if "i < length (ftab s)" for i
  proof -
    have "map f_ref (ftab t) ! i = map f_ref (ftab s) ! i" using assms by (simp add: frame_def)
    then show ?thesis using that l by (simp add: ofile_def)
  qed
  then show ?thesis using assms l by (auto simp: refs_ok_def frame_def)
qed

lemma refs_ok_frame: "refs_ok oth s \<Longrightarrow> frame s t \<Longrightarrow> refs_ok oth t"
  by (simp add: frame_refs)

lemma count_list_update:
  "k < length xs \<Longrightarrow> int (count_list (xs[k := y]) a) = int (count_list xs a) - of_bool (xs ! k = a) + of_bool (y = a)"
proof (induction xs arbitrary: k)
  case (Cons x xs)
  then show ?case by (cases k) auto
qed simp

lemma refs_ok_set_fd:
  assumes "refs_ok oth s" "fd < NOFILE" "\<And>i. f = Some i \<Longrightarrow> i < NFILE"
    and "\<And>i. oth' i = oth i + of_bool (p_ofile (self s) ! fd = Some i) - of_bool (f = Some i)"
  shows "refs_ok oth' (set_fd fd f s)"
proof -
  have "Some i \<in> set ((p_ofile (self s))[fd := f]) \<Longrightarrow> i < NFILE" for i
    using assms(1,3) set_update_subset_insert [of "p_ofile (self s)" fd f] by (auto simp: refs_ok_def)
  then show ?thesis
    using assms(1,2,4) by (simp add: refs_ok_def set_fd_def ofile_def count_list_update)
qed

lemma refs_ok_upd_file:
  assumes "refs_ok oth s" "i < NFILE" "oth' = oth(i := oth i + (f_ref (g (ofile i s)) - f_ref (ofile i s)))"
  shows "refs_ok oth' (upd_file i g s)"
  using assms by (auto simp: refs_ok_def upd_file_def ofile_def nth_list_update)

lemma fd_is_file: "refs_ok oth s \<Longrightarrow> fd < NOFILE \<Longrightarrow> p_ofile (self s) ! fd = Some i \<Longrightarrow> i < NFILE"
  by (metis refs_ok_def nth_mem)

lemma fd_release:
  "refs_ok oth s \<Longrightarrow> fd < NOFILE \<Longrightarrow> p_ofile (self s) ! fd = Some i \<Longrightarrow> refs_ok (plus_ref i oth) (set_fd fd None s)"
  by (erule refs_ok_set_fd) (auto simp: plus_ref_def)

lemma filealloc_refs:
  assumes "refs_ok oth s" "filealloc s = (Some i, t)"
  shows "refs_ok (plus_ref i oth) t" "i < NFILE" "f_type (ofile i t) = f_type (ofile i s)" "p_ofile (self t) = p_ofile (self s)"
  using assms by (auto simp: filealloc_def find_upt_Some plus_ref_def upd_file_def ofile_def refs_ok_def nth_list_update
      split: option.splits)

lemma filealloc_None: "filealloc s = (None, t) \<Longrightarrow> t = s"
  by (auto simp: filealloc_def split: option.splits)

lemma fdalloc_refs:
  assumes "refs_ok (plus_ref i oth) s" "fdalloc i s = (Some fd, t)" "i < NFILE"
  shows "refs_ok oth t" "fd < NOFILE" "t = set_fd fd (Some i) s" "p_ofile (self s) ! fd = None"
proof -
  show f: "fd < NOFILE" "t = set_fd fd (Some i) s" "p_ofile (self s) ! fd = None"
    using assms(2) by (auto simp: fdalloc_def find_upt_Some split: option.splits)
  show "refs_ok oth t"
    unfolding f(2) using assms(1) f(1) by (rule refs_ok_set_fd) (use assms(3) f(3) in \<open>auto simp: plus_ref_def\<close>)
qed

lemma fdalloc_None: "fdalloc i s = (None, t) \<Longrightarrow> t = s"
  by (auto simp: fdalloc_def split: option.splits)

lemma filedup_refs:
  "refs_ok oth s \<Longrightarrow> i < NFILE \<Longrightarrow> filedup i s = Ok t \<Longrightarrow> refs_ok (plus_ref i oth) t"
  by (auto simp: filedup_def plus_ref_def intro!: refs_ok_upd_file split: if_splits)

lemma fr_close_pipe: "close_pipe kend a w s = Ok t \<Longrightarrow> frame s t"
  by (auto simp: close_pipe_def Let_def split: if_splits elim!: kbind_OkE)

lemma fr_iput_op:
  "kbind (tx_begin_op s) (\<lambda>s. kbind (fs_do f s) tx_end_op) = Ok t \<Longrightarrow> frame s t"
  by (auto simp: tx_begin_op_def fs_do_def tx_end_op_def Let_def split: if_splits elim!: kbind_OkE)

lemma fileclose_refs:
  assumes "refs_ok oth s" "i < NFILE" "fileclose kend i s = Ok t"
  shows "refs_ok (minus_ref i oth) t"
proof -
  let ?u = "upd_file i (\<lambda>f. f\<lparr>f_ref := f_ref f - 1\<rparr>) s"
  let ?v = "upd_file i (\<lambda>f. f\<lparr>f_ref := 0, f_type := FD_NONE\<rparr>) ?u"
  have l: "length (ftab s) = NFILE" using assms(1) by (simp add: refs_ok_def)
  have u: "refs_ok (minus_ref i oth) ?u" "f_ref (ofile i ?u) = f_ref (ofile i s) - 1"
    using assms(1,2) l by (auto simp: minus_ref_def upd_file_def ofile_def intro!: refs_ok_upd_file [unfolded upd_file_def])
  have ref: "\<not> f_ref (ofile i s) < 1" using assms(3) by (auto simp: fileclose_def)
  show ?thesis
  proof (cases "f_ref (ofile i ?u) > 0")
    case True
    then show ?thesis using assms(3) ref u by (simp add: fileclose_def Let_def)
  next
    case False
    then have "refs_ok (minus_ref i oth) ?v"
      using ref u assms(2) by (intro refs_ok_upd_file [OF u(1)]) auto
    moreover have "frame ?v t"
      using assms(3) ref False fr_close_pipe [of kend _ _ ?v t] fr_iput_op [of ?v _ t]
      unfolding fileclose_def Let_def by (simp only: if_False split: if_splits) auto
    ultimately show ?thesis by (rule refs_ok_frame)
  qed
qed

section \<open>The calls that open and close\<close>

lemma fr_refs: "fr s m \<Longrightarrow> m = Ok (r, t) \<Longrightarrow> refs_ok oth s \<Longrightarrow> refs_ok oth t"
  by (auto simp: fr_def intro: refs_ok_frame)

lemma with_fd_Ok:
  assumes "with_fd n k s = Ok (r, t)"
  obtains "t = s" | fd f where "fd < NOFILE" "p_ofile (self s) ! fd = Some f" "k fd f s = Ok (r, t)"
proof -
  obtain a where a: "argfd n s = Ok a" using assms by (auto simp: with_fd_def elim: kbind_OkE)
  show ?thesis
  proof (cases a)
    case None
    then show ?thesis using assms a that(1) by (simp add: with_fd_def)
  next
    case (Some fdf)
    obtain fd f where fdf: "fdf = (fd, f)" by fastforce
    have "fd < NOFILE \<and> p_ofile (self s) ! fd = Some f"
      using a unfolding Some fdf argfd_def by (auto elim!: kbind_OkE split: if_splits option.splits)
    then show ?thesis using assms a Some fdf that(2) [of fd f] by (simp add: with_fd_def)
  qed
qed

lemma sys_dup_refs:
  assumes "refs_ok oth s" "sys_dup s = Ok (r, t)"
  shows "refs_ok oth t"
  using assms(2) unfolding sys_dup_def
proof (cases rule: with_fd_Ok)
  case (2 fd f)
  obtain a u where a: "fdalloc f s = (a, u)" by fastforce
  show ?thesis
  proof (cases a)
    case None
    then show ?thesis using 2 a fdalloc_None assms(1) by auto
  next
    case (Some fd')
    have f: "f < NFILE" using fd_is_file [OF assms(1)] 2 by blast
    have "refs_ok (minus_ref f oth) u"
      using fdalloc_refs(1) [of f "minus_ref f oth" s fd' u] assms(1) a Some f by simp
    moreover have "filedup f u = Ok t" using 2 a Some by (auto elim!: kbind_OkE)
    ultimately show ?thesis using filedup_refs [of "minus_ref f oth" u f t] f by simp
  qed
qed (use assms in simp)

lemma sys_close_refs:
  assumes "refs_ok oth s" "sys_close kend s = Ok (r, t)"
  shows "refs_ok oth t"
  using assms(2) unfolding sys_close_def
proof (cases rule: with_fd_Ok)
  case (2 fd f)
  have "refs_ok (plus_ref f oth) (set_fd fd None s)" by (rule fd_release [OF assms(1) 2(1,2)])
  moreover have "fileclose kend f (set_fd fd None s) = Ok t" using 2 by (auto elim!: kbind_OkE)
  ultimately show ?thesis
    using fileclose_refs [of "plus_ref f oth" _ f] fd_is_file [OF assms(1) 2(1,2)] by simp
qed (use assms in simp)

lemma fr_give_up: "frame s t \<Longrightarrow> fr s (kbind (fs_do (iunlockput ip) t) (op_return r))"
  by (intro fr_fs_do fr_return)

lemma open_file_new:
  assumes "filealloc s = (Some f, u)" "fdalloc f u = (Some fd, v)"
    "\<not> (i_type (ind ip s) = T_DEVICE \<and> (sint (i_major (ind ip s)) < 0 \<or> sint (i_major (ind ip s)) \<ge> NDEV))"
  shows "open_file kend ip omode s =
     (let w = upd_file f (init_file ip omode (ind ip v)) v in
      kbind (if omode AND O_TRUNC \<noteq> 0 \<and> i_type (ind ip w) = T_FILE then fs_do (itrunc ip) w else Ok w) (\<lambda>s.
      kbind (fs_do (iunlock (Some ip)) s) (op_return (int fd))))"
  unfolding open_file_def Let_def if_not_P [OF assms(3)] assms(1,2) prod.case option.case
  by (rule refl)

lemma open_file_refs:
  assumes "refs_ok oth s" "open_file kend ip omode s = Ok (r, t)"
  shows "refs_ok oth t"
proof (cases "i_type (ind ip s) = T_DEVICE \<and> (sint (i_major (ind ip s)) < 0 \<or> sint (i_major (ind ip s)) \<ge> NDEV)")
  case True
  then show ?thesis using assms fr_refs [OF fr_give_up [OF frame_refl]] by (simp add: open_file_def Let_def)
next
  case ok: False
  obtain a u where a: "filealloc s = (a, u)" by fastforce
  show ?thesis
  proof (cases a)
    case None
    then have "u = s" using filealloc_None a by simp
    then show ?thesis
      using assms a None ok fr_refs [OF fr_give_up [OF frame_refl]] by (auto simp: open_file_def Let_def)
  next
    case (Some f)
    note fa = filealloc_refs [OF assms(1) a [unfolded Some]]
    obtain b v where b: "fdalloc f u = (b, v)" by fastforce
    show ?thesis
    proof (cases b)
      case None
      have "v = u" using fdalloc_None b None by simp
      then have "kbind (fileclose kend f u) (\<lambda>s. kbind (fs_do (iunlockput ip) s) (op_return (- 1))) = Ok (r, t)"
        using assms(2) a Some ok b None by (auto simp: open_file_def Let_def)
      then obtain w where "fileclose kend f u = Ok w" and w: "kbind (fs_do (iunlockput ip) w) (op_return (- 1)) = Ok (r, t)"
        by (rule kbind_OkE)
      then have "refs_ok oth w" using fileclose_refs [OF fa(1,2)] by simp
      then show ?thesis using fr_refs [OF fr_give_up [OF frame_refl] w] by simp
    next
      case (Some fd)
      let ?w = "upd_file f (init_file ip omode (ind ip v)) v"
      have "frame v ?w" using frame_upd_file [of "init_file ip omode (ind ip v)" v f v]
        by (simp add: init_file_def Let_def)
      moreover have "refs_ok oth v" using fdalloc_refs(1) [OF fa(1) b [unfolded Some] fa(2)] by simp
      ultimately have "refs_ok oth ?w" by (metis refs_ok_frame)
      moreover have tail: "fr ?w (kbind (fs_do (iunlock (Some ip)) y) (op_return (int fd)))" if "frame ?w y" for y
        by (rule fr_fs_do [OF that], erule fr_return)
      have "fr ?w (open_file kend ip omode s)"
        unfolding open_file_new [OF a [unfolded \<open>a = Some f\<close>] b [unfolded Some] ok] Let_def kbind_if kbind.simps
        by (rule fr_split, rule fr_fs_do, rule frame_refl, erule tail, rule tail, rule frame_refl)
      ultimately show ?thesis using fr_refs [OF _ assms(2)] by blast
    qed
  qed
qed

lemma sys_open_refs:
  assumes "refs_ok oth s" "sys_open kend s = Ok (r, t)"
  shows "refs_ok oth t"
proof -
  have oi: "fr s (open_inode path omode u)" if "frame s u" for path omode u
    using that unfolding open_inode_def by (auto intro!: fr_rules fr_create split: option.split)
  show ?thesis
  proof (cases "t = s")
    case False
    then obtain u path omode q v where u: "tx_begin_op s = Ok u" and q: "open_inode path omode u = Ok (q, v)"
      and t: "(case q of None \<Rightarrow> op_return (- 1) v | Some ip \<Rightarrow> open_file kend ip omode v) = Ok (r, t)"
      using assms(2) unfolding sys_open_def by (auto elim!: kbind_OkE split: if_splits)
    have "frame s u" using u by (auto simp: tx_begin_op_def split: if_splits)
    then have "refs_ok oth v" using fr_refs [OF oi q assms(1)] by blast
    then show ?thesis using t open_file_refs fr_refs [OF fr_return [OF frame_refl]] by (auto split: option.splits)
  qed (use assms in simp)
qed

lemma pipealloc_refs:
  assumes "refs_ok oth s" "pipealloc kend s = Ok (a, t)"
  shows "a = None \<Longrightarrow> refs_ok oth t"
    and "a = Some (f, g) \<Longrightarrow> refs_ok (plus_ref g (plus_ref f oth)) t \<and> f < NFILE \<and> g < NFILE"
proof -
  obtain f0 s1 where f0: "filealloc s = (f0, s1)" by fastforce
  obtain f1 s2 where f1: "(if f0 = None then (None, s1) else filealloc s1) = (f1, s2)" by fastforce
  obtain pi m where pi: "(if f0 = None \<or> f1 = None then (0, km s2) else kalloc (km s2)) = (pi, m)" by fastforce
  let ?oth = "case f1 of None \<Rightarrow> (case f0 of None \<Rightarrow> oth | Some f \<Rightarrow> plus_ref f oth) | Some g \<Rightarrow> plus_ref g (plus_ref (the f0) oth)"
  have r2: "refs_ok ?oth (s2\<lparr>km := m\<rparr>)" and b: "\<And>f. f0 = Some f \<Longrightarrow> f < NFILE" "\<And>g. f1 = Some g \<Longrightarrow> g < NFILE \<and> f0 \<noteq> None"
  proof -
    have "refs_ok (case f0 of None \<Rightarrow> oth | Some f \<Rightarrow> plus_ref f oth) s1" "\<And>f. f0 = Some f \<Longrightarrow> f < NFILE"
      using filealloc_refs(1,2) [OF assms(1)] f0 filealloc_None assms(1) by (auto split: option.splits)
    moreover from this have "refs_ok ?oth s2 \<and> (\<forall>g. f1 = Some g \<longrightarrow> g < NFILE \<and> f0 \<noteq> None)"
    proof (cases f1)
      case None
      then have "s2 = s1" using f1 filealloc_None by (auto split: if_splits)
      then show ?thesis using None \<open>refs_ok (case f0 of None \<Rightarrow> oth | Some f \<Rightarrow> plus_ref f oth) s1\<close> by simp
    next
      case (Some g)
      then have ne: "f0 \<noteq> None" and g: "filealloc s1 = (Some g, s2)" using f1 by (auto split: if_splits)
      have "refs_ok (plus_ref (the f0) oth) s1"
        using \<open>refs_ok (case f0 of None \<Rightarrow> oth | Some f \<Rightarrow> plus_ref f oth) s1\<close> ne by auto
      from filealloc_refs(1,2) [OF this g] show ?thesis using Some ne by simp
    qed
    ultimately show "refs_ok ?oth (s2\<lparr>km := m\<rparr>)" "\<And>f. f0 = Some f \<Longrightarrow> f < NFILE"
      "\<And>g. f1 = Some g \<Longrightarrow> g < NFILE \<and> f0 \<noteq> None"
      by (auto elim: refs_ok_frame)
  qed
  have close: "refs_ok o' v" if "refs_ok (case x of None \<Rightarrow> o' | Some i \<Rightarrow> plus_ref i o') u" "close_opt kend x u = Ok v"
      "\<And>i. x = Some i \<Longrightarrow> i < NFILE" for o' x u v
    using that fileclose_refs [of "plus_ref (the x) o'" u "the x" kend v] by (auto simp: close_opt_def split: option.splits)
  show "a = None \<Longrightarrow> refs_ok oth t"
  proof -
    assume "a = None"
    then obtain v where v: "close_opt kend f0 (s2\<lparr>km := m\<rparr>) = Ok v" "close_opt kend f1 v = Ok t"
      using assms(2) f0 f1 pi by (auto simp: pipealloc_def Let_def split: if_splits elim!: kbind_OkE)
    let ?o1 = "case f1 of None \<Rightarrow> oth | Some g \<Rightarrow> plus_ref g oth"
    have "refs_ok (case f0 of None \<Rightarrow> ?o1 | Some i \<Rightarrow> plus_ref i ?o1) (s2\<lparr>km := m\<rparr>)"
      using r2 b by (auto simp: plus_ref_commute split: option.splits)
    from close [OF this v(1) b(1)] show "refs_ok oth t" using close [OF _ v(2)] b(2) by blast
  qed
  show "refs_ok (plus_ref g (plus_ref f oth)) t \<and> f < NFILE \<and> g < NFILE" if "a = Some (f, g)"
  proof -
    have "pi \<noteq> 0" using assms(2) that f0 f1 pi
      by (auto simp: pipealloc_def Let_def split: if_splits elim!: kbind_OkE)
    then have ne: "f0 \<noteq> None" "f1 \<noteq> None" using pi by (auto split: if_splits)
    let ?u = "s2\<lparr>km := m, pipes := (pipes s2)(pi := pipe_init (pipes s2 pi))\<rparr>"
    let ?v = "upd_file f (\<lambda>x. x\<lparr>f_type := FD_PIPE, f_readable := True, f_writable := False, f_pipe := pi\<rparr>) ?u"
    have t: "t = upd_file g (\<lambda>x. x\<lparr>f_type := FD_PIPE, f_readable := False, f_writable := True, f_pipe := pi\<rparr>) ?v"
        "f0 = Some f" "f1 = Some g"
      using assms(2) that f0 f1 pi ne \<open>pi \<noteq> 0\<close> by (auto simp: pipealloc_def Let_def)
    have "frame s2 ?v" unfolding frame_upd_file by (subst frame_upd_file) simp_all
    then have "frame s2 t" unfolding t(1) by (subst frame_upd_file) simp_all
    moreover have "refs_ok (plus_ref g (plus_ref f oth)) s2"
      using r2 t(2,3) by (simp add: refs_ok_def ofile_def)
    ultimately show ?thesis using b t(2,3) refs_ok_frame by auto
  qed
qed

lemma sys_pipe_refs:
  assumes "refs_ok oth s" "sys_pipe kend s = Ok (r, t)"
  shows "refs_ok oth t"
proof -
  obtain fdarray a u where arg: "argaddr 0 s = Ok fdarray" and a: "pipealloc kend s = Ok (a, u)"
    using assms(2) unfolding sys_pipe_def by (auto elim!: kbind_OkE)
  show ?thesis
  proof (cases a)
    case None
    then show ?thesis using assms a arg pipealloc_refs(1) by (auto simp: sys_pipe_def)
  next
    case (Some fg)
    obtain f g where fg: "fg = (f, g)" by fastforce
    have u: "refs_ok (plus_ref g (plus_ref f oth)) u" "f < NFILE" "g < NFILE"
      using pipealloc_refs(2) [OF assms(1) a [unfolded Some fg] refl] by auto
    have drop: "refs_ok oth y" if x: "refs_ok (plus_ref g (plus_ref f oth)) x"
        and y: "kbind (fileclose kend f x) (\<lambda>s. kbind (fileclose kend g s) (\<lambda>s. Ok (- 1, s))) = Ok (q, y)" for x y q
    proof -
      obtain z where z: "fileclose kend f x = Ok z" "fileclose kend g z = Ok y"
        using y by (auto elim!: kbind_OkE)
      have "refs_ok (plus_ref g oth) z" using fileclose_refs [OF x u(2) z(1)] by simp
      from fileclose_refs [OF this u(3) z(2)] show ?thesis by simp
    qed
    obtain b v where b: "fdalloc f u = (b, v)" by fastforce
    show ?thesis
    proof (cases b)
      case None
      then have "v = u" using b fdalloc_None by simp
      then show ?thesis
        using assms(2) arg a Some fg b None drop [OF u(1)] by (simp add: sys_pipe_def Let_def)
    next
      case (Some fd0)
      note v = fdalloc_refs [OF u(1) [unfolded plus_ref_commute [of g]] b [unfolded Some] u(2)]
      obtain c w where c: "fdalloc g v = (c, w)" by fastforce
      have len: "length (p_ofile (self u)) = NOFILE" using u(1) by (simp add: refs_ok_def)
      have fd0: "p_ofile (self v) ! fd0 = Some f" using v(2,3) len by (simp add: set_fd_def)
      show ?thesis
      proof (cases c)
        case None
        have "refs_ok (plus_ref g (plus_ref f oth)) (set_fd fd0 None v)"
          using fd_release [OF v(1,2) fd0] by (simp add: plus_ref_commute)
        moreover have "w = v" using c None fdalloc_None by simp
        ultimately show ?thesis
          using assms(2) arg a \<open>a = Some fg\<close> fg b Some c None drop by (simp add: sys_pipe_def Let_def)
      next
        case fd1: (Some fd1)
        note w = fdalloc_refs [OF v(1) c [unfolded fd1] u(3)]
        let ?pt = "p_pagetable (self w)"
        obtain r1 m1 where 1: "copyout ?pt fdarray (bytes32 (of_nat fd0)) (km w) = (r1, m1)" by fastforce
        obtain r2 m2 where 2: "(if r1 < 0 then (r1, m1) else copyout ?pt (fdarray + 4) (bytes32 (of_nat fd1)) m1) = (r2, m2)"
          by fastforce
        let ?w = "w\<lparr>km := m2\<rparr>"
        have rw: "refs_ok oth ?w" using refs_ok_frame [OF w(1)] by simp
        have res: "(if r2 < 0 then kbind (fileclose kend f (set_fd fd1 None (set_fd fd0 None ?w)))
            (\<lambda>s. kbind (fileclose kend g s) (\<lambda>s. Ok (- 1, s))) else Ok (0, ?w)) = Ok (r, t)"
          using assms(2) arg a \<open>a = Some fg\<close> fg b Some c fd1 1 2 unfolding sys_pipe_def Let_def
          by (simp only: kbind.simps prod.case option.case)
        show ?thesis
        proof (cases "r2 < 0")
          case False
          then show ?thesis using res rw by simp
        next
          case True
          have ne: "fd1 \<noteq> fd0" using w(4) fd0 by auto
          have lv: "length (p_ofile (self v)) = NOFILE" using v(1) by (simp add: refs_ok_def)
          have "p_ofile (self ?w) ! fd0 = Some f" "p_ofile (self (set_fd fd0 None ?w)) ! fd1 = Some g"
            using w(2,3) fd0 ne lv v(2) by (simp_all add: set_fd_def)
          then have "refs_ok (plus_ref g (plus_ref f oth)) (set_fd fd1 None (set_fd fd0 None ?w))"
            using fd_release [OF fd_release [OF rw v(2)] w(2)] by simp
          from drop [OF this] show ?thesis using res True by simp
        qed
      qed
    qed
  qed
qed

section \<open>Any sequence of calls\<close>

inductive fd_step :: "devtab \<Rightarrow> u64 \<Rightarrow> sysst \<Rightarrow> sysst \<Rightarrow> bool" for devsw kend where
  fd_dup: "sys_dup s = Ok (r, t) \<Longrightarrow> fd_step devsw kend s t"
| fd_close: "sys_close kend s = Ok (r, t) \<Longrightarrow> fd_step devsw kend s t"
| fd_open: "sys_open kend s = Ok (r, t) \<Longrightarrow> fd_step devsw kend s t"
| fd_pipe: "sys_pipe kend s = Ok (r, t) \<Longrightarrow> fd_step devsw kend s t"
| fd_read: "sys_read devsw s = Ok (r, t) \<Longrightarrow> fd_step devsw kend s t"
| fd_write: "sys_write devsw s = Ok (r, t) \<Longrightarrow> fd_step devsw kend s t"
| fd_fstat: "sys_fstat pad s = Ok (r, t) \<Longrightarrow> fd_step devsw kend s t"
| fd_link: "sys_link s = Ok (r, t) \<Longrightarrow> fd_step devsw kend s t"
| fd_unlink: "sys_unlink s = Ok (r, t) \<Longrightarrow> fd_step devsw kend s t"
| fd_mkdir: "sys_mkdir s = Ok (r, t) \<Longrightarrow> fd_step devsw kend s t"
| fd_mknod: "sys_mknod s = Ok (r, t) \<Longrightarrow> fd_step devsw kend s t"
| fd_chdir: "sys_chdir s = Ok (r, t) \<Longrightarrow> fd_step devsw kend s t"
| fd_getcwd: "sys_getcwd kend fuel s = Ok (r, t) \<Longrightarrow> fd_step devsw kend s t"
| fd_args: "fd_step devsw kend s (s\<lparr>self := (self s)\<lparr>p_tf := regs\<rparr>\<rparr>)"

lemma fd_step_refs:
  assumes "fd_step devsw kend s t" "refs_ok oth s" "keeps_devs devsw"
  shows "refs_ok oth t"
  using assms
proof (induction rule: fd_step.induct)
  case (fd_args s regs)
  then show ?case by (simp add: refs_ok_def ofile_def)
qed (erule (1) sys_dup_refs [rotated] sys_close_refs [rotated] sys_open_refs [rotated] sys_pipe_refs [rotated]
    | (rule fr_refs; (rule fr_sys_read fr_sys_link fr_sys_unlink fr_sys_mkdir fr_sys_chdir fr_sys_getcwd | assumption)+))+

text \<open>C27: Whatever sequence of file system calls a process makes, with whatever arguments, the reference
  count of every open file stays the number of the process's descriptors for it plus the references that
  others hold; so a descriptor never names a free table entry, and \<open>filedup\<close> and \<open>fileclose\<close> of an
  open descriptor never panic about the count.\<close>

theorem descriptor_reference_counts:
  assumes "(fd_step devsw kend)\<^sup>*\<^sup>* s t" "refs_ok oth s" "keeps_devs devsw" "\<And>i. 0 \<le> oth i"
  shows "refs_ok oth t \<and>
    (\<forall>fd < NOFILE. \<forall>i. p_ofile (self t) ! fd = Some i \<longrightarrow> i < NFILE \<and> 0 < f_ref (ofile i t) \<and>
      filedup i t \<noteq> Panic ''filedup'')"
proof -
  have t: "refs_ok oth t"
    using assms(1,2) by (induction rule: rtranclp_induct) (auto intro: fd_step_refs assms(3))
  moreover have "i < NFILE \<and> 0 < f_ref (ofile i t)" if h: "fd < NOFILE" "p_ofile (self t) ! fd = Some i" for fd i
  proof -
    have i: "i < NFILE" by (rule fd_is_file [OF t h])
    have "Some i \<in> set (p_ofile (self t))" using h t by (metis refs_ok_def nth_mem)
    then have "0 < count_list (p_ofile (self t)) (Some i)" using count_list_0_iff by fastforce
    then show ?thesis using i t assms(4) [of i] by (simp add: refs_ok_def)
  qed
  moreover from this have "filedup i t \<noteq> Panic ''filedup''" if "fd < NOFILE" "p_ofile (self t) ! fd = Some i" for fd i
    using that by (fastforce simp: filedup_def)
  ultimately show ?thesis by blast
qed

text \<open>A process with one descriptor, 0, for the console.\<close>

definition demo_proc :: proc where
  "demo_proc = \<lparr>p_state = RUNNING, p_chan = None, p_killed = 0, p_xstate = 0, p_pid = 1, p_parent = None, p_kstack = 0,
     p_sz = 0, p_pagetable = 0, p_trapframe = 0, p_tf = (\<lambda>_. 0), p_context = (0, 0),
     p_ofile = Some 0 # replicate 15 None, p_cwd = None, p_name = [], p_strace = 0, p_counter = 0\<rparr>"

definition demo_sys :: "fs \<Rightarrow> kmem \<Rightarrow> pipe \<Rightarrow> sysst" where
  "demo_sys x m q = \<lparr>km = m, fsv = x, outstanding = 0,
     ftab = no_file\<lparr>f_type := FD_DEVICE, f_ref := 1, f_readable := True, f_writable := True, f_major := 1\<rparr> # replicate 99 no_file,
     pipes = (\<lambda>_. q), self = demo_proc\<rparr>"

lemma demo_sys_refs: "refs_ok (\<lambda>_. 0) (demo_sys x m q)"
proof -
  have "\<forall>i < NFILE. f_ref (ftab (demo_sys x m q) ! i) = int (count_list (p_ofile demo_proc) (Some i))"
    by (auto simp: demo_sys_def demo_proc_def no_file_def nth_Cons' count_list_0_iff)
  then show ?thesis by (auto simp: refs_ok_def ofile_def demo_sys_def demo_proc_def)
qed

lemma demo_sys_dup: "\<exists>t. sys_dup (demo_sys x m q) = Ok (1, t)"
proof -
  let ?s = "demo_sys x m q"
  have "argfd 0 ?s = Ok (Some (0, 0))"
    by (simp add: argfd_def argint_def argraw_def demo_sys_def demo_proc_def)
  moreover have "find (\<lambda>fd. p_ofile (self ?s) ! fd = None) [0..<NOFILE] = Some 1"
    unfolding find_upt_Some by (simp add: demo_sys_def demo_proc_def)
  moreover have "f_ref (ofile 0 (set_fd 1 (Some 0) ?s)) = 1" by (simp add: demo_sys_def ofile_def set_fd_def)
  ultimately show ?thesis by (simp add: sys_dup_def with_fd_def fdalloc_def filedup_def)
qed

lemma descriptor_reference_counts_witness:
  "\<forall>x m q. \<exists>t. sys_dup (demo_sys x m q) = Ok (1, t) \<and> refs_ok (\<lambda>_. 0) t"
proof (intro allI)
  fix x m q
  obtain t where t: "sys_dup (demo_sys x m q) = Ok (1, t)" using demo_sys_dup by blast
  then have "(fd_step (\<lambda>_. (None, None)) 0)\<^sup>*\<^sup>* (demo_sys x m q) t" by (blast intro: fd_dup)
  from descriptor_reference_counts [OF this demo_sys_refs] t
  show "\<exists>t. sys_dup (demo_sys x m q) = Ok (1, t) \<and> refs_ok (\<lambda>_. 0) t" by (auto simp: keeps_devs_def)
qed

end
