(* ===== verification/Exec.thy ===== *)
theory Exec imports Sysfile UserMemory begin

text \<open>
  \<open>exec\<close> (kernel/exec.c), \<open>sys_exec\<close> (kernel/sysfile.c) and the dispatch of system calls
  (kernel/syscall.c).

  Argument strings are byte lists without their NUL. \<open>kend\<close> and \<open>trampoline\<close> are addresses the linker
  fixes; \<open>stk\<close> is what the uninitialised array \<open>buf\<close> of \<open>exec\<close> holds, which a script shorter than the
  array leaves in place. \<open>exec\<close> calls itself for the interpreter of a script; \<open>fuel\<close> is how many of its
  frames fit in the one-page kernel stack, and \<open>Fault\<close> is the overflow.
\<close>

section \<open>Small pieces\<close>

abbreviation (input) MAXARG :: nat where "MAXARG \<equiv> 32"

definition flags2perm :: "u32 \<Rightarrow> u64" where
  "flags2perm flags =
     (let perm = (if flags AND 1 \<noteq> 0 then PTE_X else 0) in
      if flags AND 2 \<noteq> 0 then perm OR PTE_W else perm)"

definition km_do :: "(kmem \<Rightarrow> kmem kres) \<Rightarrow> sysst \<Rightarrow> sysst kres" where
  "km_do f s = kbind (f (km s)) (\<lambda>m. Ok (s\<lparr>km := m\<rparr>))"

definition km_get :: "(kmem \<Rightarrow> ('a \<times> kmem) kres) \<Rightarrow> sysst \<Rightarrow> ('a \<times> sysst) kres" where
  "km_get f s = kbind (f (km s)) (\<lambda>(r, m). Ok (r, s\<lparr>km := m\<rparr>))"

text \<open>\<open>readi\<close> into a local object of the kernel.\<close>

definition read_obj :: "nat \<Rightarrow> u32 \<Rightarrow> u32 \<Rightarrow> sysst \<Rightarrow> (int \<times> u8 list \<times> sysst) kres" where
  "read_obj ip off n s = kbind (readi kbuf ip off n [] (fsv s)) (\<lambda>(r, bs, x). Ok (r, bs, s\<lparr>fsv := x\<rparr>))"

definition get64 :: "u8 list \<Rightarrow> nat \<Rightarrow> u64" where
  "get64 d off = ucast (get32 d off) OR push_bit 32 (ucast (get32 d (off + 4)))"

record elfhdr =
  e_magic :: u32
  e_entry :: u64
  e_phoff :: u64
  e_phnum :: u16

record proghdr =
  ph_type :: u32
  ph_flags :: u32
  ph_off :: u64
  ph_vaddr :: u64
  ph_filesz :: u64
  ph_memsz :: u64

text \<open>The fields \<open>exec\<close> uses, at their offsets in the 64- and 56-byte structures.\<close>

definition get_elfhdr :: "u8 list \<Rightarrow> elfhdr" where
  "get_elfhdr d = \<lparr>e_magic = get32 d 0, e_entry = get64 d 24, e_phoff = get64 d 32, e_phnum = get16 d 56\<rparr>"

definition get_proghdr :: "u8 list \<Rightarrow> proghdr" where
  "get_proghdr d = \<lparr>ph_type = get32 d 0, ph_flags = get32 d 4, ph_off = get64 d 8, ph_vaddr = get64 d 16,
     ph_filesz = get64 d 32, ph_memsz = get64 d 40\<rparr>"

section \<open>Scripts\<close>

text \<open>The interpreter line: what follows \<open>#!\<close> up to a newline, without blanks. \<open>None\<close> is the store of
  the NUL behind the array that the loop filled.\<close>

definition script_chars :: "u8 list \<Rightarrow> u8 list" where
  "script_chars buf = filter (\<lambda>c. c \<noteq> 32) (takeWhile (\<lambda>c. c \<noteq> 10) buf)"

definition interpreter :: "u8 list \<Rightarrow> u8 list option" where
  "interpreter buf = (if length (script_chars buf) < MAXPATH then Some (cstr (script_chars buf)) else None)"

section \<open>Loading\<close>

function loadseg_loop :: "u64 \<Rightarrow> u64 \<Rightarrow> nat \<Rightarrow> u32 \<Rightarrow> nat \<Rightarrow> nat \<Rightarrow> sysst \<Rightarrow> (int \<times> sysst) kres" where
  "loadseg_loop pagetable va ip offset sz i s =
     (if i < sz then
        let pa = walkaddr pagetable (va + of_nat i) (km s);
            n = (if sz - i < 4096 then sz - i else 4096) in
        if pa = 0 then Panic ''loadseg: address should exist''
        else
          kbind (k_readi ip False pa (offset + of_nat i) (of_nat n) s) (\<lambda>(r, s).
          if r \<noteq> int n then Ok (- 1, s) else loadseg_loop pagetable va ip offset sz (i + 4096) s)
      else Ok (0, s))"
  by pat_completeness auto
termination
  by (relation "measure (\<lambda>(pt, va, ip, off, sz, i, s). sz - i)") auto

declare loadseg_loop.simps [simp del]

definition loadseg :: "u64 \<Rightarrow> u64 \<Rightarrow> nat \<Rightarrow> u32 \<Rightarrow> u32 \<Rightarrow> sysst \<Rightarrow> (int \<times> sysst) kres" where
  "loadseg pagetable va ip offset sz s = loadseg_loop pagetable va ip offset (unat sz) 0 s"

text \<open>One program header: the new size, and whether to go on or to \<open>bad\<close>.\<close>

definition load_segment ::
    "u64 \<Rightarrow> u64 \<Rightarrow> nat \<Rightarrow> proghdr \<Rightarrow> u64 \<Rightarrow> sysst \<Rightarrow> ((bool \<times> u64) \<times> sysst) kres" where
  "load_segment kend pagetable ip ph sz s =
     (if ph_type ph \<noteq> 1 then Ok ((True, sz), s)
      else if ph_memsz ph < ph_filesz ph then Ok ((False, sz), s)
      else if ph_vaddr ph + ph_memsz ph < ph_vaddr ph then Ok ((False, sz), s)
      else if ph_vaddr ph mod PGSIZE \<noteq> 0 then Ok ((False, sz), s)
      else
        kbind (km_get (uvmalloc kend pagetable sz (ph_vaddr ph + ph_memsz ph) (flags2perm (ph_flags ph))) s) (\<lambda>(sz1, s).
        if sz1 = 0 then Ok ((False, sz), s)
        else
          kbind (loadseg pagetable (ph_vaddr ph) ip (ucast (ph_off ph)) (ucast (ph_filesz ph)) s) (\<lambda>(r, s).
          Ok ((r \<ge> 0, sz1), s))))"

text \<open>The loop over the program headers; the first argument counts those left.\<close>

fun load_segments ::
    "nat \<Rightarrow> u64 \<Rightarrow> u64 \<Rightarrow> nat \<Rightarrow> u32 \<Rightarrow> u64 \<Rightarrow> sysst \<Rightarrow> ((bool \<times> u64) \<times> sysst) kres" where
  "load_segments 0 kend pagetable ip off sz s = Ok ((True, sz), s)"
| "load_segments (Suc n) kend pagetable ip off sz s =
     kbind (read_obj ip off 56 s) (\<lambda>(r, bs, s).
     if r \<noteq> 56 then Ok ((False, sz), s)
     else
       kbind (load_segment kend pagetable ip (get_proghdr bs) sz s) (\<lambda>((ok, sz), s).
       if ok then load_segments n kend pagetable ip (off + 56) sz s else Ok ((False, sz), s)))"

section \<open>The argument stack\<close>

text \<open>The strings of \<open>argv\<close>: each goes below the last, 16-byte aligned. The result is the stack pointer and
  the addresses, or \<open>None\<close> for \<open>bad\<close>.\<close>

fun push_args ::
    "u64 \<Rightarrow> u64 \<Rightarrow> u8 list list \<Rightarrow> u64 \<Rightarrow> u64 list \<Rightarrow> kmem \<Rightarrow> (u64 \<times> u64 list) option \<times> kmem" where
  "push_args pagetable stackbase [] sp ustack m = (Some (sp, ustack), m)"
| "push_args pagetable stackbase (a # args) sp ustack m =
     (if length ustack \<ge> MAXARG then (None, m)
      else
        let sp = sp - (of_nat (length a) + 1); sp = sp - sp mod 16 in
        if sp < stackbase then (None, m)
        else
          let (r, m) = copyout pagetable sp (a @ [0]) m in
          if r < 0 then (None, m) else push_args pagetable stackbase args sp (ustack @ [sp]) m)"

text \<open>All of it: the strings, then the array of their addresses with a 0 at its end.\<close>

definition push_argv :: "u64 \<Rightarrow> u64 \<Rightarrow> u8 list list \<Rightarrow> u64 \<Rightarrow> kmem \<Rightarrow> u64 option \<times> kmem" where
  "push_argv pagetable stackbase argv sp m =
     (case push_args pagetable stackbase argv sp [] m of
        (None, m) \<Rightarrow> (None, m)
      | (Some (sp, ustack), m) \<Rightarrow>
          let sp = sp - (of_nat (length ustack) + 1) * 8; sp = sp - sp mod 16 in
          if sp < stackbase then (None, m)
          else
            let (r, m) = copyout pagetable sp (concat (map bytes64 (ustack @ [0]))) m in
            if r < 0 then (None, m) else (Some sp, m))"

text \<open>The last element of a path.\<close>

definition last_elem :: "u8 list \<Rightarrow> u8 list" where
  "last_elem path = rev (takeWhile (\<lambda>c. c \<noteq> 47) (rev (cstr path)))"

section \<open>exec\<close>

text \<open>\<open>bad\<close> before the transaction has ended, where \<open>ip\<close> is locked, and after.\<close>

definition exec_bad :: "u64 \<Rightarrow> u64 \<Rightarrow> u64 \<Rightarrow> nat option \<Rightarrow> sysst \<Rightarrow> (int \<times> sysst) kres" where
  "exec_bad kend pagetable sz ip s =
     kbind (if pagetable \<noteq> 0 then km_do (proc_freepagetable kend pagetable sz) s else Ok s) (\<lambda>s.
     case ip of None \<Rightarrow> Ok (- 1, s)
     | Some ip \<Rightarrow> kbind (fs_do (iunlockput ip) s) (op_return (- 1)))"

text \<open>From the end of the transaction on: the stack, the arguments, and the switch to the new image.\<close>

definition exec_commit ::
    "u64 \<Rightarrow> u8 list \<Rightarrow> u8 list list \<Rightarrow> u64 \<Rightarrow> u64 \<Rightarrow> u64 \<Rightarrow> sysst \<Rightarrow> (int \<times> sysst) kres" where
  "exec_commit kend path argv entry pagetable sz s =
     (let oldsz = p_sz (self s); sz = PGROUNDUP sz in
      kbind (km_get (uvmalloc kend pagetable sz (sz + 2 * PGSIZE) PTE_W) s) (\<lambda>(sz1, s).
      if sz1 = 0 then exec_bad kend pagetable sz None s
      else
        kbind (km_do (uvmclear pagetable (sz1 - 2 * PGSIZE)) s) (\<lambda>s.
        let (r, m) = push_argv pagetable (sz1 - PGSIZE) argv sz1 (km s); s = s\<lparr>km := m\<rparr> in
        case r of None \<Rightarrow> exec_bad kend pagetable sz1 None s
        | Some sp \<Rightarrow>
          let p = self s; oldpagetable = p_pagetable p;
              p = p\<lparr>p_name := safestrcpy16 (p_name p) (last_elem path), p_pagetable := pagetable, p_sz := sz1,
                    p_tf := (p_tf p)(A1 := sp, Epc := entry, Sp := sp)\<rparr> in
          kbind (km_do (proc_freepagetable kend oldpagetable oldsz) (s\<lparr>self := p\<rparr>)) (\<lambda>s.
          Ok (int (length argv), s)))))"

definition exec_elf ::
    "u64 \<Rightarrow> u64 \<Rightarrow> u8 list \<Rightarrow> u8 list list \<Rightarrow> nat \<Rightarrow> sysst \<Rightarrow> (int \<times> sysst) kres" where
  "exec_elf kend trampoline path argv ip s =
     kbind (read_obj ip 0 64 s) (\<lambda>(r, bs, s).
     let elf = get_elfhdr bs in
     if r \<noteq> 64 \<or> e_magic elf \<noteq> 0x464C457F then exec_bad kend 0 0 (Some ip) s
     else
       kbind (km_get (proc_pagetable kend trampoline (p_trapframe (self s))) s) (\<lambda>(pagetable, s).
       if pagetable = 0 then exec_bad kend 0 0 (Some ip) s
       else
         kbind (load_segments (unat (e_phnum elf)) kend pagetable ip (ucast (e_phoff elf)) 0 s) (\<lambda>((ok, sz), s).
         if \<not> ok then exec_bad kend pagetable sz (Some ip) s
         else
           kbind (fs_do (iunlockput ip) s) (\<lambda>s.
           kbind (tx_end_op s) (exec_commit kend path argv (e_entry elf) pagetable sz)))))"

fun exec :: "nat \<Rightarrow> u8 list \<Rightarrow> u64 \<Rightarrow> u64 \<Rightarrow> u8 list \<Rightarrow> u8 list list \<Rightarrow> sysst \<Rightarrow> (int \<times> sysst) kres" where
  "exec 0 stk kend trampoline path argv s = Fault"
| "exec (Suc fuel) stk kend trampoline path argv s =
     kbind (tx_begin_op s) (\<lambda>s.
     kbind (k_namei path s) (\<lambda>(r, s).
     case r of None \<Rightarrow> op_return (- 1) s
     | Some ip \<Rightarrow>
       kbind (fs_do (ilock (Some ip)) s) (\<lambda>s.
       kbind (read_obj ip 0 2 s) (\<lambda>(r, two, s).
       if r = 2 \<and> two = [35, 33] then
         kbind (read_obj ip 2 (of_nat MAXPATH) s) (\<lambda>(_, bs, s).
         case interpreter (put_bytes (put_bytes stk 0 two) 0 bs) of None \<Rightarrow> Fault
         | Some interp \<Rightarrow>
           kbind (fs_do (iunlockput ip) s) (\<lambda>s.
           kbind (tx_end_op s) (exec fuel stk kend trampoline interp (interp # take 1 argv))))
       else exec_elf kend trampoline path argv ip s))))"

section \<open>sys_exec\<close>

definition kstr :: "u64 \<Rightarrow> kmem \<Rightarrow> u8 list" where
  "kstr a m = cstr (mem_load (pmem m) a 4096)"

text \<open>The pages of the arguments fetched so far are \<open>pgs\<close>; the first component of the result says
  whether all were. The count bounds the loop by the length of \<open>argv\<close>.\<close>

fun fetch_args :: "nat \<Rightarrow> u64 \<Rightarrow> u64 list \<Rightarrow> sysst \<Rightarrow> bool \<times> u64 list \<times> sysst" where
  "fetch_args 0 uargv pgs s = (False, pgs, s)"
| "fetch_args (Suc n) uargv pgs s =
     (case fetchaddr (uargv + 8 * of_nat (length pgs)) s of None \<Rightarrow> (False, pgs, s)
      | Some uarg \<Rightarrow>
        if uarg = 0 then (True, pgs, s)
        else
          let (pg, m) = kalloc (km s); s = s\<lparr>km := m\<rparr> in
          if pg = 0 then (False, pgs, s)
          else
            let (r, bs) = fetchstr uarg 4096 s;
                s = s\<lparr>km := (km s)\<lparr>pmem := mem_store (pmem (km s)) pg bs\<rparr>\<rparr> in
            if r < 0 then (False, pgs @ [pg], s) else fetch_args n uargv (pgs @ [pg]) s)"

definition sys_exec :: "nat \<Rightarrow> u8 list \<Rightarrow> u64 \<Rightarrow> u64 \<Rightarrow> sysst \<Rightarrow> (int \<times> sysst) kres" where
  "sys_exec fuel stk kend trampoline s =
     kbind (argaddr 1 s) (\<lambda>uargv.
     kbind (argstr 0 MAXPATH s) (\<lambda>(r, path).
     if r < 0 then Ok (- 1, s)
     else
       let (ok, pgs, s) = fetch_args MAXARG uargv [] s in
       kbind (if ok then exec fuel stk kend trampoline path (map (\<lambda>pg. kstr pg (km s)) pgs) s else Ok (- 1, s)) (\<lambda>(ret, s).
       kbind (kfold (\<lambda>pg. km_do (kfree kend pg)) pgs s) (\<lambda>s. Ok (ret, s)))))"

section \<open>Dispatch\<close>

text \<open>\<open>handlers\<close> is the table \<open>syscalls[]\<close>, of 29 entries.\<close>

definition set_reg :: "tfreg \<Rightarrow> u64 \<Rightarrow> sysst \<Rightarrow> sysst" where
  "set_reg r w s = s\<lparr>self := (self s)\<lparr>p_tf := (p_tf (self s))(r := w)\<rparr>\<rparr>"

definition syscall :: "(nat \<Rightarrow> (sysst \<Rightarrow> (int \<times> sysst) kres) option) \<Rightarrow> sysst \<Rightarrow> sysst kres" where
  "syscall handlers s =
     (let num = sint (ucast (p_tf (self s) A7) :: u32) in
      case (if num > 0 \<and> num < 29 then handlers (nat num) else None) of
        Some h \<Rightarrow>
          kbind (h s) (\<lambda>(r, s).
          let s = set_reg A0 (word_of_int r) s in
          Ok (s\<lparr>self := (self s)\<lparr>p_counter := p_counter (self s) + 1\<rparr>\<rparr>))
      | None \<Rightarrow> Ok (set_reg A0 (- 1) s))"

section \<open>The stack of a new program\<close>

text \<open>Addresses of a string that lies in one piece below \<open>2 ^ 64\<close>.\<close>

lemma unat_sub_below:
  fixes va a :: u64
  assumes "unat va + n \<le> 2 ^ 64" "n > 0"
  shows "unat (a - va) < n \<longleftrightarrow> unat va \<le> unat a \<and> unat a < unat va + n"
proof (cases "va \<le> a")
  case True
  then show ?thesis by (auto simp: unat_sub word_le_nat_alt)
next
  case False
  then have "unat (a - va) = 2 ^ 64 + unat a - unat va"
    by (simp add: unat_sub_if_size word_le_nat_alt word_size)
  then show ?thesis using False assms by (auto simp: word_le_nat_alt)
qed

text \<open>Going down by \<open>n\<close> bytes and to a multiple of 16.\<close>

lemma stack_down:
  assumes "unat sp \<ge> n + 16" "n < 2 ^ 64" and "sp' = (sp :: u64) - of_nat n - (sp - of_nat n) mod 16"
  shows "unat sp' + n \<le> unat sp" "unat sp' mod 16 = 0" "unat sp \<le> unat sp' + n + 15"
proof -
  have u: "unat (of_nat n :: u64) = n" using assms(2) by (simp add: unat_of_nat take_bit_eq_mod)
  let ?a = "sp - of_nat n"
  have a: "unat ?a = unat sp - n" using assms(1) u by (subst unat_sub) (simp_all add: word_le_nat_alt)
  have m: "unat (?a mod 16) = unat ?a mod 16" by (simp add: unat_mod_distrib)
  have le: "unat ?a mod 16 \<le> unat ?a" by simp
  have s: "unat sp' = unat ?a - unat ?a mod 16"
    unfolding assms(3) using m le by (subst unat_sub) (simp_all add: word_le_nat_alt)
  show "unat sp' + n \<le> unat sp" using s a assms(1) by simp
  show "unat sp' mod 16 = 0" unfolding s by (simp add: minus_mod_eq_mult_div)
  have "unat ?a mod 16 < 16" by simp
  then show "unat sp \<le> unat sp' + n + 15" using s a assms(1) by linarith
qed

text \<open>A page table whose user pages are apart; a successful \<open>copyout\<close> keeps it and stores exactly its bytes.\<close>

definition user_ok :: "u64 \<Rightarrow> u64 \<Rightarrow> kmem \<Rightarrow> bool" where
  "user_ok kend r m \<longleftrightarrow> (\<exists>xs. pt_ok kend xs (pmem m) r) \<and> user_sep (pmem m) r"

definition user_bytes :: "u64 \<Rightarrow> kmem \<Rightarrow> u64 \<Rightarrow> u8 list \<Rightarrow> bool" where
  "user_bytes r m va bs \<longleftrightarrow> (\<forall>j < length bs. ubyte (pmem m) r (va + of_nat j) = Some (bs ! j))"

lemma copyout_stores:
  assumes "copyout r va bs m = (res, t)" "\<not> res < 0" "user_ok kend r m" "bs \<noteq> []" "unat va + length bs < 2 ^ 64"
  shows "user_ok kend r t" "user_bytes r t va bs" "upage (pmem t) r = upage (pmem m) r"
    "\<And>a. unat a < unat va \<or> unat va + length bs \<le> unat a \<Longrightarrow> ubyte (pmem t) r a = ubyte (pmem m) r a"
proof -
  obtain xs where xs: "pt_ok kend xs (pmem m) r" "user_sep (pmem m) r" using assms(3) by (auto simp: user_ok_def)
  have l: "length bs < 2 ^ 64" using assms(5) by linarith
  obtain k where ke: "keeps (pt_pages (pmem m) r) (pmem m) (pmem t)" and k: "stored r va bs k res (pmem m) (pmem t)"
    using copyout_spec [OF assms(1) xs l] by blast
  have kl: "k = length bs" using k assms(2) by (auto simp: stored_def split: if_splits)
  have st: "ubyte (pmem t) r a = (if unat (a - va) < length bs then Some (bs ! unat (a - va)) else ubyte (pmem m) r a)" for a
    using k kl by (simp add: stored_def)
  show "upage (pmem t) r = upage (pmem m) r" by (rule HOL.ext) (simp add: upage_def keeps_vpte [OF ke])
  then have "user_sep (pmem t) r" using xs(2) by (simp only: user_sep_def keeps_tree(1) [OF ke])
  moreover have "pt_ok kend xs (pmem t) r" using xs(1) keeps_tree(2) [OF ke] by simp
  ultimately show "user_ok kend r t" unfolding user_ok_def by blast
  have below: "unat (a - va) < length bs \<longleftrightarrow> unat va \<le> unat a \<and> unat a < unat va + length bs" for a
    using unat_sub_below [of va "length bs" a] assms(4,5) by simp
  show "user_bytes r t va bs"
    using l by (auto simp: user_bytes_def st unat_of_nat take_bit_eq_mod)
  show "\<And>a. unat a < unat va \<or> unat va + length bs \<le> unat a \<Longrightarrow> ubyte (pmem t) r a = ubyte (pmem m) r a"
    using st below by auto
qed

text \<open>\<open>string_at\<close>: the strings of the arguments lie between \<open>lo\<close> and \<open>hi\<close>, where \<open>us\<close> says.\<close>

definition strings_at :: "u64 \<Rightarrow> kmem \<Rightarrow> nat \<Rightarrow> nat \<Rightarrow> u64 list \<Rightarrow> u8 list list \<Rightarrow> bool" where
  "strings_at r m lo hi us args \<longleftrightarrow> length us = length args \<and>
     (\<forall>i < length args. lo \<le> unat (us ! i) \<and> unat (us ! i) mod 16 = 0 \<and>
        unat (us ! i) + length (args ! i) < hi \<and> user_bytes r m (us ! i) (args ! i @ [0]))"

lemma user_bytes_frame:
  assumes "user_bytes r m va bs" "unat va + length bs < 2 ^ 64"
    and "\<And>a. unat va \<le> unat a \<Longrightarrow> unat a < unat va + length bs \<Longrightarrow> ubyte (pmem t) r a = ubyte (pmem m) r a"
  shows "user_bytes r t va bs"
proof -
  have "unat (va + of_nat j) = unat va + j" if "j < length bs" for j
    using that assms(2) by (simp add: unat_word_ariths unat_of_nat take_bit_eq_mod)
  then show ?thesis using assms(1,3) by (simp add: user_bytes_def)
qed

lemma push_args_spec:
  assumes "push_args pt base args sp us m = (Some (sp', us'), t)" "user_ok kend pt m"
    and "4112 \<le> unat base" "base \<le> sp" "\<And>a. a \<in> set args \<Longrightarrow> length a < 4096"
  shows "\<exists>new. us' = us @ new \<and> user_ok kend pt t \<and> base \<le> sp' \<and> sp' \<le> sp \<and> length us' \<le> max MAXARG (length us) \<and>
    strings_at pt t (unat sp') (unat sp) new args \<and>
    (\<forall>a. unat a < unat sp' \<or> unat sp \<le> unat a \<longrightarrow> ubyte (pmem t) pt a = ubyte (pmem m) pt a)"
  using assms
proof (induction pt base args sp us m rule: push_args.induct)
  case (2 pt base x args sp us m)
  let ?sp = "sp - (of_nat (length x) + 1) - (sp - (of_nat (length x) + 1)) mod 16"
  have lx: "length x < 4096" using "2.prems"(5) by simp
  have e: "?sp = sp - of_nat (Suc (length x)) - (sp - of_nat (Suc (length x))) mod 16" by (simp add: algebra_simps)
  have "unat sp \<ge> Suc (length x) + 16" using "2.prems"(3,4) lx by (simp add: word_le_nat_alt)
  from stack_down [OF this _ e] lx have d: "unat ?sp + Suc (length x) \<le> unat sp" "unat ?sp mod 16 = 0" by simp_all
  obtain res u where cu: "copyout pt ?sp (x @ [0]) m = (res, u)" by fastforce
  have br: "\<not> length us \<ge> MAXARG" "\<not> ?sp < base" "\<not> res < 0"
    and rest: "push_args pt base args ?sp (us @ [?sp]) u = (Some (sp', us'), t)"
    using "2.prems"(1) cu by (auto simp: Let_def split: if_splits)
  have sp_lt: "unat sp < 2 ^ 64" using unsigned_less [of sp] by simp
  have len: "unat ?sp + length (x @ [0]) < 2 ^ 64" using d(1) sp_lt by simp
  have ne: "x @ [0] \<noteq> []" by simp
  note c = copyout_stores [OF cu br(3) "2.prems"(2) ne len]
  have lo: "base \<le> ?sp" using br(2) by simp
  obtain new where new: "us' = (us @ [?sp]) @ new" "user_ok kend pt t" "base \<le> sp'" "sp' \<le> ?sp"
      "length us' \<le> max MAXARG (length (us @ [?sp]))" "strings_at pt t (unat sp') (unat ?sp) new args"
      "\<forall>a. unat a < unat sp' \<or> unat ?sp \<le> unat a \<longrightarrow> ubyte (pmem t) pt a = ubyte (pmem u) pt a"
    using "2.IH" [OF br(1) refl refl br(2) refl cu [symmetric] br(3) rest c(1) "2.prems"(3) lo] "2.prems"(5) by force
  have le: "unat sp' \<le> unat ?sp" "unat ?sp \<le> unat sp" using new(4) d(1) by (simp_all add: word_le_nat_alt)
  have "user_bytes pt t ?sp (x @ [0])"
    by (rule user_bytes_frame [OF c(2)]) (use len new(7) in auto)
  then have "strings_at pt t (unat sp') (unat sp) (?sp # new) (x # args)"
    using new(6) d le by (auto simp: strings_at_def nth_Cons split: nat.split)
  moreover have "\<forall>a. unat a < unat sp' \<or> unat sp \<le> unat a \<longrightarrow> ubyte (pmem t) pt a = ubyte (pmem m) pt a"
    using new(7) c(4) d(1) le by auto
  moreover have "sp' \<le> sp" using le by (simp add: word_le_nat_alt)
  ultimately show ?case using new(1,2,3,5) br(1) by (intro exI [of _ "?sp # new"]) simp
qed (auto simp: strings_at_def)

lemma length_bytes64 [simp]: "length (bytes64 w) = 8"
  by (simp add: bytes64_def)

lemma length_pointers: "length (concat (map bytes64 us)) = 8 * length us"
  by (induction us) simp_all

lemma push_argv_spec:
  assumes p: "push_argv pt base argv hi m = (Some sp, t)" and ok: "user_ok kend pt m"
    and base: "base = hi - PGSIZE" "8208 \<le> unat hi" and short: "\<And>a. a \<in> set argv \<Longrightarrow> length a < 4096"
  shows "\<exists>us. length argv \<le> MAXARG \<and> base \<le> sp \<and> unat sp mod 16 = 0 \<and> user_ok kend pt t \<and>
    strings_at pt t (unat sp + 8 * (length argv + 1)) (unat hi) us argv \<and>
    user_bytes pt t sp (concat (map bytes64 (us @ [0]))) \<and>
    (\<forall>a. unat a < unat sp \<or> unat hi \<le> unat a \<longrightarrow> ubyte (pmem t) pt a = ubyte (pmem m) pt a)"
proof -
  obtain sp1 us m1 where 1: "push_args pt base argv hi [] m = (Some (sp1, us), m1)"
    using p by (auto simp: push_argv_def split: prod.splits option.splits)
  let ?sp = "sp1 - (of_nat (length us) + 1) * 8 - (sp1 - (of_nat (length us) + 1) * 8) mod 16"
  let ?bs = "concat (map bytes64 (us @ [0]))"
  obtain res u where cu: "copyout pt ?sp ?bs m1 = (res, u)" by fastforce
  have br: "\<not> ?sp < base" "\<not> res < 0" "sp = ?sp" "t = u"
    using p 1 cu unfolding push_argv_def Let_def by (simp_all split: if_splits)
  have ub: "unat base = unat hi - 4096" unfolding base(1) using base(2) by (subst unat_sub) (simp_all add: word_le_nat_alt)
  have b: "4112 \<le> unat base" "base \<le> hi" using ub base(2) by (simp_all add: word_le_nat_alt)
  note ps = push_args_spec [OF 1 ok b short]
  then have n: "user_ok kend pt m1" "base \<le> sp1" "sp1 \<le> hi" "length us \<le> MAXARG"
      "strings_at pt m1 (unat sp1) (unat hi) us argv"
      "\<forall>a. unat a < unat sp1 \<or> unat hi \<le> unat a \<longrightarrow> ubyte (pmem m1) pt a = ubyte (pmem m) pt a"
    by auto
  have lus: "length us = length argv" using n(5) by (simp add: strings_at_def)
  have e: "?sp = sp1 - of_nat (8 * (length us + 1)) - (sp1 - of_nat (8 * (length us + 1))) mod 16"
    by (simp add: algebra_simps)
  have big: "unat sp1 \<ge> 8 * (length us + 1) + 16" "8 * (length us + 1) < 2 ^ 64"
    using n(2,4) b(1) by (simp_all add: word_le_nat_alt)
  note d = stack_down [OF big e]
  have lb: "length ?bs = 8 * (length us + 1)" by (simp only: length_pointers) simp
  have "unat sp1 < 2 ^ 64" using unsigned_less [of sp1] by simp
  then have len: "unat ?sp + length ?bs < 2 ^ 64" using d(1) unfolding lb by linarith
  have ne: "?bs \<noteq> []" using lb by (metis add_is_0 list.size(3) mult_is_0 one_neq_zero zero_neq_numeral)
  note c = copyout_stores [OF cu br(2) n(1) ne len]
  have up: "unat sp1 \<le> unat a \<Longrightarrow> ubyte (pmem u) pt a = ubyte (pmem m1) pt a" for a
    using c(4) [of a] d(1) unfolding lb by linarith
  have st: "strings_at pt u (unat ?sp + 8 * (length argv + 1)) (unat hi) us argv"
    unfolding strings_at_def
  proof (intro conjI allI impI)
    fix i assume i: "i < length argv"
    note f = n(5) [unfolded strings_at_def, THEN conjunct2, rule_format, OF i]
    show "unat ?sp + 8 * (length argv + 1) \<le> unat (us ! i)" "unat (us ! i) mod 16 = 0"
      "unat (us ! i) + length (argv ! i) < unat hi"
      using f d(1) lus by auto
    have "unat hi < 2 ^ 64" using unsigned_less [of hi] by simp
    then have "unat (us ! i) + length (argv ! i @ [0]) < 2 ^ 64" using f by simp
    then show "user_bytes pt u (us ! i) (argv ! i @ [0])"
      by (rule user_bytes_frame [of pt m1, rotated]) (use f in \<open>blast intro: up order_trans\<close>)+
  qed (use lus in simp)
  have fr: "ubyte (pmem u) pt a = ubyte (pmem m) pt a" if "unat a < unat ?sp \<or> unat hi \<le> unat a" for a
  proof -
    have "unat a < unat sp1 \<or> unat hi \<le> unat a" using that d(1) by linarith
    moreover have "unat a < unat ?sp \<or> unat ?sp + length ?bs \<le> unat a"
      using that d(1) n(3) unfolding lb word_le_nat_alt by linarith
    ultimately show ?thesis using n(6) c(4) by metis
  qed
  show ?thesis
    unfolding br(3,4) using n(4) lus br(1) d(2) c(1,2) st fr by (intro exI [of _ us]) (simp add: not_less)
qed


lemma copyout_mapped:
  assumes "user_ok kend r m" "\<And>a. unat va \<le> unat a \<Longrightarrow> unat a < unat va + length bs \<Longrightarrow> upage (pmem m) r a \<noteq> None"
    and "unat va + length bs < 2 ^ 64"
  shows "\<exists>t. copyout r va bs m = (0, t)"
proof -
  obtain xs where xs: "pt_ok kend xs (pmem m) r" "user_sep (pmem m) r" using assms(1) by (auto simp: user_ok_def)
  obtain res t where c: "copyout r va bs m = (res, t)" by fastforce
  have l: "length bs < 2 ^ 64" using assms(3) by linarith
  obtain k where k: "stored r va bs k res (pmem m) (pmem t)" using copyout_spec [OF c xs l] by blast
  have "res = 0"
  proof (rule ccontr)
    assume "res \<noteq> 0"
    then have kl: "k < length bs" "upage (pmem m) r (va + of_nat k) = None" using k by (auto simp: stored_def split: if_splits)
    then have "unat (va + of_nat k) = unat va + k"
      using assms(3) by (simp add: unat_word_ariths unat_of_nat take_bit_eq_mod)
    then show False using assms(2) [of "va + of_nat k"] kl by simp
  qed
  then show ?thesis using c by blast
qed


end
