(* ===== verification/Sysproc.thy ===== *)
theory Sysproc imports Proc begin

text \<open>
  The system calls on processes (kernel/sysproc.c) with their tracing macros (kernel/strace.h), and the
  clock interrupt (\<open>clockintr\<close> in kernel/trap.c) that the sleeping ones wait for.

  A handler works for the process \<open>me\<close> on hart \<open>c\<close>; its arguments are in the trapframe. The lines the
  macros print are collected in \<open>tracelog\<close>: with \<open>%d\<close>, a 64-bit register shows its low 32 bits.
  Stores to the test device go to \<open>devlog\<close>. \<open>wait\<close> and \<open>sleep\<close> come back as \<open>Sleeps\<close> where they have
  to wait; they go on from the corresponding turn, and \<open>exit\<close> does not return.
\<close>

section \<open>State\<close>

datatype trace =
    Trace_call int string
  | Trace_args int string string int
  | Trace_return int nat int

record 'w spst =
  core :: "'w kst"
  ticks :: u32
  tracelog :: "trace list"
  devlog :: "(u64 \<times> u32) list"

definition cur :: "nat \<Rightarrow> 'w spst \<Rightarrow> proc" where
  "cur me s = procs (core s) me"

definition arg_int :: "tfreg \<Rightarrow> nat \<Rightarrow> 'w spst \<Rightarrow> int" where
  "arg_int r me s = sint (ucast (p_tf (cur me s) r) :: u32)"

section \<open>Tracing\<close>

definition STRACE :: "string \<Rightarrow> nat \<Rightarrow> 'w spst \<Rightarrow> 'w spst" where
  "STRACE name me s =
     (if p_strace (cur me s) \<noteq> 0 then s\<lparr>tracelog := tracelog s @ [Trace_call (p_pid (cur me s)) name]\<rparr> else s)"

definition STRACE_ARGS :: "string \<Rightarrow> string \<Rightarrow> int \<Rightarrow> nat \<Rightarrow> 'w spst \<Rightarrow> 'w spst" where
  "STRACE_ARGS name label v me s =
     (if p_strace (cur me s) \<noteq> 0
      then s\<lparr>tracelog := tracelog s @ [Trace_args (p_pid (cur me s)) name label v]\<rparr> else s)"

definition STRACE_RETURN :: "nat \<Rightarrow> nat \<Rightarrow> 'w spst \<Rightarrow> 'w spst" where
  "STRACE_RETURN num me s =
     (if p_strace (cur me s) \<noteq> 0
      then s\<lparr>tracelog := tracelog s @ [Trace_return (p_pid (cur me s)) num (arg_int A0 me s)]\<rparr> else s)"

section \<open>Handlers\<close>

definition on_core :: "('w kst \<Rightarrow> ('a \<times> 'w kst) kres) \<Rightarrow> 'w spst \<Rightarrow> ('a \<times> 'w spst) kres" where
  "on_core f s = kbind (f (core s)) (\<lambda>(r, k). Ok (r, s\<lparr>core := k\<rparr>))"

definition traced :: "nat \<Rightarrow> nat \<Rightarrow> ('a \<times> 'w spst) kres \<Rightarrow> ('a \<times> 'w spst) kres" where
  "traced num me m = kbind m (\<lambda>(r, s). Ok (r, STRACE_RETURN num me s))"

definition sys_exit :: "'w kops \<Rightarrow> nat \<Rightarrow> nat \<Rightarrow> 'w spst \<Rightarrow> 'w spst kres" where
  "sys_exit ops c me s =
     (let n = arg_int A0 me s; s = STRACE_ARGS ''sys_exit'' ''n'' n me s in
      kbind (exit ops c me n (core s)) (\<lambda>k. Ok (s\<lparr>core := k\<rparr>)))"

definition sys_getpid :: "nat \<Rightarrow> 'w spst \<Rightarrow> (int \<times> 'w spst) kres" where
  "sys_getpid me s = (let s = STRACE ''sys_getpid'' me s in traced 11 me (Ok (p_pid (cur me s), s)))"

definition sys_fork :: "'w kops \<Rightarrow> u64 \<Rightarrow> nat \<Rightarrow> 'w spst \<Rightarrow> (int \<times> 'w spst) kres" where
  "sys_fork ops forkret_pc me s = traced 1 me (on_core (fork ops forkret_pc me) (STRACE ''sys_fork'' me s))"

text \<open>The trace line of \<open>wait\<close> is printed once the call returns.\<close>

definition traced_turn :: "nat \<Rightarrow> nat \<Rightarrow> (wait_turn \<times> 'w spst) kres \<Rightarrow> (wait_turn \<times> 'w spst) kres" where
  "traced_turn num me m =
     kbind m (\<lambda>(t, s). case t of Returned r \<Rightarrow> Ok (t, STRACE_RETURN num me s) | Sleeps \<Rightarrow> Ok (t, s))"

definition sys_wait :: "'w kops \<Rightarrow> nat \<Rightarrow> 'w spst \<Rightarrow> (wait_turn \<times> 'w spst) kres" where
  "sys_wait ops me s =
     (let s = STRACE ''sys_wait'' me s in
      traced_turn 3 me (on_core (wait1_turn ops me (p_tf (cur me s) A0)) s))"

definition sys_wait2 :: "'w kops \<Rightarrow> nat \<Rightarrow> 'w spst \<Rightarrow> (wait_turn \<times> 'w spst) kres" where
  "sys_wait2 ops me s =
     (let s = STRACE ''sys_wait2'' me s in
      traced_turn 26 me (on_core (wait2_turn ops me (p_tf (cur me s) A0) (p_tf (cur me s) A1)) s))"

text \<open>The result is the old size, as an unsigned number.\<close>

definition sys_sbrk :: "'w kops \<Rightarrow> nat \<Rightarrow> 'w spst \<Rightarrow> (u64 \<times> 'w spst) kres" where
  "sys_sbrk ops me s =
     (let s = STRACE ''sys_sbrk'' me s; n = arg_int A0 me s; addr = p_sz (cur me s) in
      traced 12 me (kbind (on_core (growproc ops me n) s) (\<lambda>(r, s). Ok (if r < 0 then - 1 else addr, s))))"

text \<open>\<open>sys_sleep\<close> up to its loop, and one turn of the loop. \<open>n\<close> is compared as an unsigned number.\<close>

definition sys_sleep_turn :: "nat \<Rightarrow> u64 \<Rightarrow> nat \<Rightarrow> int \<Rightarrow> u32 \<Rightarrow> 'w spst \<Rightarrow> wait_turn \<times> 'w spst" where
  "sys_sleep_turn c ticks_addr me n ticks0 s =
     (if ticks s - ticks0 < word_of_int n then
        if killed me (core s) \<noteq> 0 then (Returned (- 1), STRACE_RETURN 13 me s)
        else (Sleeps, s\<lparr>core := sleep c me (Addr_chan ticks_addr) (core s)\<rparr>)
      else (Returned 0, STRACE_RETURN 13 me s))"

definition sys_sleep :: "nat \<Rightarrow> u64 \<Rightarrow> nat \<Rightarrow> 'w spst \<Rightarrow> wait_turn \<times> 'w spst" where
  "sys_sleep c ticks_addr me s =
     (let n = arg_int A0 me s; s = STRACE_ARGS ''sys_sleep'' ''n'' n me s in
      sys_sleep_turn c ticks_addr me n (ticks s) s)"

definition sys_kill :: "nat \<Rightarrow> 'w spst \<Rightarrow> int \<times> 'w spst" where
  "sys_kill me s =
     (let pid = arg_int A0 me s; s = STRACE_ARGS ''sys_kill'' ''pid'' pid me s;
          (r, k) = kill pid (core s) in
      (r, STRACE_RETURN 6 me (s\<lparr>core := k\<rparr>)))"

definition sys_uptime :: "nat \<Rightarrow> 'w spst \<Rightarrow> int \<times> 'w spst" where
  "sys_uptime me s = (let s = STRACE ''sys_uptime'' me s in (uint (ticks s), STRACE_RETURN 14 me s))"

definition sys_shutdown :: "nat \<Rightarrow> 'w spst \<Rightarrow> int \<times> 'w spst" where
  "sys_shutdown me s =
     (let s = STRACE ''sys_shutdown'' me s; s = s\<lparr>devlog := devlog s @ [(VIRT_TEST, 0x5555)]\<rparr> in
      (0, STRACE_RETURN 22 me s))"

definition sys_reboot :: "nat \<Rightarrow> 'w spst \<Rightarrow> int \<times> 'w spst" where
  "sys_reboot me s =
     (let s = STRACE ''sys_reboot'' me s; s = s\<lparr>devlog := devlog s @ [(VIRT_TEST, 0x7777)]\<rparr> in
      (0, STRACE_RETURN 21 me s))"

text \<open>\<open>rtc\<close> is what a load from the real-time clock gives.\<close>

definition sys_unixtime :: "u64 \<Rightarrow> nat \<Rightarrow> 'w spst \<Rightarrow> u64 \<times> 'w spst" where
  "sys_unixtime rtc me s = (rtc, STRACE_RETURN 24 me (STRACE ''sys_unixtime'' me s))"

definition sys_strace :: "nat \<Rightarrow> 'w spst \<Rightarrow> int \<times> 'w spst" where
  "sys_strace me s = (0, s\<lparr>core := upd_proc me (\<lambda>p. p\<lparr>p_strace := 1\<rparr>) (core s)\<rparr>)"

definition sys_benchmark_reset :: "nat \<Rightarrow> 'w spst \<Rightarrow> int \<times> 'w spst" where
  "sys_benchmark_reset me s = (0, s\<lparr>core := upd_proc me (\<lambda>p. p\<lparr>p_counter := 0\<rparr>) (core s)\<rparr>)"

text \<open>\<open>clockintr\<close>: \<open>me\<close> is \<open>myproc()\<close> of the interrupted hart.\<close>

definition clockintr :: "u64 \<Rightarrow> nat option \<Rightarrow> 'w spst \<Rightarrow> 'w spst" where
  "clockintr ticks_addr me s = s\<lparr>ticks := ticks s + 1, core := wakeup (Addr_chan ticks_addr) me (core s)\<rparr>"

section \<open>How long a process sleeps\<close>

lemma wakeup_one_other: "p_killed (procs (wakeup_one ch me i st) j) = p_killed (procs st j)"
  by (simp add: wakeup_one_def)

lemma wakeup_killed: "p_killed (procs (wakeup ch me st) j) = p_killed (procs st j)"
proof -
  have "p_killed (procs (fold (wakeup_one ch me) xs st) j) = p_killed (procs st j)" for xs
    by (induction xs arbitrary: st) (simp_all add: wakeup_one_other)
  then show ?thesis by (simp add: wakeup_def)
qed

text \<open>\<open>clock_ticks k s t\<close>: \<open>t\<close> is \<open>s\<close> after \<open>k\<close> clock interrupts and any number of steps of others, which
  touch neither the clock nor the process \<open>me\<close>'s kill flag.\<close>

inductive clock_ticks :: "u64 \<Rightarrow> nat \<Rightarrow> nat \<Rightarrow> 'w spst \<Rightarrow> 'w spst \<Rightarrow> bool" for ticks_addr me where
  no_tick: "clock_ticks ticks_addr me 0 s s"
| tick: "clock_ticks ticks_addr me k s t \<Longrightarrow> clock_ticks ticks_addr me (Suc k) s (clockintr ticks_addr who t)"
| others: "clock_ticks ticks_addr me k s t \<Longrightarrow> ticks u = ticks t \<Longrightarrow> killed me (core u) = killed me (core t) \<Longrightarrow>
    clock_ticks ticks_addr me k s u"

lemma clock_ticks_count: "clock_ticks ticks_addr me k s t \<Longrightarrow> ticks t = ticks s + of_nat k"
  by (induction rule: clock_ticks.induct) (simp_all add: clockintr_def)

lemma clock_ticks_killed: "clock_ticks ticks_addr me k s t \<Longrightarrow> killed me (core t) = killed me (core s)"
  by (induction rule: clock_ticks.induct) (simp_all add: clockintr_def killed_def wakeup_killed)

lemma arg_int_range: "- (2 ^ 31) \<le> arg_int r me s" "arg_int r me s < 2 ^ 31"
  using sint_range_size [of "ucast (p_tf (cur me s) r) :: u32"] by (simp_all add: arg_int_def word_size)

text \<open>C29: A process that calls \<open>sleep(n)\<close> and is not killed sleeps for exactly \<open>n\<close> clock interrupts, whatever the
  others do: at every turn of its loop it goes back to sleep while fewer have happened since the call and
  returns 0 from then on. A negative \<open>n\<close> is compared as unsigned and stands for \<open>2 ^ 32 + n\<close> ticks.\<close>

theorem sleep_lasts_n_ticks:
  assumes "clock_ticks ticks_addr me k s t" "k < 2 ^ 32" "killed me (core s) = 0" "n = arg_int A0 me s"
  shows "fst (sys_sleep_turn c ticks_addr me n (ticks s) t) =
    (if int k < (if n \<ge> 0 then n else 2 ^ 32 + n) then Sleeps else Returned 0)"
proof -
  have n: "n mod 2 ^ 32 = (if n \<ge> 0 then n else 2 ^ 32 + n)"
  proof (cases "n \<ge> 0")
    case False
    have "n mod 2 ^ 32 = (2 ^ 32 + n) mod 2 ^ 32" by simp
    also have "\<dots> = 2 ^ 32 + n" using arg_int_range [of A0 me s] False unfolding assms(4) [symmetric]
      by (intro mod_pos_pos_trivial) auto
    finally show ?thesis using False by simp
  qed (use arg_int_range [of A0 me s] assms(4) in simp)
  have "ticks t - ticks s = of_nat k" using clock_ticks_count [OF assms(1)] by simp
  then have "ticks t - ticks s < word_of_int n \<longleftrightarrow> int k < n mod 2 ^ 32"
    using assms(2) by (simp add: word_less_def uint_word_of_int unsigned_of_nat take_bit_eq_mod zmod_int [symmetric])
  then show ?thesis
    using clock_ticks_killed [OF assms(1)] assms(3) unfolding n by (simp add: sys_sleep_turn_def)
qed

text \<open>A call of \<open>sleep(2)\<close> just before the tick counter wraps around.\<close>

definition demo_sleeper :: "unit spst" where
  "demo_sleeper = \<lparr>core = upd_proc 0 (\<lambda>p. p\<lparr>p_tf := (\<lambda>_. 2), p_killed := 0\<rparr>) demo_zero, ticks = 0xFFFFFFFF,
     tracelog = [], devlog = []\<rparr>"

lemma sleep_lasts_n_ticks_witness:
  "fst (sys_sleep_turn 0 0 0 2 0xFFFFFFFF (clockintr 0 None demo_sleeper)) = Sleeps \<and>
   fst (sys_sleep_turn 0 0 0 2 0xFFFFFFFF (clockintr 0 None (clockintr 0 None demo_sleeper))) = Returned 0"
proof -
  have 0: "clock_ticks 0 0 0 demo_sleeper demo_sleeper" by (rule no_tick)
  note 1 = tick [OF 0, of None]
  note 2 = tick [OF 1, of None]
  have k: "killed 0 (core demo_sleeper) = 0" "2 = arg_int A0 0 demo_sleeper" "ticks demo_sleeper = 0xFFFFFFFF"
    by (simp_all add: demo_sleeper_def killed_def arg_int_def cur_def)
  show ?thesis
    using sleep_lasts_n_ticks [OF 1 _ k(1,2), of 0] sleep_lasts_n_ticks [OF 2 _ k(1,2), of 0] k(3) by simp
qed

text \<open>The trace of a return shows register \<open>a0\<close> before the result is stored there: the first argument.\<close>

lemma strace_shows_the_argument:
  assumes "p_strace (cur me s) \<noteq> 0" "sys_getpid me s = Ok (r, t)"
  shows "List.last (tracelog t) = Trace_return r 11 (arg_int A0 me s)"
  using assms by (auto simp: sys_getpid_def traced_def STRACE_def STRACE_RETURN_def cur_def arg_int_def)

end
