(* ===== verification/UMalloc.thy ===== *)
theory UMalloc imports Bytes begin

text \<open>
  The user-space allocator, user/umalloc.c. Headers are found by their address; \<open>next_free\<close> and
  \<open>prev_free\<close>, which overlay the payload of a free block, are fields of their own, so a payload that
  its owner writes after freeing it is outside the model. A \<open>uint64\<close> is a 64-bit word and a \<open>uint\<close> a
  32-bit word, so the conversions between them cut as they do in C.

  \<open>sbrk\<close> is the system call: \<open>brk\<close> is the end of the process's memory and \<open>limit\<close> what the kernel can
  give. Its failure, \<open>-1\<close>, is not checked and the store that follows is a \<open>Fault\<close>. A loop over a list
  that has become cyclic (after a double \<open>free\<close>) does not end: \<open>fuel\<close> bounds the steps, and \<open>Blocked\<close>
  says it ran out. A chain of \<open>k\<close> blocks needs \<open>k + 1\<close>.
\<close>

section \<open>State\<close>

record mem_block =
  mb_name :: "u8 list"
  mb_size :: u64
  next_block :: u64
  prev_block :: u64
  next_free :: u64
  prev_free :: u64

record uheap =
  blocks :: "u64 \<Rightarrow> mem_block"
  fsm :: int
  safe :: bool
  block_list_head :: u64
  block_list_tail :: u64
  free_list_head :: u64
  free_list_tail :: u64
  brk :: u64
  limit :: u64

abbreviation (input) PAGE_SZ :: u32 where "PAGE_SZ \<equiv> 4096"
abbreviation (input) MIN_BLOCK_SZ :: u64 where "MIN_BLOCK_SZ \<equiv> 48"
abbreviation (input) HDR :: u64 where "HDR \<equiv> 32"   \<comment> \<open>\<open>sizeof(struct mem_block)\<close>\<close>

definition upd_block :: "u64 \<Rightarrow> (mem_block \<Rightarrow> mem_block) \<Rightarrow> uheap \<Rightarrow> uheap" where
  "upd_block b f h = h\<lparr>blocks := (blocks h)(b := f (blocks h b))\<rparr>"

section \<open>Lists\<close>

definition add_block :: "u64 \<Rightarrow> uheap \<Rightarrow> uheap" where
  "add_block b h =
     (if block_list_head h = 0 then
        upd_block b (\<lambda>m. m\<lparr>next_block := 0, prev_block := 0\<rparr>) (h\<lparr>block_list_head := b, block_list_tail := b\<rparr>)
      else
        let h = upd_block (block_list_tail h) (\<lambda>m. m\<lparr>next_block := b\<rparr>) h;
            h = upd_block b (\<lambda>m. m\<lparr>prev_block := block_list_tail h, next_block := 0\<rparr>) h in
        h\<lparr>block_list_tail := b\<rparr>)"

definition add_free :: "u64 \<Rightarrow> uheap \<Rightarrow> uheap" where
  "add_free b h =
     (if free_list_head h = 0 then
        upd_block b (\<lambda>m. m\<lparr>next_free := 0, prev_free := 0\<rparr>) (h\<lparr>free_list_head := b, free_list_tail := b\<rparr>)
      else
        let h = upd_block (free_list_tail h) (\<lambda>m. m\<lparr>next_free := b\<rparr>) h;
            h = upd_block b (\<lambda>m. m\<lparr>prev_free := free_list_tail h, next_free := 0\<rparr>) h in
        h\<lparr>free_list_tail := b\<rparr>)"

definition remove_free :: "u64 \<Rightarrow> uheap \<Rightarrow> uheap" where
  "remove_free r h =
     (if free_list_head h = 0 \<or> r = 0 then h
      else
        let nf = next_free (blocks h r);
            h = (if free_list_head h = r then h\<lparr>free_list_head := nf\<rparr> else h);
            h = (if free_list_tail h = r then h\<lparr>free_list_tail := prev_free (blocks h r)\<rparr> else h);
            h = (if nf \<noteq> 0 then upd_block nf (\<lambda>m. m\<lparr>prev_free := prev_free (blocks h r)\<rparr>) h else h);
            pf = prev_free (blocks h r) in
        (if pf \<noteq> 0 then upd_block pf (\<lambda>m. m\<lparr>next_free := next_free (blocks h r)\<rparr>) h else h))"

definition set_free :: "u64 \<Rightarrow> uheap \<Rightarrow> uheap" where
  "set_free b = upd_block b (\<lambda>m. m\<lparr>mb_size := mb_size m OR 1\<rparr>)"

definition is_free :: "u64 \<Rightarrow> uheap \<Rightarrow> bool" where
  "is_free b h \<longleftrightarrow> mb_size (blocks h b) AND 1 = 1"

definition set_used :: "u64 \<Rightarrow> uheap \<Rightarrow> uheap" where
  "set_used b = upd_block b (\<lambda>m. m\<lparr>mb_size := mb_size m XOR 1\<rparr>)"

definition real_size :: "u32 \<Rightarrow> u64" where
  "real_size sz = ucast (sz AND NOT 1)"

definition align :: "u64 \<Rightarrow> u32 \<Rightarrow> u64" where
  "align orig alignment =
     (let n = (orig div ucast alignment) * ucast alignment in
      if orig mod ucast alignment \<noteq> 0 then n + ucast alignment else n)"

definition insert_split :: "u64 \<Rightarrow> u64 \<Rightarrow> uheap \<Rightarrow> uheap" where
  "insert_split b new h =
     (let tmp = next_block (blocks h b);
          h = upd_block b (\<lambda>m. m\<lparr>next_block := new\<rparr>) h;
          h = upd_block new (\<lambda>m. m\<lparr>prev_block := b, next_block := tmp\<rparr>) h in
      if tmp \<noteq> 0 then upd_block tmp (\<lambda>m. m\<lparr>prev_block := new\<rparr>) h else h)"

section \<open>Splitting\<close>

text \<open>The new, used block is the end of the old one. \<open>name_split\<close> is \<open>"split"\<close> with its NUL.\<close>

definition name_split :: "u8 list" where "name_split = [115, 112, 108, 105, 116, 0]"

definition split :: "u64 \<Rightarrow> u64 \<Rightarrow> u32 \<Rightarrow> uheap \<Rightarrow> u64 \<times> uheap" where
  "split b block_size nbytes h =
     (let new = b + block_size - ucast nbytes;
          h = upd_block new (\<lambda>m. m\<lparr>mb_name := put_bytes (mb_name m) 0 name_split, mb_size := ucast nbytes,
                next_block := 0, prev_block := 0\<rparr>) h;
          h = upd_block b (\<lambda>m. m\<lparr>mb_size := block_size - ucast nbytes\<rparr>) h;
          h = (if \<not> is_free b h then set_free b h else h) in
      (new, insert_split b new h))"

text \<open>0 is NULL; \<open>safe\<close> tells why.\<close>

definition check_can_split :: "u64 \<Rightarrow> u32 \<Rightarrow> u32 \<Rightarrow> uheap \<Rightarrow> u64 \<times> uheap" where
  "check_can_split b block_size nbytes h =
     (let h = h\<lparr>safe := True\<rparr>; total = align (HDR + ucast nbytes) 16 in
      if b = 0 then (0, h\<lparr>safe := False\<rparr>)
      else if ucast block_size - total < MIN_BLOCK_SZ then (0, h\<lparr>safe := False\<rparr>)
      else if ucast block_size = total then (0, h)
      else split b (ucast block_size) (ucast total) h)"

section \<open>Finding a free block\<close>

definition take_whole :: "u64 \<Rightarrow> uheap \<Rightarrow> u64 \<times> uheap" where
  "take_whole b h = (b, remove_free b (set_used b h))"

fun first_fit_loop :: "nat \<Rightarrow> u64 \<Rightarrow> u32 \<Rightarrow> uheap \<Rightarrow> (u64 \<times> uheap) kres" where
  "first_fit_loop 0 b nbytes h = Blocked"
| "first_fit_loop (Suc fuel) b nbytes h =
     (if b = 0 then Ok (0, h)
      else
        let block_size = mb_size (blocks h b) in
        if block_size \<ge> ucast nbytes then
          let (res, h) = check_can_split b (ucast block_size) nbytes h in
          if res \<noteq> 0 then Ok (res, h)
          else if \<not> safe h then first_fit_loop fuel (next_free (blocks h b)) nbytes h
          else Ok (take_whole b h)
        else first_fit_loop fuel (next_free (blocks h b)) nbytes h)"

definition first_fit :: "nat \<Rightarrow> u32 \<Rightarrow> uheap \<Rightarrow> (u64 \<times> uheap) kres" where
  "first_fit fuel nbytes h = first_fit_loop fuel (free_list_head h) nbytes h"

text \<open>\<open>best_fit\<close> and \<open>worst_fit\<close> differ in which of two sizes they prefer.\<close>

fun fit_scan :: "nat \<Rightarrow> (u64 \<Rightarrow> u64 \<Rightarrow> bool) \<Rightarrow> u64 \<Rightarrow> u64 \<Rightarrow> u32 \<Rightarrow> uheap \<Rightarrow> u64 kres" where
  "fit_scan 0 better b best nbytes h = Blocked"
| "fit_scan (Suc fuel) better b best nbytes h =
     (if b = 0 then Ok best
      else
        let sz = mb_size (blocks h b) in
        fit_scan fuel better (next_free (blocks h b))
          (if sz \<ge> ucast nbytes \<and> (best = 0 \<or> better sz (mb_size (blocks h best))) then b else best) nbytes h)"

definition fit :: "nat \<Rightarrow> (u64 \<Rightarrow> u64 \<Rightarrow> bool) \<Rightarrow> u32 \<Rightarrow> uheap \<Rightarrow> (u64 \<times> uheap) kres" where
  "fit fuel better nbytes h =
     kbind (fit_scan fuel better (free_list_head h) 0 nbytes h) (\<lambda>best.
     if best = 0 then Ok (0, h)
     else
       let (res, h) = check_can_split best (ucast (mb_size (blocks h best))) nbytes h in
       if res \<noteq> 0 then Ok (res, h) else Ok (take_whole best h))"

definition best_fit :: "nat \<Rightarrow> u32 \<Rightarrow> uheap \<Rightarrow> (u64 \<times> uheap) kres" where
  "best_fit fuel = fit fuel (\<lambda>sz best. best > sz)"

definition worst_fit :: "nat \<Rightarrow> u32 \<Rightarrow> uheap \<Rightarrow> (u64 \<times> uheap) kres" where
  "worst_fit fuel = fit fuel (\<lambda>sz best. best < sz)"

definition fsm_find :: "nat \<Rightarrow> u32 \<Rightarrow> uheap \<Rightarrow> (u64 \<times> uheap) kres" where
  "fsm_find fuel nbytes h =
     (if fsm h = 0 then first_fit fuel nbytes h
      else if fsm h = 1 then best_fit fuel nbytes h
      else if fsm h = 2 then worst_fit fuel nbytes h
      else Ok (0, h))"

definition malloc_setfsm :: "int \<Rightarrow> uheap \<Rightarrow> uheap" where
  "malloc_setfsm choice h = h\<lparr>fsm := (if choice = 1 then 1 else if choice = 2 then 2 else 0)\<rparr>"

section \<open>malloc and free\<close>

text \<open>\<open>sbrk\<close>'s argument is an \<open>int\<close>.\<close>

definition sbrk :: "int \<Rightarrow> uheap \<Rightarrow> u64 \<times> uheap" where
  "sbrk n h =
     (if uint (brk h) + n > uint (limit h) \<or> uint (brk h) + n < 0 then (- 1, h)
      else (brk h, h\<lparr>brk := brk h + of_int n\<rparr>))"

definition malloc :: "nat \<Rightarrow> u32 \<Rightarrow> uheap \<Rightarrow> (u64 \<times> uheap) kres" where
  "malloc fuel nbytes h =
     kbind (fsm_find fuel nbytes h) (\<lambda>(found, h).
     if found \<noteq> 0 then Ok (found + HDR, h)
     else
       let block_size = align (ucast nbytes + HDR) 16;
           total_size = align block_size PAGE_SZ;
           (b, h) = sbrk (sint (ucast total_size :: u32)) h in
       if b = - 1 then Fault
       else
         let h = upd_block b (\<lambda>m. m\<lparr>mb_name := put_bytes (mb_name m) 0 [0], mb_size := total_size, next_block := 0,
                   prev_block := 0\<rparr>) h;
             h = add_block b h;
             (res, h) = check_can_split b (ucast total_size) nbytes h in
         if res \<noteq> 0 then Ok (res + HDR, add_free b (set_free b h)) else Ok (b + HDR, h))"

definition free :: "u64 \<Rightarrow> uheap \<Rightarrow> uheap" where
  "free ap h = (let b = ap - HDR in add_free b (set_free b h))"

text \<open>\<open>malloc_print\<close>: what it prints of each block, and the free list.\<close>

fun print_blocks :: "nat \<Rightarrow> u64 \<Rightarrow> uheap \<Rightarrow> (u64 \<times> u64 \<times> u64 \<times> bool \<times> u8 list) list kres" where
  "print_blocks 0 b h = Blocked"
| "print_blocks (Suc fuel) b h =
     (if b = 0 then Ok []
      else
        let m = blocks h b in
        kbind (print_blocks fuel (next_block m) h) (\<lambda>rest.
        Ok ((b, b + mb_size m, real_size (ucast (mb_size m)), is_free b h, takeWhile (\<lambda>c. c \<noteq> 0) (mb_name m)) # rest)))"

fun print_frees :: "nat \<Rightarrow> u64 \<Rightarrow> uheap \<Rightarrow> u64 list kres" where
  "print_frees 0 b h = Blocked"
| "print_frees (Suc fuel) b h =
     (if b = 0 then Ok [] else kbind (print_frees fuel (next_free (blocks h b)) h) (\<lambda>rest. Ok (b # rest)))"

definition malloc_print :: "nat \<Rightarrow> uheap \<Rightarrow> ((u64 \<times> u64 \<times> u64 \<times> bool \<times> u8 list) list \<times> u64 list) kres" where
  "malloc_print fuel h =
     kbind (print_blocks fuel (block_list_head h) h) (\<lambda>bs.
     kbind (print_frees fuel (free_list_head h) h) (\<lambda>fs. Ok (bs, fs)))"

text \<open>\<open>malloc_name\<close> keeps seven characters.\<close>

definition malloc_name :: "u64 \<Rightarrow> u8 list \<Rightarrow> uheap \<Rightarrow> uheap" where
  "malloc_name ap name =
     upd_block (ap - HDR) (\<lambda>m. m\<lparr>mb_name := put_bytes (mb_name m) 0 (take 7 (takeWhile (\<lambda>c. c \<noteq> 0) name) @ [0])\<rparr>)"

section \<open>Sizes\<close>

lemma round_16:
  fixes a :: nat
  shows "a mod 16 = 0 \<Longrightarrow> a div 16 = (a + 15) div 16" "a mod 16 \<noteq> 0 \<Longrightarrow> a div 16 * 16 + 16 = 16 * ((a + 15) div 16)"
    "a + 32 \<le> 16 * ((a + 47) div 16)"
proof -
  have e: "16 * (a div 16) + a mod 16 = a" by simp
  show "a mod 16 = 0 \<Longrightarrow> a div 16 = (a + 15) div 16" using e by (intro div_nat_eqI [symmetric]) auto
  show "a div 16 * 16 + 16 = 16 * ((a + 15) div 16)" if "a mod 16 \<noteq> 0"
  proof -
    have "16 * (a div 16) + 1 \<le> a" "a < 16 * (a div 16) + 16" using that e mod_less_divisor [of 16 a] by linarith+
    then have "(a + 15) div 16 = a div 16 + 1" by (intro div_nat_eqI) auto
    then show ?thesis by simp
  qed
  show "a + 32 \<le> 16 * ((a + 47) div 16)"
    using div_mult_mod_eq [of "a + 47" 16] mod_less_divisor [of 16 "a + 47"] by linarith
qed

lemma unat_align16:
  assumes "unat x + 16 < 2 ^ 64"
  shows "unat (align x 16) = 16 * ((unat x + 15) div 16)"
proof -
  have q: "unat (x div 16) = unat x div 16" "unat (x mod 16) = unat x mod 16"
    by (simp_all add: unat_div_distrib unat_mod_distrib)
  have m: "unat (x div 16 * 16) = unat x div 16 * 16"
    using assms q by (simp add: unat_word_ariths)
  have z: "x mod 16 = 0 \<longleftrightarrow> unat x mod 16 = 0" by (simp add: q(2) [symmetric] unat_eq_0)
  show ?thesis
  proof (cases "unat x mod 16 = 0")
    case True
    then have "unat (align x 16) = unat x div 16 * 16" using z m by (simp add: align_def Let_def)
    also have "unat x div 16 = (unat x + 15) div 16" by (rule round_16(1) [OF True])
    finally show ?thesis by (simp only: mult.commute)
  next
    case False
    then have a: "align x 16 = x div 16 * 16 + 16" using z by (simp add: align_def Let_def)
    have "unat x div 16 * 16 \<le> unat x" by simp
    then have "unat (x div 16 * 16 + 16) = unat x div 16 * 16 + 16"
      using assms m by (subst unat_word_ariths) simp
    also have "\<dots> = 16 * ((unat x + 15) div 16)" by (rule round_16(2) [OF False])
    finally show ?thesis unfolding a .
  qed
qed

text \<open>What a request of \<open>n\<close> bytes takes, header included.\<close>

definition total_size :: "u32 \<Rightarrow> nat" where
  "total_size n = 16 * ((unat n + 47) div 16)"

lemma total_size:
  assumes "unat n + 64 < 2 ^ 32"
  shows "unat (align (HDR + ucast n) 16) = total_size n" "total_size n < 2 ^ 32" "unat n + 32 \<le> total_size n"
    "unat (ucast (ucast (align (HDR + ucast n) 16) :: u32) :: u64) = total_size n"
proof -
  have u: "unat (HDR + ucast n) = unat n + 32"
    using assms by (simp add: unat_word_ariths unsigned_ucast_eq take_bit_eq_mod)
  have "unat (HDR + ucast n) + 16 < 2 ^ 64" unfolding u using assms by simp
  from unat_align16 [OF this] show t: "unat (align (HDR + ucast n) 16) = total_size n" unfolding u total_size_def by simp
  show "unat n + 32 \<le> total_size n" unfolding total_size_def by (rule round_16(3))
  have "total_size n \<le> unat n + 47" unfolding total_size_def by simp
  then show l: "total_size n < 2 ^ 32" using assms by simp
  show "unat (ucast (ucast (align (HDR + ucast n) 16) :: u32) :: u64) = total_size n"
    using l t by (simp add: unsigned_ucast_eq take_bit_eq_mod unat_mod_distrib)
qed

section \<open>What malloc returns\<close>

lemma check_can_split_spec:
  assumes "b \<noteq> 0" "unat n + 64 < 2 ^ 32" "unat b + unat sz < 2 ^ 64"
    and "if total_size n \<le> unat sz then total_size n + 48 \<le> unat sz else total_size n < unat b + unat sz"
  shows "\<exists>h'. check_can_split b sz n h = (b + ucast sz - of_nat (total_size n), h') \<and>
    b + ucast sz - of_nat (total_size n) \<noteq> 0 \<and> fsm h' = fsm h \<and> safe h'"
proof -
  let ?t = "align (HDR + ucast n) 16" and ?T = "total_size n"
  note T = total_size [OF assms(2)]
  have tT: "?t = of_nat ?T" by (simp flip: T(1))
  have T64: "?T < 2 ^ 64" using T(2) by simp
  have "unat sz < 2 ^ 32" using unsigned_less [of sz] by simp
  then have s: "unat (ucast sz :: u64) = unat sz" by (simp add: unsigned_ucast_eq take_bit_eq_mod)
  have big: "\<not> (ucast sz :: u64) - ?t < MIN_BLOCK_SZ"
  proof (cases "?T \<le> unat sz")
    case True
    then have "unat ((ucast sz :: u64) - ?t) = unat sz - ?T" using s T(1) by (subst unat_sub) (simp_all add: word_le_nat_alt)
    then show ?thesis using assms(4) True by (simp add: word_less_nat_alt)
  next
    case False
    then have "unat ((ucast sz :: u64) - ?t) = 2 ^ 64 + unat sz - ?T"
      using s T(1) by (simp add: unat_sub_if_size word_size word_le_nat_alt)
    then show ?thesis using T(2) by (simp add: word_less_nat_alt)
  qed
  have neq: "(ucast sz :: u64) \<noteq> ?t"
  proof
    assume "(ucast sz :: u64) = ?t"
    then have "unat sz = ?T" using s T(1) by metis
    then show False using assms(4) by simp
  qed
  have "unat (b + ucast sz) = unat b + unat sz" using assms(3) s by (simp add: unat_word_ariths)
  moreover have "?T < unat b + unat sz" using assms(1,4) by (auto simp: unat_gt_0 split: if_splits)
  moreover have "unat (of_nat ?T :: u64) = ?T" using T64 by (simp add: unat_of_nat take_bit_eq_mod)
  ultimately have "b + ucast sz \<noteq> of_nat ?T" by (metis nat_neq_iff)
  then have nz: "b + ucast sz - of_nat ?T \<noteq> 0" by simp
  have cut: "ucast (ucast ?t :: u32) = (of_nat ?T :: u64)"
    by (simp flip: T(4))
  show ?thesis
    using assms(1) big neq nz
    by (simp add: check_can_split_def Let_def split_def cut insert_split_def upd_block_def set_free_def)
qed

lemma first_fit_spec:
  assumes "b \<noteq> 0" "unat n + 64 < 2 ^ 32" "unat b + unat (mb_size (blocks h b)) < 2 ^ 64" "unat (mb_size (blocks h b)) < 2 ^ 32"
    and "unat n \<le> unat (mb_size (blocks h b))"
    and "if total_size n \<le> unat (mb_size (blocks h b)) then total_size n + 48 \<le> unat (mb_size (blocks h b))
         else total_size n < unat b + unat (mb_size (blocks h b))"
  shows "\<exists>h'. first_fit_loop (Suc fuel) b n h = Ok (b + mb_size (blocks h b) - of_nat (total_size n), h') \<and>
    b + mb_size (blocks h b) - of_nat (total_size n) \<noteq> 0"
proof -
  let ?sz = "mb_size (blocks h b)"
  have c: "ucast (ucast ?sz :: u32) = ?sz" "unat (ucast ?sz :: u32) = unat ?sz"
    using assms(4) by (auto simp: word_unat_eq_iff unsigned_ucast_eq take_bit_eq_mod unat_mod_distrib)
  have le: "?sz \<ge> ucast n"
    using assms(5) unsigned_less [of n] by (simp add: word_le_nat_alt unsigned_ucast_eq take_bit_eq_mod)
  have "unat b + unat (ucast ?sz :: u32) < 2 ^ 64"
    "if total_size n \<le> unat (ucast ?sz :: u32) then total_size n + 48 \<le> unat (ucast ?sz :: u32)
     else total_size n < unat b + unat (ucast ?sz :: u32)"
    unfolding c using assms(3,6) by simp_all
  from check_can_split_spec [OF assms(1,2) this, of h] obtain h' where
      "check_can_split b (ucast ?sz) n h = (b + ?sz - of_nat (total_size n), h')" "b + ?sz - of_nat (total_size n) \<noteq> 0"
    unfolding c by blast
  then show ?thesis using assms(1) le by (simp add: Let_def)
qed

lemma odd_unat: "odd (unat (x :: u64)) \<longleftrightarrow> odd x"
proof -
  have "bit (unat x) 0 \<longleftrightarrow> bit x 0" by (simp add: bit_unsigned_iff)
  then show ?thesis by (simp add: bit_0)
qed

text \<open>C30: With first fit, a request that reuses a block of the free list is cut out of the block as if the free
  mark, bit 0 of its size field, were part of the size: the memory returned begins at an address one past
  an aligned one and its last byte is the first byte after the block. If the block is smaller than request
  and header but not than the request, an unsigned difference wraps and the memory returned even begins
  below the free block, in its neighbour. (A block that is too small by less than a minimal block is
  passed over.)\<close>

theorem malloc_reuse_leaves_the_block:
  assumes "fsm h = 0" "b = free_list_head h" "b \<noteq> 0" "sz = mb_size (blocks h b)" "is_free b h"
    and "unat sz < 2 ^ 32" "unat b + unat sz < 2 ^ 64" "unat n \<le> unat sz" "unat n + 64 < 2 ^ 32"
    and "if total_size n \<le> unat sz then total_size n + 48 \<le> unat sz else total_size n < unat b + unat sz"
  shows "\<exists>h' p. malloc (Suc fuel) n h = Ok (p + HDR, h') \<and> odd (unat (p - b)) \<and>
    p + of_nat (total_size n) = b + (sz - 1) + 1 \<and>
    (if total_size n \<le> unat sz then b \<le> p else p < b)"
proof -
  let ?p = "b + sz - of_nat (total_size n)"
  obtain h' where f: "first_fit_loop (Suc fuel) b n h = Ok (?p, h')" "?p \<noteq> 0"
    using first_fit_spec [of b n h fuel] assms(2-4,6-10) by auto
  then have "malloc (Suc fuel) n h = Ok (?p + HDR, h')"
    using assms(1,2) by (simp add: malloc_def fsm_find_def first_fit_def)
  moreover have "odd (unat (?p - b))"
  proof -
    have o: "odd sz" using assms(4,5) by (simp add: is_free_def and_one_eq odd_iff_mod_2_eq_one)
    have "even (of_nat (total_size n) :: u64)" by (simp add: total_size_def)
    then have "odd (sz - of_nat (total_size n))" using o by simp
    moreover have "?p - b = sz - of_nat (total_size n)" by simp
    ultimately show ?thesis using odd_unat by simp
  qed
  moreover have "if total_size n \<le> unat sz then b \<le> ?p else ?p < b"
  proof -
    have T: "unat (of_nat (total_size n) :: u64) = total_size n"
      using total_size(2) [OF assms(9)] by (simp add: unat_of_nat take_bit_eq_mod)
    have bs: "unat (b + sz) = unat b + unat sz" using assms(7) by (simp add: unat_word_ariths)
    have "total_size n \<le> unat b + unat sz" using assms(10) by (auto split: if_splits)
    then have "unat ?p = unat b + unat sz - total_size n"
      using T bs by (subst unat_sub) (simp_all add: word_le_nat_alt)
    then show ?thesis using assms(10) by (auto simp: word_le_nat_alt word_less_nat_alt split: if_splits)
  qed
  ultimately show ?thesis by (intro exI [of _ h'] exI [of _ ?p]) simp
qed

text \<open>A free block of 64 bytes at address 4096; 60 bytes are asked for.\<close>

definition demo_heap :: uheap where
  "demo_heap = \<lparr>blocks = (\<lambda>_. \<lparr>mb_name = replicate 8 0, mb_size = 65, next_block = 0, prev_block = 0, next_free = 0,
       prev_free = 0\<rparr>),
     fsm = 0, safe = True, block_list_head = 4096, block_list_tail = 4096, free_list_head = 4096,
     free_list_tail = 4096, brk = 8192, limit = 65536\<rparr>"

lemma malloc_reuse_leaves_the_block_witness:
  "\<exists>h' p. malloc 1 60 demo_heap = Ok (p + 32, h') \<and> p < 4096"
proof -
  have t: "total_size 60 = 96" by (simp add: total_size_def)
  have h: "fsm demo_heap = 0" "4096 = free_list_head demo_heap" "65 = mb_size (blocks demo_heap 4096)"
      "is_free 4096 demo_heap" by (simp_all add: demo_heap_def is_free_def)
  show ?thesis
    using malloc_reuse_leaves_the_block [OF h(1,2) _ h(3,4), of 60 0] by (auto simp: t)
qed

end
