(* ===== verification/ULib.thy ===== *)
theory ULib imports KString begin

text \<open>
  The C library of the user programs, user/ulib.c. Routines that only read take the bytes their pointers
  reach, up to the NUL or the end of the list; \<open>umemset\<close>, \<open>umemmove\<close> and \<open>umemcpy\<close> act on the memory of theory
  Memory. \<open>next_token\<close>, \<open>fgets\<close> and \<open>getline\<close> act on a buffer, a list, with positions for pointers into it.
  The input of a file descriptor is the list of bytes that \<open>read\<close> will deliver before it returns less
  than 1. The names that the kernel's string.c has too get a \<open>u\<close> in front.
\<close>

section \<open>Strings\<close>

text \<open>What \<open>strcpy\<close> stores.\<close>

fun ustrcpy :: "u8 list \<Rightarrow> u8 list" where
  "ustrcpy [] = [0]"
| "ustrcpy (c # t) = (if c = 0 then [0] else c # ustrcpy t)"

fun ustrcmp :: "u8 list \<Rightarrow> u8 list \<Rightarrow> int" where
  "ustrcmp (p # ps) (q # qs) = (if p \<noteq> 0 \<and> p = q then ustrcmp ps qs else uint p - uint q)"
| "ustrcmp (p # ps) [] = uint p"
| "ustrcmp [] (q # qs) = - uint q"
| "ustrcmp [] [] = 0"

text \<open>\<open>strspn\<close>: the inner loop looks for the character among \<open>chars\<close>, whose NUL ends it. \<open>strcspn\<close> also
  stops at the NUL of the string.\<close>

fun ustrspn :: "u8 list \<Rightarrow> u8 list \<Rightarrow> nat" where
  "ustrspn [] chars = 0"
| "ustrspn (c # s) chars = (if c = 0 \<or> c \<notin> set (cstr chars) then 0 else Suc (ustrspn s chars))"

fun ustrcspn :: "u8 list \<Rightarrow> u8 list \<Rightarrow> nat" where
  "ustrcspn [] chars = 0"
| "ustrcspn (c # s) chars = (if c = 0 \<or> c \<in> set (cstr chars) then 0 else Suc (ustrcspn s chars))"

text \<open>The character at a position of a buffer; behind its end is the NUL.\<close>

definition char_at :: "u8 list \<Rightarrow> nat \<Rightarrow> u8" where
  "char_at buf p = (if p < length buf then buf ! p else 0)"

text \<open>\<open>next_token\<close>: the buffer and \<open>*str_ptr\<close> (\<open>None\<close> is NULL); the result is the start of the token.\<close>

definition next_token :: "u8 list \<Rightarrow> u8 list \<times> nat option \<Rightarrow> nat option \<times> u8 list \<times> nat option" where
  "next_token delim = (\<lambda>(buf, str_ptr).
     case str_ptr of None \<Rightarrow> (None, buf, None)
     | Some p \<Rightarrow>
       let tok_start = ustrspn (drop p buf) delim;
           tok_end = ustrcspn (drop (p + tok_start) buf) delim in
       if tok_end = 0 then (None, buf, None)
       else
         let current = p + tok_start; q = current + tok_end in
         if char_at buf q = 0 then (Some current, buf, None)
         else (Some current, buf[q := 0], Some (q + 1)))"

fun ustrlen :: "u8 list \<Rightarrow> nat" where
  "ustrlen [] = 0"
| "ustrlen (c # s) = (if c = 0 then 0 else Suc (ustrlen s))"

fun ustrchr :: "u8 list \<Rightarrow> u8 \<Rightarrow> nat option" where
  "ustrchr [] c = None"
| "ustrchr (x # s) c = (if x = 0 then None else if x = c then Some 0 else map_option Suc (ustrchr s c))"

fun uatoi_loop :: "int \<Rightarrow> u8 list \<Rightarrow> int" where
  "uatoi_loop n [] = n"
| "uatoi_loop n (c # s) = (if 48 \<le> c \<and> c \<le> 57 then uatoi_loop (n * 10 + uint c - 48) s else n)"

definition uatoi :: "u8 list \<Rightarrow> int" where
  "uatoi s = uatoi_loop 0 s"

section \<open>Memory\<close>

fun umemset :: "memory \<Rightarrow> u64 \<Rightarrow> u8 \<Rightarrow> nat \<Rightarrow> memory" where
  "umemset m dst c 0 = m"
| "umemset m dst c (Suc n) = umemset (m(dst := c)) (dst + 1) c n"

text \<open>The direction is chosen by the order of the pointers alone. A negative \<open>n\<close> copies nothing.\<close>

definition umemmove :: "memory \<Rightarrow> u64 \<Rightarrow> u64 \<Rightarrow> int \<Rightarrow> memory" where
  "umemmove m dst src n =
     (if src > dst then copy_up m dst src (nat n) else copy_down m (dst + of_int n) (src + of_int n) (nat n))"

fun umemcmp :: "memory \<Rightarrow> u64 \<Rightarrow> u64 \<Rightarrow> nat \<Rightarrow> int" where
  "umemcmp m p1 p2 0 = 0"
| "umemcmp m p1 p2 (Suc n) = (if m p1 \<noteq> m p2 then uint (m p1) - uint (m p2) else umemcmp m (p1 + 1) (p2 + 1) n)"

definition umemcpy :: "memory \<Rightarrow> u64 \<Rightarrow> u64 \<Rightarrow> int \<Rightarrow> memory" where
  "umemcpy = umemmove"

section \<open>Input\<close>

text \<open>The loop of \<open>fgets\<close> on the part of the buffer from \<open>off\<close> on.\<close>

function fgets_loop :: "nat \<Rightarrow> nat \<Rightarrow> nat \<Rightarrow> u8 list \<Rightarrow> u8 list \<Rightarrow> nat \<times> u8 list \<times> u8 list" where
  "fgets_loop off maxlen i buf inp =
     (if i + 1 < maxlen then
        case inp of [] \<Rightarrow> (i, buf, [])
        | c # inp \<Rightarrow>
          let buf = buf[off + i := c] in
          if c = 10 \<or> c = 13 then (i + 1, buf, inp) else fgets_loop off maxlen (i + 1) buf inp
      else (i, buf, inp))"
  by pat_completeness auto
termination
  by (relation "measure (\<lambda>(off, maxlen, i, buf, inp). maxlen - i)") auto

declare fgets_loop.simps [simp del]

definition fgets :: "u8 list \<Rightarrow> nat \<Rightarrow> nat \<Rightarrow> u8 list \<Rightarrow> nat \<times> u8 list \<times> u8 list" where
  "fgets buf off maxlen inp =
     (let (i, buf, inp) = fgets_loop off maxlen 0 buf inp in (i, buf[off + i := 0], inp))"

definition gets :: "u8 list \<Rightarrow> nat \<Rightarrow> u8 list \<Rightarrow> u8 list \<times> u8 list" where
  "gets buf maxlen inp = (let (i, buf, inp) = fgets buf 0 maxlen inp in (buf, inp))"

text \<open>What \<open>fgets\<close> reads: \<open>c\<close> is a piece of the input in which only the last byte may end a line.\<close>

definition piece_of :: "nat \<Rightarrow> u8 list \<Rightarrow> u8 list \<Rightarrow> bool" where
  "piece_of k c inp \<longleftrightarrow> length c \<le> k \<and> (\<exists>rest. inp = c @ rest) \<and> 10 \<notin> set (butlast c) \<and> (c = [] \<longrightarrow> inp = [] \<or> k = 0)"

lemma fgets_loop_spec:
  assumes "off + maxlen \<le> length buf" "fgets_loop off maxlen i buf inp = (j, buf', inp')"
  shows "\<exists>c. piece_of (maxlen - 1 - i) c inp \<and> j = i + length c \<and> buf' = put_bytes buf (off + i) c \<and> inp' = drop (length c) inp"
  using assms
proof (induction off maxlen i buf inp rule: fgets_loop.induct)
  case (1 off maxlen i buf inp)
  note unf = "1.prems"(2) [unfolded fgets_loop.simps [of off maxlen i]]
  show ?case
  proof (cases "i + 1 < maxlen \<and> inp \<noteq> []")
    case False
    then show ?thesis using unf by (intro exI [of _ "[]"]) (auto simp: piece_of_def put_bytes_def split: list.splits if_splits)
  next
    case True
    then obtain x xs where inp: "inp = x # xs" by (cases inp) auto
    have one: "buf[off + i := x] = put_bytes buf (off + i) [x]"
      using True "1.prems"(1) by (simp add: put_bytes_def upd_conv_take_nth_drop)
    show ?thesis
    proof (cases "x = 10 \<or> x = 13")
      case nl: True
      then show ?thesis using unf True inp one by (intro exI [of _ "[x]"]) (auto simp: piece_of_def)
    next
      case False
      then have "fgets_loop off maxlen (i + 1) (buf[off + i := x]) xs = (j, buf', inp')" using unf True inp by simp
      from "1.IH" [OF _ inp refl False _ this] True "1.prems"(1) obtain c where
          c: "piece_of (maxlen - 1 - (i + 1)) c xs" "j = i + 1 + length c"
            "buf' = put_bytes (buf[off + i := x]) (off + (i + 1)) c" "inp' = drop (length c) xs" by auto
      have "length c \<le> maxlen - 1 - (i + 1)" using c(1) by (simp add: piece_of_def)
      then have "buf' = put_bytes buf (off + i) (x # c)"
        using c(3) True "1.prems"(1) unfolding one by (simp add: put_bytes_def take_Cons' min_def add.commute)
      moreover have "piece_of (maxlen - 1 - i) (x # c) inp"
        using c(1) True inp False by (auto simp: piece_of_def)
      ultimately show ?thesis using c(2,4) inp by (intro exI [of _ "x # c"]) simp
    qed
  qed
qed

lemma fgets_spec:
  assumes "off + maxlen \<le> length buf" "0 < maxlen" "fgets buf off maxlen inp = (r, buf', inp')"
  obtains c where "piece_of (maxlen - 1) c inp" "r = length c" "buf' = put_bytes buf off (c @ [0])" "inp' = drop r inp"
proof -
  obtain j b i where l: "fgets_loop off maxlen 0 buf inp = (j, b, i)" by (metis prod_cases3)
  from fgets_loop_spec [OF assms(1) l] obtain c where c: "piece_of (maxlen - 1) c inp" "j = length c" "b = put_bytes buf off c"
      "i = drop (length c) inp" by auto
  have "length c < maxlen" using c(1) assms(2) by (auto simp: piece_of_def)
  then have u: "(put_bytes buf off c)[off + length c := 0] = put_bytes buf off (c @ [0])"
    using assms(1) by (simp add: put_bytes_def upd_conv_take_nth_drop min_def)
  have "r = length c" "buf' = (put_bytes buf off c)[off + length c := 0]" "inp' = drop (length c) inp"
    using assms(3) unfolding fgets_def l c by (auto simp: Let_def)
  then show ?thesis using that [of c] c(1) u by simp
qed

lemma fgets_loop_consumes: "fgets_loop off maxlen i buf inp = (j, buf', inp') \<Longrightarrow> i < j \<Longrightarrow> length inp' < length inp"
  and fgets_loop_le: "fgets_loop off maxlen i buf inp = (j, buf', inp') \<Longrightarrow> length inp' \<le> length inp"
proof -
  show le: "fgets_loop off maxlen i buf inp = (j, buf', inp') \<Longrightarrow> length inp' \<le> length inp" for off maxlen i buf inp j buf' inp'
  proof (induction off maxlen i buf inp rule: fgets_loop.induct)
    case (1 off maxlen i buf inp)
    then show ?case
      by (subst (asm) (2) fgets_loop.simps) (fastforce split: if_splits list.splits simp: Let_def)
  qed
  show "fgets_loop off maxlen i buf inp = (j, buf', inp') \<Longrightarrow> i < j \<Longrightarrow> length inp' < length inp"
    by (subst (asm) fgets_loop.simps) (auto split: if_splits list.splits simp: Let_def dest: le)
qed

text \<open>\<open>getline\<close>'s loop. \<open>fresh n\<close> is what \<open>malloc(n)\<close> finds in the \<open>n\<close> bytes it returns. (The branch for \<open>-1\<close>
  is never taken: \<open>fgets\<close> does not return it.)\<close>

function getline_loop ::
    "(nat \<Rightarrow> u8 list) \<Rightarrow> nat \<Rightarrow> u8 list \<Rightarrow> u8 list \<Rightarrow> nat \<times> u8 list \<times> u8 list" where
  "getline_loop fresh total_read buf inp =
     (let (r, buf, inp) = fgets buf total_read (length buf - total_read) inp in
      if r = 0 then (total_read, buf, inp)
      else
        let total_read = total_read + r in
        if buf ! (total_read - 1) = 10 then (total_read, buf, inp)
        else getline_loop fresh total_read (put_bytes (fresh (2 * length buf)) 0 buf) inp)"
  by pat_completeness auto
termination
  by (relation "measure (\<lambda>(fresh, total_read, buf, inp). length inp)")
    (auto simp: fgets_def Let_def split: prod.splits dest: fgets_loop_consumes)

declare getline_loop.simps [simp del]

text \<open>\<open>getline\<close>: \<open>*lineptr\<close> is \<open>None\<close> for a null pointer, \<open>*n\<close> the length of the buffer.\<close>

definition getline :: "(nat \<Rightarrow> u8 list) \<Rightarrow> u8 list option \<Rightarrow> nat \<Rightarrow> u8 list \<Rightarrow> (nat \<times> u8 list \<times> u8 list) kres" where
  "getline fresh lineptr n inp =
     (case lineptr of
        None \<Rightarrow> if n = 0 then Ok (getline_loop fresh 0 (fresh 128) inp) else Fault
      | Some buf \<Rightarrow> Ok (getline_loop fresh 0 buf inp))"

text \<open>\<open>stat\<close>, over the system calls.\<close>

definition ustat :: "('s \<Rightarrow> int \<times> 's) \<Rightarrow> (int \<Rightarrow> 's \<Rightarrow> int \<times> 's) \<Rightarrow> (int \<Rightarrow> 's \<Rightarrow> 's) \<Rightarrow> 's \<Rightarrow> int \<times> 's" where
  "ustat open_n fstat close_fd s =
     (let (fd, s) = open_n s in
      if fd < 0 then (- 1, s) else let (r, s) = fstat fd s in (r, close_fd fd s))"

section \<open>Lines\<close>

text \<open>The first line of the input, with its newline if it has one.\<close>

definition first_line :: "u8 list \<Rightarrow> u8 list" where
  "first_line inp = takeWhile (\<lambda>c. c \<noteq> 10) inp @ (if 10 \<in> set inp then [10] else [])"

lemma first_line_piece:
  assumes "10 \<notin> set c"
  shows "first_line (c @ rest) = c @ first_line rest"
proof -
  have "takeWhile (\<lambda>x. x \<noteq> 10) (c @ rest) = c @ takeWhile (\<lambda>x. x \<noteq> 10) rest"
    by (rule takeWhile_append2) (use assms in auto)
  then show ?thesis using assms by (simp add: first_line_def)
qed

lemma first_line_end: "10 \<notin> set c \<Longrightarrow> first_line (c @ 10 # rest) = c @ [10]"
  by (subst first_line_piece) (simp_all add: first_line_def)

lemma getline_loop_spec:
  assumes fresh: "\<And>n. length (fresh n) = n"
  shows "total_read + 2 \<le> length buf \<Longrightarrow> getline_loop fresh total_read buf inp = (n, buf', inp') \<Longrightarrow>
    n = total_read + length (first_line inp) \<and> n < length buf' \<and>
    take n buf' = take total_read buf @ first_line inp \<and> buf' ! n = 0 \<and> inp' = drop (length (first_line inp)) inp"
proof (induction "length inp" arbitrary: total_read buf inp rule: less_induct)
  case less
  obtain r b i where f: "fgets buf total_read (length buf - total_read) inp = (r, b, i)" by (metis prod_cases3)
  obtain c where c: "piece_of (length buf - total_read - 1) c inp" "r = length c" "b = put_bytes buf total_read (c @ [0])"
      "i = drop r inp"
    using fgets_spec [OF _ _ f] less.prems(1) by auto
  obtain rest where rest: "inp = c @ rest" "i = rest" using c by (auto simp: piece_of_def)
  have lc: "length c \<le> length buf - total_read - 1" using c(1) by (simp add: piece_of_def)
  then have b: "length b = length buf" "take (total_read + r) b = take total_read buf @ c" "b ! (total_read + r) = 0"
    using c(2,3) less.prems(1) by (simp_all add: put_bytes_def nth_append)
  show ?case
  proof (cases "c = []")
    case True
    then have "inp = []" using c(1) less.prems(1) by (auto simp: piece_of_def)
    then show ?thesis
      using less.prems True c(2) f b by (subst (asm) getline_loop.simps) (auto simp: first_line_def rest)
  next
    case False
    let ?t = "total_read + r"
    have lastc: "b ! (?t - 1) = List.last c"
    proof -
      have "b ! (?t - 1) = (take ?t b) ! (?t - 1)" using False c(2) by simp
      also have "\<dots> = c ! (length c - 1)" unfolding b(2) using False c(2) less.prems(1) by (cases c) (simp_all add: nth_append)
      finally show ?thesis using False by (simp add: last_conv_nth)
    qed
    have cl: "c = butlast c @ [List.last c]" using False by simp
    have nl: "10 \<notin> set (butlast c)" using c(1) by (simp add: piece_of_def)
    show ?thesis
    proof (cases "List.last c = 10")
      case True
      then have "first_line inp = c" using first_line_end [OF nl, of rest] cl rest(1) by (metis append.assoc append_Cons append_Nil)
      then show ?thesis
        using less.prems f False True lastc c(2,4) b lc by (subst (asm) getline_loop.simps) auto
    next
      case no: False
      let ?new = "put_bytes (fresh (2 * length b)) 0 b"
      have ln: "length ?new = 2 * length buf" using fresh b(1) by (simp add: put_bytes_def)
      have "10 \<notin> set c" using nl no cl by (metis Un_iff empty_iff insert_iff list.set set_append)
      then have fl: "first_line inp = c @ first_line rest" unfolding rest(1) by (rule first_line_piece)
      have "getline_loop fresh ?t ?new rest = (n, buf', inp')"
        using less.prems(2) f False no lastc c(2) rest by (subst (asm) getline_loop.simps) simp
      moreover have "length rest < length inp" "?t + 2 \<le> length ?new"
        using False rest(1) ln lc c(2) less.prems(1) by (auto simp: length_greater_0_conv [symmetric] simp del: length_greater_0_conv)
      ultimately have "n = ?t + length (first_line rest) \<and> n < length buf' \<and>
          take n buf' = take ?t ?new @ first_line rest \<and> buf' ! n = 0 \<and> inp' = drop (length (first_line rest)) rest"
        using less.hyps by blast
      moreover have "take ?t ?new = take total_read buf @ c"
        using b lc c(2) less.prems(1) by (simp add: put_bytes_def)
      ultimately show ?thesis using fl c(2) rest(1) by auto
    qed
  qed
qed



end
