(* ===== verification/Pipeline.thy ===== *)
theory Pipeline imports ULib begin

text \<open>
  Command lines of the Boogshell, user/boogsh.c: \<open>parse_and_run_cmd\<close> and \<open>execute_pipeline\<close>.

  Parsing works in the line itself: tokens are positions in the buffer, which \<open>next_token\<close> (theory ULib)
  cuts by storing NULs. Running a pipeline is modelled through the descriptor table of the process: a
  table of 16 entries that \<open>pipe\<close>, \<open>dup\<close>, \<open>open\<close> and \<open>close\<close> change as the kernel does, always taking
  the lowest free entry. A \<open>fork\<close> gives the child its own copy; the result is the list of all the
  processes that reach \<open>exec\<close>, each with its arguments and its table. Memory does not run out and \<open>fork\<close>
  does not fail; \<open>open\<close> fails as the parameter \<open>can_open\<close> says; \<open>pipe\<close>, whose result the shell does not
  check, fails when fewer than two entries are free, and the shell then uses an uninitialised array: a
  \<open>Fault\<close>.
\<close>

section \<open>Parsing\<close>

record command =
  tokens :: "nat list"
  stdout_pipe :: bool
  append :: bool
  stdout_file :: "nat option"
  stdin_file :: "nat option"

text \<open>Every token moves the pointer forward.\<close>

definition ptr_left :: "u8 list \<Rightarrow> nat option \<Rightarrow> nat" where
  "ptr_left buf ptr = (case ptr of None \<Rightarrow> 0 | Some p \<Rightarrow> Suc (length buf - p))"

lemma ustrspn_le: "ustrspn s cs \<le> length s" and ustrcspn_le: "ustrcspn s cs \<le> length s"
  by (induction s) auto

lemma next_token_forward:
  assumes "next_token delim (buf, ptr) = (Some t, buf', ptr')"
  shows "length buf' = length buf" "ptr_left buf' ptr' < ptr_left buf ptr" "t < length buf"
proof -
  obtain p where p: "ptr = Some p" using assms by (cases ptr) (auto simp: next_token_def)
  let ?a = "ustrspn (drop p buf) delim"
  let ?n = "ustrcspn (drop (p + ?a) buf) delim"
  have n: "?n \<noteq> 0" using assms p by (auto simp: next_token_def Let_def split: if_splits)
  have le: "?n \<le> length buf - (p + ?a)" using ustrcspn_le [of "drop (p + ?a) buf" delim] by simp
  show "length buf' = length buf" "ptr_left buf' ptr' < ptr_left buf ptr" "t < length buf"
    using assms p n le by (auto simp: next_token_def Let_def ptr_left_def char_at_def split: if_splits)
qed

text \<open>The inner loop: the parts of one command. \<open>found_in\<close> and \<open>found_out\<close> are its flags.\<close>

definition at_str :: "u8 list \<Rightarrow> nat \<Rightarrow> u8 list" where
  "at_str buf p = cstr (drop p buf)"

function parse_parts ::
    "bool \<Rightarrow> bool \<Rightarrow> u8 list \<Rightarrow> nat option \<Rightarrow> command \<Rightarrow> (u8 list \<times> command) kres" where
  "parse_parts found_in found_out buf tok cmd =
     (case next_token [32] (buf, tok) of
        (None, buf, tok) \<Rightarrow> Ok (buf, cmd)
      | (Some part, buf, tok) \<Rightarrow>
          if ustrcmp (at_str buf part) [62] = 0 then
            (case next_token [32] (buf, tok) of
               (None, buf, tok) \<Rightarrow> Panic ''no file present after >''
             | (Some file, buf, tok) \<Rightarrow>
                 parse_parts found_in True buf tok
                   (cmd\<lparr>stdin_file := (if \<not> found_in then None else stdin_file cmd), stdout_pipe := False,
                        stdout_file := Some file\<rparr>))
          else if ustrcmp (at_str buf part) [60] = 0 then
            (case next_token [32] (buf, tok) of
               (None, buf, tok) \<Rightarrow> Panic ''no file present after <''
             | (Some file, buf, tok) \<Rightarrow>
                 parse_parts True found_out buf tok
                   (cmd\<lparr>stdout_file := (if \<not> found_out then None else stdout_file cmd), stdout_pipe := False,
                        stdin_file := Some file\<rparr>))
          else if ustrcmp (at_str buf part) [62, 62] = 0 then
            (case next_token [32] (buf, tok) of
               (None, buf, tok) \<Rightarrow> Panic ''no file present after >>''
             | (Some file, buf, tok) \<Rightarrow>
                 parse_parts found_in found_out buf tok
                   (cmd\<lparr>stdin_file := (if \<not> found_in then None else stdin_file cmd), stdout_pipe := False,
                        stdout_file := Some file, append := True\<rparr>))
          else parse_parts found_in found_out buf tok (cmd\<lparr>tokens := tokens cmd @ [part]\<rparr>))"
  by pat_completeness auto
termination
  by (relation "measure (\<lambda>(a, b, buf, tok, cmd). ptr_left buf tok)")
    (fastforce dest: next_token_forward(2) [OF sym] intro: less_trans)+

declare parse_parts.simps [simp del]

definition new_command :: command where
  "new_command = \<lparr>tokens = [], stdout_pipe = True, append = False, stdout_file = None, stdin_file = None\<rparr>"

lemma parse_parts_length:
  "parse_parts found_in found_out buf tok cmd = Ok (buf', cmd') \<Longrightarrow> length buf' = length buf"
proof (induction found_in found_out buf tok cmd rule: parse_parts.induct)
  case (1 found_in found_out buf tok cmd)
  obtain p b t where n: "next_token [32] (buf, tok) = (p, b, t)" by (metis prod_cases3)
  obtain p2 b2 t2 where n2: "next_token [32] (b, t) = (p2, b2, t2)" by (metis prod_cases3)
  show ?case
  proof (cases p)
    case None
    then have "b = buf" using n by (auto simp: next_token_def Let_def split: option.splits if_splits)
    then show ?thesis using "1.prems" n None by (subst (asm) parse_parts.simps) simp
  next
    case (Some part)
    have l: "length b = length buf" using next_token_forward(1) n Some by metis
    have l2: "length b2 = length b" if "p2 = Some f" for f using next_token_forward(1) n2 that by metis
    show ?thesis
      using "1.prems" n n2 Some l l2 "1.IH" [OF n [symmetric] Some refl]
      by (subst (asm) parse_parts.simps) (auto split: if_splits option.splits)
  qed
qed

text \<open>The outer loop, one command per turn. The command list grows as needed. With no command at all,
  \<open>cmds[-1]\<close> is written.\<close>

function parse_commands :: "u8 list \<Rightarrow> nat option \<Rightarrow> command list \<Rightarrow> (u8 list \<times> command list) kres" where
  "parse_commands buf s cmds =
     (case next_token [124] (buf, s) of
        (None, buf, s) \<Rightarrow>
          if cmds = [] then Fault
          else Ok (buf, butlast cmds @ [(List.last cmds)\<lparr>stdout_pipe := False\<rparr>])
      | (Some tok, buf, s) \<Rightarrow>
          kbind (parse_parts False False buf (Some tok) new_command) (\<lambda>(buf, cmd).
          parse_commands buf s (cmds @ [cmd])))"
  by pat_completeness auto
termination
proof (relation "measure (\<lambda>(buf, s, cmds). ptr_left buf s)", goal_cases)
  case (2 buf s cmds p q tok b s' r b' cmd)
  then show ?case
    using next_token_forward(2) [of "[124]" buf s tok b s'] parse_parts_length [of False False b "Some tok" new_command b' cmd]
    by (auto simp: ptr_left_def split: option.splits)
qed simp

declare parse_commands.simps [simp del]

section \<open>Running a pipeline\<close>

text \<open>What an entry of the descriptor table refers to; pipes are numbered in the order they are made.\<close>

datatype fdobj = Inherited nat | FileIn "u8 list" | FileOut "u8 list" bool | PipeR nat | PipeW nat

type_synonym fdtable = "fdobj option list"

definition fd_new :: "fdobj \<Rightarrow> fdtable \<Rightarrow> (nat \<times> fdtable) option" where
  "fd_new x t = (case find (\<lambda>i. t ! i = None) [0..<length t] of None \<Rightarrow> None | Some i \<Rightarrow> Some (i, t[i := Some x]))"

definition fd_close :: "nat \<Rightarrow> fdtable \<Rightarrow> fdtable option" where
  "fd_close i t = (if i < length t \<and> t ! i \<noteq> None then Some (t[i := None]) else None)"

definition fd_dup :: "nat \<Rightarrow> fdtable \<Rightarrow> (nat \<times> fdtable) option" where
  "fd_dup i t = (if i < length t then case t ! i of None \<Rightarrow> None | Some x \<Rightarrow> fd_new x t else None)"

definition fd_pipe :: "nat \<Rightarrow> fdtable \<Rightarrow> (nat \<times> nat \<times> fdtable) option" where
  "fd_pipe k t =
     (case fd_new (PipeR k) t of None \<Rightarrow> None
      | Some (r, t) \<Rightarrow> (case fd_new (PipeW k) t of None \<Rightarrow> None | Some (w, t) \<Rightarrow> Some (r, w, t)))"

text \<open>The shell's four steps to make descriptor \<open>target\<close> the file it has just opened as \<open>fd\<close>: a failure ends
  the process.\<close>

definition redirect :: "nat \<Rightarrow> fdobj \<Rightarrow> fdtable \<Rightarrow> fdtable option" where
  "redirect target x t =
     (case fd_new x t of None \<Rightarrow> None
      | Some (fd, t) \<Rightarrow>
        (case fd_close target t of None \<Rightarrow> None
         | Some t \<Rightarrow> (case fd_dup fd t of None \<Rightarrow> None | Some (i, t) \<Rightarrow> fd_close fd t)))"

definition redirects :: "(u8 list \<Rightarrow> bool) \<Rightarrow> u8 list \<Rightarrow> command \<Rightarrow> fdtable \<Rightarrow> fdtable option" where
  "redirects can_open buf cmd t =
     (case (case stdout_file cmd of None \<Rightarrow> Some t
            | Some f \<Rightarrow> if can_open (at_str buf f) then redirect 1 (FileOut (at_str buf f) (append cmd)) t else None) of
        None \<Rightarrow> None
      | Some t \<Rightarrow>
        (case stdin_file cmd of None \<Rightarrow> Some t
         | Some f \<Rightarrow> if can_open (at_str buf f) then redirect 0 (FileIn (at_str buf f)) t else None))"

text \<open>The child of a pipe's \<open>fork\<close>, and what the parent does before it goes on to the next command.\<close>

definition child_fds :: "nat \<Rightarrow> nat \<Rightarrow> fdtable \<Rightarrow> fdtable option" where
  "child_fds r w t =
     (case fd_close r t of None \<Rightarrow> None
      | Some t \<Rightarrow> (case fd_close 1 t of None \<Rightarrow> None | Some t \<Rightarrow> map_option snd (fd_dup w t)))"

definition parent_fds :: "nat \<Rightarrow> nat \<Rightarrow> fdtable \<Rightarrow> fdtable option" where
  "parent_fds r w t =
     (case fd_close w t of None \<Rightarrow> None
      | Some t \<Rightarrow> (case fd_close 0 t of None \<Rightarrow> None | Some t \<Rightarrow> map_option snd (fd_dup r t)))"

text \<open>How the process that runs the pipeline ends: it becomes the program, it returns, it is ended by
  \<open>panic\<close>, or it uses what \<open>pipe\<close> has not written. \<open>exec_ok\<close> says which programs \<open>exec\<close> can load. (The shell
  does not end the array \<open>tokens\<close> by a NULL: it is taken to be followed by a zero word, as in memory
  fresh from \<open>sbrk\<close>; so \<open>tokens[0]\<close> of a command with no tokens is a null path.)\<close>

datatype outcome = Execed | Returned int | Exited int | Undefined

type_synonym process = "u8 list list \<times> fdtable"

definition argv_of :: "u8 list \<Rightarrow> command \<Rightarrow> u8 list list" where
  "argv_of buf cmd = map (at_str buf) (tokens cmd)"

fun execute_pipeline ::
    "(u8 list \<Rightarrow> bool) \<Rightarrow> (u8 list list \<Rightarrow> bool) \<Rightarrow> u8 list \<Rightarrow> command list \<Rightarrow> nat \<Rightarrow> fdtable \<Rightarrow> process list \<times> outcome" where
  "execute_pipeline can_open exec_ok buf [] k t = ([], Undefined)"
| "execute_pipeline can_open exec_ok buf (cmd # cmds) k t =
     (if \<not> stdout_pipe cmd then
        (case redirects can_open buf cmd t of None \<Rightarrow> ([], Exited 1)
         | Some t \<Rightarrow>
           if exec_ok (argv_of buf cmd) then ([(argv_of buf cmd, t)], Execed) else ([], Returned 1))
      else
        (case fd_pipe k t of None \<Rightarrow> ([], Undefined)
         | Some (r, w, t) \<Rightarrow>
           let child = (case child_fds r w t of None \<Rightarrow> []
                 | Some t \<Rightarrow> if exec_ok (argv_of buf cmd) then [(argv_of buf cmd, t)] else []) in
           (case parent_fds r w t of None \<Rightarrow> (child, Exited 1)
            | Some t \<Rightarrow>
              let (procs, out) = execute_pipeline can_open exec_ok buf cmds (k + 1) t in
              (child @ procs, case out of Returned _ \<Rightarrow> Returned 0 | _ \<Rightarrow> out))))"

definition parse_and_run_cmd ::
    "(u8 list \<Rightarrow> bool) \<Rightarrow> (u8 list list \<Rightarrow> bool) \<Rightarrow> u8 list \<Rightarrow> fdtable \<Rightarrow> (process list \<times> outcome) kres" where
  "parse_and_run_cmd can_open exec_ok s t =
     kbind (parse_commands s (Some 0) []) (\<lambda>(buf, cmds).
     let (procs, out) = execute_pipeline can_open exec_ok buf cmds 0 t in
     Ok (procs, case out of Returned st \<Rightarrow> Exited (if st = 1 then 1 else 0) | _ \<Rightarrow> out))"

section \<open>Reading a pipeline back\<close>

text \<open>How a user writes words or commands with a separator between them; a word that the shell takes for
  itself; the words that it does not.\<close>

fun join :: "u8 \<Rightarrow> u8 list list \<Rightarrow> u8 list" where
  "join d [] = []"
| "join d [w] = w"
| "join d (w # ws) = w @ d # join d ws"

definition pipeline_text :: "u8 list list list \<Rightarrow> u8 list" where
  "pipeline_text css = join 124 (map (join 32) css)"

definition word_ok :: "u8 list \<Rightarrow> bool" where
  "word_ok w \<longleftrightarrow> w \<noteq> [] \<and> set w \<inter> {0, 32, 124} = {} \<and> w \<noteq> [62] \<and> w \<noteq> [60] \<and> w \<noteq> [62, 62]"

definition commands_ok :: "u8 list list list \<Rightarrow> bool" where
  "commands_ok css \<longleftrightarrow> css \<noteq> [] \<and> (\<forall>ws\<in>set css. ws \<noteq> [] \<and> (\<forall>w\<in>set ws. word_ok w))"

lemma ustrspn_0: "w \<noteq> [] \<Longrightarrow> hd w \<noteq> d \<Longrightarrow> ustrspn (w @ s) [d] = 0"
  by (cases w) auto

lemma ustrcspn_word: "set w \<inter> {0, d} = {} \<Longrightarrow> c = 0 \<or> c = d \<Longrightarrow> d \<noteq> 0 \<Longrightarrow> ustrcspn (w @ c # s) [d] = length w"
  by (induction w) auto

lemma next_token_word:
  assumes "w \<noteq> []" "set w \<inter> {0, d} = {}" "d \<noteq> 0"
  shows "next_token [d] (pre @ w @ d # post, Some (length pre)) =
      (Some (length pre), pre @ w @ 0 # post, Some (length (pre @ w @ [0])))"
    and "next_token [d] (pre @ w @ 0 # post, Some (length pre)) = (Some (length pre), pre @ w @ 0 # post, None)"
proof -
  have h: "hd w \<noteq> d" using assms(1,2) by (cases w) auto
  show "next_token [d] (pre @ w @ d # post, Some (length pre)) =
      (Some (length pre), pre @ w @ 0 # post, Some (length (pre @ w @ [0])))"
    using assms ustrspn_0 [OF assms(1) h] ustrcspn_word [OF assms(2) _ assms(3), of d post]
    by (simp add: next_token_def Let_def char_at_def nth_append list_update_append)
  show "next_token [d] (pre @ w @ 0 # post, Some (length pre)) = (Some (length pre), pre @ w @ 0 # post, None)"
    using assms ustrspn_0 [OF assms(1) h] ustrcspn_word [OF assms(2) _ assms(3), of 0 post]
    by (simp add: next_token_def Let_def char_at_def nth_append)
qed

lemma next_token_None [simp]: "next_token d (buf, None) = (None, buf, None)"
  by (simp add: next_token_def)

lemma at_str_word: "0 \<notin> set w \<Longrightarrow> at_str (pre @ w @ 0 # post) (length pre) = w"
  by (auto simp: at_str_def cstr_def takeWhile_tail)

lemma ustrcmp_0_iff: "0 \<notin> set p \<Longrightarrow> 0 \<notin> set q \<Longrightarrow> ustrcmp p q = 0 \<longleftrightarrow> p = q"
proof (induction p q rule: ustrcmp.induct)
  case (2 p ps)
  then show ?case by (simp add: uint_0_iff)
next
  case (3 q qs)
  then show ?case by (simp add: uint_0_iff)
qed (auto simp: word_uint_eq_iff)

text \<open>What parsing leaves in the buffer: every word ended by a NUL.\<close>

definition flat :: "u8 list list \<Rightarrow> u8 list" where
  "flat ws = concat (map (\<lambda>w. w @ [0]) ws)"

fun starts :: "nat \<Rightarrow> u8 list list \<Rightarrow> nat list" where
  "starts p [] = []"
| "starts p (w # ws) = p # starts (p + length w + 1) ws"

lemma flat_simps [simp]: "flat [] = []" "flat (w # ws) = w @ 0 # flat ws" "flat (ws @ vs) = flat ws @ flat vs"
  by (simp_all add: flat_def)

lemma at_str_starts:
  "\<forall>w\<in>set ws. 0 \<notin> set w \<Longrightarrow> map (at_str (pre @ flat ws @ post)) (starts (length pre) ws) = ws"
proof (induction ws arbitrary: pre)
  case (Cons w ws)
  from Cons.IH [of "pre @ w @ [0]"] Cons.prems show ?case
    using at_str_word [of w pre "flat ws @ post"] by simp
qed simp

lemma join_Cons: "ws \<noteq> [] \<Longrightarrow> join d (w # ws) = w @ d # join d ws"
  by (cases ws) auto

lemma parse_parts_words:
  assumes "ws \<noteq> []" "\<forall>w\<in>set ws. word_ok w"
  shows "parse_parts fi fo (pre @ join 32 ws @ 0 # post) (Some (length pre)) cmd =
    Ok (pre @ flat ws @ post, cmd\<lparr>tokens := tokens cmd @ starts (length pre) ws\<rparr>)"
  using assms
proof (induction ws arbitrary: pre cmd)
  case (Cons w ws)
  have w: "w \<noteq> []" "set w \<inter> {0, 32} = {}" "0 \<notin> set w" "w \<noteq> [62]" "w \<noteq> [60]" "w \<noteq> [62, 62]"
    using Cons.prems(2) by (auto simp: word_ok_def)
  note cmp = ustrcmp_0_iff [OF w(3)]
  note tok = next_token_word [OF w(1,2), of pre]
  show ?case
  proof (cases "ws = []")
    case True
    then show ?thesis using tok(2) [of post] w at_str_word [OF w(3), of pre post]
      by (subst parse_parts.simps) (simp add: cmp parse_parts.simps [of fi fo _ None])
  next
    case False
    let ?rest = "join 32 ws @ 0 # post"
    have "parse_parts fi fo ((pre @ w @ [0]) @ ?rest) (Some (length (pre @ w @ [0]))) (cmd\<lparr>tokens := tokens cmd @ [length pre]\<rparr>) =
        Ok ((pre @ w @ [0]) @ flat ws @ post,
          (cmd\<lparr>tokens := tokens cmd @ [length pre]\<rparr>)\<lparr>tokens := (tokens cmd @ [length pre]) @ starts (length (pre @ w @ [0])) ws\<rparr>)"
      using Cons.IH [OF False, of "pre @ w @ [0]" "cmd\<lparr>tokens := tokens cmd @ [length pre]\<rparr>"] Cons.prems(2) by simp
    then show ?thesis using tok(1) [of ?rest] w at_str_word [OF w(3), of pre ?rest] False
      by (subst parse_parts.simps) (simp add: cmp join_Cons)
  qed
qed simp

text \<open>The commands of a pipeline, at their places in the buffer.\<close>

fun parsed :: "nat \<Rightarrow> u8 list list list \<Rightarrow> command list" where
  "parsed p [] = []"
| "parsed p (ws # css) = new_command\<lparr>tokens := starts p ws\<rparr> # parsed (p + length (flat ws)) css"

lemma length_join: "ws \<noteq> [] \<Longrightarrow> length (join d ws) + 1 = length (flat ws)"
proof (induction ws)
  case (Cons w ws)
  then show ?case by (cases "ws = []") (simp_all add: join_Cons)
qed simp

lemma join_chars:
  assumes "ws \<noteq> []" "\<forall>w\<in>set ws. word_ok w"
  shows "join 32 ws \<noteq> []" "set (join 32 ws) \<inter> {0, 124} = {}"
proof -
  show "join 32 ws \<noteq> []" using assms by (cases ws) (auto simp: join_Cons word_ok_def elim: join.elims)
  show "set (join 32 ws) \<inter> {0, 124} = {}" using assms
  proof (induction ws)
    case (Cons w ws)
    then show ?case by (cases "ws = []") (auto simp: join_Cons word_ok_def)
  qed simp
qed

lemma parse_commands_pipeline:
  assumes "commands_ok css"
  shows "parse_commands (pre @ pipeline_text css @ [0]) (Some (length pre)) cmds =
    Ok (pre @ flat (concat css), butlast (cmds @ parsed (length pre) css) @
      [(List.last (parsed (length pre) css))\<lparr>stdout_pipe := False\<rparr>])"
  using assms
proof (induction css arbitrary: pre cmds)
  case Nil
  then show ?case by (simp add: commands_ok_def)
next
  case (Cons ws css)
  have ws: "ws \<noteq> []" "\<forall>w\<in>set ws. word_ok w" using Cons.prems by (auto simp: commands_ok_def)
  note j = join_chars [OF ws]
  let ?c = "new_command\<lparr>tokens := starts (length pre) ws\<rparr>"
  have n: "tokens new_command = []" by (simp add: new_command_def)
  show ?case
  proof (cases "css = []")
    case True
    have "parse_commands (pre @ flat ws) None (cmds @ [?c]) = Ok (pre @ flat ws, cmds @ [?c\<lparr>stdout_pipe := False\<rparr>])"
      by (subst parse_commands.simps) simp
    then show ?thesis using next_token_word(2) [OF j, of pre "[]"] parse_parts_words [OF ws, of False False pre "[]" new_command] True
      by (subst parse_commands.simps) (simp add: pipeline_text_def n)
  next
    case False
    let ?rest = "pipeline_text css @ [0]" and ?pre = "pre @ flat ws"
    have c: "commands_ok css" using Cons.prems False by (auto simp: commands_ok_def)
    have t: "pipeline_text (ws # css) = join 32 ws @ 124 # pipeline_text css" using False by (simp add: pipeline_text_def join_Cons)
    have p: "parsed (length ?pre) css \<noteq> []" using False by (cases css) auto
    have e: "length (pre @ join 32 ws @ [0]) = length ?pre" using length_join [OF ws(1), of 32] by simp
    show ?thesis
      using next_token_word(1) [OF j, of pre ?rest] parse_parts_words [OF ws, of False False pre ?rest new_command]
        Cons.IH [OF c, of ?pre "cmds @ [?c]"] p
      unfolding e t by (subst parse_commands.simps) (simp add: n butlast_append)
  qed
qed

lemma parsed_argv:
  "\<forall>ws\<in>set css. \<forall>w\<in>set ws. word_ok w \<Longrightarrow>
    map (argv_of (pre @ flat (concat css) @ post)) (parsed (length pre) css) = css"
proof (induction css arbitrary: pre)
  case (Cons ws css)
  have "\<forall>w\<in>set ws. 0 \<notin> set w" using Cons.prems by (auto simp: word_ok_def)
  then show ?case using Cons.IH [of "pre @ flat ws"] Cons.prems at_str_starts [of ws pre "flat (concat css) @ post"]
    by (simp add: argv_of_def)
qed simp

lemma parsed_plain: "c \<in> set (parsed p css) \<Longrightarrow> stdout_pipe c \<and> stdout_file c = None \<and> stdin_file c = None"
  by (induction css arbitrary: p) (auto simp: new_command_def)

lemma length_parsed [simp]: "length (parsed p css) = length css"
  by (induction css arbitrary: p) auto

section \<open>Wiring\<close>

text \<open>The table the shell runs the line with: standard input, output and error.\<close>

definition std_fds :: fdtable where
  "std_fds = [Some (Inherited 0), Some (Inherited 1), Some (Inherited 2)] @ replicate 13 None"

text \<open>The table of the process that runs the pipeline before command \<open>k\<close>, which keeps an extra copy of
  every read end, and that of the child of command \<open>k\<close>.\<close>

definition pipe_in :: "nat \<Rightarrow> fdobj" where
  "pipe_in k = (if k = 0 then Inherited 0 else PipeR (k - 1))"

definition kept :: "nat \<Rightarrow> fdtable" where
  "kept k = map (\<lambda>i. Some (PipeR i)) [0..<k]"

definition stage_fds :: "nat \<Rightarrow> fdtable" where
  "stage_fds k = [Some (pipe_in k), Some (Inherited 1), Some (Inherited 2)] @ kept k @ replicate (13 - k) None"

definition piped_fds :: "nat \<Rightarrow> fdtable" where
  "piped_fds k = [Some (pipe_in k), Some (PipeW k), Some (Inherited 2)] @ kept k @ [None, Some (PipeW k)] @ replicate (11 - k) None"

text \<open>Between \<open>pipe\<close> and \<open>fork\<close>.\<close>

definition open_fds :: "nat \<Rightarrow> fdtable" where
  "open_fds k = [Some (pipe_in k), Some (Inherited 1), Some (Inherited 2)] @ kept k @ [Some (PipeR k), Some (PipeW k)] @ replicate (11 - k) None"

lemma fd_new_at:
  assumes "None \<notin> set xs" "length xs = i"
  shows "fd_new x (xs @ None # ys) = Some (i, xs @ Some x # ys)"
proof -
  have "find (\<lambda>i. (xs @ None # ys) ! i = None) [0..<length (xs @ None # ys)] = Some i"
    using assms unfolding find_upt_Some by (auto simp: nth_append in_set_conv_nth)
  then show ?thesis using assms(2) unfolding fd_new_def by auto
qed

lemma fd_new_full:
  assumes "None \<notin> set xs"
  shows "fd_new x xs = None"
proof -
  have "find (\<lambda>i. xs ! i = None) [0..<length xs] = None" using assms unfolding find_upt_None by (auto simp: in_set_conv_nth)
  then show ?thesis unfolding fd_new_def by simp
qed

lemma fd_close_at: "length xs = i \<Longrightarrow> fd_close i (xs @ Some x # ys) = Some (xs @ None # ys)"
  by (auto simp: fd_close_def)

lemma fd_dup_at: "length xs = i \<Longrightarrow> fd_dup i (xs @ Some x # ys) = fd_new x (xs @ Some x # ys)"
  by (auto simp: fd_dup_def)

lemma kept_simps [simp]: "length (kept k) = k" "None \<notin> set (kept k)" "kept (Suc k) = kept k @ [Some (PipeR k)]" "kept 0 = []"
  by (auto simp: kept_def)

lemma replicate_pos: "0 < n \<Longrightarrow> replicate n x = x # replicate (n - 1) x"
  by (cases n) auto

lemma replicate_split: "k \<le> 11 \<Longrightarrow> replicate (13 - k) x = x # x # replicate (11 - k) x"
  "k \<le> 11 \<Longrightarrow> replicate (12 - k) x = x # replicate (11 - k) x"
proof -
  assume k: "k \<le> 11"
  have "13 - k = Suc (Suc (11 - k))" "12 - k = Suc (11 - k)" using k by simp_all
  then show "replicate (13 - k) x = x # x # replicate (11 - k) x" "replicate (12 - k) x = x # replicate (11 - k) x"
    by simp_all
qed

lemma stage_pipe:
  assumes "k \<le> 11"
  shows "fd_pipe k (stage_fds k) = Some (3 + k, 4 + k, open_fds k)"
proof -
  let ?p = "[Some (pipe_in k), Some (Inherited 1), Some (Inherited 2)] @ kept k" and ?n = "replicate (11 - k) None"
  have "fd_new (PipeR k) (?p @ None # None # ?n) = Some (3 + k, ?p @ Some (PipeR k) # None # ?n)"
    by (rule fd_new_at) simp_all
  moreover have "fd_new (PipeW k) ((?p @ [Some (PipeR k)]) @ None # ?n) = Some (4 + k, (?p @ [Some (PipeR k)]) @ Some (PipeW k) # ?n)"
    by (rule fd_new_at) simp_all
  ultimately show ?thesis unfolding stage_fds_def open_fds_def replicate_split(1) [OF assms] fd_pipe_def by simp
qed

lemma stage_child: "child_fds (3 + k) (4 + k) (open_fds k) = Some (piped_fds k)"
proof -
  let ?p = "[Some (pipe_in k), Some (Inherited 1), Some (Inherited 2)] @ kept k"
    and ?ys = "replicate (11 - k) (None :: fdobj option)"
  let ?t = "Some (Inherited 2) # kept k @ None # Some (PipeW k) # ?ys"
  have "fd_close (3 + k) (?p @ Some (PipeR k) # Some (PipeW k) # ?ys) = Some (?p @ None # Some (PipeW k) # ?ys)"
    by (rule fd_close_at) simp
  moreover have "fd_close 1 ([Some (pipe_in k)] @ Some (Inherited 1) # ?t) = Some ([Some (pipe_in k)] @ None # ?t)"
    by (rule fd_close_at) simp
  moreover have "fd_dup (4 + k) (([Some (pipe_in k), None, Some (Inherited 2)] @ kept k @ [None]) @ Some (PipeW k) # ?ys) =
      fd_new (PipeW k) (([Some (pipe_in k), None, Some (Inherited 2)] @ kept k @ [None]) @ Some (PipeW k) # ?ys)"
    by (rule fd_dup_at) simp
  moreover have "fd_new (PipeW k) ([Some (pipe_in k)] @ None # ?t) = Some (1, [Some (pipe_in k)] @ Some (PipeW k) # ?t)"
    by (rule fd_new_at) simp_all
  ultimately show ?thesis unfolding child_fds_def open_fds_def piped_fds_def by simp
qed

lemma stage_parent:
  assumes "k \<le> 11"
  shows "parent_fds (3 + k) (4 + k) (open_fds k) = Some (stage_fds (k + 1))"
proof -
  let ?p = "[Some (pipe_in k), Some (Inherited 1), Some (Inherited 2)] @ kept k @ [Some (PipeR k)]"
    and ?ys = "replicate (11 - k) (None :: fdobj option)"
  let ?t = "Some (Inherited 1) # Some (Inherited 2) # kept k @ Some (PipeR k) # None # ?ys"
  have "fd_close (4 + k) (?p @ Some (PipeW k) # ?ys) = Some (?p @ None # ?ys)"
    by (rule fd_close_at) simp
  moreover have "fd_close 0 ([] @ Some (pipe_in k) # ?t) = Some ([] @ None # ?t)"
    by (rule fd_close_at) simp
  moreover have "fd_dup (3 + k) (([None, Some (Inherited 1), Some (Inherited 2)] @ kept k) @ Some (PipeR k) # None # ?ys) =
      fd_new (PipeR k) (([None, Some (Inherited 1), Some (Inherited 2)] @ kept k) @ Some (PipeR k) # None # ?ys)"
    by (rule fd_dup_at) simp
  moreover have "fd_new (PipeR k) ([] @ None # ?t) = Some (0, [] @ Some (PipeR k) # ?t)"
    by (rule fd_new_at) simp_all
  ultimately show ?thesis using replicate_split(2) [OF assms, of "None :: fdobj option"]
    unfolding parent_fds_def open_fds_def stage_fds_def by (simp add: pipe_in_def)
qed

text \<open>A command in the middle of a pipeline, and the last one.\<close>

definition middle :: "command \<Rightarrow> bool" where
  "middle c \<longleftrightarrow> stdout_pipe c"

definition final :: "command \<Rightarrow> bool" where
  "final c \<longleftrightarrow> \<not> stdout_pipe c \<and> stdout_file c = None \<and> stdin_file c = None"

lemma run_final: "final c \<Longrightarrow> exec_ok (argv_of buf c) \<Longrightarrow>
    execute_pipeline can_open exec_ok buf [c] k t = ([(argv_of buf c, t)], Execed)"
  by (simp add: final_def redirects_def)

lemma run_middle:
  assumes "middle c" "exec_ok (argv_of buf c)" "k \<le> 11"
    "execute_pipeline can_open exec_ok buf cs (k + 1) (stage_fds (k + 1)) = (procs, out)" "\<forall>r. out \<noteq> Returned r"
  shows "execute_pipeline can_open exec_ok buf (c # cs) k (stage_fds k) = ((argv_of buf c, piped_fds k) # procs, out)"
proof -
  show ?thesis
    using assms by (cases out) (simp_all add: middle_def stage_pipe stage_child stage_parent)
qed

lemma run_pipeline:
  assumes "\<forall>c\<in>set cs. middle c \<and> exec_ok (argv_of buf c)" "final c" "exec_ok (argv_of buf c)" "k + length cs \<le> 12"
  shows "execute_pipeline can_open exec_ok buf (cs @ [c]) k (stage_fds k) =
    (zip (map (argv_of buf) (cs @ [c])) (map piped_fds [k..<k + length cs] @ [stage_fds (k + length cs)]), Execed)"
  using assms
proof (induction cs arbitrary: k)
  case Nil
  then show ?case using run_final by simp
next
  case (Cons d cs)
  then have "execute_pipeline can_open exec_ok buf (cs @ [c]) (k + 1) (stage_fds (k + 1)) =
    (zip (map (argv_of buf) (cs @ [c])) (map piped_fds [k + 1..<k + 1 + length cs] @ [stage_fds (k + 1 + length cs)]), Execed)"
    by (intro Cons.IH) auto
  moreover have "[k..<k + length (d # cs)] = k # [k + 1..<k + 1 + length cs]" by (simp add: upt_conv_Cons del: upt_Suc)
  ultimately show ?case using run_middle [of d exec_ok buf k can_open "cs @ [c]"] Cons.prems
    by (simp del: upt_Suc execute_pipeline.simps)
qed

lemma run_overlong:
  assumes "\<forall>c\<in>set cs. middle c \<and> exec_ok (argv_of buf c)" "13 \<le> k + length cs" "k \<le> 12"
  shows "execute_pipeline can_open exec_ok buf (cs @ [c]) k (stage_fds k) =
    (zip (map (argv_of buf) cs) (map piped_fds [k..<12]), Undefined)"
  using assms
proof (induction cs arbitrary: k)
  case (Cons d cs)
  show ?case
  proof (cases "k = 12")
    case True
    let ?p = "[Some (pipe_in k), Some (Inherited 1), Some (Inherited 2)] @ kept k"
    have "fd_new (PipeW k) (?p @ [Some (PipeR k)]) = None" by (rule fd_new_full) simp
    moreover have "fd_new (PipeR k) (?p @ [None]) = Some (3 + k, ?p @ [Some (PipeR k)])" by (rule fd_new_at) simp_all
    moreover have "replicate (13 - k) None = [None :: fdobj option]" using True by simp
    ultimately have "fd_pipe k (stage_fds k) = None" unfolding fd_pipe_def stage_fds_def by simp
    then show ?thesis using True Cons.prems(1) by (simp add: middle_def)
  next
    case False
    have "execute_pipeline can_open exec_ok buf (cs @ [c]) (k + 1) (stage_fds (k + 1)) =
      (zip (map (argv_of buf) cs) (map piped_fds [k + 1..<12]), Undefined)"
      by (rule Cons.IH) (use Cons.prems False in auto)
    moreover have "[k..<12] = k # [k + 1..<12]" using Cons.prems False by (simp add: upt_conv_Cons)
    ultimately show ?thesis using run_middle [of d exec_ok buf k can_open "cs @ [c]"] Cons.prems False
      by (simp del: upt_Suc execute_pipeline.simps)
  qed
qed simp

lemma std_fds_stage: "std_fds = stage_fds 0"
  by (simp add: std_fds_def stage_fds_def pipe_in_def)

text \<open>Parsing, then running: the commands before the last are middle ones.\<close>

lemma parse_and_run_pipeline:
  assumes "commands_ok css"
  obtains buf cs c where "map (argv_of buf) (cs @ [c]) = css" "\<forall>c\<in>set cs. middle c" "final c"
    "parse_and_run_cmd can_open exec_ok (pipeline_text css @ [0]) std_fds =
      (let (procs, out) = execute_pipeline can_open exec_ok buf (cs @ [c]) 0 (stage_fds 0) in
       Ok (procs, case out of Returned st \<Rightarrow> Exited (if st = 1 then 1 else 0) | _ \<Rightarrow> out))"
proof -
  let ?buf = "flat (concat css)" and ?cs = "butlast (parsed 0 css)" and ?l = "List.last (parsed 0 css)"
  have ne: "parsed 0 css \<noteq> []" using assms by (cases css) (auto simp: commands_ok_def)
  then have ap: "?cs @ [?l] = parsed 0 css" by simp
  have "map (argv_of ?buf) (parsed 0 css) = css"
    using parsed_argv [of css "[]" "[]"] assms by (simp add: commands_ok_def)
  moreover have "argv_of ?buf (?l\<lparr>stdout_pipe := False\<rparr>) = argv_of ?buf ?l" by (simp add: argv_of_def)
  ultimately have "map (argv_of ?buf) (?cs @ [?l\<lparr>stdout_pipe := False\<rparr>]) = css"
    using ap by (metis list.map(1,2) map_append)
  moreover have "\<forall>c\<in>set ?cs. middle c" using parsed_plain by (auto simp: middle_def dest: in_set_butlastD)
  moreover have "final (?l\<lparr>stdout_pipe := False\<rparr>)" using parsed_plain [of ?l 0 css] ne by (simp add: final_def)
  moreover have "parse_commands (pipeline_text css @ [0]) (Some 0) [] = Ok (?buf, ?cs @ [?l\<lparr>stdout_pipe := False\<rparr>])"
    using parse_commands_pipeline [OF assms, of "[]" "[]"] by simp
  ultimately show ?thesis by (intro that [of ?buf ?cs "?l\<lparr>stdout_pipe := False\<rparr>"]) (simp_all add: parse_and_run_cmd_def std_fds_stage)
qed

text \<open>What the processes of a pipeline have open.\<close>

lemma piped_fds_wiring: "k \<le> 11 \<Longrightarrow> length (piped_fds k) = 16 \<and> piped_fds k ! 0 = Some (pipe_in k) \<and>
    piped_fds k ! 1 = Some (PipeW k) \<and> piped_fds k ! 2 = Some (Inherited 2) \<and> (Some (PipeW j) \<in> set (piped_fds k) \<longrightarrow> j = k)"
  by (auto simp: piped_fds_def pipe_in_def kept_def split: if_splits)

lemma stage_fds_wiring: "k \<le> 12 \<Longrightarrow> length (stage_fds k) = 16 \<and> stage_fds k ! 0 = Some (pipe_in k) \<and>
    stage_fds k ! 1 = Some (Inherited 1) \<and> stage_fds k ! 2 = Some (Inherited 2) \<and> Some (PipeW j) \<notin> set (stage_fds k)"
  by (auto simp: stage_fds_def pipe_in_def kept_def split: if_splits)





end
