(* ===== verification/Boogsh.thy ===== *)
theory Boogsh imports Pipeline begin

text \<open>
  The Boogshell outside its pipelines, user/boogsh.c: built-in commands, the history, the two main
  loops. \<open>buf\<close> is the line of \<open>main\<close> or the string of a history entry, which \<open>choose_cmd\<close> edits in place
  when an entry is run again; \<open>loc\<close> says which. The system calls are the record \<open>sysops\<close> over a
  world \<open>'s\<close>: \<open>y_fork\<close> is a \<open>fork\<close> whose child runs \<open>parse_and_run_cmd\<close> on the line (theory Pipeline).
  What the shell prints is the list \<open>b_out\<close>. A call of \<open>exit\<close> is \<open>Inl\<close> with its status. \<open>fuel\<close> bounds
  the nesting of \<open>choose_cmd\<close> and the turns of its loops; \<open>Blocked\<close> says it ran out, \<open>Fault\<close> is a pointer
  that was never set or a write outside an array.
\<close>

section \<open>State\<close>

record history_pair =
  h_command :: "u8 list"
  h_val :: int
  h_time :: int

datatype outev = Entry int "u8 list" | EntryTime int int "u8 list" | Err string | CannotCd "u8 list"
  | NotFoundNum int | NotFoundCmd "u8 list" | Background int | Clear | Ask | Frame "u8 list"

record 's sysops =
  y_time :: "'s \<Rightarrow> u64 \<times> 's"
  y_chdir :: "u8 list \<Rightarrow> 's \<Rightarrow> bool \<times> 's"
  y_fork :: "u8 list \<Rightarrow> 's \<Rightarrow> int \<times> 's"
  y_wait :: "'s \<Rightarrow> (int \<times> int) \<times> 's"

text \<open>\<open>b_pairs\<close>, \<open>b_count\<close> and \<open>b_total\<close> are \<open>struct history\<close>, a slot that was never written being
  \<open>None\<close>; \<open>b_junk\<close> is what \<open>arg_nums\<close> holds before it is filled. The last four fields belong to scripts.\<close>

record 's shell =
  b_world :: 's
  b_line :: "u8 list"
  b_pairs :: "history_pair option list"
  b_count :: nat
  b_total :: nat
  b_cmd_num :: int
  b_status :: int
  b_scripting :: bool
  b_input :: "u8 list"
  b_out :: "outev list"
  b_junk :: "u8 list"
  b_script :: "u8 list"
  b_script_line :: "u8 list option"
  b_script_max :: nat
  b_header_read :: bool

abbreviation (input) BUFFER_SIZE :: nat where "BUFFER_SIZE \<equiv> 128"

definition emit :: "outev list \<Rightarrow> 's shell \<Rightarrow> 's shell" where
  "emit evs st = st\<lparr>b_out := b_out st @ evs\<rparr>"

definition boog_error :: "string \<Rightarrow> 's shell \<Rightarrow> 's shell" where
  "boog_error msg st = (emit [Err msg] st)\<lparr>b_status := 1\<rparr>"

datatype loc = Line | Slot nat

fun get_buf :: "loc \<Rightarrow> 's shell \<Rightarrow> u8 list" where
  "get_buf Line st = b_line st"
| "get_buf (Slot i) st = (case b_pairs st ! i of Some p \<Rightarrow> h_command p | None \<Rightarrow> [])"

fun upd_buf :: "loc \<Rightarrow> (u8 list \<Rightarrow> u8 list) \<Rightarrow> 's shell \<Rightarrow> 's shell" where
  "upd_buf Line f st = st\<lparr>b_line := f (b_line st)\<rparr>"
| "upd_buf (Slot i) f st = st\<lparr>b_pairs := (b_pairs st)[i := map_option (\<lambda>p. p\<lparr>h_command := f (h_command p)\<rparr>) (b_pairs st ! i)]\<rparr>"

section \<open>Commands\<close>

definition change_directory :: "'s sysops \<Rightarrow> loc \<Rightarrow> 's shell \<Rightarrow> 's shell" where
  "change_directory ops buf st =
     (let st = (if \<not> b_scripting st then upd_buf buf (\<lambda>s. s[ustrlen s - 1 := 0]) st else st);
          dir = cstr (drop 3 (get_buf buf st));
          (ok, w) = y_chdir ops dir (b_world st);
          st = st\<lparr>b_world := w\<rparr> in
      if \<not> ok then (emit [CannotCd dir] st)\<lparr>b_status := 1\<rparr> else st)"

datatype choice = CD | EXIT | HISTORY | HISTORY_T | REPEAT | SEARCH_BY_NUM | SEARCH_BY_CMD | PROGRAM | MATRIX | NO_CHOICE

text \<open>The words compared with are \<open>exit\<close>, \<open>history -t\<close>, \<open>history\<close>, \<open>!!\<close> and \<open>matrix\<close>.\<close>

definition check_built_in :: "u8 list \<Rightarrow> choice \<times> u8 list" where
  "check_built_in buf =
     (if char_at buf 0 = 99 \<and> char_at buf 1 = 100 \<and> char_at buf 2 = 32 then (CD, buf)
      else
        let len = ustrlen buf;
            buf = (if len > 0 \<and> char_at buf (len - 1) = 10 then buf[len - 1 := 0] else buf) in
        (if ustrcmp buf [101, 120, 105, 116] = 0 then EXIT
         else if ustrcmp buf [104, 105, 115, 116, 111, 114, 121, 32, 45, 116] = 0 then HISTORY_T
         else if ustrcmp buf [104, 105, 115, 116, 111, 114, 121] = 0 then HISTORY
         else if ustrcmp buf [33, 33] = 0 then REPEAT
         else if char_at buf 0 = 33 then
           (if 48 \<le> char_at buf 1 \<and> char_at buf 1 \<le> 57 then SEARCH_BY_NUM
            else if 97 \<le> char_at buf 1 \<and> char_at buf 1 \<le> 122 then SEARCH_BY_CMD
            else NO_CHOICE)
         else if ustrcmp buf [109, 97, 116, 114, 105, 120] = 0 then MATRIX
         else PROGRAM, buf))"

section \<open>History\<close>

definition init_history :: "'s shell \<Rightarrow> 's shell" where
  "init_history st = st\<lparr>b_pairs := replicate BUFFER_SIZE None, b_count := 0, b_total := 1\<rparr>"

definition valid_cmd :: "u8 list \<Rightarrow> bool" where
  "valid_cmd c = list_ex (\<lambda>x. 97 \<le> x \<and> x \<le> 122 \<or> 65 \<le> x \<and> x \<le> 90 \<or> 48 \<le> x \<and> x \<le> 57 \<or> 33 \<le> x \<and> x \<le> 47) (cstr c)"

definition add_history :: "u8 list \<Rightarrow> int \<Rightarrow> 's shell \<Rightarrow> 's shell" where
  "add_history c time_taken st =
     (if valid_cmd c then
        let st = (if b_count st = 100 then
                    st\<lparr>b_pairs := fold (\<lambda>i ps. ps[i := ps ! (i + 1)]) [0..<99] (b_pairs st)\<rparr>
                  else st\<lparr>b_count := b_count st + 1\<rparr>) in
        st\<lparr>b_pairs := (b_pairs st)[b_count st - 1 :=
             Some \<lparr>h_command = cstr c @ [0], h_val = int (b_total st), h_time = time_taken\<rparr>],
           b_total := b_total st + 1\<rparr>
      else st)"

definition print_history :: "bool \<Rightarrow> 's shell \<Rightarrow> 's shell" where
  "print_history print_time st =
     (if b_total st = 0 then boog_error ''No command history to display'' st
      else
        emit (concat (map (\<lambda>i. case b_pairs st ! i of None \<Rightarrow> []
           | Some p \<Rightarrow> [if print_time then EntryTime (h_val p) (h_time p) (cstr (h_command p))
                        else Entry (h_val p) (cstr (h_command p))]) [0..<b_count st])) st)"

text \<open>\<open>strcpy\<close> into \<open>buf\<close>.\<close>

definition copy_cmd :: "loc \<Rightarrow> nat \<Rightarrow> 's shell \<Rightarrow> 's shell kres" where
  "copy_cmd buf i st =
     (let s = cstr (get_buf (Slot i) st) in
      if length s < length (get_buf buf st) then Ok (upd_buf buf (\<lambda>b. put_bytes b 0 (s @ [0])) st) else Fault)"

text \<open>\<open>again\<close> is \<open>choose_cmd\<close>, called again on a stored command.\<close>

definition run_again ::
    "(loc \<Rightarrow> 's shell \<Rightarrow> ((int + int) \<times> 's shell) kres) \<Rightarrow> loc \<Rightarrow> nat \<Rightarrow> 's shell \<Rightarrow> ((int + unit) \<times> 's shell) kres" where
  "run_again again buf i st =
     kbind (again (Slot i) st) (\<lambda>(r, st).
     case r of Inl code \<Rightarrow> Ok (Inl code, st)
     | Inr t \<Rightarrow> kbind (copy_cmd buf i st) (\<lambda>st. Ok (Inr (), st)))"

definition repeat_history ::
    "(loc \<Rightarrow> 's shell \<Rightarrow> ((int + int) \<times> 's shell) kres) \<Rightarrow> loc \<Rightarrow> 's shell \<Rightarrow> ((int + unit) \<times> 's shell) kres" where
  "repeat_history again buf st =
     (if b_total st = 0 then Ok (Inr (), boog_error ''No previous command to repeat'' st)
      else if b_total st - 1 \<ge> length (b_pairs st) \<or> b_pairs st ! (b_total st - 1) = None then Fault
      else run_again again buf (b_total st - 1) st)"

text \<open>The last entry of the history that satisfies a test.\<close>

definition find_last :: "(history_pair \<Rightarrow> bool) \<Rightarrow> 's shell \<Rightarrow> nat option" where
  "find_last P st = fold (\<lambda>i r. case b_pairs st ! i of Some p \<Rightarrow> if P p then Some i else r | None \<Rightarrow> r) [0..<b_count st] None"

text \<open>\<open>search_by_num\<close> does not end \<open>arg_nums\<close> by a NUL: \<open>atoi\<close> goes on into what the array held before.\<close>

definition search_by_num ::
    "(loc \<Rightarrow> 's shell \<Rightarrow> ((int + int) \<times> 's shell) kres) \<Rightarrow> loc \<Rightarrow> 's shell \<Rightarrow> ((int + unit) \<times> 's shell) kres" where
  "search_by_num again buf st =
     (let digits = take BUFFER_SIZE (takeWhile (\<lambda>c. 48 \<le> c \<and> c \<le> 57) (drop 1 (cstr (get_buf buf st))));
          val = uatoi (put_bytes (b_junk st) 0 digits) in
      case find_last (\<lambda>p. h_val p = val) st of
        None \<Rightarrow> Ok (Inr (), boog_error ''Command number not found in recent history'' (emit [NotFoundNum val] st))
      | Some i \<Rightarrow> run_again again buf i st)"

text \<open>\<open>match\<close> is a copy of the command up to its first blank, or else its newline. The loop over the
  characters finds all of them equal exactly when the last is.\<close>

definition match_word :: "u8 list \<Rightarrow> u8 list" where
  "match_word c =
     (let m = cstr c @ [0] in
      case (case ustrchr m 32 of None \<Rightarrow> ustrchr m 10 | Some p \<Rightarrow> Some p) of None \<Rightarrow> m | Some p \<Rightarrow> m[p := 0])"

fun match_loop :: "u8 list \<Rightarrow> u8 list \<Rightarrow> nat \<Rightarrow> nat \<Rightarrow> nat list \<Rightarrow> bool" where
  "match_loop arg m n matching [] = False"
| "match_loop arg m n matching (ci # cis) =
     (let matching = (if arg ! ci = char_at m ci then matching + 1 else matching) in
      if matching = n then True else match_loop arg m n matching cis)"

definition search_by_cmd ::
    "(loc \<Rightarrow> 's shell \<Rightarrow> ((int + int) \<times> 's shell) kres) \<Rightarrow> loc \<Rightarrow> 's shell \<Rightarrow> ((int + unit) \<times> 's shell) kres" where
  "search_by_cmd again buf st =
     (let arg = take BUFFER_SIZE (takeWhile (\<lambda>c. 97 \<le> c \<and> c \<le> 122) (drop 1 (cstr (get_buf buf st)))); n = length arg in
      if n = BUFFER_SIZE then Fault
      else
        case find_last (\<lambda>p. match_loop arg (match_word (h_command p)) n 0 [0..<n]) st of
          None \<Rightarrow> Ok (Inr (), boog_error ''Command match not found in recent history'' (emit [NotFoundCmd arg] st))
        | Some i \<Rightarrow> run_again again buf i st)"

section \<open>Programs\<close>

fun wait_loop :: "nat \<Rightarrow> 's sysops \<Rightarrow> int \<Rightarrow> 's shell \<Rightarrow> 's shell kres" where
  "wait_loop 0 ops pid st = Blocked"
| "wait_loop (Suc fuel) ops pid st =
     (let ((q, status), w) = y_wait ops (b_world st); st = st\<lparr>b_world := w\<rparr> in
      if q \<noteq> pid then wait_loop fuel ops pid st else Ok (st\<lparr>b_status := status\<rparr>))"

definition run_program :: "nat \<Rightarrow> 's sysops \<Rightarrow> loc \<Rightarrow> bool \<Rightarrow> 's shell \<Rightarrow> ((int + unit) \<times> 's shell) kres" where
  "run_program fuel ops buf background st =
     (let (pid, w) = y_fork ops (get_buf buf st) (b_world st); st = st\<lparr>b_world := w\<rparr> in
      if pid = - 1 then Ok (Inl 1, emit [Err ''Fatal error: failed to fork child process in run_program!''] st)
      else if background then Ok (Inr (), emit [Background pid] st)
      else kbind (wait_loop fuel ops pid st) (\<lambda>st. Ok (Inr (), st)))"

text \<open>The zigzag of \<open>enter_the_matrix\<close>.\<close>

record zigzag =
  z_f1 :: int
  z_f2 :: int
  z_d1 :: int
  z_d2 :: int
  z_s1 :: int
  z_s2 :: int
  z_counter :: nat

definition zigzag_start :: zigzag where
  "zigzag_start = \<lparr>z_f1 = 0, z_f2 = 1, z_d1 = 1, z_d2 = - 1, z_s1 = 0, z_s2 = 20, z_counter = 0\<rparr>"

definition frame_line :: "int \<Rightarrow> int \<Rightarrow> u8 list" where
  "frame_line s f = replicate (nat s) 32 @ map (\<lambda>i. of_int (48 + (int i + f) mod 2)) [0..<10] @ [10]"

definition zigzag_next :: "zigzag \<Rightarrow> zigzag" where
  "zigzag_next z =
     (let s1 = z_s1 z + z_d1 z; s2 = z_s2 z + z_d2 z in
      z\<lparr>z_s1 := s1, z_s2 := s2,
        z_d1 := (if s1 = 20 \<or> s1 = 0 then - z_d1 z else z_d1 z),
        z_d2 := (if s2 = 20 \<or> s2 = 0 then - z_d2 z else z_d2 z),
        z_f1 := 1 - z_f1 z, z_f2 := 1 - z_f2 z, z_counter := z_counter z + 1\<rparr>)"

fun matrix_loop :: "nat \<Rightarrow> zigzag \<Rightarrow> 's shell \<Rightarrow> 's shell kres" where
  "matrix_loop 0 z st = Blocked"
| "matrix_loop (Suc fuel) z st =
     (let (stop, z, st) =
        (if z_counter z = 100 then
           let (i, b, inp) = fgets (replicate BUFFER_SIZE 0) 0 BUFFER_SIZE (b_input st) in
           (ustrcmp b [110, 10] = 0 \<or> ustrcmp b [110, 111, 10] = 0, z\<lparr>z_counter := 0\<rparr>, (emit [Ask] st)\<lparr>b_input := inp\<rparr>)
         else (False, z, st)) in
      if stop then Ok st
      else matrix_loop fuel (zigzag_next z) (emit [Frame (frame_line (z_s1 z) (z_f1 z)), Frame (frame_line (z_s2 z) (z_f2 z))] st))"

definition enter_the_matrix :: "nat \<Rightarrow> 's shell \<Rightarrow> 's shell kres" where
  "enter_the_matrix fuel st = matrix_loop fuel zigzag_start (emit [Clear] st)"

section \<open>choose_cmd\<close>

text \<open>The clock counts nanoseconds, of which an \<open>int\<close> keeps the low 32 bits. (The difference of two such
  \<open>int\<close>s may overflow; it is taken to wrap.) C division cuts towards zero.\<close>

definition elapsed :: "u64 \<Rightarrow> u64 \<Rightarrow> int" where
  "elapsed t_start t_end =
     (let d = sint ((ucast t_end :: u32) - ucast t_start) in
      if d < 0 then - (- d div 1000000) else d div 1000000)"

definition unixtime :: "'s sysops \<Rightarrow> 's shell \<Rightarrow> u64 \<times> 's shell" where
  "unixtime ops st = (let (t, w) = y_time ops (b_world st) in (t, st\<lparr>b_world := w\<rparr>))"

definition run_choice ::
    "nat \<Rightarrow> 's sysops \<Rightarrow> (loc \<Rightarrow> 's shell \<Rightarrow> ((int + int) \<times> 's shell) kres) \<Rightarrow> choice \<Rightarrow> bool \<Rightarrow> loc \<Rightarrow> 's shell \<Rightarrow>
     ((int + unit) \<times> 's shell) kres" where
  "run_choice fuel ops again choice background buf st =
     (case choice of
        CD \<Rightarrow> Ok (Inr (), change_directory ops buf st)
      | EXIT \<Rightarrow> Ok (Inl 0, st)
      | HISTORY \<Rightarrow> Ok (Inr (), print_history False st)
      | HISTORY_T \<Rightarrow> Ok (Inr (), print_history True st)
      | REPEAT \<Rightarrow> repeat_history again buf st
      | SEARCH_BY_NUM \<Rightarrow> search_by_num again buf st
      | SEARCH_BY_CMD \<Rightarrow> search_by_cmd again buf st
      | PROGRAM \<Rightarrow> run_program fuel ops buf background st
      | MATRIX \<Rightarrow> kbind (enter_the_matrix fuel st) (\<lambda>st. Ok (Inr (), st))
      | NO_CHOICE \<Rightarrow> Ok (Inr (), st))"

fun choose_cmd :: "nat \<Rightarrow> 's sysops \<Rightarrow> loc \<Rightarrow> 's shell \<Rightarrow> ((int + int) \<times> 's shell) kres" where
  "choose_cmd 0 ops buf st = Blocked"
| "choose_cmd (Suc fuel) ops buf st =
     (let (choice, s) = check_built_in (get_buf buf st);
          st = upd_buf buf (\<lambda>_. s) st;
          len = ustrlen s in
      if len = 0 then Ok (Inr (- 1), st)
      else
        let background = (char_at s (len - 1) = 38);
            st = (if background then upd_buf buf (\<lambda>s. s[len - 1 := 0]) st else st);
            (t_start, st) = unixtime ops st in
        kbind (run_choice fuel ops (choose_cmd fuel ops) choice background buf st) (\<lambda>(r, st).
        case r of Inl code \<Rightarrow> Ok (Inl code, st)
        | Inr u \<Rightarrow> let (t_end, st) = unixtime ops st in Ok (Inr (elapsed t_start t_end), st)))"

section \<open>The main loops\<close>

definition getcmd :: "'s shell \<Rightarrow> 's shell" where
  "getcmd st =
     (let (b, inp) = gets (replicate (length (b_line st)) 0) (length (b_line st)) (b_input st) in
      st\<lparr>b_line := b, b_input := inp\<rparr>)"

definition check_comment :: "u8 list \<Rightarrow> u8 list" where
  "check_comment buf = (case ustrchr buf 35 of None \<Rightarrow> buf | Some cp \<Rightarrow> buf[cp := 0])"

text \<open>What both loops do with the line in \<open>buf\<close>.\<close>

definition run_line :: "nat \<Rightarrow> 's sysops \<Rightarrow> 's shell \<Rightarrow> ((int + unit) \<times> 's shell) kres" where
  "run_line fuel ops st =
     kbind (choose_cmd fuel ops Line st) (\<lambda>(r, st).
     case r of Inl code \<Rightarrow> Ok (Inl code, st)
     | Inr time_taken \<Rightarrow>
       Ok (Inr (), if time_taken = - 1 then st
                   else if b_status st = 0 then add_history (b_line st) time_taken st else st))"

definition interactive_turn :: "nat \<Rightarrow> 's sysops \<Rightarrow> 's shell \<Rightarrow> ((int + unit) \<times> 's shell) kres" where
  "interactive_turn fuel ops st =
     (let st = getcmd st;
          st = st\<lparr>b_line := check_comment (b_line st), b_status := 0, b_cmd_num := b_cmd_num st + 1\<rparr> in
      run_line fuel ops st)"

text \<open>\<open>None\<close> says that the script is at its end. \<open>fresh\<close> is what \<open>malloc\<close> finds in its memory.\<close>

definition script_turn ::
    "nat \<Rightarrow> 's sysops \<Rightarrow> (nat \<Rightarrow> u8 list) \<Rightarrow> 's shell \<Rightarrow> ((int + unit) \<times> 's shell) option kres" where
  "script_turn fuel ops fresh st =
     kbind (getline fresh (b_script_line st) (b_script_max st) (b_script st)) (\<lambda>(n, line, inp).
     if n \<le> 0 then Ok None
     else
       let len = ustrlen line;
           st = st\<lparr>b_script := inp, b_script_max := length line, b_script_line := Some (line[len - 1 := 0])\<rparr> in
       if len = 0 then Fault
       else if \<not> b_header_read st then Ok (Some (Inr (), st\<lparr>b_header_read := True\<rparr>))
       else
         let s = cstr (line[len - 1 := 0]) in
         if length s < length (b_line st) then
           kbind (run_line fuel ops (st\<lparr>b_line := check_comment (put_bytes (b_line st) 0 (s @ [0])), b_status := 0\<rparr>))
             (\<lambda>(r, st). Ok (Some (r, st)))
         else Fault)"

fun main_loop :: "nat \<Rightarrow> 's sysops \<Rightarrow> (nat \<Rightarrow> u8 list) \<Rightarrow> 's shell \<Rightarrow> (int \<times> 's shell) kres" where
  "main_loop 0 ops fresh st = Blocked"
| "main_loop (Suc fuel) ops fresh st =
     (if \<not> b_scripting st then
        kbind (interactive_turn fuel ops st) (\<lambda>(r, st).
        case r of Inl code \<Rightarrow> Ok (code, st) | Inr u \<Rightarrow> main_loop fuel ops fresh st)
      else
        kbind (script_turn fuel ops fresh st) (\<lambda>x.
        case x of None \<Rightarrow> Ok (0, st)
        | Some (r, st) \<Rightarrow> (case r of Inl code \<Rightarrow> Ok (code, st) | Inr u \<Rightarrow> main_loop fuel ops fresh st)))"

text \<open>\<open>main\<close>: the argument, if there is one, is the text of the script, or \<open>None\<close> when it cannot be opened.\<close>

definition boogsh_main ::
    "nat \<Rightarrow> 's sysops \<Rightarrow> (nat \<Rightarrow> u8 list) \<Rightarrow> u8 list option option \<Rightarrow> 's shell \<Rightarrow> (int \<times> 's shell) kres" where
  "boogsh_main fuel ops fresh arg st =
     (let st = init_history st in
      case arg of
        None \<Rightarrow> main_loop fuel ops fresh (st\<lparr>b_scripting := False\<rparr>)
      | Some None \<Rightarrow> Ok (1, boog_error ''scripting file does not exist'' st)
      | Some (Some text) \<Rightarrow>
          main_loop fuel ops fresh (st\<lparr>b_scripting := True, b_script := text, b_script_line := None, b_script_max := 0,
            b_header_read := False\<rparr>))"

section \<open>What the history holds\<close>

text \<open>The entries for the valid commands \<open>cs\<close> and their times: the last hundred, numbered from 1.\<close>

definition entry :: "(u8 list \<times> int) list \<Rightarrow> nat \<Rightarrow> history_pair" where
  "entry cs i = \<lparr>h_command = cstr (fst (cs ! i)) @ [0], h_val = int i + 1, h_time = snd (cs ! i)\<rparr>"

definition recent :: "(u8 list \<times> int) list \<Rightarrow> history_pair list" where
  "recent cs = map (entry cs) [length cs - 100..<length cs]"

lemma shift_down: "n < length ps \<Longrightarrow> fold (\<lambda>i ps. ps[i := ps ! (i + 1)]) [0..<n] ps = take n (drop 1 ps) @ drop n ps"
proof (induction n)
  case (Suc n)
  let ?qs = "take n (drop 1 ps) @ drop n ps"
  have "drop n ps = ps ! n # drop (Suc n) ps" using Suc.prems by (simp add: Cons_nth_drop_Suc)
  moreover have "?qs ! (n + 1) = ps ! (n + 1)" using Suc.prems by (simp add: nth_append)
  moreover have "take (Suc n) (drop 1 ps) = take n (drop 1 ps) @ [ps ! (n + 1)]"
    using Suc.prems by (subst take_Suc_conv_app_nth) simp_all
  ultimately have "?qs[n := ?qs ! (n + 1)] = take (Suc n) (drop 1 ps) @ drop (Suc n) ps"
    using Suc.prems by (simp add: list_update_append)
  then show ?case using Suc by simp
qed simp

definition holds :: "(u8 list \<times> int) list \<Rightarrow> 's shell \<Rightarrow> bool" where
  "holds cs st \<longleftrightarrow> b_pairs st = map Some (recent cs) @ replicate (128 - length (recent cs)) None \<and>
     b_count st = length (recent cs) \<and> b_total st = length cs + 1"

lemma length_recent: "length (recent cs) = min 100 (length cs)"
  by (simp add: recent_def)

lemma entry_snoc: "i < length cs \<Longrightarrow> entry (cs @ [c]) i = entry cs i"
  by (simp add: entry_def nth_append)

lemma recent_snoc:
  "recent (cs @ [c]) = (if length cs < 100 then recent cs else drop 1 (recent cs)) @ [entry (cs @ [c]) (length cs)]"
proof -
  have "map (entry (cs @ [c])) [k..<length cs] = map (entry cs) [k..<length cs]" for k
    by (rule map_cong) (simp_all add: entry_snoc)
  moreover have "[length cs + 1 - 100..<length cs + 1] = [length cs + 1 - 100..<length cs] @ [length cs]"
    by simp
  moreover have "drop 1 [length cs - 100..<length cs] = [length cs + 1 - 100..<length cs]" if "100 \<le> length cs"
  proof -
    have "Suc (length cs - 100) = length cs + 1 - 100" using that by simp
    then show ?thesis by (simp only: drop_upt) simp
  qed
  ultimately show ?thesis by (auto simp: recent_def drop_map)
qed

lemma holds_add:
  assumes "holds cs st" "valid_cmd c"
  shows "holds (cs @ [(c, t)]) (add_history c t st)"
proof -
  let ?e = "entry (cs @ [(c, t)]) (length cs)" and ?r = "recent cs"
  have e: "\<lparr>h_command = cstr c @ [0], h_val = 1 + int (length cs), h_time = t\<rparr> = ?e"
    by (simp add: entry_def)
  have pairs: "b_pairs st = map Some ?r @ replicate (128 - length ?r) None" using assms(1) by (simp add: holds_def)
  show ?thesis
  proof (cases "length cs < 100")
    case True
    then have l: "length ?r = length cs" by (simp add: length_recent)
    have "128 - length cs = Suc (127 - length cs)" using True by simp
    then have "(b_pairs st)[length cs := Some ?e] = map Some (?r @ [?e]) @ replicate (127 - length cs) None"
      using l unfolding pairs by (simp add: list_update_append)
    then show ?thesis using assms True l
      by (simp add: holds_def add_history_def e recent_snoc)
  next
    case False
    then have l: "length ?r = 100" by (simp add: length_recent)
    have d: "drop 99 ?r = [?r ! 99]" using l by (simp add: Cons_nth_drop_Suc [symmetric])
    let ?rest = "replicate 28 (None :: history_pair option)"
    have "fold (\<lambda>i ps. ps[i := ps ! (i + 1)]) [0..<99] (b_pairs st) =
        take 99 (drop 1 (map Some ?r @ ?rest)) @ drop 99 (map Some ?r @ ?rest)"
      using shift_down [of 99 "map Some ?r @ ?rest"] pairs l by simp
    also have "\<dots> = map Some (drop 1 ?r) @ Some (?r ! 99) # ?rest"
      using l d by (simp add: drop_map)
    finally have "(fold (\<lambda>i ps. ps[i := ps ! (i + 1)]) [0..<99] (b_pairs st))[99 := Some ?e] = map Some (drop 1 ?r @ [?e]) @ ?rest"
      using l by (simp add: list_update_append)
    then show ?thesis using assms False l by (simp add: holds_def add_history_def e recent_snoc)
  qed
qed

lemma holds_all:
  "holds cs st \<Longrightarrow> holds (cs @ filter (\<lambda>(c, t). valid_cmd c) xs) (fold (\<lambda>(c, t). add_history c t) xs st)"
proof (induction xs arbitrary: cs st)
  case (Cons x xs)
  obtain c t where x: "x = (c, t)" by (cases x)
  show ?case
  proof (cases "valid_cmd c")
    case True
    show ?thesis using Cons.IH [OF holds_add [OF Cons.prems True, of t]] True x by simp
  next
    case False
    then have "add_history c t st = st" by (simp add: add_history_def)
    then show ?thesis using Cons.IH [OF Cons.prems] False x by simp
  qed
qed simp

lemma add_history_out: "b_out (fold (\<lambda>(c, t). add_history c t) xs st) = b_out st"
  by (induction xs arbitrary: st) (auto simp: add_history_def Let_def)

lemma holds_nth: "holds cs st \<Longrightarrow> i < b_count st \<Longrightarrow> b_pairs st ! i = Some (entry cs (length cs - 100 + i))"
  by (simp add: holds_def nth_append recent_def)

lemma find_last_fold:
  assumes "\<forall>j<n. \<exists>p. ps ! j = Some p" "\<forall>j<n. P (the (ps ! j)) \<longrightarrow> j = k"
  shows "fold (\<lambda>i r. case ps ! i of Some p \<Rightarrow> if P p then Some i else r | None \<Rightarrow> r) [0..<n] None =
    (if k < n \<and> P (the (ps ! k)) then Some k else None)"
  using assms
proof (induction n)
  case (Suc n)
  then obtain p where p: "ps ! n = Some p" by blast
  have ih: "fold (\<lambda>i r. case ps ! i of Some p \<Rightarrow> if P p then Some i else r | None \<Rightarrow> r) [0..<n] None =
      (if k < n \<and> P (the (ps ! k)) then Some k else None)"
    by (rule Suc.IH) (use Suc.prems in simp_all)
  show ?case
  proof (cases "P p")
    case True
    then have "n = k" using Suc.prems(2) p by simp
    then show ?thesis using True p by simp
  next
    case False
    then have "k < Suc n \<and> P (the (ps ! k)) \<longleftrightarrow> k < n \<and> P (the (ps ! k))" using p less_Suc_eq by auto
    then show ?thesis using False p ih by simp
  qed
qed simp

lemma holds_find:
  assumes "holds cs st"
  shows "find_last (\<lambda>p. h_val p = v) st =
    (if int (length cs - 100) < v \<and> v \<le> int (length cs) then Some (nat v - 1 - (length cs - 100)) else None)"
proof -
  have c: "b_count st = min 100 (length cs)" using assms by (simp add: holds_def length_recent)
  let ?k = "nat v - 1 - (length cs - 100)"
  have val: "h_val (the (b_pairs st ! j)) = int (length cs - 100 + j) + 1" if "j < b_count st" for j
    using holds_nth [OF assms that] by (simp add: entry_def)
  have "find_last (\<lambda>p. h_val p = v) st = (if ?k < b_count st \<and> h_val (the (b_pairs st ! ?k)) = v then Some ?k else None)"
    unfolding find_last_def
  proof (rule find_last_fold)
    show "\<forall>j<b_count st. \<exists>p. b_pairs st ! j = Some p" using holds_nth [OF assms] by blast
    show "\<forall>j<b_count st. h_val (the (b_pairs st ! j)) = v \<longrightarrow> j = ?k"
    proof (intro allI impI)
      fix j assume "j < b_count st" "h_val (the (b_pairs st ! j)) = v"
      then have "int (length cs - 100 + j) + 1 = v" using val by simp
      then show "j = ?k" by linarith
    qed
  qed
  moreover have "?k < b_count st \<and> h_val (the (b_pairs st ! ?k)) = v \<longleftrightarrow> int (length cs - 100) < v \<and> v \<le> int (length cs)"
  proof (cases "?k < b_count st")
    case True
    then have "h_val (the (b_pairs st ! ?k)) = v \<longleftrightarrow> int (length cs - 100 + ?k) + 1 = v" using val by simp
    then show ?thesis using True c by linarith
  next
    case False
    then show ?thesis using c by linarith
  qed
  ultimately show ?thesis by simp
qed

lemma print_holds:
  assumes "holds cs st"
  shows "b_out (print_history False st) = b_out st @ map (\<lambda>p. Entry (h_val p) (cstr (h_command p))) (recent cs)"
proof -
  have "map (\<lambda>i. case b_pairs st ! i of None \<Rightarrow> [] | Some p \<Rightarrow> [Entry (h_val p) (cstr (h_command p))]) [0..<b_count st] =
      map (\<lambda>p. [Entry (h_val p) (cstr (h_command p))]) (recent cs)"
    using assms holds_nth [OF assms] by (intro nth_equalityI) (simp_all add: holds_def recent_def)
  moreover have "concat (map (\<lambda>p. [Entry (h_val p) (cstr (h_command p))]) ps) = map (\<lambda>p. Entry (h_val p) (cstr (h_command p))) ps" for ps
    by (induction ps) simp_all
  ultimately show ?thesis using assms unfolding print_history_def if_False by (simp add: holds_def emit_def)
qed

text \<open>The slot behind the last entry, which \<open>!!\<close> reads, was never written.\<close>

lemma repeat_holds: "holds cs st \<Longrightarrow> repeat_history again buf st = Fault"
  by (auto simp: repeat_history_def holds_def length_recent nth_append)


end
