(* ===== verification/Grep.thy ===== *)
theory Grep imports ULib begin

text \<open>
  user/grep.c: the matcher for \<open>^\<close>, \<open>.\<close>, \<open>*\<close> and \<open>$\<close>, and the loop that reads a file into a buffer of 1024
  bytes and prints the matching lines. A string is the list of its bytes before the NUL. How many bytes
  each \<open>read\<close> delivers is up to the kernel: \<open>rd k\<close> bounds read number \<open>k\<close>. The theorems show that the
  matcher decides the language of the pattern and that what is printed does not depend on \<open>rd\<close>.
\<close>

section \<open>The matcher\<close>

definition char_matches :: "u8 \<Rightarrow> u8 \<Rightarrow> bool" where
  "char_matches c x \<longleftrightarrow> c = 46 \<or> c = x"

function matchhere :: "u8 list \<Rightarrow> u8 list \<Rightarrow> bool"
  and matchstar :: "u8 \<Rightarrow> u8 list \<Rightarrow> u8 list \<Rightarrow> bool" where
  "matchhere [] str = True"
| "matchhere (c # re) str =
     (if re \<noteq> [] \<and> hd re = 42 then matchstar c (tl re) str
      else if c = 36 \<and> re = [] then str = []
      else case str of [] \<Rightarrow> False | x # str \<Rightarrow> char_matches c x \<and> matchhere re str)"
| "matchstar c re str =
     (matchhere re str \<or> (case str of [] \<Rightarrow> False | x # str \<Rightarrow> char_matches c x \<and> matchstar c re str))"
  by pat_completeness auto
termination
  by (relation "measures [\<lambda>x. case x of Inl (re, str) \<Rightarrow> length re | Inr (c, re, str) \<Rightarrow> length re + 1,
      \<lambda>x. case x of Inl (re, str) \<Rightarrow> length str | Inr (c, re, str) \<Rightarrow> length str]") auto

declare matchstar.simps [simp del]

fun match_from :: "u8 list \<Rightarrow> u8 list \<Rightarrow> bool" where
  "match_from re [] = matchhere re []"
| "match_from re (x # str) = (matchhere re (x # str) \<or> match_from re str)"

definition match :: "u8 list \<Rightarrow> u8 list \<Rightarrow> bool" where
  "match re str = (case re of [] \<Rightarrow> match_from re str | c # r \<Rightarrow> if c = 94 then matchhere r str else match_from re str)"

section \<open>The language of a pattern\<close>

text \<open>A pattern is a sequence of characters and starred characters, with an anchor on either side.\<close>

datatype item = One u8 | Star u8

fun items :: "u8 list \<Rightarrow> item list \<times> bool" where
  "items [] = ([], False)"
| "items [c] = (if c = 36 then ([], True) else ([One c], False))"
| "items (c # d # re) =
     (if d = 42 then (let (ps, e) = items re in (Star c # ps, e)) else (let (ps, e) = items (d # re) in (One c # ps, e)))"

fun lang :: "item list \<Rightarrow> u8 list set" where
  "lang [] = {[]}"
| "lang (One c # ps) = {x # w | x w. char_matches c x \<and> w \<in> lang ps}"
| "lang (Star c # ps) = {u @ w | u w. (\<forall>x\<in>set u. char_matches c x) \<and> w \<in> lang ps}"

definition anchored :: "u8 list \<Rightarrow> bool" where
  "anchored re \<longleftrightarrow> re \<noteq> [] \<and> hd re = 94"

definition re_matches :: "u8 list \<Rightarrow> u8 list \<Rightarrow> bool" where
  "re_matches re str \<longleftrightarrow>
     (let (ps, at_end) = items (if anchored re then tl re else re) in
      \<exists>pre w post. str = pre @ w @ post \<and> w \<in> lang ps \<and> (anchored re \<longrightarrow> pre = []) \<and> (at_end \<longrightarrow> post = []))"

text \<open>The same at a fixed start.\<close>

definition prefix_in :: "item list \<times> bool \<Rightarrow> u8 list \<Rightarrow> bool" where
  "prefix_in p str \<longleftrightarrow> (\<exists>w post. str = w @ post \<and> w \<in> lang (fst p) \<and> (snd p \<longrightarrow> post = []))"

lemma prefix_in_Nil: "prefix_in ([], e) str \<longleftrightarrow> (e \<longrightarrow> str = [])"
  by (auto simp: prefix_in_def)

lemma prefix_inI: "w \<in> lang ps \<Longrightarrow> e \<longrightarrow> post = [] \<Longrightarrow> prefix_in (ps, e) (w @ post)"
  by (auto simp: prefix_in_def)

lemma prefix_inE:
  assumes "prefix_in (ps, e) str"
  obtains w post where "str = w @ post" "w \<in> lang ps" "e \<longrightarrow> post = []"
  using assms by (auto simp: prefix_in_def)

lemma prefix_in_One: "prefix_in (One c # ps, e) str \<longleftrightarrow> (\<exists>x t. str = x # t \<and> char_matches c x \<and> prefix_in (ps, e) t)"
proof
  assume "prefix_in (One c # ps, e) str"
  then show "\<exists>x t. str = x # t \<and> char_matches c x \<and> prefix_in (ps, e) t"
  proof (rule prefix_inE)
    fix w post assume "str = w @ post" "w \<in> lang (One c # ps)" "e \<longrightarrow> post = []"
    then show ?thesis using prefix_inI [of _ ps e post] by auto
  qed
next
  assume "\<exists>x t. str = x # t \<and> char_matches c x \<and> prefix_in (ps, e) t"
  then obtain x t where x: "str = x # t" "char_matches c x" "prefix_in (ps, e) t" by blast
  from x(3) obtain w post where "t = w @ post" "w \<in> lang ps" "e \<longrightarrow> post = []" by (rule prefix_inE)
  with x have t: "str = (x # w) @ post" "char_matches c x" "w \<in> lang ps" "e \<longrightarrow> post = []" by simp_all
  show "prefix_in (One c # ps, e) str" unfolding t(1) using t(2-) by (intro prefix_inI) auto
qed

lemma prefix_in_Star:
  "prefix_in (Star c # ps, e) str \<longleftrightarrow>
    prefix_in (ps, e) str \<or> (\<exists>x t. str = x # t \<and> char_matches c x \<and> prefix_in (Star c # ps, e) t)"
proof
  assume "prefix_in (Star c # ps, e) str"
  then obtain v post where "str = v @ post" "v \<in> lang (Star c # ps)" "e \<longrightarrow> post = []" by (rule prefix_inE)
  then obtain u w where u: "str = u @ w @ post" "\<forall>x\<in>set u. char_matches c x" "w \<in> lang ps" "e \<longrightarrow> post = []"
    by auto
  show "prefix_in (ps, e) str \<or> (\<exists>x t. str = x # t \<and> char_matches c x \<and> prefix_in (Star c # ps, e) t)"
  proof (cases u)
    case Nil
    then show ?thesis using u prefix_inI by auto
  next
    case (Cons x u2)
    have "u2 @ w \<in> lang (Star c # ps)" using u Cons by auto
    from prefix_inI [OF this u(4)] show ?thesis using u(1,2) Cons by simp
  qed
next
  assume "prefix_in (ps, e) str \<or> (\<exists>x t. str = x # t \<and> char_matches c x \<and> prefix_in (Star c # ps, e) t)"
  then show "prefix_in (Star c # ps, e) str"
  proof
    assume "prefix_in (ps, e) str"
    then obtain w post where t: "str = w @ post" "w \<in> lang ps" "e \<longrightarrow> post = []" by (rule prefix_inE)
    from t(2) have "\<exists>u v. w = u @ v \<and> (\<forall>x\<in>set u. char_matches c x) \<and> v \<in> lang ps"
      by (intro exI [of _ "[]"] exI [of _ w]) simp
    then have "w \<in> lang (Star c # ps)" by simp
    from prefix_inI [OF this t(3)] show ?thesis unfolding t(1) .
  next
    assume "\<exists>x t. str = x # t \<and> char_matches c x \<and> prefix_in (Star c # ps, e) t"
    then obtain x t where x: "str = x # t" "char_matches c x" "prefix_in (Star c # ps, e) t" by blast
    from x(3) obtain v post where v: "t = v @ post" "v \<in> lang (Star c # ps)" "e \<longrightarrow> post = []" by (rule prefix_inE)
    then obtain u w where "v = u @ w" "\<forall>x\<in>set u. char_matches c x" "w \<in> lang ps" by auto
    then have "\<exists>u w. x # v = u @ w \<and> (\<forall>x\<in>set u. char_matches c x) \<and> w \<in> lang ps"
      using x(2) by (intro exI [of _ "x # u"] exI [of _ w]) simp
    then have "x # v \<in> lang (Star c # ps)" by simp
    from prefix_inI [OF this v(3)] show ?thesis unfolding x(1) v(1) by simp
  qed
qed

lemma matchhere_prefix: "matchhere re str \<longleftrightarrow> prefix_in (items re) str"
  and matchstar_prefix: "matchstar c re str \<longleftrightarrow> prefix_in (Star c # fst (items re), snd (items re)) str"
proof (induction re str and c re str rule: matchhere_matchstar.induct)
  case (2 c re str)
  show ?case
  proof (cases re)
    case Nil
    then show ?thesis using 2 by (cases str) (auto simp: prefix_in_Nil prefix_in_One)
  next
    case (Cons d r)
    then show ?thesis using 2 by (cases str) (auto simp: prefix_in_One split: prod.splits)
  qed
next
  case (3 c re str)
  then show ?case
    by (subst matchstar.simps, subst prefix_in_Star) (auto split: list.splits)
qed (auto simp: prefix_in_Nil)

lemma match_from_prefix: "match_from re str \<longleftrightarrow> (\<exists>pre rest. str = pre @ rest \<and> prefix_in (items re) rest)"
proof (induction str)
  case (Cons x str)
  have "(\<exists>pre rest. x # str = pre @ rest \<and> prefix_in (items re) rest) \<longleftrightarrow>
      prefix_in (items re) (x # str) \<or> (\<exists>pre rest. str = pre @ rest \<and> prefix_in (items re) rest)"
    by (auto simp: Cons_eq_append_conv)
  then show ?case using Cons by (simp add: matchhere_prefix)
qed (simp add: matchhere_prefix)

text \<open>So the first match that the backtracking loops find is enough.\<close>

lemma match_spec: "match re str \<longleftrightarrow> re_matches re str"
proof (cases "anchored re")
  case True
  then obtain r where "re = 94 # r" by (cases re) (auto simp: anchored_def)
  then show ?thesis using True
    by (cases "items r") (auto simp: match_def re_matches_def matchhere_prefix prefix_in_def)
next
  case False
  then have "match re str \<longleftrightarrow> match_from re str" by (cases re) (auto simp: match_def anchored_def)
  then show ?thesis using False
    by (cases "items re") (auto simp: re_matches_def match_from_prefix prefix_in_def)
qed

section \<open>The file loop\<close>

text \<open>The lines of the buffer that end in a newline, and what is left. A NUL in the data ends \<open>strchr\<close>'s
  search and \<open>match\<close>'s text.\<close>

function grep_lines :: "u8 list \<Rightarrow> u8 list \<Rightarrow> u8 list \<times> u8 list" where
  "grep_lines pattern p =
     (case ustrchr p 10 of None \<Rightarrow> ([], p)
      | Some q \<Rightarrow>
        let (out, rest) = grep_lines pattern (drop (q + 1) p) in
        (if match pattern (cstr (take q p)) then take (q + 1) p @ out else out, rest))"
  by pat_completeness auto
termination
proof (relation "measure (\<lambda>(pattern, p). length p)", goal_cases)
  case (2 pattern p q)
  have "ustrchr s c = Some k \<Longrightarrow> k < length s" for s c k
    by (induction s arbitrary: k) (auto split: if_splits)
  from this [OF 2] show ?case by simp
qed simp

declare grep_lines.simps [simp del]

text \<open>\<open>buf\<close> is the part of the buffer in use; \<open>k\<close> counts the reads.\<close>

function grep_loop :: "(nat \<Rightarrow> nat) \<Rightarrow> u8 list \<Rightarrow> nat \<Rightarrow> u8 list \<Rightarrow> u8 list \<Rightarrow> u8 list" where
  "grep_loop rd pattern k buf inp =
     (let n = min (min (rd k + 1) (1024 - length buf - 1)) (length inp) in
      if n > 0 then
        let (out, rest) = grep_lines pattern (buf @ take n inp) in
        out @ grep_loop rd pattern (k + 1) rest (drop n inp)
      else [])"
  by pat_completeness auto
termination
  by (relation "measure (\<lambda>(rd, pattern, k, buf, inp). length inp)") auto

declare grep_loop.simps [simp del]

definition grep :: "(nat \<Rightarrow> nat) \<Rightarrow> u8 list \<Rightarrow> u8 list \<Rightarrow> u8 list" where
  "grep rd pattern inp = grep_loop rd pattern 0 [] inp"

text \<open>\<open>main\<close>: the files named, \<open>None\<close> for one that cannot be opened, or else standard input; the output and
  the exit status. (The messages of the error branches are left out.)\<close>

fun grep_files :: "(nat \<Rightarrow> nat) \<Rightarrow> u8 list \<Rightarrow> u8 list option list \<Rightarrow> u8 list \<times> int" where
  "grep_files rd pattern [] = ([], 0)"
| "grep_files rd pattern (None # fs) = ([], 1)"
| "grep_files rd pattern (Some inp # fs) = (let (out, st) = grep_files rd pattern fs in (grep rd pattern inp @ out, st))"

definition grep_main :: "(nat \<Rightarrow> nat) \<Rightarrow> u8 list list \<Rightarrow> (u8 list \<Rightarrow> u8 list option) \<Rightarrow> u8 list \<Rightarrow> u8 list \<times> int" where
  "grep_main rd argv open_file stdin =
     (if length argv \<le> 1 then ([], 1)
      else if length argv \<le> 2 then (grep rd (argv ! 1) stdin, 0)
      else grep_files rd (argv ! 1) (map open_file (drop 2 argv)))"

section \<open>What is printed\<close>

text \<open>The lines that end in a newline, and the rest.\<close>

fun complete_lines :: "u8 list \<Rightarrow> u8 list list \<times> u8 list" where
  "complete_lines [] = ([], [])"
| "complete_lines (x # s) =
     (let (ls, r) = complete_lines s in
      if x = 10 then ([] # ls, r) else case ls of [] \<Rightarrow> ([], x # r) | l # ls \<Rightarrow> ((x # l) # ls, r))"

definition print_lines :: "u8 list \<Rightarrow> u8 list list \<Rightarrow> u8 list" where
  "print_lines pattern ls = concat (map (\<lambda>l. l @ [10]) (filter (re_matches pattern) ls))"

lemma complete_lines_app: "10 \<notin> set l \<Longrightarrow> complete_lines (l @ 10 # s) = (l # fst (complete_lines s), snd (complete_lines s))"
  by (induction l) (auto split: prod.splits)

lemma complete_lines_rest: "10 \<notin> set r \<Longrightarrow> complete_lines r = ([], r)"
  by (induction r) auto

lemma complete_lines_snd: "10 \<notin> set (snd (complete_lines s))"
  by (induction s) (auto split: prod.splits list.splits)

lemma complete_lines_subset: "set (snd (complete_lines s)) \<subseteq> set s"
  by (induction s) (auto split: prod.splits list.splits)

lemma complete_lines_none: "fst (complete_lines p) = [] \<Longrightarrow> snd (complete_lines p) = p"
  by (induction p) (auto split: prod.splits list.splits if_splits)

lemma complete_lines_join:
  "complete_lines (p @ s) =
    (fst (complete_lines p) @ fst (complete_lines (snd (complete_lines p) @ s)), snd (complete_lines (snd (complete_lines p) @ s)))"
proof (induction p)
  case (Cons x p)
  obtain ls r where c: "complete_lines p = (ls, r)" by (cases "complete_lines p")
  show ?case
  proof (cases "x \<noteq> 10 \<and> ls = []")
    case True
    then have "r = p" using complete_lines_none [of p] c by simp
    then show ?thesis using True c by simp
  next
    case False
    then show ?thesis using Cons c by (cases ls) (auto split: prod.splits)
  qed
qed simp

lemma ustrchr_split: "0 \<notin> set p \<Longrightarrow> ustrchr p 10 = (if 10 \<in> set p then Some (length (takeWhile (\<lambda>c. c \<noteq> 10) p)) else None)"
  by (induction p) auto

lemma grep_lines_spec:
  "0 \<notin> set p \<Longrightarrow> grep_lines pattern p = (print_lines pattern (fst (complete_lines p)), snd (complete_lines p))"
proof (induction pattern p rule: grep_lines.induct)
  case (1 pattern p)
  show ?case
  proof (cases "10 \<in> set p")
    case False
    then show ?thesis using 1 by (subst grep_lines.simps) (simp add: ustrchr_split complete_lines_rest print_lines_def)
  next
    case True
    then obtain l s where p: "p = l @ 10 # s" "10 \<notin> set l" by (meson split_list_first)
    have "takeWhile (\<lambda>c. c \<noteq> 10) l = l" using p(2) by (auto simp: takeWhile_eq_all_conv)
    then have q: "ustrchr p 10 = Some (length l)" using 1(2) p by (simp add: ustrchr_split)
    have "0 \<notin> set l" "0 \<notin> set s" using 1(2) p by auto
    moreover have "cstr l = l" if "0 \<notin> set l" using that by (simp add: cstr_def takeWhile_eq_all_conv) (metis)
    ultimately show ?thesis using 1(1) [OF q] q
      by (subst grep_lines.simps) (simp add: p(1) complete_lines_app [OF p(2)] print_lines_def match_spec)
  qed
qed

lemma grep_loop_spec:
  "0 \<notin> set buf \<union> set inp \<Longrightarrow> 10 \<notin> set buf \<Longrightarrow> \<forall>l\<in>set (fst (complete_lines (buf @ inp))). length l \<le> 1022 \<Longrightarrow>
    grep_loop rd pattern k buf inp = print_lines pattern (fst (complete_lines (buf @ inp)))"
proof (induction rd pattern k buf inp rule: grep_loop.induct)
  case (1 rd pattern k buf inp)
  let ?n = "min (min (rd k + 1) (1024 - length buf - 1)) (length inp)"
  show ?case
  proof (cases "?n > 0")
    case False
    have "fst (complete_lines (buf @ inp)) = []"
    proof (cases "inp = []")
      case True
      then show ?thesis using 1(3) by (simp add: complete_lines_rest)
    next
      case full: False
      then have l: "1023 \<le> length buf" using False by (simp split: if_splits)
      have "10 \<notin> set inp"
      proof
        assume "10 \<in> set inp"
        then obtain u v where "inp = u @ 10 # v" "10 \<notin> set u" by (meson split_list_first)
        then have "buf @ u \<in> set (fst (complete_lines (buf @ inp)))"
          using complete_lines_app [of "buf @ u" v] 1(3) by simp
        then show False using 1(4) l by fastforce
      qed
      then show ?thesis using 1(3) complete_lines_rest [of "buf @ inp"] by simp
    qed
    then show ?thesis unfolding grep_loop.simps [of rd pattern k buf inp] Let_def if_not_P [OF False] by (simp add: print_lines_def)
  next
    case True
    let ?p = "buf @ take ?n inp"
    obtain ls r where c: "complete_lines ?p = (ls, r)" by (cases "complete_lines ?p")
    have z: "0 \<notin> set ?p" using 1(2) by (auto dest: in_set_takeD)
    have g: "grep_lines pattern ?p = (print_lines pattern ls, r)" using grep_lines_spec [OF z] c by simp
    have all: "buf @ inp = ?p @ drop ?n inp" by simp
    have j: "fst (complete_lines (buf @ inp)) = ls @ fst (complete_lines (r @ drop ?n inp))"
      unfolding all complete_lines_join [of ?p] c by simp
    have r: "set r \<subseteq> set ?p" using complete_lines_subset [of ?p] c by simp
    have "grep_loop rd pattern (k + 1) r (drop ?n inp) = print_lines pattern (fst (complete_lines (r @ drop ?n inp)))"
    proof (rule 1(1) [OF refl True g [symmetric] refl])
      show "0 \<notin> set r \<union> set (drop ?n inp)" using r z 1(2) by (auto dest: in_set_dropD)
      show "10 \<notin> set r" using complete_lines_snd [of ?p] c by simp
      show "\<forall>l\<in>set (fst (complete_lines (r @ drop ?n inp))). length l \<le> 1022" using 1(4) j by simp
    qed
    then show ?thesis using True unfolding grep_loop.simps [of rd pattern k buf inp] Let_def g j by (simp add: print_lines_def)
  qed
qed

text \<open>C35: \<open>grep\<close> prints exactly the lines of its input that contain a word of the pattern's language, in
  order, whatever sizes the reads come in: for a text without NULs whose lines have at most 1022
  bytes. A last line without a newline is never printed.\<close>

theorem grep_prints_the_matching_lines:
  assumes "0 \<notin> set inp" "\<forall>l\<in>set (fst (complete_lines inp)). length l \<le> 1022"
  shows "grep rd pattern inp = print_lines pattern (fst (complete_lines inp))"
  using grep_loop_spec [of "[]" inp rd pattern 0] assms by (simp add: grep_def)

text \<open>The pattern \<open>^a.*c$\<close> on three lines, one byte per read.\<close>

lemma grep_prints_the_matching_lines_witness:
  "grep (\<lambda>k. 0) [94, 97, 46, 42, 99, 36] [97, 98, 99, 10, 98, 99, 10, 97, 99, 10] =
    print_lines [94, 97, 46, 42, 99, 36] [[97, 98, 99], [98, 99], [97, 99]]"
proof -
  have l: "fst (complete_lines [97, 98, 99, 10, 98, 99, 10, 97, 99, 10]) = [[97, 98, 99], [98, 99], [97, 99]]" by simp
  show ?thesis
    using grep_prints_the_matching_lines [of "[97, 98, 99, 10, 98, 99, 10, 97, 99, 10]" "\<lambda>k. 0" "[94, 97, 46, 42, 99, 36]"]
    unfolding l by simp
qed

end
