(* ===== verification/Printf.thy ===== *)
theory Printf imports ULib begin

text \<open>
  Formatted output: kernel/printf.c and user/printf.c. What is printed is the list of the bytes given to
  \<open>consputc\<close> and to \<open>putc\<close>. The arguments are the 64-bit words in which they are passed, of which \<open>int\<close>s take
  the low half; \<open>str\<close> is the string at an address. Reading more arguments than there are is a \<open>Fault\<close>, as
  is a store behind the 16 bytes of the digit buffer. The two \<open>printint\<close>s share their loop.
\<close>

section \<open>Numbers\<close>

definition digit :: "bool \<Rightarrow> nat \<Rightarrow> u8" where
  "digit upper d = (if d < 10 then of_nat (48 + d) else of_nat ((if upper then 55 else 87) + d))"

text \<open>The digits, lowest first. The loop ends for a base of at least 2; the callers pass 10 and 16.\<close>

function digits_loop :: "bool \<Rightarrow> u32 \<Rightarrow> u32 \<Rightarrow> u8 list" where
  "digits_loop upper x base =
     digit upper (unat (x mod base)) # (if x div base \<noteq> 0 \<and> 1 < base then digits_loop upper (x div base) base else [])"
  by pat_completeness auto
termination
proof (relation "measure (\<lambda>(upper, x, base). unat x)", goal_cases)
  case (2 upper x base)
  then have "unat x \<noteq> 0" "1 < unat base" by (auto simp: word_less_nat_alt unat_eq_zero)
  then show ?case by (simp add: unat_div_distrib)
qed simp

declare digits_loop.simps [simp del]

text \<open>The buffer \<open>buf[16]\<close> is filled from the front and printed from the back.\<close>

definition put_digits :: "u8 list \<Rightarrow> u8 list kres" where
  "put_digits buf = (if length buf \<le> 16 then Ok (rev buf) else Fault)"

definition kprintint :: "u32 \<Rightarrow> u32 \<Rightarrow> bool \<Rightarrow> u8 list kres" where
  "kprintint xx base sign =
     (let neg = sign \<and> sint xx < 0; x = (if neg then - xx else xx) in
      put_digits (digits_loop False x base @ (if neg then [45] else [])))"

definition uprintint :: "u32 \<Rightarrow> u32 \<Rightarrow> bool \<Rightarrow> u8 list kres" where
  "uprintint xx base sg =
     (let neg = sg \<and> sint xx < 0; x = (if neg then - xx else xx) in
      put_digits (digits_loop True x base @ (if neg then [45] else [])))"

fun ptr_digits :: "bool \<Rightarrow> nat \<Rightarrow> u64 \<Rightarrow> u8 list" where
  "ptr_digits upper 0 x = []"
| "ptr_digits upper (Suc n) x = digit upper (unat (drop_bit 60 x)) # ptr_digits upper n (push_bit 4 x)"

definition kprintptr :: "u64 \<Rightarrow> u8 list" where
  "kprintptr x = [48, 120] @ ptr_digits False 16 x"

definition uprintptr :: "u64 \<Rightarrow> u8 list" where
  "uprintptr x = [48, 120] @ ptr_digits True 16 x"

section \<open>Formats\<close>

text \<open>\<open>(null)\<close> stands for a null string pointer.\<close>

definition string_arg :: "(u64 \<Rightarrow> u8 list) \<Rightarrow> u64 \<Rightarrow> u8 list" where
  "string_arg str s = (if s = 0 then [40, 110, 117, 108, 108, 41] else cstr (str s))"

text \<open>The kernel's \<open>printf\<close>: \<open>%d\<close> (100), \<open>%x\<close> (120), \<open>%p\<close> (112), \<open>%s\<close> (115), \<open>%%\<close> (37).\<close>

fun kprintf_loop :: "(u64 \<Rightarrow> u8 list) \<Rightarrow> u8 list \<Rightarrow> u64 list \<Rightarrow> u8 list kres" where
  "kprintf_loop str [] ap = Ok []"
| "kprintf_loop str (c # fmt) ap =
     (if c \<noteq> 37 then kbind (kprintf_loop str fmt ap) (\<lambda>out. Ok (c # out))
      else
        case fmt of [] \<Rightarrow> Ok []
        | c # fmt \<Rightarrow>
          let conv = (\<lambda>f. case ap of [] \<Rightarrow> Fault
                | a # ap \<Rightarrow> kbind (f a) (\<lambda>s. kbind (kprintf_loop str fmt ap) (\<lambda>out. Ok (s @ out)))) in
          (if c = 100 then conv (\<lambda>a. kprintint (ucast a) 10 True)
           else if c = 120 then conv (\<lambda>a. kprintint (ucast a) 16 True)
           else if c = 112 then conv (\<lambda>a. Ok (kprintptr a))
           else if c = 115 then conv (\<lambda>a. Ok (string_arg str a))
           else if c = 37 then kbind (kprintf_loop str fmt ap) (\<lambda>out. Ok (37 # out))
           else kbind (kprintf_loop str fmt ap) (\<lambda>out. Ok (37 # c # out))))"

text \<open>\<open>pr.lock\<close> is taken when \<open>locking\<close> is set, which is what \<open>panic\<close> clears.\<close>

record prstate =
  pr_locking :: bool
  panicked :: bool

definition kprintf :: "(u64 \<Rightarrow> u8 list) \<Rightarrow> u8 list option \<Rightarrow> u64 list \<Rightarrow> u8 list kres" where
  "kprintf str fmt ap = (case fmt of None \<Rightarrow> Panic ''null fmt'' | Some f \<Rightarrow> kprintf_loop str (cstr f) ap)"

text \<open>\<open>panic\<close> prints its message as a format, without arguments, and never returns: the result is what it
  prints and the state in which it stays.\<close>

definition panic :: "(u64 \<Rightarrow> u8 list) \<Rightarrow> u8 list \<Rightarrow> prstate \<Rightarrow> (u8 list \<times> prstate) kres" where
  "panic str s st =
     (let st = st\<lparr>pr_locking := False\<rparr> in
      kbind (kprintf str (Some [112, 97, 110, 105, 99, 58, 32]) []) (\<lambda>a.
      kbind (kprintf str (Some s) []) (\<lambda>b.
      kbind (kprintf str (Some [10]) []) (\<lambda>c.
      Ok (a @ b @ c, st\<lparr>panicked := True\<rparr>)))))"

definition printfinit :: "prstate \<Rightarrow> prstate" where
  "printfinit st = st\<lparr>pr_locking := True\<rparr>"

text \<open>The user's \<open>vprintf\<close>, with \<open>%l\<close> (108) and \<open>%c\<close> (99) as well; \<open>percent\<close> is its \<open>state\<close>.\<close>

fun vprintf :: "(u64 \<Rightarrow> u8 list) \<Rightarrow> bool \<Rightarrow> u8 list \<Rightarrow> u64 list \<Rightarrow> u8 list kres" where
  "vprintf str percent [] ap = Ok []"
| "vprintf str percent (c # fmt) ap =
     (if \<not> percent then
        if c = 37 then vprintf str True fmt ap
        else kbind (vprintf str False fmt ap) (\<lambda>out. Ok (c # out))
      else
        let conv = (\<lambda>f. case ap of [] \<Rightarrow> Fault
              | a # ap \<Rightarrow> kbind (f a) (\<lambda>s. kbind (vprintf str False fmt ap) (\<lambda>out. Ok (s @ out)))) in
        if c = 100 then conv (\<lambda>a. uprintint (ucast a) 10 True)
        else if c = 108 then conv (\<lambda>a. uprintint (ucast a) 10 False)
        else if c = 120 then conv (\<lambda>a. uprintint (ucast a) 16 False)
        else if c = 112 then conv (\<lambda>a. Ok (uprintptr a))
        else if c = 115 then conv (\<lambda>a. Ok (string_arg str a))
        else if c = 99 then conv (\<lambda>a. Ok [ucast a])
        else if c = 37 then kbind (vprintf str False fmt ap) (\<lambda>out. Ok (37 # out))
        else kbind (vprintf str False fmt ap) (\<lambda>out. Ok (37 # c # out)))"

text \<open>\<open>fprintf\<close> and \<open>printf\<close>: what is written to which descriptor.\<close>

definition ufprintf :: "(u64 \<Rightarrow> u8 list) \<Rightarrow> int \<Rightarrow> u8 list \<Rightarrow> u64 list \<Rightarrow> (int \<times> u8 list) kres" where
  "ufprintf str fd fmt ap = kbind (vprintf str False (cstr fmt) ap) (\<lambda>out. Ok (fd, out))"

definition uprintf :: "(u64 \<Rightarrow> u8 list) \<Rightarrow> u8 list \<Rightarrow> u64 list \<Rightarrow> (int \<times> u8 list) kres" where
  "uprintf str fmt ap = ufprintf str 1 fmt ap"

section \<open>Digits\<close>

text \<open>The number that a list of digits, highest first, stands for.\<close>

definition number :: "nat \<Rightarrow> nat list \<Rightarrow> nat" where
  "number base ds = foldl (\<lambda>n d. n * base + d) 0 ds"

function dec :: "nat \<Rightarrow> nat \<Rightarrow> nat list" where
  "dec base x = x mod base # (if x div base \<noteq> 0 \<and> 1 < base then dec base (x div base) else [])"
  by pat_completeness auto
termination
  by (relation "measure snd") (auto simp: div_eq_0_iff)

declare dec.simps [simp del]

lemma digits_loop_dec: "digits_loop upper x base = map (digit upper) (dec (unat base) (unat x))"
proof (induction upper x base rule: digits_loop.induct)
  case (1 upper x base)
  have "x div base \<noteq> 0 \<longleftrightarrow> unat x div unat base \<noteq> 0" "1 < base \<longleftrightarrow> 1 < unat base"
    by (auto simp: word_less_nat_alt unat_div_distrib simp flip: unat_eq_0)
  then show ?case using 1
    by (subst digits_loop.simps, subst dec.simps) (simp add: unat_div_distrib unat_mod_distrib)
qed

lemma number_dec: "1 < base \<Longrightarrow> number base (rev (dec base x)) = x"
proof (induction base x rule: dec.induct)
  case (1 base x)
  then show ?case
    by (cases "x div base = 0") (simp_all add: dec.simps [of base x] number_def div_eq_0_iff)
qed

lemma dec_digits: "1 < base \<Longrightarrow> \<forall>d\<in>set (dec base x). d < base"
proof (induction base x rule: dec.induct)
  case (1 base x)
  then show ?case
    by (cases "x div base \<noteq> 0") (simp_all add: dec.simps [of base x])
qed

lemma dec_length: "1 < base \<Longrightarrow> x < base ^ (n + 1) \<Longrightarrow> length (dec base x) \<le> n + 1"
proof (induction n arbitrary: x)
  case 0
  then show ?case by (subst dec.simps) simp
next
  case (Suc n)
  then have "x div base < base ^ (n + 1)" by (simp add: less_mult_imp_div_less mult.commute)
  then show ?case using Suc by (subst dec.simps) simp
qed

text \<open>Leading zeros are never printed.\<close>

lemma dec_last: "1 < base \<Longrightarrow> x \<noteq> 0 \<Longrightarrow> List.last (dec base x) \<noteq> 0"
proof (induction base x rule: dec.induct)
  case (1 base x)
  have "dec base y \<noteq> []" for y by (subst dec.simps) simp
  then show ?case using 1 by (subst dec.simps) (auto simp: div_eq_0_iff)
qed

lemma sint_cases: "sint (x :: u32) = (if uint x < 2 ^ 31 then uint x else uint x - 2 ^ 32)"
proof -
  have u: "uint x < 2 ^ 32" "0 \<le> uint x" using uint_lt2p [of x] by simp_all
  have "sint x = (uint x + 2 ^ 31) mod 2 ^ 32 - 2 ^ 31"
    by (simp add: sint_uint signed_take_bit_eq_take_bit_shift take_bit_eq_mod)
  moreover have "(uint x + 2 ^ 31) mod 2 ^ 32 = (if uint x < 2 ^ 31 then uint x + 2 ^ 31 else uint x - 2 ^ 31)"
  proof (cases "uint x < 2 ^ 31")
    case True
    then show ?thesis using u by simp
  next
    case False
    have "uint x + 2 ^ 31 = (uint x - 2 ^ 31) + 2 ^ 32" by simp
    then have "(uint x + 2 ^ 31) mod 2 ^ 32 = (uint x - 2 ^ 31) mod 2 ^ 32" by (simp only: mod_add_self2)
    then show ?thesis using False u by simp
  qed
  ultimately show ?thesis by simp
qed

lemma unat_abs: "int (unat (if sint (x :: u32) < 0 then - x else x)) = \<bar>sint x\<bar>"
proof -
  have u: "uint x < 2 ^ 32" "0 \<le> uint x" using uint_lt2p [of x] by simp_all
  have "uint (- x) = (2 ^ 32 - uint x) mod 2 ^ 32"
    by (simp add: uint_word_ariths)
  then have "uint (- x) = 2 ^ 32 - uint x" if "0 < uint x" using that u by (simp only: mod_pos_pos_trivial)
  then show ?thesis using u sint_cases [of x] by (auto simp: uint_nat [symmetric] split: if_splits)
qed

lemma digit_atoi: "\<forall>d\<in>set ds. d < 10 \<Longrightarrow> uatoi_loop n (map (digit u) ds) = foldl (\<lambda>n d. n * 10 + int d) n ds"
proof (induction ds arbitrary: n)
  case (Cons d ds)
  have "d = 0 \<or> d = 1 \<or> d = 2 \<or> d = 3 \<or> d = 4 \<or> d = 5 \<or> d = 6 \<or> d = 7 \<or> d = 8 \<or> d = 9" using Cons.prems by auto
  then have "48 \<le> digit u d \<and> digit u d \<le> 57 \<and> uint (digit u d) = 48 + int d" by (auto simp: digit_def)
  then show ?case using Cons by simp
qed simp

lemma int_number: "int (foldl (\<lambda>n d. n * base + d) n ds) = foldl (\<lambda>n d. n * int base + int d) (int n) ds"
  by (induction ds arbitrary: n) simp_all

text \<open>The digits of a 32-bit number fit the buffer, with a sign.\<close>

lemma dec_fits:
  fixes x base :: u32
  assumes "base = 10 \<or> base = 16"
  defines "ds \<equiv> rev (dec (unat base) (unat x))"
  shows "number (unat base) ds = unat x" "\<forall>d\<in>set ds. d < unat base" "ds \<noteq> []" "1 < length ds \<Longrightarrow> hd ds \<noteq> 0" "length ds \<le> 10"
proof -
  have b: "1 < unat base" "0 < unat base" using assms(1) by auto
  show "number (unat base) ds = unat x" unfolding ds_def by (rule number_dec [OF b(1)])
  show "\<forall>d\<in>set ds. d < unat base" using dec_digits [OF b(1), of "unat x"] by (simp add: ds_def)
  show "ds \<noteq> []" by (simp add: ds_def) (subst dec.simps, simp)
  show "hd ds \<noteq> 0" if "1 < length ds"
  proof -
    have "unat x \<noteq> 0" using that unfolding ds_def by (intro notI) (simp add: dec.simps)
    then show ?thesis using dec_last [OF b(1)] by (simp add: ds_def hd_rev)
  qed
  have "unat x < 2 ^ 32" using unsigned_less [of x] by simp
  then have "unat x < unat base ^ (9 + 1)" using assms(1) by auto
  then show "length ds \<le> 10" using dec_length [OF b(1), of "unat x" 9] by (simp add: ds_def)
qed

lemma put_number:
  assumes "base = 10 \<or> base = 16" "length sg \<le> 1"
  shows "put_digits (digits_loop upper x base @ sg) = Ok (rev sg @ map (digit upper) (rev (dec (unat base) (unat x))))"
  using dec_fits(5) [OF assms(1), of x] assms(2) by (simp add: put_digits_def digits_loop_dec rev_map)



end
