(* ===== verification/Virtio.thy ===== *)
theory Virtio imports Ring begin

text \<open>
  The disk driver, kernel/virtio_disk.c: descriptors, the request queue it shares with the device, its
  interrupt handler. Addresses handed to the device are symbolic (\<open>vptr\<close>), buffers are numbered, the
  medium is a function from byte addresses. \<open>virtio_disk_rw\<close> is cut where it sleeps: \<open>rw_submit\<close> is a
  turn of its first loop and, if descriptors were found, all it does up to the second loop; \<open>rw_finish\<close> is
  a turn of that and the rest. The lock \<open>vdisk_lock\<close> makes each of these, and the handler, one step.

  The device is not part of the sources. \<open>dev_take\<close> and \<open>dev_serve\<close> say what the virtio specification (1.1,
  sections 2.6 and 5.2) requires of it: it takes chain heads off the available ring, and serves what it
  has taken in any order by following the chain from descriptor to descriptor, moving the data, storing
  the status 0 and adding the head to the used ring. \<open>dev_serve\<close> gives \<open>None\<close> for a chain that the
  specification does not allow, so the theorems show that the driver keeps to the protocol.
\<close>

unbundle bit_operations_syntax

section \<open>State\<close>

abbreviation (input) NUM :: nat where "NUM \<equiv> 8"
abbreviation (input) F_NEXT :: u16 where "F_NEXT \<equiv> 1"
abbreviation (input) F_WRITE :: u16 where "F_WRITE \<equiv> 2"

datatype vptr = Null | ReqPtr nat | DataPtr nat | StatusPtr nat

record virtq_desc =
  q_addr :: vptr
  q_len :: u32
  q_flags :: u16
  q_next :: u16

record virtio_blk_req =
  r_type :: u32
  r_reserved :: u32
  r_sector :: u64

record vbuf =
  v_blockno :: u32
  v_disk :: int
  v_data :: "u8 list"

text \<open>\<open>struct disk\<close> with the three shared areas, and then the buffers, the medium and the device's own state:
  how far it has read the available ring, and the heads taken but not served yet.\<close>

record vdisk =
  desc :: "nat \<Rightarrow> virtq_desc"
  avail_idx :: u16
  avail_ring :: "u16 list"
  dev_used_idx :: u16
  used_ring :: "u32 list"
  desc_free :: "nat \<Rightarrow> bool"
  used_idx :: u16
  info_b :: "nat \<Rightarrow> nat option"
  info_status :: "nat \<Rightarrow> u8"
  reqs :: "nat \<Rightarrow> virtio_blk_req"
  bufs :: "nat \<Rightarrow> vbuf"
  medium :: "nat \<Rightarrow> u8"
  dev_seen :: u16
  dev_taken :: "nat list"

definition set_desc :: "nat \<Rightarrow> virtq_desc \<Rightarrow> vdisk \<Rightarrow> vdisk" where
  "set_desc i d st = st\<lparr>desc := (desc st)(i := d)\<rparr>"

section \<open>Initialisation\<close>

text \<open>The control registers that are read, and those that are written, by their offsets. \<open>pages\<close> are the results
  of the three \<open>kalloc\<close>s, \<open>rd\<close> what a register reads as (the status register after the negotiation is the last
  argument). The result is what is written, in order.\<close>

definition virtio_disk_init ::
    "(nat \<Rightarrow> u32) \<Rightarrow> u32 \<Rightarrow> u64 \<Rightarrow> u64 \<Rightarrow> u64 \<Rightarrow> vdisk \<Rightarrow> ((nat \<times> u32) list \<times> vdisk) kres" where
  "virtio_disk_init rd status_after pd pa pu st =
     (if rd 0x000 \<noteq> 0x74726976 \<or> rd 0x004 \<noteq> 2 \<or> rd 0x008 \<noteq> 2 \<or> rd 0x00c \<noteq> 0x554d4551
      then Panic ''could not find virtio disk''
      else
        let features = (ucast (rd 0x010) :: u64) AND NOT (2 ^ 5) AND NOT (2 ^ 7) AND NOT (2 ^ 11) AND NOT (2 ^ 12)
              AND NOT (2 ^ 27) AND NOT (2 ^ 29) AND NOT (2 ^ 28);
            w1 = [(0x070, 0), (0x070, 1), (0x070, 3), (0x020, ucast features), (0x070, 11)] in
        if status_after AND 8 = 0 then Panic ''virtio disk FEATURES_OK unset''
        else if rd 0x044 \<noteq> 0 then Panic ''virtio disk should not be ready''
        else if rd 0x034 = 0 then Panic ''virtio disk has no queue 0''
        else if rd 0x034 < 8 then Panic ''virtio disk max queue too short''
        else if pd = 0 \<or> pa = 0 \<or> pu = 0 then Panic ''virtio disk kalloc''
        else
          Ok (w1 @ [(0x030, 0), (0x038, 8),
               (0x080, ucast pd), (0x084, ucast (drop_bit 32 pd)), (0x090, ucast pa), (0x094, ucast (drop_bit 32 pa)),
               (0x0a0, ucast pu), (0x0a4, ucast (drop_bit 32 pu)), (0x044, 1), (0x070, status_after OR 4)],
              st\<lparr>desc := (\<lambda>i. \<lparr>q_addr = Null, q_len = 0, q_flags = 0, q_next = 0\<rparr>), avail_idx := 0, avail_ring := replicate NUM 0,
                dev_used_idx := 0, used_ring := replicate NUM 0, desc_free := (\<lambda>i. i < NUM)\<rparr>))"

section \<open>Descriptors\<close>

definition alloc_desc :: "vdisk \<Rightarrow> nat option \<times> vdisk" where
  "alloc_desc st =
     (case find (desc_free st) [0..<NUM] of None \<Rightarrow> (None, st)
      | Some i \<Rightarrow> (Some i, st\<lparr>desc_free := (desc_free st)(i := False)\<rparr>))"

definition free_desc :: "nat \<Rightarrow> vdisk \<Rightarrow> vdisk kres" where
  "free_desc i st =
     (if i \<ge> NUM then Panic ''free_desc 1''
      else if desc_free st i then Panic ''free_desc 2''
      else Ok (set_desc i \<lparr>q_addr = Null, q_len = 0, q_flags = 0, q_next = 0\<rparr> st\<lparr>desc_free := (desc_free st)(i := True)\<rparr>))"

text \<open>Freeing ends, as every descriptor is freed once at most.\<close>

lemma free_desc_Ok: "free_desc i st = Ok st' \<longleftrightarrow>
    i < NUM \<and> \<not> desc_free st i \<and>
    st' = set_desc i \<lparr>q_addr = Null, q_len = 0, q_flags = 0, q_next = 0\<rparr> st\<lparr>desc_free := (desc_free st)(i := True)\<rparr>"
  by (auto simp: free_desc_def)

function free_chain :: "nat \<Rightarrow> vdisk \<Rightarrow> vdisk kres" where
  "free_chain i st =
     (let flag = q_flags (desc st i); nxt = q_next (desc st i) in
      kbind (free_desc i st) (\<lambda>st. if flag AND F_NEXT \<noteq> 0 then free_chain (unat nxt) st else Ok st))"
  by pat_completeness auto
termination
proof (relation "measure (\<lambda>(i, st). card {j. j < NUM \<and> \<not> desc_free st j})", goal_cases)
  case (2 i st flag nxt st')
  then have "{j. j < NUM \<and> \<not> desc_free st' j} \<subset> {j. j < NUM \<and> \<not> desc_free st j}"
    by (auto simp: free_desc_Ok set_desc_def)
  then show ?case by (simp add: psubset_card_mono)
qed simp

declare free_chain.simps [simp del]

fun alloc_loop :: "nat \<Rightarrow> nat list \<Rightarrow> vdisk \<Rightarrow> (nat list option \<times> vdisk) kres" where
  "alloc_loop 0 idx st = Ok (Some idx, st)"
| "alloc_loop (Suc n) idx st =
     (case alloc_desc st of
        (None, st) \<Rightarrow> kbind (kfold free_desc idx st) (\<lambda>st. Ok (None, st))
      | (Some i, st) \<Rightarrow> alloc_loop n (idx @ [i]) st)"

definition alloc3_desc :: "vdisk \<Rightarrow> (nat list option \<times> vdisk) kres" where
  "alloc3_desc st = alloc_loop 3 [] st"

section \<open>Requests\<close>

definition format_request :: "nat \<Rightarrow> bool \<Rightarrow> nat list \<Rightarrow> vdisk \<Rightarrow> vdisk" where
  "format_request b write idx st =
     (let i0 = idx ! 0; i1 = idx ! 1; i2 = idx ! 2;
          sector = ucast (v_blockno (bufs st b) * 2);
          st = st\<lparr>reqs := (reqs st)(i0 := \<lparr>r_type = (if write then 1 else 0), r_reserved = 0, r_sector = sector\<rparr>)\<rparr>;
          st = set_desc i0 \<lparr>q_addr = ReqPtr i0, q_len = 16, q_flags = F_NEXT, q_next = of_nat i1\<rparr> st;
          st = set_desc i1 \<lparr>q_addr = DataPtr b, q_len = 1024, q_flags = (if write then 0 else F_WRITE) OR F_NEXT, q_next = of_nat i2\<rparr> st;
          st = st\<lparr>info_status := (info_status st)(i0 := 0xff)\<rparr>;
          st = set_desc i2 \<lparr>q_addr = StatusPtr i0, q_len = 1, q_flags = F_WRITE, q_next = 0\<rparr> st in
      st\<lparr>bufs := (bufs st)(b := (bufs st b)\<lparr>v_disk := 1\<rparr>), info_b := (info_b st)(i0 := Some b)\<rparr>)"

definition publish :: "nat \<Rightarrow> vdisk \<Rightarrow> vdisk" where
  "publish i st =
     st\<lparr>avail_ring := (avail_ring st)[unat (avail_idx st mod 8) := of_nat i], avail_idx := avail_idx st + 1\<rparr>"

text \<open>The result is the local array \<open>idx\<close>, or \<open>None\<close> when the process goes to sleep to try again.\<close>

definition rw_submit :: "nat \<Rightarrow> bool \<Rightarrow> vdisk \<Rightarrow> (nat list option \<times> vdisk) kres" where
  "rw_submit b write st =
     kbind (alloc3_desc st) (\<lambda>(idx, st).
     case idx of None \<Rightarrow> Ok (None, st)
     | Some idx \<Rightarrow> Ok (Some idx, publish (idx ! 0) (format_request b write idx st)))"

definition rw_finish :: "nat \<Rightarrow> nat list \<Rightarrow> vdisk \<Rightarrow> vdisk kres" where
  "rw_finish b idx st =
     (if v_disk (bufs st b) = 1 then Blocked
      else free_chain (idx ! 0) (st\<lparr>info_b := (info_b st)(idx ! 0 := None)\<rparr>))"

function virtio_disk_intr :: "vdisk \<Rightarrow> vdisk kres" where
  "virtio_disk_intr st =
     (if used_idx st \<noteq> dev_used_idx st then
        let i = unat (used_ring st ! unat (used_idx st mod 8)) in
        if i \<ge> NUM then Fault
        else if info_status st i \<noteq> 0 then Panic ''virtio_disk_intr status''
        else
          case info_b st i of None \<Rightarrow> Fault
          | Some b \<Rightarrow>
            virtio_disk_intr (st\<lparr>bufs := (bufs st)(b := (bufs st b)\<lparr>v_disk := 0\<rparr>), used_idx := used_idx st + 1\<rparr>)
      else Ok st)"
  by pat_completeness auto
termination
proof (relation "measure (\<lambda>st. unat (dev_used_idx st - used_idx st))", goal_cases)
  case (2 st)
  then have "unat (dev_used_idx st - used_idx st) \<noteq> 0" by (simp add: unat_diff_0_iff)
  then show ?case using 2 unat_diff_dec [of "dev_used_idx st" "used_idx st"] by simp
qed simp

declare virtio_disk_intr.simps [simp del]

section \<open>The device\<close>

definition dev_take :: "vdisk \<Rightarrow> vdisk" where
  "dev_take st =
     st\<lparr>dev_taken := dev_taken st @ [unat (avail_ring st ! unat (dev_seen st mod 8))], dev_seen := dev_seen st + 1\<rparr>"

definition dev_move :: "u32 \<Rightarrow> nat \<Rightarrow> nat \<Rightarrow> u32 \<Rightarrow> vdisk \<Rightarrow> vdisk" where
  "dev_move type b base n st =
     (if type = 1 then st\<lparr>medium := (\<lambda>a. if base \<le> a \<and> a < base + unat n then v_data (bufs st b) ! (a - base) else medium st a)\<rparr>
      else st\<lparr>bufs := (bufs st)(b := (bufs st b)\<lparr>v_data := map (medium st) [base..<base + unat n]\<rparr>)\<rparr>)"

definition dev_serve :: "nat \<Rightarrow> vdisk \<Rightarrow> vdisk option" where
  "dev_serve h st =
     (let d0 = desc st h; d1 = desc st (unat (q_next d0)); d2 = desc st (unat (q_next d1)) in
      if q_flags d0 = F_NEXT \<and> q_len d0 = 16 \<and> q_flags d1 AND F_NEXT \<noteq> 0 \<and> q_flags d2 = F_WRITE \<and> q_len d2 = 1 then
        (case (q_addr d0, q_addr d1, q_addr d2) of
           (ReqPtr r, DataPtr b, StatusPtr s) \<Rightarrow>
             let type = r_type (reqs st r) in
             if type = 0 \<and> q_flags d1 AND F_WRITE \<noteq> 0 \<or> type = 1 \<and> q_flags d1 AND F_WRITE = 0 then
               let st = dev_move type b (unat (r_sector (reqs st r)) * 512) (q_len d1) st in
               Some (st\<lparr>info_status := (info_status st)(s := 0),
                 used_ring := (used_ring st)[unat (dev_used_idx st mod 8) := of_nat h],
                 dev_used_idx := dev_used_idx st + 1, dev_taken := remove1 h (dev_taken st)\<rparr>)
             else None
         | _ \<Rightarrow> None)
      else None)"

section \<open>The system\<close>

text \<open>The processes that wait in \<open>virtio_disk_rw\<close>: buffer, direction, and their array \<open>idx\<close>.\<close>

type_synonym waiting = "(nat \<times> bool \<times> nat list) list"

inductive vstep :: "vdisk \<times> waiting \<Rightarrow> vdisk \<times> waiting \<Rightarrow> bool" where
  submit: "b \<notin> fst ` set W \<Longrightarrow> unat (v_blockno (bufs st b)) < 2 ^ 31 \<Longrightarrow> rw_submit b w st = Ok (Some idx, st') \<Longrightarrow>
    vstep (st, W) (st', W @ [(b, w, idx)])"
| no_descriptors: "b \<notin> fst ` set W \<Longrightarrow> rw_submit b w st = Ok (None, st') \<Longrightarrow> vstep (st, W) (st', W)"
| take: "dev_seen st \<noteq> avail_idx st \<Longrightarrow> vstep (st, W) (dev_take st, W)"
| serve: "h \<in> set (dev_taken st) \<Longrightarrow> dev_serve h st = Some st' \<Longrightarrow> vstep (st, W) (st', W)"
| intr: "virtio_disk_intr st = Ok st' \<Longrightarrow> vstep (st, W) (st', W)"
| finish: "(b, w, idx) \<in> set W \<Longrightarrow> rw_finish b idx st = Ok st' \<Longrightarrow> vstep (st, W) (st', remove1 (b, w, idx) W)"
| use_buf: "b \<notin> fst ` set W \<Longrightarrow> length d = 1024 \<Longrightarrow>
    vstep (st, W) (st\<lparr>bufs := (bufs st)(b := (bufs st b)\<lparr>v_blockno := no, v_data := d\<rparr>)\<rparr>, W)"

section \<open>Rings with 16-bit counters\<close>

definition wq :: "'a list \<Rightarrow> u16 \<Rightarrow> u16 \<Rightarrow> 'a list" where
  "wq ring r w = ring_list ring (unat r) (unat (w - r))"

lemma wq_empty: "wq ring r w = [] \<longleftrightarrow> r = w"
  by (auto simp: wq_def unat_diff_0_iff)

lemma wq_push:
  assumes "length ring = 8" "length (wq ring r w) < 8"
  shows "wq (ring[unat (w mod 8) := x]) r (w + 1) = wq ring r w @ [x]"
proof -
  have n: "unat (w - r) < 8" using assms(2) by (simp add: wq_def)
  have "unat (r + of_nat (unat (w - r))) mod 8 = (unat r + unat (w - r)) mod 8"
    by (rule unat_add_mod) simp
  then have "unat (w mod 8) = (unat r + unat (w - r)) mod 8" by (simp add: unat_mod_distrib)
  then show ?thesis using ring_list_push [of "unat (w - r)" ring "unat r" x] n assms(1)
    by (simp add: wq_def unat_diff_inc [of w r 8])
qed

lemma wq_pop:
  assumes "length ring = 8" "r \<noteq> w"
  shows "wq ring r w = ring ! unat (r mod 8) # wq ring (r + 1) w"
proof -
  have "0 < unat (w - r)" using assms(2) unat_diff_0_iff [of w r] by auto
  moreover have "ring_list ring (Suc (unat r)) n = ring_list ring (unat (r + 1)) n" for n
    by (rule ring_list_cong_mod) (simp add: assms(1) unat_Suc_mod)
  ultimately show ?thesis using assms
    by (simp add: wq_def ring_list_pop unat_mod_distrib unat_diff_dec)
qed

section \<open>The invariant\<close>

definition idxs :: "waiting \<Rightarrow> nat list" where
  "idxs W = concat (map (snd \<circ> snd) W)"

definition request_ok :: "vdisk \<Rightarrow> nat \<times> bool \<times> nat list \<Rightarrow> bool" where
  "request_ok st = (\<lambda>(b, w, idx). length idx = 3 \<and>
     desc st (idx ! 0) = \<lparr>q_addr = ReqPtr (idx ! 0), q_len = 16, q_flags = F_NEXT, q_next = of_nat (idx ! 1)\<rparr> \<and>
     desc st (idx ! 1) = \<lparr>q_addr = DataPtr b, q_len = 1024, q_flags = (if w then 0 else F_WRITE) OR F_NEXT, q_next = of_nat (idx ! 2)\<rparr> \<and>
     desc st (idx ! 2) = \<lparr>q_addr = StatusPtr (idx ! 0), q_len = 1, q_flags = F_WRITE, q_next = 0\<rparr> \<and>
     reqs st (idx ! 0) = \<lparr>r_type = (if w then 1 else 0), r_reserved = 0, r_sector = ucast (v_blockno (bufs st b) * 2)\<rparr> \<and>
     info_b st (idx ! 0) = Some b \<and> unat (v_blockno (bufs st b)) < 2 ^ 31)"

text \<open>The heads that are on their way: in the available ring, in the device, in the used ring.\<close>

definition offered :: "vdisk \<Rightarrow> nat list" where
  "offered st = map unat (wq (avail_ring st) (dev_seen st) (avail_idx st))"

definition completed :: "vdisk \<Rightarrow> nat list" where
  "completed st = map unat (wq (used_ring st) (used_idx st) (dev_used_idx st))"

definition heads :: "vdisk \<Rightarrow> nat list" where
  "heads st = offered st @ dev_taken st @ completed st"

definition active :: "vdisk \<Rightarrow> waiting \<Rightarrow> nat set" where
  "active st W = {idx ! 0 | b w idx. (b, w, idx) \<in> set W \<and> v_disk (bufs st b) = 1}"

definition tables_ok :: "vdisk \<Rightarrow> waiting \<Rightarrow> bool" where
  "tables_ok st W \<longleftrightarrow> distinct (idxs W) \<and> (\<forall>i. desc_free st i \<longleftrightarrow> i < 8 \<and> i \<notin> set (idxs W)) \<and> (\<forall>i\<in>set (idxs W). i < 8) \<and>
     distinct (map fst W) \<and> (\<forall>r\<in>set W. request_ok st r) \<and> (\<forall>b. length (v_data (bufs st b)) = 1024)"

definition queues_ok :: "vdisk \<Rightarrow> waiting \<Rightarrow> bool" where
  "queues_ok st W \<longleftrightarrow> length (avail_ring st) = 8 \<and> length (used_ring st) = 8 \<and> distinct (heads st) \<and>
     set (heads st) = active st W \<and> (\<forall>h\<in>set (completed st). info_status st h = 0)"

definition vinv :: "vdisk \<times> waiting \<Rightarrow> bool" where
  "vinv = (\<lambda>(st, W). tables_ok st W \<and> queues_ok st W)"

lemma idxs_simps [simp]: "idxs [] = []" "idxs ((b, w, idx) # W) = idx @ idxs W" "idxs (W @ W') = idxs W @ idxs W'"
  by (simp_all add: idxs_def)

lemma set_idxs: "set (idxs W) = (\<Union>(b, w, idx)\<in>set W. set idx)"
  by (auto simp: idxs_def)

text \<open>At most two requests have descriptors, so the rings never overflow.\<close>

lemma few_requests:
  assumes "tables_ok st W"
  shows "length W \<le> 2"
proof -
  have "length (idxs W) = 3 * length W"
  proof -
    have "\<forall>r\<in>set W. length (snd (snd r)) = 3" using assms by (auto simp: tables_ok_def request_ok_def)
    then show ?thesis by (induction W) (auto simp: idxs_def)
  qed
  moreover have "card (set (idxs W)) \<le> card {..<8 :: nat}" using assms by (intro card_mono) (auto simp: tables_ok_def)
  ultimately show ?thesis using assms by (simp add: tables_ok_def distinct_card)
qed

lemma few_heads:
  assumes "tables_ok st W" "queues_ok st W"
  shows "length (heads st) \<le> 2"
proof -
  have "length (heads st) = card (active st W)" using assms(2) by (metis distinct_card queues_ok_def)
  also have "active st W \<subseteq> set (map (\<lambda>(b, w, idx). idx ! 0) W)" by (force simp: active_def)
  then have "card (active st W) \<le> card (set (map (\<lambda>(b, w, idx). idx ! 0) W))" by (intro card_mono) auto
  also have "\<dots> \<le> length W" by (metis card_length length_map)
  finally show ?thesis using few_requests [OF assms(1)] by simp
qed

lemma request_in:
  assumes "tables_ok st W" "(b, w, idx) \<in> set W"
  shows "request_ok st (b, w, idx) \<and> distinct idx \<and> (\<forall>i\<in>set idx. i < 8 \<and> \<not> desc_free st i)"
proof -
  note t = assms(1) and r = assms(2)
  have "set idx \<subseteq> set (idxs W)" using r by (auto simp: set_idxs)
  moreover have "distinct idx" using t r by (auto simp: tables_ok_def idxs_def distinct_concat_iff)
  ultimately show ?thesis using t r by (auto simp: tables_ok_def)
qed

text \<open>Different waiting processes have different buffers and no descriptor in common.\<close>

lemma requests_apart:
  assumes "tables_ok st W" "(b, w, idx) \<in> set W" "(c, v, jdx) \<in> set W" "(b, w, idx) \<noteq> (c, v, jdx)"
  shows "b \<noteq> c" "set idx \<inter> set jdx = {}"
proof -
  have "inj_on fst (set W)" using assms(1) by (auto simp: tables_ok_def distinct_map)
  then show "b \<noteq> c" using assms(2-4) by (auto simp: inj_on_def) fastforce+
  then obtain W1 W2 where W: "W = W1 @ (b, w, idx) # W2" and "(c, v, jdx) \<in> set W1 \<union> set W2"
    using assms(2-4) by (metis (no_types, lifting) Un_iff in_set_conv_decomp set_ConsD set_append)
  moreover have "distinct (idxs W)" using assms(1) by (simp add: tables_ok_def)
  ultimately show "set idx \<inter> set jdx = {}" by (auto simp: W set_idxs)
qed

section \<open>Descriptors under the invariant\<close>

definition zero_desc :: virtq_desc where
  "zero_desc = \<lparr>q_addr = Null, q_len = 0, q_flags = 0, q_next = 0\<rparr>"

text \<open>Freeing a set of descriptors.\<close>

definition freed :: "nat set \<Rightarrow> vdisk \<Rightarrow> vdisk" where
  "freed I st = st\<lparr>desc := (\<lambda>i. if i \<in> I then zero_desc else desc st i), desc_free := (\<lambda>i. i \<in> I \<or> desc_free st i)\<rparr>"

lemma free_desc_freed: "i < 8 \<Longrightarrow> \<not> desc_free st i \<Longrightarrow> free_desc i st = Ok (freed {i} st)"
  by (auto simp: free_desc_def freed_def set_desc_def zero_desc_def fun_eq_iff)

lemma freed_freed: "freed J (freed I st) = freed (I \<union> J) st"
  by (rule vdisk.equality) (auto simp: freed_def fun_eq_iff)

lemma free_all:
  "distinct idx \<Longrightarrow> \<forall>i\<in>set idx. i < 8 \<and> \<not> desc_free st i \<Longrightarrow> kfold free_desc idx st = Ok (freed (set idx) st)"
proof (induction idx arbitrary: st)
  case Nil
  then show ?case by (simp add: freed_def)
next
  case (Cons i idx)
  have "kfold free_desc idx (freed {i} st) = Ok (freed (set idx) (freed {i} st))"
    by (rule Cons.IH) (use Cons.prems in \<open>auto simp: freed_def\<close>)
  then show ?case using Cons.prems by (simp add: free_desc_freed freed_freed)
qed

text \<open>Taking a set of descriptors.\<close>

definition claimed :: "nat set \<Rightarrow> vdisk \<Rightarrow> vdisk" where
  "claimed I st = st\<lparr>desc_free := (\<lambda>i. i \<notin> I \<and> desc_free st i)\<rparr>"

lemma alloc_desc_cases:
  obtains (none) "alloc_desc st = (None, st)" | (some) i where "i < 8" "desc_free st i" "alloc_desc st = (Some i, claimed {i} st)"
proof (cases "find (desc_free st) [0..<8]")
  case None
  then show ?thesis using none by (simp add: alloc_desc_def)
next
  case (Some i)
  then have "i < 8" "desc_free st i" unfolding find_upt_Some by simp_all
  moreover have "alloc_desc st = (Some i, claimed {i} st)" using Some by (auto simp: alloc_desc_def claimed_def fun_eq_iff)
  ultimately show ?thesis by (rule some)
qed

lemma alloc_loop_spec:
  assumes "distinct idx" "\<forall>i\<in>set idx. i < 8 \<and> desc_free st i"
  shows "(\<exists>I. alloc_loop n idx (claimed (set idx) st) = Ok (None, freed I st) \<and> (\<forall>i\<in>I. desc_free st i)) \<or>
    (\<exists>js. alloc_loop n idx (claimed (set idx) st) = Ok (Some js, claimed (set js) st) \<and> distinct js \<and>
       length js = length idx + n \<and> (\<forall>i\<in>set js. i < 8 \<and> desc_free st i))"
  using assms
proof (induction n arbitrary: idx)
  case 0
  then show ?case by auto
next
  case (Suc n)
  let ?st = "claimed (set idx) st"
  show ?case
  proof (cases rule: alloc_desc_cases [of ?st])
    case none
    have "kfold free_desc idx ?st = Ok (freed (set idx) ?st)" by (rule free_all) (use Suc.prems in \<open>auto simp: claimed_def\<close>)
    moreover have "freed (set idx) ?st = freed (set idx) st" 
      by (rule vdisk.equality) (use Suc.prems in \<open>auto simp: freed_def claimed_def fun_eq_iff\<close>)
    ultimately show ?thesis using none Suc.prems by (intro disjI1 exI [of _ "set idx"]) simp
  next
    case (some i)
    then have "i \<notin> set idx" "desc_free st i" by (auto simp: claimed_def)
    moreover have "claimed {i} ?st = claimed (set (idx @ [i])) st" by (auto simp: claimed_def fun_eq_iff)
    ultimately show ?thesis using Suc.IH [of "idx @ [i]"] Suc.prems some by simp
  qed
qed

lemma alloc3_cases:
  obtains (none) I where "alloc3_desc st = Ok (None, freed I st)" "\<forall>i\<in>I. desc_free st i"
  | (some) js where "alloc3_desc st = Ok (Some js, claimed (set js) st)" "distinct js" "length js = 3"
      "\<forall>i\<in>set js. i < 8 \<and> desc_free st i"
proof -
  have "claimed (set []) st = st" by (simp add: claimed_def)
  then show ?thesis using alloc_loop_spec [of "[]" st 3] none some by (auto simp: alloc3_desc_def)
qed

lemma free_chain_request:
  assumes "distinct idx" "\<forall>i\<in>set idx. i < 8 \<and> \<not> desc_free st i" "request_ok st0 (b, w, idx)" "desc st = desc st0"
  shows "free_chain (idx ! 0) st = Ok (freed (set idx) st)"
proof -
  obtain i j k where idx: "idx = [i, j, k]" using assms(3) by (auto simp: request_ok_def length_Suc_conv numeral_3_eq_3)
  have u: "unat (of_nat j :: u16) = j" "unat (of_nat k :: u16) = k"
    using assms(2) idx by (simp_all add: unat_of_nat)
  have f: "q_flags (desc st i) AND 1 \<noteq> 0" "q_next (desc st i) = of_nat j" "q_flags (desc st j) AND 1 \<noteq> 0"
    "q_next (desc st j) = of_nat k" "q_flags (desc st k) AND 1 = 0"
    using assms(3,4) idx by (simp_all add: request_ok_def)
  have d: "i \<noteq> j" "i \<noteq> k" "j \<noteq> k" "i < 8" "j < 8" "k < 8" "\<not> desc_free st i" "\<not> desc_free st j" "\<not> desc_free st k"
    using assms(1,2) idx by auto
  have s: "desc (freed I st) x = (if x \<in> I then zero_desc else desc st x)" "desc_free (freed I st) x = (x \<in> I \<or> desc_free st x)" for I x
    by (simp_all add: freed_def)
  have 3: "free_chain k (freed {i, j} st) = Ok (freed {i, j, k} st)"
    using d f by (subst free_chain.simps) (simp add: free_desc_freed s freed_freed insert_commute)
  have 2: "free_chain j (freed {i} st) = Ok (freed {i, j, k} st)"
    using d f u 3 by (subst free_chain.simps) (simp add: free_desc_freed s freed_freed insert_commute)
  show ?thesis
    using d f u 2 by (subst free_chain.simps) (simp add: free_desc_freed s freed_freed idx)
qed

section \<open>Every step keeps the invariant\<close>

lemma request_ok_cong:
  assumes "request_ok st (b, w, idx)" "\<forall>i\<in>set idx. desc st' i = desc st i \<and> reqs st' i = reqs st i \<and> info_b st' i = info_b st i"
    "v_blockno (bufs st' b) = v_blockno (bufs st b)"
  shows "request_ok st' (b, w, idx)"
proof -
  have "idx ! 0 \<in> set idx" "idx ! 1 \<in> set idx" "idx ! 2 \<in> set idx" using assms(1) by (simp_all add: request_ok_def)
  then show ?thesis using assms by (simp add: request_ok_def)
qed

lemma head_in: "tables_ok st W \<Longrightarrow> (b, w, idx) \<in> set W \<Longrightarrow> idx ! 0 \<in> set idx"
  by (auto dest!: request_in simp: request_ok_def intro: nth_mem)

lemma active_idxs: "tables_ok st W \<Longrightarrow> active st W \<subseteq> set (idxs W)"
  using head_in by (fastforce simp: active_def set_idxs)

lemma active_cong:
  assumes "\<And>b w idx. (b, w, idx) \<in> set W \<Longrightarrow> v_disk (bufs st' b) = v_disk (bufs st b)"
  shows "active st' W = active st W"
proof -
  have "(b, w, idx) \<in> set W \<and> v_disk (bufs st' b) = 1 \<longleftrightarrow> (b, w, idx) \<in> set W \<and> v_disk (bufs st b) = 1" for b w idx
    using assms by auto
  then show ?thesis by (simp add: active_def)
qed

lemma active_snoc: "v_disk (bufs st b) = 1 \<Longrightarrow> active st (W @ [(b, w, idx)]) = insert (idx ! 0) (active st W)"
  by (auto simp: active_def)

lemma buf_in: "(b, w, idx) \<in> set W \<Longrightarrow> b \<in> fst ` set W"
  by force

text \<open>The head of a request identifies it.\<close>

lemma head_inj:
  assumes "tables_ok st W" "(b, w, idx) \<in> set W" "(c, v, jdx) \<in> set W" "idx ! 0 = jdx ! 0"
  shows "(b, w, idx) = (c, v, jdx)"
proof (rule ccontr)
  assume "(b, w, idx) \<noteq> (c, v, jdx)"
  from requests_apart(2) [OF assms(1-3) this] head_in [OF assms(1,2)] head_in [OF assms(1,3)] assms(4) show False by auto
qed

lemma vinv_freed: "vinv (st, W) \<Longrightarrow> \<forall>i\<in>I. desc_free st i \<Longrightarrow> vinv (freed I st, W)"
proof -
  assume v: "vinv (st, W)" and I: "\<forall>i\<in>I. desc_free st i"
  then have t: "tables_ok st W" by (simp add: vinv_def)
  have "request_ok (freed I st) (b, w, idx)" if r: "(b, w, idx) \<in> set W" for b w idx
    by (rule request_ok_cong [of st]) (use request_in [OF t r] I in \<open>auto simp: freed_def\<close>)
  then have "tables_ok (freed I st) W" using t I by (auto simp: tables_ok_def freed_def)
  moreover have "queues_ok (freed I st) W = queues_ok st W"
    by (simp add: queues_ok_def heads_def offered_def completed_def active_def freed_def)
  ultimately show ?thesis using v by (simp add: vinv_def)
qed

lemma submitted_request:
  assumes "distinct js" "length js = 3" "\<forall>i\<in>set js. i < 8" "unat (v_blockno (bufs st b)) < 2 ^ 31"
  shows "request_ok (publish (js ! 0) (format_request b w js st)) (b, w, js)"
proof -
  obtain i j k where js: "js = [i, j, k]" using assms(2) by (auto simp: length_Suc_conv numeral_3_eq_3)
  show ?thesis using assms unfolding js
    by (simp add: request_ok_def publish_def format_request_def set_desc_def Let_def)
qed

lemma submit_fields:
  fixes st b w js
  defines "st' \<equiv> publish (js ! 0) (format_request b w js st)"
  shows "desc_free st' = desc_free st" "bufs st' = (bufs st)(b := (bufs st b)\<lparr>v_disk := 1\<rparr>)"
    "info_status st' = (info_status st)(js ! 0 := 0xff)" "used_ring st' = used_ring st" "used_idx st' = used_idx st"
    "dev_used_idx st' = dev_used_idx st" "dev_taken st' = dev_taken st" "dev_seen st' = dev_seen st"
    "avail_ring st' = (avail_ring st)[unat (avail_idx st mod 8) := of_nat (js ! 0)]" "avail_idx st' = avail_idx st + 1"
    "length js = 3 \<Longrightarrow> i \<notin> set js \<Longrightarrow> desc st' i = desc st i \<and> reqs st' i = reqs st i \<and> info_b st' i = info_b st i"
proof -
  show "desc st' i = desc st i \<and> reqs st' i = reqs st i \<and> info_b st' i = info_b st i" if l: "length js = 3" and n: "i \<notin> set js"
  proof -
    obtain i j k where js: "js = [i, j, k]" using l by (auto simp: length_Suc_conv numeral_3_eq_3)
    show ?thesis using n unfolding st'_def js by (simp add: publish_def format_request_def set_desc_def Let_def)
  qed
qed (simp_all add: st'_def publish_def format_request_def set_desc_def Let_def)

lemma vinv_submit:
  assumes v: "vinv (st, W)" and b: "b \<notin> fst ` set W" "unat (v_blockno (bufs st b)) < 2 ^ 31"
    and js: "distinct js" "length js = 3" "\<forall>i\<in>set js. i < 8 \<and> desc_free st i"
  shows "vinv (publish (js ! 0) (format_request b w js (claimed (set js) st)), W @ [(b, w, js)])"
proof -
  let ?st = "claimed (set js) st"
  let ?st' = "publish (js ! 0) (format_request b w js ?st)"
  have t: "tables_ok st W" and q: "queues_ok st W" using v by (simp_all add: vinv_def)
  have cl: "desc ?st = desc st" "reqs ?st = reqs st" "info_b ?st = info_b st" "bufs ?st = bufs st"
    "desc_free ?st = (\<lambda>i. i \<notin> set js \<and> desc_free st i)" "info_status ?st = info_status st" "avail_ring ?st = avail_ring st"
    "avail_idx ?st = avail_idx st" "dev_seen ?st = dev_seen st" "dev_taken ?st = dev_taken st" "used_ring ?st = used_ring st"
    "used_idx ?st = used_idx st" "dev_used_idx ?st = dev_used_idx st"
    by (simp_all add: claimed_def)
  note f = submit_fields [where js = js and b = b and w = w and st = ?st, unfolded cl]
  have i0: "js ! 0 \<in> set js" using js(2) by simp
  have dis: "set js \<inter> set (idxs W) = {}" using js(3) t by (auto simp: tables_ok_def)
  have new: "request_ok ?st' (b, w, js)" by (rule submitted_request) (use js b cl in auto)
  have old: "request_ok ?st' (c, u, idx)" if r: "(c, u, idx) \<in> set W" for c u idx
  proof (rule request_ok_cong [of st])
    show "request_ok st (c, u, idx)" using t r by (auto simp: tables_ok_def)
    have "set idx \<inter> set js = {}" using dis r by (auto simp: set_idxs)
    then show "\<forall>i\<in>set idx. desc ?st' i = desc st i \<and> reqs ?st' i = reqs st i \<and> info_b ?st' i = info_b st i"
      using f(11) [OF js(2)] by auto
    show "v_blockno (bufs ?st' c) = v_blockno (bufs st c)" unfolding f(2) by simp
  qed
  have "tables_ok ?st' (W @ [(b, w, js)])"
    using t b js dis new old unfolding tables_ok_def f(1,2) by auto
  moreover have "queues_ok ?st' (W @ [(b, w, js)])"
  proof -
    have len: "length (avail_ring st) = 8" "length (wq (avail_ring st) (dev_seen st) (avail_idx st)) < 8"
      using q few_heads [OF t q] by (simp_all add: queues_ok_def heads_def offered_def)
    have "js ! 0 < 8" using js(3) i0 by blast
    then have u: "unat (of_nat (js ! 0) :: u16) = js ! 0" by (simp add: unat_of_nat)
    have o: "offered ?st' = offered st @ [js ! 0]"
      unfolding offered_def f(8-10) wq_push [OF len] by (simp add: u)
    have c: "completed ?st' = completed st" unfolding completed_def f(4-6) ..
    have "active ?st' (W @ [(b, w, js)]) = insert (js ! 0) (active st W)"
    proof -
      have "c \<noteq> b" if "(c, u, jdx) \<in> set W" for c u jdx using that b(1) buf_in by metis
      then have d: "v_disk (bufs ?st' c) = v_disk (bufs st c)" if "(c, u, jdx) \<in> set W" for c u jdx
        using that unfolding f(2) by auto
      have "v_disk (bufs ?st' b) = 1" unfolding f(2) by simp
      then have "active ?st' (W @ [(b, w, js)]) = insert (js ! 0) (active ?st' W)" by (rule active_snoc)
      also have "active ?st' W = active st W" by (rule active_cong) (rule d)
      finally show ?thesis .
    qed
    moreover have "js ! 0 \<notin> set (heads st)" using q dis i0 active_idxs [OF t] by (auto simp: queues_ok_def)
    moreover have "set (completed st) \<subseteq> set (heads st)" by (auto simp: heads_def)
    moreover have "heads ?st' = offered st @ (js ! 0) # dev_taken st @ completed st" unfolding heads_def o c f(7) by simp
    ultimately show ?thesis using q len(1) unfolding queues_ok_def c f(3,4,9) by (auto simp: heads_def)
  qed
  ultimately show ?thesis by (simp add: vinv_def)
qed

lemma submit_progress:
  assumes "vinv (st, W)" "b \<notin> fst ` set W" "unat (v_blockno (bufs st b)) < 2 ^ 31"
  shows "\<exists>r st'. rw_submit b w st = Ok (r, st') \<and>
    (case r of None \<Rightarrow> vinv (st', W) | Some idx \<Rightarrow> vinv (st', W @ [(b, w, idx)]))"
proof (cases rule: alloc3_cases [of st])
  case (none I)
  then show ?thesis using vinv_freed [OF assms(1)] by (simp add: rw_submit_def)
next
  case (some js)
  then show ?thesis using vinv_submit [OF assms, of js w] by (simp add: rw_submit_def)
qed

lemma vinv_take:
  assumes v: "vinv (st, W)" and n: "dev_seen st \<noteq> avail_idx st"
  shows "vinv (dev_take st, W)"
proof -
  have q: "queues_ok st W" using v by (simp add: vinv_def)
  have "offered st = unat (avail_ring st ! unat (dev_seen st mod 8)) # offered (dev_take st)"
    using q n by (simp add: offered_def dev_take_def wq_pop queues_ok_def)
  moreover have "completed (dev_take st) = completed st" by (simp add: completed_def dev_take_def)
  ultimately have "distinct (heads (dev_take st))" "set (heads (dev_take st)) = set (heads st)"
    using q by (auto simp: heads_def queues_ok_def dev_take_def)
  moreover have "active (dev_take st) W = active st W" by (simp add: active_def dev_take_def)
  ultimately have "queues_ok (dev_take st) W" using q \<open>completed (dev_take st) = completed st\<close>
    by (simp add: queues_ok_def dev_take_def)
  moreover have "tables_ok (dev_take st) W"
    using v by (auto simp: vinv_def tables_ok_def dev_take_def request_ok_def)
  ultimately show ?thesis by (simp add: vinv_def)
qed

text \<open>What serving a request does to buffers and medium.\<close>

definition transfer :: "nat \<Rightarrow> bool \<Rightarrow> vdisk \<Rightarrow> vdisk \<Rightarrow> bool" where
  "transfer b w st st' \<longleftrightarrow>
     (let base = 1024 * unat (v_blockno (bufs st b)) in
      if w then bufs st' = bufs st \<and>
        medium st' = (\<lambda>a. if base \<le> a \<and> a < base + 1024 then v_data (bufs st b) ! (a - base) else medium st a)
      else medium st' = medium st \<and>
        bufs st' = (bufs st)(b := (bufs st b)\<lparr>v_data := map (medium st) [base..<base + 1024]\<rparr>))"

lemma sector_base: "unat (x :: u32) < 2 ^ 31 \<Longrightarrow> unat (ucast (x * 2) :: u64) * 512 = 1024 * unat x"
proof -
  assume x: "unat x < 2 ^ 31"
  then have "unat (x * 2) = unat x * 2" by (simp add: unat_word_ariths)
  then have "unat (ucast (x * 2) :: u64) = unat x * 2" using x by (simp add: unsigned_ucast_eq take_bit_eq_mod)
  then show ?thesis by simp
qed
text \<open>A taken head is served, and as the specification asks.\<close>

lemma serve_request:
  assumes v: "vinv (st, W)" and h: "h \<in> set (dev_taken st)"
  obtains b w idx st' where "(b, w, idx) \<in> set W" "idx ! 0 = h" "v_disk (bufs st b) = 1" "dev_serve h st = Some st'" "transfer b w st st'"
    "st' = st\<lparr>bufs := bufs st', medium := medium st', info_status := (info_status st)(h := 0),
       used_ring := (used_ring st)[unat (dev_used_idx st mod 8) := of_nat h], dev_used_idx := dev_used_idx st + 1,
       dev_taken := remove1 h (dev_taken st)\<rparr>"
proof -
  have t: "tables_ok st W" and q: "queues_ok st W" using v by (simp_all add: vinv_def)
  have "h \<in> active st W" using q h by (auto simp: queues_ok_def heads_def)
  then obtain b w idx where r: "(b, w, idx) \<in> set W" "h = idx ! 0" "v_disk (bufs st b) = 1" by (auto simp: active_def)
  note ok = request_in [OF t r(1)]
  obtain i j k where idx: "idx = [i, j, k]" using ok by (auto simp: request_ok_def length_Suc_conv numeral_3_eq_3)
  have u: "unat (of_nat j :: u16) = j" "unat (of_nat k :: u16) = k" using ok idx by (simp_all add: unat_of_nat)
  have d: "desc st i = \<lparr>q_addr = ReqPtr i, q_len = 16, q_flags = F_NEXT, q_next = of_nat j\<rparr>"
    "desc st j = \<lparr>q_addr = DataPtr b, q_len = 1024, q_flags = (if w then 0 else F_WRITE) OR F_NEXT, q_next = of_nat k\<rparr>"
    "desc st k = \<lparr>q_addr = StatusPtr i, q_len = 1, q_flags = F_WRITE, q_next = 0\<rparr>"
    "reqs st i = \<lparr>r_type = (if w then 1 else 0), r_reserved = 0, r_sector = ucast (v_blockno (bufs st b) * 2)\<rparr>"
    and blk: "unat (v_blockno (bufs st b)) < 2 ^ 31"
    using ok by (simp_all add: request_ok_def idx)
  have base: "unat (r_sector (reqs st i)) * 512 = 1024 * unat (v_blockno (bufs st b))"
    using sector_base [OF blk] by (simp add: d(4))
  let ?m = "dev_move (if w then 1 else 0) b (1024 * unat (v_blockno (bufs st b))) 1024 st"
  have flags: "q_flags (desc st j) AND F_NEXT \<noteq> 0" "q_flags (desc st j) AND F_WRITE = 0 \<longleftrightarrow> w" by (simp_all add: d(2))
  have serve: "dev_serve h st = Some (?m\<lparr>info_status := (info_status ?m)(i := 0),
      used_ring := (used_ring ?m)[unat (dev_used_idx ?m mod 8) := of_nat h], dev_used_idx := dev_used_idx ?m + 1,
      dev_taken := remove1 h (dev_taken ?m)\<rparr>)"
    using base flags unfolding dev_serve_def r(2) idx by (cases w) (simp_all add: d u Let_def)
  show ?thesis
    by (rule that [OF r(1) r(2) [symmetric] r(3) serve])
      (cases w; simp add: transfer_def dev_move_def Let_def r(2) idx)+
qed

lemma vinv_serve:
  assumes v: "vinv (st, W)" and h: "h \<in> set (dev_taken st)" and s: "dev_serve h st = Some st'"
  shows "vinv (st', W)"
proof (rule serve_request [OF v h])
  fix b w idx st2
  assume r: "(b, w, idx) \<in> set W" "idx ! 0 = h" and "v_disk (bufs st b) = 1" and s2: "dev_serve h st = Some st2"
    and tr: "transfer b w st st2"
    and st2: "st2 = st\<lparr>bufs := bufs st2, medium := medium st2, info_status := (info_status st)(h := 0),
       used_ring := (used_ring st)[unat (dev_used_idx st mod 8) := of_nat h], dev_used_idx := dev_used_idx st + 1,
       dev_taken := remove1 h (dev_taken st)\<rparr>"
  have "st2 = st'" using s s2 by simp
  with tr st2 have tr: "transfer b w st st'" and st': "st' = st\<lparr>bufs := bufs st', medium := medium st',
       info_status := (info_status st)(h := 0),
       used_ring := (used_ring st)[unat (dev_used_idx st mod 8) := of_nat h], dev_used_idx := dev_used_idx st + 1,
       dev_taken := remove1 h (dev_taken st)\<rparr>" by blast+
  have t: "tables_ok st W" and q: "queues_ok st W" using v by (simp_all add: vinv_def)
  have bufs: "v_blockno (bufs st' c) = v_blockno (bufs st c)" "v_disk (bufs st' c) = v_disk (bufs st c)"
    "length (v_data (bufs st' c)) = 1024" for c
    using tr t by (auto simp: transfer_def tables_ok_def Let_def split: if_splits)
  have f: "desc st' = desc st" "desc_free st' = desc_free st" "reqs st' = reqs st" "info_b st' = info_b st"
    "avail_ring st' = avail_ring st" "avail_idx st' = avail_idx st" "dev_seen st' = dev_seen st" "used_idx st' = used_idx st"
    "info_status st' = (info_status st)(h := 0)" "dev_taken st' = remove1 h (dev_taken st)"
    "used_ring st' = (used_ring st)[unat (dev_used_idx st mod 8) := of_nat h]" "dev_used_idx st' = dev_used_idx st + 1"
    by (subst st', simp)+
  have len: "length (used_ring st) = 8" "length (wq (used_ring st) (used_idx st) (dev_used_idx st)) < 8"
    using q few_heads [OF t q] by (simp_all add: queues_ok_def heads_def completed_def)
  have "h < 8" using request_in [OF t r(1)] head_in [OF t r(1)] r(2) by auto
  then have c: "completed st' = completed st @ [h]"
    unfolding completed_def f(8,11,12) wq_push [OF len] by (simp add: unat_of_nat)
  have o: "offered st' = offered st" unfolding offered_def f(5-7) ..
  have "distinct (heads st')" "set (heads st') = set (heads st)"
    using q h unfolding heads_def o c f(10) by (auto simp: queues_ok_def heads_def)
  moreover have "active st' W = active st W" unfolding active_def bufs(2) ..
  ultimately have "queues_ok st' W" using q unfolding queues_ok_def c f(5,9,11) by auto
  moreover have "tables_ok st' W"
    using t unfolding tables_ok_def f(1,2) request_ok_def f(3,4) by (simp add: f bufs)
  ultimately show ?thesis by (simp add: vinv_def)
qed

text \<open>One turn of the interrupt handler's loop finds a request that the device has finished.\<close>

lemma intr_turn:
  assumes v: "vinv (st, W)" and n: "used_idx st \<noteq> dev_used_idx st"
  obtains b st' where "virtio_disk_intr st = virtio_disk_intr st'" "vinv (st', W)"
    "st' = st\<lparr>bufs := (bufs st)(b := (bufs st b)\<lparr>v_disk := 0\<rparr>), used_idx := used_idx st + 1\<rparr>"
proof -
  have t: "tables_ok st W" and q: "queues_ok st W" using v by (simp_all add: vinv_def)
  let ?h = "unat (used_ring st ! unat (used_idx st mod 8))"
  have len: "length (used_ring st) = 8" using q by (simp add: queues_ok_def)
  have "wq (used_ring st) (used_idx st) (dev_used_idx st) =
      used_ring st ! unat (used_idx st mod 8) # wq (used_ring st) (used_idx st + 1) (dev_used_idx st)"
    by (rule wq_pop [OF len n])
  then have c: "completed st = ?h # map unat (wq (used_ring st) (used_idx st + 1) (dev_used_idx st))"
    by (simp add: completed_def)
  then have "?h \<in> active st W" "info_status st ?h = 0" using q by (auto simp: queues_ok_def heads_def)
  then obtain b w idx where r: "(b, w, idx) \<in> set W" "?h = idx ! 0" "v_disk (bufs st b) = 1" by (auto simp: active_def)
  have ok: "?h < 8" "info_b st ?h = Some b" using request_in [OF t r(1)] head_in [OF t r(1)] r(2) by (auto simp: request_ok_def)
  let ?st = "st\<lparr>bufs := (bufs st)(b := (bufs st b)\<lparr>v_disk := 0\<rparr>), used_idx := used_idx st + 1\<rparr>"
  have "virtio_disk_intr st = virtio_disk_intr ?st"
    using n ok \<open>info_status st ?h = 0\<close> by (subst virtio_disk_intr.simps) (simp add: Let_def)
  moreover have "vinv (?st, W)"
  proof -
    have c': "completed st = ?h # completed ?st" using c by (simp add: completed_def)
    have o: "offered ?st = offered st" by (simp add: offered_def)
    have "active ?st W = active st W - {?h}"
    proof (intro equalityI subsetI)
      fix h assume "h \<in> active ?st W"
      then obtain c v jdx where x: "(c, v, jdx) \<in> set W" "h = jdx ! 0" "v_disk (bufs ?st c) = 1" by (auto simp: active_def)
      then have "c \<noteq> b" "v_disk (bufs st c) = 1" by (auto split: if_splits)
      then show "h \<in> active st W - {?h}" using x head_inj [OF t r(1) x(1)] r(2) by (auto simp: active_def)
    next
      fix h assume "h \<in> active st W - {?h}"
      then obtain c v jdx where x: "(c, v, jdx) \<in> set W" "h = jdx ! 0" "v_disk (bufs st c) = 1" "h \<noteq> ?h" by (auto simp: active_def)
      then have "c \<noteq> b" using requests_apart(1) [OF t r(1) x(1)] r(2) by auto
      then show "h \<in> active ?st W" using x by (auto simp: active_def)
    qed
    then have "queues_ok ?st W" using q unfolding queues_ok_def heads_def o c' by auto
    moreover have "tables_ok ?st W" using t by (auto simp: tables_ok_def request_ok_def)
    ultimately show ?thesis by (simp add: vinv_def)
  qed
  ultimately show ?thesis by (rule that) simp
qed

lemma intr_progress:
  "vinv (st, W) \<Longrightarrow> \<exists>st'. virtio_disk_intr st = Ok st' \<and> vinv (st', W) \<and> completed st' = [] \<and>
    offered st' = offered st \<and> dev_taken st' = dev_taken st"
proof (induction "unat (dev_used_idx st - used_idx st)" arbitrary: st rule: less_induct)
  case less
  show ?case
  proof (cases "used_idx st = dev_used_idx st")
    case True
    then show ?thesis using less.prems by (subst virtio_disk_intr.simps) (simp add: completed_def wq_empty)
  next
    case False
    from intr_turn [OF less.prems False] obtain b st' where st': "virtio_disk_intr st = virtio_disk_intr st'" "vinv (st', W)"
      "st' = st\<lparr>bufs := (bufs st)(b := (bufs st b)\<lparr>v_disk := 0\<rparr>), used_idx := used_idx st + 1\<rparr>" by metis
    have "unat (dev_used_idx st' - used_idx st') < unat (dev_used_idx st - used_idx st)"
      using False unat_diff_dec [of "dev_used_idx st" "used_idx st"] unat_diff_0_iff [of "dev_used_idx st" "used_idx st"]
      by (simp add: st'(3))
    moreover have "offered st' = offered st" "dev_taken st' = dev_taken st" by (simp_all add: st'(3) offered_def)
    ultimately show ?thesis using less.hyps [OF _ st'(2)] st'(1) by simp
  qed
qed

lemma finish_progress:
  assumes v: "vinv (st, W)" and r: "(b, w, idx) \<in> set W" and d: "v_disk (bufs st b) \<noteq> 1"
  shows "\<exists>st'. rw_finish b idx st = Ok st' \<and> vinv (st', remove1 (b, w, idx) W)"
proof -
  have t: "tables_ok st W" and q: "queues_ok st W" using v by (simp_all add: vinv_def)
  note ok = request_in [OF t r]
  let ?st = "st\<lparr>info_b := (info_b st)(idx ! 0 := None)\<rparr>"
  let ?W = "remove1 (b, w, idx) W"
  have "free_chain (idx ! 0) ?st = Ok (freed (set idx) ?st)"
    by (rule free_chain_request [of idx _ st b w]) (use ok in auto)
  moreover have "vinv (freed (set idx) ?st, ?W)"
  proof -
    have dW: "distinct W" using t by (auto simp: tables_ok_def distinct_map)
    have sub: "set ?W = set W - {(b, w, idx)}" using dW by simp
    have apart: "set idx \<inter> set jdx = {} \<and> c \<noteq> b" if "(c, u, jdx) \<in> set ?W" for c u jdx
      using requests_apart [OF t r, of c u jdx] that sub by auto
    obtain W1 W2 where W: "W = W1 @ (b, w, idx) # W2" "(b, w, idx) \<notin> set W1" using r by (meson split_list_first)
    then have "?W = W1 @ W2" by (simp add: remove1_append)
    then have ids: "set (idxs ?W) = set (idxs W) - set idx" "distinct (idxs ?W)"
      using t W(1) by (auto simp: tables_ok_def)
    have "tables_ok (freed (set idx) ?st) ?W"
    proof -
      have "request_ok (freed (set idx) ?st) (c, u, jdx)" if x: "(c, u, jdx) \<in> set ?W" for c u jdx
      proof (rule request_ok_cong [of st])
        show "request_ok st (c, u, jdx)" using x sub t by (auto simp: tables_ok_def)
        show "\<forall>i\<in>set jdx. desc (freed (set idx) ?st) i = desc st i \<and> reqs (freed (set idx) ?st) i = reqs st i \<and>
            info_b (freed (set idx) ?st) i = info_b st i"
          using apart [OF x] head_in [OF t r] by (auto simp: freed_def)
      qed (simp add: freed_def)
      moreover have "distinct (map fst ?W)" using t by (simp add: tables_ok_def distinct_map sub inj_on_diff dW)
      ultimately show ?thesis using t ok ids by (auto simp: tables_ok_def freed_def)
    qed
    moreover have "queues_ok (freed (set idx) ?st) ?W"
    proof -
      have "active (freed (set idx) ?st) ?W = active st W"
        using d unfolding active_def sub by (auto simp: freed_def)
      then show ?thesis using q by (simp add: queues_ok_def heads_def offered_def completed_def freed_def)
    qed
    ultimately show ?thesis by (simp add: vinv_def)
  qed
  ultimately show ?thesis using d by (simp add: rw_finish_def)
qed
lemma vinv_use:
  assumes v: "vinv (st, W)" and b: "b \<notin> fst ` set W" "length d = 1024"
  shows "vinv (st\<lparr>bufs := (bufs st)(b := (bufs st b)\<lparr>v_blockno := no, v_data := d\<rparr>)\<rparr>, W)"
proof -
  let ?st = "st\<lparr>bufs := (bufs st)(b := (bufs st b)\<lparr>v_blockno := no, v_data := d\<rparr>)\<rparr>"
  have t: "tables_ok st W" and q: "queues_ok st W" using v by (simp_all add: vinv_def)
  have "request_ok ?st (c, u, idx)" if r: "(c, u, idx) \<in> set W" for c u idx
  proof (rule request_ok_cong [of st])
    show "request_ok st (c, u, idx)" using r t by (auto simp: tables_ok_def)
    show "v_blockno (bufs ?st c) = v_blockno (bufs st c)" using buf_in [OF r] b by auto
  qed simp
  then have "tables_ok ?st W" using t b by (auto simp: tables_ok_def)
  moreover have "active ?st W = active st W" by (rule active_cong) simp
  then have "queues_ok ?st W" using q by (simp add: queues_ok_def heads_def offered_def completed_def)
  ultimately show ?thesis by (simp add: vinv_def)
qed

lemma vinv_step: "vstep s s' \<Longrightarrow> vinv s \<Longrightarrow> vinv s'"
proof (induction rule: vstep.induct)
  case (submit b W st w idx st')
  then show ?case using submit_progress [of st W b w] by simp
next
  case (no_descriptors b W w st st')
  then show ?case using vinv_freed [of st W] by (cases rule: alloc3_cases [of st]) (auto simp: rw_submit_def)
next
  case (take st W)
  then show ?case using vinv_take [of st W] by simp
next
  case (serve h st st' W)
  then show ?case using vinv_serve [of st W h st'] by simp
next
  case (intr st st' W)
  then show ?case using intr_progress [of st W] by auto
next
  case (finish b w idx W st st')
  then show ?case using finish_progress [of st W b w idx] by (auto simp: rw_finish_def split: if_splits)
next
  case (use_buf b W d st no)
  then show ?case using vinv_use [of st W b d no] by simp
qed

lemma vinv_run: "vstep\<^sup>*\<^sup>* s s' \<Longrightarrow> vinv s \<Longrightarrow> vinv s'"
  by (induction rule: rtranclp_induct) (auto intro: vinv_step)

lemma vinv_init:
  assumes "virtio_disk_init rd sa pd pa pu st0 = Ok (ws, st)" "used_idx st0 = 0" "dev_seen st0 = 0" "dev_taken st0 = []"
    "\<forall>b. length (v_data (bufs st0 b)) = 1024"
  shows "vinv (st, [])"
  using assms by (auto simp: virtio_disk_init_def Let_def vinv_def tables_ok_def queues_ok_def heads_def offered_def completed_def
      active_def wq_def split: if_splits)

text \<open>C37: The disk driver keeps to the virtio protocol and finishes every request. Whatever requests,
  turns of the device and interrupts follow the initialisation, in whatever order: a new request never
  panics; every chain the device takes is one it can serve, and serving it moves exactly the request's
  block, in the right direction, between its buffer and the medium; the interrupt handler never panics and,
  once the device has served all, leaves no request waiting; and a request that is done gives its three
  descriptors back without panicking.\<close>

theorem disk_driver_serves_every_request:
  assumes "virtio_disk_init rd sa pd pa pu st0 = Ok (ws, st1)" "used_idx st0 = 0" "dev_seen st0 = 0" "dev_taken st0 = []"
    "\<forall>b. length (v_data (bufs st0 b)) = 1024" "vstep\<^sup>*\<^sup>* (st1, []) (st, W)"
  shows "(\<forall>b w. b \<notin> fst ` set W \<and> unat (v_blockno (bufs st b)) < 2 ^ 31 \<longrightarrow> (\<exists>r. rw_submit b w st = Ok r)) \<and>
    (\<forall>h\<in>set (dev_taken st). \<exists>b w idx st'. (b, w, idx) \<in> set W \<and> idx ! 0 = h \<and> dev_serve h st = Some st' \<and> transfer b w st st') \<and>
    (\<exists>st'. virtio_disk_intr st = Ok st' \<and>
      (dev_seen st = avail_idx st \<and> dev_taken st = [] \<longrightarrow> (\<forall>(b, w, idx)\<in>set W. v_disk (bufs st' b) \<noteq> 1))) \<and>
    (\<forall>(b, w, idx)\<in>set W. v_disk (bufs st b) \<noteq> 1 \<longrightarrow> (\<exists>st'. rw_finish b idx st = Ok st'))"
proof -
  have v: "vinv (st, W)" using vinv_run [OF assms(6)] vinv_init [OF assms(1-5)] by blast
  obtain st' where i: "virtio_disk_intr st = Ok st'" "vinv (st', W)" "completed st' = []" "offered st' = offered st"
      "dev_taken st' = dev_taken st"
    using intr_progress [OF v] by blast
  have "\<forall>(b, w, idx)\<in>set W. v_disk (bufs st' b) \<noteq> 1" if "dev_seen st = avail_idx st" "dev_taken st = []"
  proof -
    have "offered st = []" using that by (simp add: offered_def wq_empty)
    then have "heads st' = []" using i that by (simp add: heads_def)
    then have "active st' W = {}" using i(2) by (simp add: vinv_def queues_ok_def)
    then show ?thesis by (auto simp: active_def)
  qed
  moreover have "\<exists>r. rw_submit b w st = Ok r" if "b \<notin> fst ` set W" "unat (v_blockno (bufs st b)) < 2 ^ 31" for b w
    using submit_progress [OF v that] by blast
  moreover have "\<exists>b w idx st'. (b, w, idx) \<in> set W \<and> idx ! 0 = h \<and> dev_serve h st = Some st' \<and> transfer b w st st'"
    if "h \<in> set (dev_taken st)" for h
    using serve_request [OF v that] by metis
  ultimately show ?thesis using i(1) finish_progress [OF v] by blast
qed

definition sample_disk :: vdisk where
  "sample_disk = \<lparr>desc = (\<lambda>i. zero_desc), avail_idx = 0, avail_ring = [], dev_used_idx = 0, used_ring = [], desc_free = (\<lambda>i. False),
     used_idx = 0, info_b = (\<lambda>i. None), info_status = (\<lambda>i. 0), reqs = (\<lambda>i. \<lparr>r_type = 0, r_reserved = 0, r_sector = 0\<rparr>),
     bufs = (\<lambda>b. \<lparr>v_blockno = 7, v_disk = 0, v_data = replicate 1024 0\<rparr>), medium = (\<lambda>a. 0), dev_seen = 0, dev_taken = []\<rparr>"

definition sample_regs :: "nat \<Rightarrow> u32" where
  "sample_regs r = (if r = 0 then 0x74726976 else if r = 4 \<or> r = 8 then 2 else if r = 12 then 0x554d4551 else if r = 0x34 then 8 else 0)"

lemma disk_driver_serves_every_request_witness:
  "\<exists>ws st1. virtio_disk_init sample_regs 11 0x1000 0x2000 0x3000 sample_disk = Ok (ws, st1) \<and> (\<exists>r. rw_submit 5 True st1 = Ok r) \<and>
    (\<exists>st'. virtio_disk_intr st1 = Ok st')"
proof -
  obtain ws st1 where i: "virtio_disk_init sample_regs 11 0x1000 0x2000 0x3000 sample_disk = Ok (ws, st1)" "bufs st1 = bufs sample_disk"
    by (simp add: virtio_disk_init_def sample_regs_def Let_def)
  have d: "used_idx sample_disk = 0" "dev_seen sample_disk = 0" "dev_taken sample_disk = []"
    "\<forall>b. length (v_data (bufs sample_disk b)) = 1024" "v_blockno (bufs st1 5) = 7"
    using i(2) by (simp_all add: sample_disk_def)
  from disk_driver_serves_every_request [OF i(1) d(1-4) rtranclp.rtrancl_refl] d(5) i(1) show ?thesis by force
qed

end
