(* ===== verification/Trap.thy ===== *)
theory Trap imports Sysproc begin

text \<open>
  Traps (kernel/trap.c) and the interrupt controller (kernel/plic.c). The supervisor registers of a hart
  are a record; \<open>intr_on\<close>, \<open>intr_off\<close> and \<open>intr_get\<close> (kernel/riscv.h) act on its \<open>sstatus\<close>. The process
  table, the clock and what processes do are those of the theories Proc and Sysproc. \<open>devops\<close> are the
  handlers of the devices, which live in other theories' states, and the claim register of the PLIC.

  A trap from user space ends in one of three ways: the process calls \<open>exit\<close>, it gives up the processor
  and goes on at \<open>usertrapret\<close> when it is scheduled again, or it goes there at once. \<open>usertrapret\<close> ends in
  the assembly of trampoline.S, which the registers it leaves are for.
\<close>

section \<open>State\<close>

abbreviation (input) SSTATUS_SPP :: u64 where "SSTATUS_SPP \<equiv> 0x100"
abbreviation (input) SSTATUS_SPIE :: u64 where "SSTATUS_SPIE \<equiv> 0x20"
abbreviation (input) SSTATUS_SIE :: u64 where "SSTATUS_SIE \<equiv> 2"
abbreviation (input) UART0_IRQ :: int where "UART0_IRQ \<equiv> 10"
abbreviation (input) VIRTIO0_IRQ :: int where "VIRTIO0_IRQ \<equiv> 1"

record csrs =
  c_sstatus :: u64
  c_sepc :: u64
  c_scause :: u64
  c_stval :: u64
  c_stvec :: u64
  c_sip :: u64
  c_satp :: u64

datatype trap_msg = Unexpected_user u64 int u64 u64 | Unexpected_kernel u64 u64 u64 | Unexpected_irq int

record 'w tst =
  sys :: "'w spst"
  csr :: csrs
  msgs :: "trap_msg list"

definition intr_on :: "csrs \<Rightarrow> csrs" where
  "intr_on c = c\<lparr>c_sstatus := c_sstatus c OR SSTATUS_SIE\<rparr>"

definition intr_off :: "csrs \<Rightarrow> csrs" where
  "intr_off c = c\<lparr>c_sstatus := c_sstatus c AND NOT SSTATUS_SIE\<rparr>"

definition intr_get :: "csrs \<Rightarrow> bool" where
  "intr_get c \<longleftrightarrow> c_sstatus c AND SSTATUS_SIE \<noteq> 0"

text \<open>Addresses that the linker gives: \<open>kernelvec\<close>, \<open>usertrap\<close>, the offsets of \<open>uservec\<close> and \<open>userret\<close> in the
  trampoline page, and \<open>&ticks\<close>.\<close>

record symbols =
  s_kernelvec :: u64
  s_usertrap :: u64
  s_uservec :: u64
  s_userret :: u64
  s_ticks :: u64

record 'w devops =
  d_claim :: "nat \<Rightarrow> 'w tst \<Rightarrow> u32 \<times> 'w tst"
  d_complete :: "nat \<Rightarrow> u32 \<Rightarrow> 'w tst \<Rightarrow> 'w tst"
  d_uartintr :: "'w tst \<Rightarrow> 'w tst kres"
  d_virtio_intr :: "'w tst \<Rightarrow> 'w tst kres"

definition on_sys :: "('w spst \<Rightarrow> 'w spst) \<Rightarrow> 'w tst \<Rightarrow> 'w tst" where
  "on_sys f st = st\<lparr>sys := f (sys st)\<rparr>"

definition on_csr :: "(csrs \<Rightarrow> csrs) \<Rightarrow> 'w tst \<Rightarrow> 'w tst" where
  "on_csr f st = st\<lparr>csr := f (csr st)\<rparr>"

definition on_procs :: "('w kst \<Rightarrow> 'w kst) \<Rightarrow> 'w tst \<Rightarrow> 'w tst" where
  "on_procs f = on_sys (\<lambda>s. s\<lparr>core := f (core s)\<rparr>)"

definition say :: "trap_msg \<Rightarrow> 'w tst \<Rightarrow> 'w tst" where
  "say m st = st\<lparr>msgs := msgs st @ [m]\<rparr>"

section \<open>The interrupt controller\<close>

text \<open>Stores to the PLIC, by address (\<open>PLIC\<close> is 0x0c000000).\<close>

abbreviation (input) PLIC :: u64 where "PLIC \<equiv> 0x0c000000"

definition plicinit :: "(u64 \<times> u32) list" where
  "plicinit = [(PLIC + 10 * 4, 1), (PLIC + 1 * 4, 1)]"

definition plicinithart :: "nat \<Rightarrow> (u64 \<times> u32) list" where
  "plicinithart hart =
     [(PLIC + 0x2080 + of_nat hart * 0x100, 2 ^ 10 OR 2 ^ 1), (PLIC + 0x201000 + of_nat hart * 0x2000, 0)]"

text \<open>The claim register is read to claim, and written to complete.\<close>

definition plic_claim :: "'w devops \<Rightarrow> nat \<Rightarrow> 'w tst \<Rightarrow> int \<times> 'w tst" where
  "plic_claim dev c st = (let (irq, st) = d_claim dev c st in (sint irq, st))"

definition plic_complete :: "'w devops \<Rightarrow> nat \<Rightarrow> int \<Rightarrow> 'w tst \<Rightarrow> 'w tst" where
  "plic_complete dev c irq = d_complete dev c (word_of_int irq)"

section \<open>Interrupts\<close>

text \<open>\<open>devintr\<close> on hart \<open>c\<close>, whose process is \<open>me\<close>.\<close>

definition devintr :: "symbols \<Rightarrow> 'w devops \<Rightarrow> nat \<Rightarrow> nat option \<Rightarrow> 'w tst \<Rightarrow> (int \<times> 'w tst) kres" where
  "devintr sy dev c me st =
     (let scause = c_scause (csr st) in
      if scause AND 0x8000000000000000 \<noteq> 0 \<and> scause AND 0xff = 9 then
        let (irq, st) = plic_claim dev c st in
        kbind (if irq = UART0_IRQ then d_uartintr dev st
               else if irq = VIRTIO0_IRQ then d_virtio_intr dev st
               else if irq \<noteq> 0 then Ok (say (Unexpected_irq irq) st)
               else Ok st) (\<lambda>st.
        Ok (1, if irq \<noteq> 0 then plic_complete dev c irq st else st))
      else if scause = 0x8000000000000001 then
        let st = (if c = 0 then on_sys (clockintr (s_ticks sy) me) st else st) in
        Ok (2, on_csr (\<lambda>r. r\<lparr>c_sip := c_sip r AND NOT 2\<rparr>) st)
      else Ok (0, st))"

definition trapinithart :: "symbols \<Rightarrow> csrs \<Rightarrow> csrs" where
  "trapinithart sy r = r\<lparr>c_stvec := s_kernelvec sy\<rparr>"

section \<open>Traps from user space\<close>

datatype trap_end = Exited | Yielded | To_user

text \<open>\<open>sysc\<close> is the system call; \<open>True\<close> says that it did not return (\<open>exit\<close>).\<close>

definition finish_trap :: "'w kops \<Rightarrow> nat \<Rightarrow> nat \<Rightarrow> int \<Rightarrow> 'w tst \<Rightarrow> (trap_end \<times> 'w tst) kres" where
  "finish_trap ops c me which_dev st =
     (if killed me (core (sys st)) \<noteq> 0 then
        kbind (exit ops c me (- 1) (core (sys st))) (\<lambda>k. Ok (Exited, on_procs (\<lambda>_. k) st))
      else if which_dev = 2 then Ok (Yielded, on_procs (yield c me) st)
      else Ok (To_user, st))"

definition usertrap ::
    "symbols \<Rightarrow> 'w kops \<Rightarrow> 'w devops \<Rightarrow> ('w tst \<Rightarrow> (bool \<times> 'w tst) kres) \<Rightarrow> nat \<Rightarrow> nat \<Rightarrow> 'w tst \<Rightarrow> (trap_end \<times> 'w tst) kres" where
  "usertrap sy ops dev sysc c me st =
     (if c_sstatus (csr st) AND SSTATUS_SPP \<noteq> 0 then Panic ''usertrap: not from user mode''
      else
        let st = on_csr (\<lambda>r. r\<lparr>c_stvec := s_kernelvec sy\<rparr>) st;
            st = on_procs (upd_proc me (\<lambda>p. p\<lparr>p_tf := (p_tf p)(Epc := c_sepc (csr st))\<rparr>)) st in
        if c_scause (csr st) = 8 then
          if killed me (core (sys st)) \<noteq> 0 then
            kbind (exit ops c me (- 1) (core (sys st))) (\<lambda>k. Ok (Exited, on_procs (\<lambda>_. k) st))
          else
            let st = on_procs (upd_proc me (\<lambda>p. p\<lparr>p_tf := (p_tf p)(Epc := p_tf p Epc + 4)\<rparr>)) st;
                st = on_csr intr_on st in
            kbind (sysc st) (\<lambda>(gone, st). if gone then Ok (Exited, st) else finish_trap ops c me 0 st)
        else
          kbind (devintr sy dev c (Some me) st) (\<lambda>(which_dev, st).
          if which_dev \<noteq> 0 then finish_trap ops c me which_dev st
          else
            let r = csr st;
                st = say (Unexpected_user (c_scause r) (p_pid (procs (core (sys st)) me)) (c_sepc r) (c_stval r)) st in
            finish_trap ops c me 0 (on_procs (setkilled me) st)))"

text \<open>\<open>usertrapret\<close>: the result is the argument for \<open>userret\<close>, the user page table for \<open>satp\<close>; \<open>tp\<close> is the hart
  number. \<open>MAKE_SATP\<close> is in kernel/riscv.h.\<close>

definition MAKE_SATP :: "u64 \<Rightarrow> u64" where
  "MAKE_SATP pagetable = push_bit 60 8 OR drop_bit 12 pagetable"

definition usertrapret :: "symbols \<Rightarrow> nat \<Rightarrow> nat \<Rightarrow> 'w tst \<Rightarrow> u64 \<times> 'w tst" where
  "usertrapret sy tp me st =
     (let st = on_csr intr_off st;
          st = on_csr (\<lambda>r. r\<lparr>c_stvec := TRAMPOLINE + s_uservec sy\<rparr>) st;
          satp = c_satp (csr st);
          st = on_procs (upd_proc me (\<lambda>p. p\<lparr>p_tf := (p_tf p)(Kernel_satp := satp, Kernel_sp := p_kstack p + 4096,
                 Kernel_trap := s_usertrap sy, Kernel_hartid := of_nat tp)\<rparr>)) st;
          p = procs (core (sys st)) me;
          st = on_csr (\<lambda>r. r\<lparr>c_sstatus := (c_sstatus r AND NOT SSTATUS_SPP) OR SSTATUS_SPIE, c_sepc := p_tf p Epc\<rparr>) st in
      (MAKE_SATP (p_pagetable p), st))"

section \<open>Traps from the kernel\<close>

text \<open>\<open>me\<close> is \<open>myproc()\<close>. A yielding process goes on in \<open>kerneltrap_end\<close> when it is scheduled again, on whatever hart,
  with the values of \<open>sepc\<close> and \<open>sstatus\<close> that it saved.\<close>

definition kerneltrap :: "symbols \<Rightarrow> 'w devops \<Rightarrow> nat \<Rightarrow> nat option \<Rightarrow> 'w tst \<Rightarrow> (u64 \<times> u64 \<times> 'w tst) kres" where
  "kerneltrap sy dev c me st =
     (let r = csr st in
      if c_sstatus r AND SSTATUS_SPP = 0 then Panic ''kerneltrap: not from supervisor mode''
      else if intr_get r then Panic ''kerneltrap: interrupts enabled''
      else
        kbind (devintr sy dev c me st) (\<lambda>(which_dev, st).
        if which_dev = 0 then Panic ''kerneltrap''
        else
          Ok (c_sepc r, c_sstatus r,
              case me of None \<Rightarrow> st
              | Some i \<Rightarrow> if which_dev = 2 \<and> p_state (procs (core (sys st)) i) = RUNNING then on_procs (yield c i) st else st)))"

definition kerneltrap_end :: "u64 \<times> u64 \<Rightarrow> csrs \<Rightarrow> csrs" where
  "kerneltrap_end saved r = r\<lparr>c_sepc := fst saved, c_sstatus := snd saved\<rparr>"

section \<open>Returning to user space\<close>

lemma finish_trap_alive:
  assumes "finish_trap ops c me d st = Ok (e, st')" "e \<noteq> Exited"
  shows "killed me (core (sys st')) = 0 \<and> p_tf (procs (core (sys st')) me) Epc = p_tf (procs (core (sys st)) me) Epc \<and>
    (e = Yielded \<longleftrightarrow> d = 2)"
  using assms
  by (auto simp: finish_trap_def kbind_eq_Ok on_procs_def on_sys_def yield_def switch_out_def upd_proc_def killed_def
      split: if_splits)

lemma usertrap_alive:
  assumes "usertrap sy ops dev sysc c me st = Ok (e, st')" "e \<noteq> Exited"
  shows "killed me (core (sys st')) = 0"
  using assms finish_trap_alive [OF _ assms(2)] unfolding usertrap_def Let_def
  by (auto simp: kbind_eq_Ok split: if_splits prod.splits) blast+

lemma sstatus_bits:
  fixes x :: u64
  defines "y \<equiv> (x AND NOT SSTATUS_SIE) AND NOT SSTATUS_SPP OR SSTATUS_SPIE"
  shows "y AND SSTATUS_SPP = 0" "y AND SSTATUS_SPIE = SSTATUS_SPIE" "y AND SSTATUS_SIE = 0"
proof -
  have b: "bit SSTATUS_SPP n \<longleftrightarrow> n = 8" "bit SSTATUS_SPIE n \<longleftrightarrow> n = 5" "bit SSTATUS_SIE n \<longleftrightarrow> n = 1" for n
    using bit_exp_iff [where 'a = "64 word", of 8 n] bit_exp_iff [where 'a = "64 word", of 5 n]
      bit_exp_iff [where 'a = "64 word", of 1 n] by (auto simp: possible_bit_def)
  show "y AND SSTATUS_SPP = 0" "y AND SSTATUS_SPIE = SSTATUS_SPIE" "y AND SSTATUS_SIE = 0"
    unfolding y_def by (rule bit_word_eqI; simp only: bit_and_iff bit_or_iff bit_not_iff b bit_0_eq bot_apply; auto)+
qed

lemma usertrapret_regs:
  assumes "usertrapret sy tp me st = (satp, st')"
  shows "c_sstatus (csr st') AND SSTATUS_SPP = 0" "c_sstatus (csr st') AND SSTATUS_SPIE \<noteq> 0" "\<not> intr_get (csr st')"
    "c_sepc (csr st') = p_tf (procs (core (sys st)) me) Epc" "c_stvec (csr st') = TRAMPOLINE + s_uservec sy"
    "satp = MAKE_SATP (p_pagetable (procs (core (sys st)) me))"
proof -
  have "c_sstatus (csr st') = (c_sstatus (csr st) AND NOT SSTATUS_SIE) AND NOT SSTATUS_SPP OR SSTATUS_SPIE"
    using assms by (auto simp: usertrapret_def Let_def on_csr_def on_procs_def on_sys_def intr_off_def)
  then show "c_sstatus (csr st') AND SSTATUS_SPP = 0" "c_sstatus (csr st') AND SSTATUS_SPIE \<noteq> 0" "\<not> intr_get (csr st')"
    using sstatus_bits [of "c_sstatus (csr st)"] by (simp_all add: intr_get_def)
qed (use assms in \<open>auto simp: usertrapret_def Let_def on_csr_def on_procs_def on_sys_def intr_off_def upd_proc_def\<close>)



text \<open>A timer interrupt on hart 1, in process 0: it yields and will go on at its old program counter.\<close>

definition demo_proc :: proc where
  "demo_proc = \<lparr>p_state = RUNNING, p_chan = None, p_killed = 0, p_xstate = 0, p_pid = 1, p_parent = None,
     p_kstack = 0x3fffffd000, p_sz = 4096, p_pagetable = 0x87f60000, p_trapframe = 0x87f61000, p_tf = (\<lambda>_. 0), p_context = (0, 0),
     p_ofile = replicate NOFILE None, p_cwd = None, p_name = replicate 16 0, p_strace = 0, p_counter = 0\<rparr>"

definition demo_trap :: "unit tst" where
  "demo_trap = \<lparr>sys = \<lparr>core = \<lparr>procs = (\<lambda>_. demo_proc), nextpid = 2, initproc = Some 0, cpu_proc = (\<lambda>_. Some 0), world = ()\<rparr>,
       ticks = 0, tracelog = [], devlog = []\<rparr>,
     csr = \<lparr>c_sstatus = 0x20, c_sepc = 0x1234, c_scause = 0x8000000000000001, c_stval = 0, c_stvec = 0, c_sip = 2, c_satp = 0\<rparr>,
     msgs = []\<rparr>"

definition demo_symbols :: symbols where
  "demo_symbols = \<lparr>s_kernelvec = 0x80001000, s_usertrap = 0x80002000, s_uservec = 0, s_userret = 0x9c, s_ticks = 0x80008000\<rparr>"


end
