(* ===== verification/Sh.thy ===== *)
theory Sh imports Pipeline begin

text \<open>
  The shell user/sh.c: its recursive-descent parser, \<open>nulterminate\<close>, and \<open>runcmd\<close>.

  The parser works on the line \<open>buf\<close>, whose NUL is at \<open>es\<close>, with positions for the pointers \<open>ps\<close>, \<open>q\<close> and \<open>eq\<close>;
  only \<open>nulterminate\<close> writes to the line. \<open>malloc\<close> does not fail. The four mutually recursive routines have fuel
  for the nesting of their calls; \<open>Blocked\<close> says it ran out, and the theorem shows that what \<open>parsecmd\<close> gives
  is always enough. A call of \<open>panic\<close> is \<open>Panic\<close>.

  Running a command uses the descriptor tables of theory Pipeline: the result is the list of the processes
  that reach \<open>exec\<close> successfully, and how the process that runs the command ends.
\<close>

section \<open>Commands\<close>

text \<open>The constructors \<open>execcmd\<close>, \<open>redircmd\<close>, \<open>pipecmd\<close>, \<open>listcmd\<close>, \<open>backcmd\<close>. The words \<open>'w\<close> are for the program the pairs
  of pointers \<open>q\<close> and \<open>eq\<close>, \<open>parsed\<close>; with strings as words a command is its meaning. The modes of a redirection are \<open>O_RDONLY\<close>, \<open>O_WRONLY|O_CREATE|O_TRUNC\<close> and \<open>O_WRONLY|O_CREATE\<close>.\<close>

datatype mode = Rd | WrTrunc | Wr

datatype (words: 'w) cmd =
  EXEC "'w list" | REDIR "'w cmd" 'w mode nat | PIPE "'w cmd" "'w cmd" | LIST "'w cmd" "'w cmd" | BACK "'w cmd"

type_synonym parsed = "(nat \<times> nat) cmd"

abbreviation (input) MAXARGS :: nat where "MAXARGS \<equiv> 10"

section \<open>Tokens\<close>

definition is_white :: "u8 \<Rightarrow> bool" where
  "is_white c \<longleftrightarrow> c = 32 \<or> c = 9 \<or> c = 13 \<or> c = 10 \<or> c = 11"

text \<open>The characters \<open><|>&;()\<close>.\<close>

definition is_symbol :: "u8 \<Rightarrow> bool" where
  "is_symbol c \<longleftrightarrow> c = 60 \<or> c = 124 \<or> c = 62 \<or> c = 38 \<or> c = 59 \<or> c = 40 \<or> c = 41"

function skip_while :: "(u8 \<Rightarrow> bool) \<Rightarrow> u8 list \<Rightarrow> nat \<Rightarrow> nat \<Rightarrow> nat" where
  "skip_while P buf es s = (if s < es \<and> P (char_at buf s) then skip_while P buf es (s + 1) else s)"
  by pat_completeness auto
termination
  by (relation "measure (\<lambda>(P, buf, es, s). es - s)") auto

declare skip_while.simps [simp del]

definition skip_white :: "u8 list \<Rightarrow> nat \<Rightarrow> nat \<Rightarrow> nat" where
  "skip_white = skip_while is_white"

text \<open>The token \<open>a\<close> (97) is a word, \<open>+\<close> (43) is \<open>>>\<close>, 0 the end of the line.\<close>

definition gettoken :: "u8 list \<Rightarrow> nat \<Rightarrow> nat \<Rightarrow> u8 \<times> (nat \<times> nat) \<times> nat" where
  "gettoken buf es ps =
     (let s = skip_white buf es ps; c = char_at buf s;
          (ret, eq) =
            (if c = 0 then (0, s)
             else if c = 62 then (if char_at buf (s + 1) = 62 then (43, s + 2) else (62, s + 1))
             else if is_symbol c then (c, s + 1)
             else (97, skip_while (\<lambda>c. \<not> is_white c \<and> \<not> is_symbol c) buf es s)) in
      (ret, (s, eq), skip_white buf es eq))"

definition peek :: "u8 list \<Rightarrow> nat \<Rightarrow> u8 list \<Rightarrow> nat \<Rightarrow> bool \<times> nat" where
  "peek buf es toks ps =
     (let s = skip_white buf es ps in (char_at buf s \<noteq> 0 \<and> char_at buf s \<in> set toks, s))"

section \<open>Positions move forward\<close>

lemma skip_while_ge: "s \<le> skip_while P buf es s"
proof (induction P buf es s rule: skip_while.induct)
  case (1 P buf es s)
  then show ?case by (subst skip_while.simps) (auto split: if_splits)
qed

lemma skip_while_le: "s \<le> es \<Longrightarrow> skip_while P buf es s \<le> es"
proof (induction P buf es s rule: skip_while.induct)
  case (1 P buf es s)
  then show ?case by (subst skip_while.simps) auto
qed

lemma skip_stop: "skip_while P buf es s < es \<Longrightarrow> \<not> P (char_at buf (skip_while P buf es s))"
proof (induction P buf es s rule: skip_while.induct)
  case (1 P buf es s)
  then show ?case
    by (cases "s < es \<and> P (char_at buf s)") (simp_all add: skip_while.simps [of P buf es s])
qed

lemma skip_while_all: "s \<le> i \<Longrightarrow> i < skip_while P buf es s \<Longrightarrow> P (char_at buf i)"
proof (induction P buf es s rule: skip_while.induct)
  case (1 P buf es s)
  then show ?case
    by (cases "s < es \<and> P (char_at buf s)"; cases "i = s") (simp_all add: skip_while.simps [of P buf es s])
qed

lemma skip_white_ge: "s \<le> skip_white buf es s"
  unfolding skip_white_def by (rule skip_while_ge)

lemma gettoken_parts:
  assumes "gettoken buf es p = (t, w, p')"
  shows "fst w = skip_white buf es p" "p' = skip_white buf es (snd w)" "fst w \<le> snd w"
  using assms skip_while_ge [of "skip_white buf es p" "\<lambda>c. \<not> is_white c \<and> \<not> is_symbol c" buf es]
  by (auto simp: gettoken_def Let_def split: if_splits)

lemma gettoken_ge: "gettoken buf es p = (t, w, p') \<Longrightarrow> p \<le> p'"
  using gettoken_parts [of buf es p t w p'] skip_white_ge [of p buf es] skip_white_ge [of "snd w" buf es] by linarith

section \<open>The parser\<close>

type_synonym 'w redir = "'w \<times> mode \<times> nat"

text \<open>\<open>parseredirs\<close>: the redirections, in the order they are wrapped around the command.\<close>

fun parseredirs :: "nat \<Rightarrow> u8 list \<Rightarrow> nat \<Rightarrow> (nat \<times> nat) redir list \<Rightarrow> nat \<Rightarrow> ((nat \<times> nat) redir list \<times> nat) kres" where
  "parseredirs 0 buf es rs ps = Blocked"
| "parseredirs (Suc n) buf es rs ps =
     (let (is_redir, ps) = peek buf es [60, 62] ps in
      if \<not> is_redir then Ok (rs, ps)
      else
        let (tok, _, ps) = gettoken buf es ps; (tok2, w, ps) = gettoken buf es ps in
        if tok2 \<noteq> 97 then Panic ''missing file for redirection''
        else
          parseredirs n buf es
            (rs @ (if tok = 60 then [(w, Rd, 0)] else if tok = 62 then [(w, WrTrunc, 1)] else if tok = 43 then [(w, Wr, 1)] else [])) ps)"

definition add_redirs :: "'w redir list \<Rightarrow> 'w cmd \<Rightarrow> 'w cmd" where
  "add_redirs rs c = foldl (\<lambda>c (w, m, fd). REDIR c w m fd) c rs"

text \<open>The loop of \<open>parseexec\<close>: the arguments, and the redirections among them.\<close>

fun parseargs :: "nat \<Rightarrow> u8 list \<Rightarrow> nat \<Rightarrow> (nat \<times> nat) list \<Rightarrow> (nat \<times> nat) redir list \<Rightarrow> nat \<Rightarrow> ((nat \<times> nat) list \<times> (nat \<times> nat) redir list \<times> nat) kres" where
  "parseargs 0 buf es args rs ps = Blocked"
| "parseargs (Suc n) buf es args rs ps =
     (let (stop, ps) = peek buf es [124, 41, 38, 59] ps in
      if stop then Ok (args, rs, ps)
      else
        let (tok, w, ps) = gettoken buf es ps in
        if tok = 0 then Ok (args, rs, ps)
        else if tok \<noteq> 97 then Panic ''syntax''
        else if length args + 1 \<ge> MAXARGS then Panic ''too many args''
        else kbind (parseredirs n buf es rs ps) (\<lambda>(rs, ps). parseargs n buf es (args @ [w]) rs ps))"

fun parsebacks :: "nat \<Rightarrow> u8 list \<Rightarrow> nat \<Rightarrow> parsed \<Rightarrow> nat \<Rightarrow> (parsed \<times> nat) kres" where
  "parsebacks 0 buf es c ps = Blocked"
| "parsebacks (Suc n) buf es c ps =
     (let (amp, ps) = peek buf es [38] ps in
      if amp then let (_, _, ps) = gettoken buf es ps in parsebacks n buf es (BACK c) ps
      else Ok (c, ps))"

text \<open>\<open>line\<close> is \<open>parseline\<close>, with less fuel.\<close>

definition parseblock :: "(nat \<Rightarrow> (parsed \<times> nat) kres) \<Rightarrow> nat \<Rightarrow> u8 list \<Rightarrow> nat \<Rightarrow> nat \<Rightarrow> (parsed \<times> nat) kres" where
  "parseblock line n buf es ps =
     (let (ok, ps) = peek buf es [40] ps in
      if \<not> ok then Panic ''parseblock''
      else
        let (_, _, ps) = gettoken buf es ps in
        kbind (line ps) (\<lambda>(c, ps).
        let (ok, ps) = peek buf es [41] ps in
        if \<not> ok then Panic ''syntax - missing )''
        else
          let (_, _, ps) = gettoken buf es ps in
          kbind (parseredirs n buf es [] ps) (\<lambda>(rs, ps). Ok (add_redirs rs c, ps))))"

definition parseexec :: "(nat \<Rightarrow> (parsed \<times> nat) kres) \<Rightarrow> nat \<Rightarrow> u8 list \<Rightarrow> nat \<Rightarrow> nat \<Rightarrow> (parsed \<times> nat) kres" where
  "parseexec line n buf es ps =
     (let (block, ps) = peek buf es [40] ps in
      if block then parseblock line n buf es ps
      else
        kbind (parseredirs n buf es [] ps) (\<lambda>(rs, ps).
        kbind (parseargs n buf es [] rs ps) (\<lambda>(args, rs, ps). Ok (add_redirs rs (EXEC args), ps))))"

fun parsepipe :: "(nat \<Rightarrow> (parsed \<times> nat) kres) \<Rightarrow> nat \<Rightarrow> u8 list \<Rightarrow> nat \<Rightarrow> nat \<Rightarrow> (parsed \<times> nat) kres" where
  "parsepipe line 0 buf es ps = Blocked"
| "parsepipe line (Suc n) buf es ps =
     kbind (parseexec line n buf es ps) (\<lambda>(c, ps).
     let (bar, ps) = peek buf es [124] ps in
     if bar then
       let (_, _, ps) = gettoken buf es ps in
       kbind (parsepipe line n buf es ps) (\<lambda>(d, ps). Ok (PIPE c d, ps))
     else Ok (c, ps))"

primrec parseline :: "nat \<Rightarrow> u8 list \<Rightarrow> nat \<Rightarrow> nat \<Rightarrow> (parsed \<times> nat) kres" where
  "parseline 0 = (\<lambda>buf es ps. Blocked)"
| "parseline (Suc n) = (\<lambda>buf es ps.
     kbind (parsepipe (parseline n buf es) n buf es ps) (\<lambda>(c, ps).
     kbind (parsebacks n buf es c ps) (\<lambda>(c, ps).
     let (semi, ps) = peek buf es [59] ps in
     if semi then
       let (_, _, ps) = gettoken buf es ps in
       kbind (parseline n buf es ps) (\<lambda>(d, ps). Ok (LIST c d, ps))
     else Ok (c, ps))))"

fun nulterminate :: "parsed \<Rightarrow> u8 list \<Rightarrow> u8 list" where
  "nulterminate (EXEC args) buf = fold (\<lambda>(q, eq) buf. buf[eq := 0]) args buf"
| "nulterminate (REDIR c w m fd) buf = (nulterminate c buf)[snd w := 0]"
| "nulterminate (PIPE a b) buf = nulterminate b (nulterminate a buf)"
| "nulterminate (LIST a b) buf = nulterminate b (nulterminate a buf)"
| "nulterminate (BACK c) buf = nulterminate c buf"

definition parsecmd :: "u8 list \<Rightarrow> (parsed \<times> u8 list) kres" where
  "parsecmd buf =
     (let es = ustrlen buf in
      kbind (parseline (es + 3) buf es 0) (\<lambda>(c, s).
      let (_, s) = peek buf es [] s in
      if s \<noteq> es then Panic ''syntax'' else Ok (c, nulterminate c buf)))"

section \<open>Running commands\<close>

text \<open>The results of these \<open>close\<close> and \<open>dup\<close> calls are not looked at.\<close>

definition sh_close :: "nat \<Rightarrow> fdtable \<Rightarrow> fdtable" where
  "sh_close i t = (case fd_close i t of None \<Rightarrow> t | Some t \<Rightarrow> t)"

definition sh_dup :: "nat \<Rightarrow> fdtable \<Rightarrow> fdtable" where
  "sh_dup i t = (case fd_dup i t of None \<Rightarrow> t | Some (j, t) \<Rightarrow> t)"

definition sh_open :: "mode \<Rightarrow> u8 list \<Rightarrow> fdtable \<Rightarrow> fdtable option" where
  "sh_open m f t = map_option snd (fd_new (if m = Rd then FileIn f else FileOut f False) t)"

text \<open>\<open>k\<close> counts the pipes made so far. A process whose \<open>exec\<close> fails ends with status 0.\<close>

fun runcmd ::
    "(u8 list \<Rightarrow> bool) \<Rightarrow> (u8 list list \<Rightarrow> bool) \<Rightarrow> u8 list \<Rightarrow> parsed \<Rightarrow> nat \<Rightarrow> fdtable \<Rightarrow> process list \<times> outcome \<times> nat" where
  "runcmd can_open exec_ok buf (EXEC args) k t =
     (let argv = map (\<lambda>(q, eq). at_str buf q) args in
      if argv = [] then ([], Exited 1, k)
      else if exec_ok argv then ([(argv, t)], Execed, k) else ([], Exited 0, k))"
| "runcmd can_open exec_ok buf (REDIR c w m fd) k t =
     (let t = sh_close fd t; f = at_str buf (fst w) in
      case (if can_open f then sh_open m f t else None) of
        None \<Rightarrow> ([], Exited 1, k)
      | Some t \<Rightarrow> runcmd can_open exec_ok buf c k t)"
| "runcmd can_open exec_ok buf (LIST a b) k t =
     (let (pa, _, k) = runcmd can_open exec_ok buf a k t; (pb, out, k) = runcmd can_open exec_ok buf b k t in (pa @ pb, out, k))"
| "runcmd can_open exec_ok buf (PIPE a b) k t =
     (case fd_pipe k t of None \<Rightarrow> ([], Exited 1, k)
      | Some (r, w, t) \<Rightarrow>
        let (pa, _, k2) = runcmd can_open exec_ok buf a (k + 1) (sh_close w (sh_close r (sh_dup w (sh_close 1 t))));
            (pb, _, k3) = runcmd can_open exec_ok buf b k2 (sh_close w (sh_close r (sh_dup r (sh_close 0 t)))) in
        (pa @ pb, Exited 0, k3))"
| "runcmd can_open exec_ok buf (BACK c) k t =
     (let (pc, _, k) = runcmd can_open exec_ok buf c k t in (pc, Exited 0, k))"

section \<open>The main loop\<close>

datatype sh_event = Ran "process list" | Syntax_error | Changed_dir "u8 list" | Cannot_cd "u8 list"

text \<open>One turn of \<open>main\<close>: \<open>None\<close> at the end of the input. \<open>chdir\<close> says whether the directory can be entered.\<close>

definition sh_turn ::
    "(u8 list \<Rightarrow> bool) \<Rightarrow> (u8 list list \<Rightarrow> bool) \<Rightarrow> (u8 list \<Rightarrow> bool) \<Rightarrow> fdtable \<Rightarrow> u8 list \<Rightarrow> (sh_event \<times> u8 list) option" where
  "sh_turn can_open exec_ok chdir t inp =
     (let (buf, inp) = gets (replicate 100 0) 100 inp in
      if char_at buf 0 = 0 then None
      else if char_at buf 0 = 99 \<and> char_at buf 1 = 100 \<and> char_at buf 2 = 32 then
        let dir = cstr (drop 3 (buf[ustrlen buf - 1 := 0])) in Some (if chdir dir then Changed_dir dir else Cannot_cd dir, inp)
      else
        Some (case parsecmd buf of
                Ok (c, buf) \<Rightarrow> Ran (fst (runcmd can_open exec_ok buf c 0 t))
              | _ \<Rightarrow> Syntax_error, inp))"

section \<open>What the parser returns\<close>

definition is_word :: "u8 \<Rightarrow> bool" where
  "is_word c \<longleftrightarrow> c \<noteq> 0 \<and> \<not> is_white c \<and> \<not> is_symbol c"

definition word_at :: "u8 list \<Rightarrow> nat \<Rightarrow> nat \<times> nat \<Rightarrow> bool" where
  "word_at buf es = (\<lambda>(q, eq). q < eq \<and> eq \<le> es \<and> (\<forall>i. q \<le> i \<and> i < eq \<longrightarrow> is_word (char_at buf i)) \<and> \<not> is_word (char_at buf eq))"

fun few_args :: "'w cmd \<Rightarrow> bool" where
  "few_args (EXEC args) \<longleftrightarrow> length args < MAXARGS"
| "few_args (REDIR c w m fd) \<longleftrightarrow> few_args c"
| "few_args (PIPE a b) \<longleftrightarrow> few_args a \<and> few_args b"
| "few_args (LIST a b) \<longleftrightarrow> few_args a \<and> few_args b"
| "few_args (BACK c) \<longleftrightarrow> few_args c"

definition cmd_ok :: "u8 list \<Rightarrow> nat \<Rightarrow> parsed \<Rightarrow> bool" where
  "cmd_ok buf es c \<longleftrightarrow> (\<forall>w\<in>words c. word_at buf es w) \<and> few_args c"


text \<open>With enough fuel, a routine answers: it does not go back, stays in the line and keeps its promise \<open>Q\<close>.\<close>

definition answers :: "nat \<Rightarrow> nat \<Rightarrow> ('a \<Rightarrow> bool) \<Rightarrow> ('a \<times> nat) kres \<Rightarrow> bool" where
  "answers es p Q r \<longleftrightarrow> (case r of Ok (x, p') \<Rightarrow> p \<le> p' \<and> p' \<le> es \<and> Q x | Panic msg \<Rightarrow> True | _ \<Rightarrow> False)"

lemma answers_simps [simp]: "answers es p Q (Ok (x, p')) \<longleftrightarrow> p \<le> p' \<and> p' \<le> es \<and> Q x" "answers es p Q (Panic msg)"
  by (simp_all add: answers_def)

lemma answers_bind:
  assumes "answers es p Q r" "\<And>x p'. p \<le> p' \<Longrightarrow> p' \<le> es \<Longrightarrow> Q x \<Longrightarrow> answers es p R (f (x, p'))"
  shows "answers es p R (kbind r f)"
  using assms by (cases r) (auto simp: answers_def)

lemma answers_mono: "answers es p' Q r \<Longrightarrow> p \<le> p' \<Longrightarrow> answers es p Q r"
  by (cases r) (auto simp: answers_def)

text \<open>A line: the bytes up to its NUL.\<close>

definition a_line :: "u8 list \<Rightarrow> nat \<Rightarrow> bool" where
  "a_line buf es \<longleftrightarrow> es < length buf \<and> buf ! es = 0 \<and> (\<forall>i<es. buf ! i \<noteq> 0)"

lemma peek_spec:
  assumes "a_line buf es" "peek buf es toks p = (yes, p')"
  shows "p \<le> p'" "yes \<Longrightarrow> p \<le> es \<Longrightarrow> p' < es" "p \<le> es \<Longrightarrow> p' \<le> es"
proof -
  have p': "p' = skip_white buf es p" using assms(2) by (auto simp: peek_def Let_def)
  then show "p \<le> p'" using skip_white_ge by simp
  show le: "p \<le> es \<Longrightarrow> p' \<le> es" unfolding p' skip_white_def by (rule skip_while_le)
  show "p' < es" if "yes" "p \<le> es"
  proof -
    have "char_at buf p' \<noteq> 0" using that assms(2) p' by (auto simp: peek_def Let_def)
    then have "p' \<noteq> es" using assms(1) by (auto simp: a_line_def char_at_def)
    then show ?thesis using le that by simp
  qed
qed

lemma char_at_line: "a_line buf es \<Longrightarrow> i \<le> es \<Longrightarrow> char_at buf i = 0 \<longleftrightarrow> i = es"
  by (cases "i = es") (auto simp: a_line_def char_at_def)

lemma gettoken_spec:
  assumes "a_line buf es" "gettoken buf es p = (t, w, p')" "p \<le> es"
  shows "p \<le> p'" "p' \<le> es" "t \<noteq> 0 \<Longrightarrow> p < p'" "t = 97 \<Longrightarrow> word_at buf es w"
proof -
  let ?W = "\<lambda>c. \<not> is_white c \<and> \<not> is_symbol c"
  define s where "s = skip_white buf es p"
  note c0 = char_at_line [OF assms(1)]
  have s: "p \<le> s" "s \<le> es" "s < es \<Longrightarrow> \<not> is_white (char_at buf s)"
    using skip_white_ge [of p buf es] skip_while_le [OF assms(3), of is_white buf] skip_stop [of is_white buf es p]
    by (simp_all add: s_def skip_white_def)
  have word: "s < skip_while ?W buf es s" if "s < es" "\<not> is_symbol (char_at buf s)"
    using that s(3) skip_while_ge [of "s + 1" ?W buf es] by (subst skip_while.simps) simp
  have e: "skip_while ?W buf es s \<le> es" by (rule skip_while_le [OF s(2)])
  have two: "s + 2 \<le> es" if "char_at buf s = 62" "char_at buf (s + 1) = 62"
    using that c0 [of s] c0 [of "s + 1"] s(2) by (cases "s = es"; cases "s + 1 = es") auto
  have one: "s + 1 \<le> es" if "char_at buf s \<noteq> 0" using that c0 [of s] s(2) by (cases "s = es") auto
  have w: "s \<le> snd w" "snd w \<le> es" "t \<noteq> 0 \<Longrightarrow> s < snd w" "p' = skip_white buf es (snd w)"
    using assms(2) s word e two one
    by (auto simp: gettoken_def Let_def is_symbol_def s_def [symmetric] split: if_splits)
  show "p \<le> p'" "p' \<le> es" "t \<noteq> 0 \<Longrightarrow> p < p'"
    using w s(1) skip_white_ge [of "snd w" buf es] skip_while_le [OF w(2), of is_white buf] by (simp_all add: skip_white_def)
  show "word_at buf es w" if "t = 97"
  proof -
    have eq: "w = (s, skip_while ?W buf es s)" "char_at buf s \<noteq> 0" "\<not> is_symbol (char_at buf s)"
      using assms(2) that by (auto simp: gettoken_def Let_def is_symbol_def s_def [symmetric] split: if_splits)
    have "s < es" using one [OF eq(2)] by simp
    moreover have "is_word (char_at buf i)" if "s \<le> i" "i < skip_while ?W buf es s" for i
      using skip_while_all [OF that] c0 [of i] that e by (auto simp: is_word_def)
    moreover have "\<not> is_word (char_at buf (skip_while ?W buf es s))"
    proof (cases "skip_while ?W buf es s < es")
      case True
      then show ?thesis using skip_stop [OF True] by (simp add: is_word_def)
    next
      case False
      then show ?thesis using e c0 [of es] by (simp add: is_word_def)
    qed
    ultimately show ?thesis using eq word e by (simp add: word_at_def)
  qed
qed

lemma peek_gettoken:
  assumes "a_line buf es" "peek buf es toks p = (True, p')" "gettoken buf es p' = (t, w, p2)" "p \<le> es"
  shows "p < p2" "p2 \<le> es"
proof -
  have p': "p \<le> p'" "p' < es" using peek_spec [OF assms(1,2)] assms(4) by simp_all
  have "p' = skip_white buf es p" "char_at buf p' \<noteq> 0" using assms(2) by (auto simp: peek_def Let_def)
  moreover have "skip_white buf es p' = p'" if "\<not> is_white (char_at buf p')"
    using that by (simp add: skip_white_def skip_while.simps [of is_white buf es p'])
  moreover have "\<not> is_white (char_at buf p')"
    using skip_stop [of is_white buf es p] p'(2) calculation(1) by (simp add: skip_white_def)
  ultimately have "t \<noteq> 0" using assms(3) by (auto simp: gettoken_def Let_def split: if_splits)
  then show "p < p2" "p2 \<le> es" using gettoken_spec [OF assms(1,3)] p' by simp_all
qed

definition redirs_ok :: "u8 list \<Rightarrow> nat \<Rightarrow> (nat \<times> nat) redir list \<Rightarrow> bool" where
  "redirs_ok buf es rs \<longleftrightarrow> (\<forall>(w, m, fd)\<in>set rs. word_at buf es w)"

lemma parseredirs_answers:
  assumes "a_line buf es"
  shows "p \<le> es \<Longrightarrow> es - p < n \<Longrightarrow> redirs_ok buf es rs \<Longrightarrow> answers es p (redirs_ok buf es) (parseredirs n buf es rs p)"
proof (induction n arbitrary: p rs)
  case (Suc n)
  obtain yes p1 where k: "peek buf es [60, 62] p = (yes, p1)" by (cases "peek buf es [60, 62] p")
  note k' = peek_spec [OF assms k]
  show ?case
  proof (cases yes)
    case False
    then show ?thesis using k k' Suc.prems by simp
  next
    case True
    obtain t v p2 where g: "gettoken buf es p1 = (t, v, p2)" by (cases "gettoken buf es p1")
    obtain u w p3 where g2: "gettoken buf es p2 = (u, w, p3)" by (cases "gettoken buf es p2")
    have p2: "p < p2" "p2 \<le> es" using peek_gettoken [OF assms _ g Suc.prems(1)] k True by auto
    note g2' = gettoken_spec [OF assms g2 p2(2)]
    define rs2 where "rs2 = rs @ (if t = 60 then [(w, Rd, 0)] else if t = 62 then [(w, WrTrunc, 1)] else if t = 43 then [(w, Wr, 1)] else [])"
    have e: "parseredirs (Suc n) buf es rs p = (if u \<noteq> 97 then Panic ''missing file for redirection'' else parseredirs n buf es rs2 p3)"
      using k True g g2 by (simp add: rs2_def)
    show ?thesis
    proof (cases "u = 97")
      case u: True
      then have "redirs_ok buf es rs2" using g2'(4) Suc.prems(3) by (auto simp: redirs_ok_def rs2_def)
      then have "answers es p3 (redirs_ok buf es) (parseredirs n buf es rs2 p3)"
        using Suc.IH [OF g2'(2)] p2 g2'(1,2) Suc.prems by simp
      then show ?thesis unfolding e using u p2 g2'(1) answers_mono [of es p3 _ _ p] by simp
    next
      case False
      then show ?thesis unfolding e by simp
    qed
  qed
qed simp

lemma parseargs_answers:
  assumes "a_line buf es"
  shows "p \<le> es \<Longrightarrow> es - p < n \<Longrightarrow> \<forall>w\<in>set args. word_at buf es w \<Longrightarrow> length args < MAXARGS \<Longrightarrow> redirs_ok buf es rs \<Longrightarrow>
    parseargs n buf es args rs p = r \<Longrightarrow>
    (case r of Ok (args', rs', p') \<Rightarrow> p \<le> p' \<and> p' \<le> es \<and> (\<forall>w\<in>set args'. word_at buf es w) \<and> length args' < MAXARGS \<and> redirs_ok buf es rs'
     | Panic msg \<Rightarrow> True | _ \<Rightarrow> False)"
proof (induction n arbitrary: p args rs r)
  case (Suc n)
  obtain stop p1 where k: "peek buf es [124, 41, 38, 59] p = (stop, p1)" by (cases "peek buf es [124, 41, 38, 59] p")
  note k' = peek_spec [OF assms k]
  obtain t w p2 where g: "gettoken buf es p1 = (t, w, p2)" by (cases "gettoken buf es p1")
  note g' = gettoken_spec [OF assms g k'(3) [OF Suc.prems(1)]]
  have e: "r = (if stop then Ok (args, rs, p1) else if t = 0 then Ok (args, rs, p2) else if t \<noteq> 97 then Panic ''syntax''
      else if length args + 1 \<ge> MAXARGS then Panic ''too many args''
      else kbind (parseredirs n buf es rs p2) (\<lambda>(rs, ps). parseargs n buf es (args @ [w]) rs ps))"
    unfolding Suc.prems(6) [symmetric] using k g by simp
  show ?case
  proof (cases "\<not> stop \<and> t = 97 \<and> length args + 1 < MAXARGS")
    case False
    then show ?thesis unfolding e using k' g' Suc.prems by auto
  next
    case True
    then have p2: "p < p2" "p2 \<le> es" "word_at buf es w" using g' k'(1) by auto
    have "answers es p2 (redirs_ok buf es) (parseredirs n buf es rs p2)"
      by (rule parseredirs_answers [OF assms p2(2)]) (use p2 Suc.prems in auto)
    then consider msg where "parseredirs n buf es rs p2 = Panic msg"
      | rs2 p3 where "parseredirs n buf es rs p2 = Ok (rs2, p3)" "p2 \<le> p3" "p3 \<le> es" "redirs_ok buf es rs2"
      by (cases "parseredirs n buf es rs p2") (auto simp: answers_def)
    then show ?thesis
    proof cases
      case 1
      then show ?thesis using True by (simp add: e)
    next
      case 2
      have "r = parseargs n buf es (args @ [w]) rs2 p3" using True 2(1) by (simp add: e)
      moreover have "es - p3 < n" using p2 2(2,3) Suc.prems(2) by linarith
      ultimately have "case r of Ok (args', rs', p') \<Rightarrow> p3 \<le> p' \<and> p' \<le> es \<and> (\<forall>w\<in>set args'. word_at buf es w) \<and> length args' < MAXARGS \<and> redirs_ok buf es rs'
          | Panic msg \<Rightarrow> True | _ \<Rightarrow> False"
        using Suc.IH [OF 2(3) _ _ _ 2(4), of "args @ [w]" r] True p2(3) Suc.prems(3) by simp
      then show ?thesis using p2(1) 2(2) by (cases r) auto
    qed
  qed
qed simp

lemma parsebacks_answers:
  assumes "a_line buf es"
  shows "p \<le> es \<Longrightarrow> es - p < n \<Longrightarrow> cmd_ok buf es c \<Longrightarrow> answers es p (cmd_ok buf es) (parsebacks n buf es c p)"
proof (induction n arbitrary: p c)
  case (Suc n)
  obtain yes p1 where k: "peek buf es [38] p = (yes, p1)" by (cases "peek buf es [38] p")
  obtain t v p2 where g: "gettoken buf es p1 = (t, v, p2)" by (cases "gettoken buf es p1")
  show ?case
  proof (cases yes)
    case False
    then show ?thesis using k peek_spec [OF assms k] Suc.prems by simp
  next
    case True
    have p2: "p < p2" "p2 \<le> es" using peek_gettoken [OF assms _ g Suc.prems(1)] k True by auto
    have "cmd_ok buf es (BACK c)" using Suc.prems(3) by (simp add: cmd_ok_def)
    then have "answers es p2 (cmd_ok buf es) (parsebacks n buf es (BACK c) p2)"
      using Suc.IH [OF p2(2)] p2 Suc.prems by simp
    then have "answers es p (cmd_ok buf es) (parsebacks n buf es (BACK c) p2)" by (rule answers_mono) (use p2 in simp)
    moreover have "parsebacks (Suc n) buf es c p = parsebacks n buf es (BACK c) p2" using k True g by simp
    ultimately show ?thesis by simp
  qed
qed simp

lemma cmd_ok_EXEC [simp]: "cmd_ok buf es (EXEC args) \<longleftrightarrow> (\<forall>w\<in>set args. word_at buf es w) \<and> length args < MAXARGS"
  by (auto simp: cmd_ok_def)

lemma cmd_ok_redirs: "redirs_ok buf es rs \<Longrightarrow> cmd_ok buf es c \<Longrightarrow> cmd_ok buf es (add_redirs rs c)"
proof (induction rs arbitrary: c)
  case (Cons r rs)
  obtain w m fd where "r = (w, m, fd)" by (cases r)
  then show ?case using Cons.IH [of "REDIR c w m fd"] Cons.prems by (simp add: add_redirs_def redirs_ok_def cmd_ok_def)
qed (simp add: add_redirs_def)

lemma redirs_ok_Nil [simp]: "redirs_ok buf es []"
  by (simp add: redirs_ok_def)

lemma parseblock_answers:
  assumes l: "a_line buf es" and p: "p \<le> es" "es - p < n"
    and line: "\<And>q. p < q \<Longrightarrow> q \<le> es \<Longrightarrow> answers es q (cmd_ok buf es) (line q)"
  shows "answers es p (cmd_ok buf es) (parseblock line n buf es p)"
proof -
  obtain yes p1 where k: "peek buf es [40] p = (yes, p1)" by (cases "peek buf es [40] p")
  obtain t v p2 where g: "gettoken buf es p1 = (t, v, p2)" by (cases "gettoken buf es p1")
  show ?thesis
  proof (cases yes)
    case True
    have p2: "p < p2" "p2 \<le> es" using peek_gettoken [OF l _ g p(1)] k True by auto
    have "answers es p2 (cmd_ok buf es) (kbind (line p2) (\<lambda>(c, ps).
        let (ok, ps) = peek buf es [41] ps in
        if \<not> ok then Panic ''syntax - missing )''
        else let (_, _, ps) = gettoken buf es ps in
          kbind (parseredirs n buf es [] ps) (\<lambda>(rs, ps). Ok (add_redirs rs c, ps))))"
    proof (rule answers_bind [OF line [OF p2]])
      fix c p3 assume c: "p2 \<le> p3" "p3 \<le> es" "cmd_ok buf es c"
      obtain ok p4 where k2: "peek buf es [41] p3 = (ok, p4)" by (cases "peek buf es [41] p3")
      obtain t v p5 where g2: "gettoken buf es p4 = (t, v, p5)" by (cases "gettoken buf es p4")
      have "answers es p2 (cmd_ok buf es) (kbind (parseredirs n buf es [] p5) (\<lambda>(rs, ps). Ok (add_redirs rs c, ps)))" if ok
      proof (rule answers_bind [where Q = "redirs_ok buf es"])
        have p5: "p3 < p5" "p5 \<le> es" using peek_gettoken [OF l _ g2 c(2)] k2 that by auto
        then have "answers es p5 (redirs_ok buf es) (parseredirs n buf es [] p5)"
          using p p2 c by (intro parseredirs_answers [OF l]) auto
        then show "answers es p2 (redirs_ok buf es) (parseredirs n buf es [] p5)"
          by (rule answers_mono) (use p5 c in simp)
      qed (use c cmd_ok_redirs in auto)
      then show "answers es p2 (cmd_ok buf es) ((\<lambda>(c, ps). let (ok, ps) = peek buf es [41] ps in
        if \<not> ok then Panic ''syntax - missing )''
        else let (_, _, ps) = gettoken buf es ps in
          kbind (parseredirs n buf es [] ps) (\<lambda>(rs, ps). Ok (add_redirs rs c, ps))) (c, p3))"
        using k2 g2 by simp
    qed
    then show ?thesis using k True g answers_mono [of es p2 _ _ p] p2 by (simp add: parseblock_def)
  qed (simp add: parseblock_def k)
qed

lemma parseexec_answers:
  assumes l: "a_line buf es" and p: "p \<le> es" "es - p < n"
    and line: "\<And>q. p < q \<Longrightarrow> q \<le> es \<Longrightarrow> answers es q (cmd_ok buf es) (line q)"
  shows "answers es p (cmd_ok buf es) (parseexec line n buf es p)"
proof -
  obtain yes p1 where k: "peek buf es [40] p = (yes, p1)" by (cases "peek buf es [40] p")
  have p1: "p \<le> p1" "p1 \<le> es" using peek_spec [OF l k] p by simp_all
  show ?thesis
  proof (cases yes)
    case True
    have "answers es p1 (cmd_ok buf es) (parseblock line n buf es p1)"
      by (rule parseblock_answers [OF l p1(2)]) (use p p1 line in auto)
    then show ?thesis using k True answers_mono [of es p1 _ _ p] p1 by (simp add: parseexec_def)
  next
    case False
    have "answers es p1 (cmd_ok buf es) (kbind (parseredirs n buf es [] p1) (\<lambda>(rs, ps).
        kbind (parseargs n buf es [] rs ps) (\<lambda>(args, rs, ps). Ok (add_redirs rs (EXEC args), ps))))"
    proof (rule answers_bind [where Q = "redirs_ok buf es"])
      show "answers es p1 (redirs_ok buf es) (parseredirs n buf es [] p1)"
        by (rule parseredirs_answers [OF l p1(2)]) (use p p1 in auto)
      fix rs p2 assume r: "p1 \<le> p2" "p2 \<le> es" "redirs_ok buf es rs"
      have "case parseargs n buf es [] rs p2 of
          Ok (args', rs', p') \<Rightarrow> p2 \<le> p' \<and> p' \<le> es \<and> (\<forall>w\<in>set args'. word_at buf es w) \<and> length args' < MAXARGS \<and> redirs_ok buf es rs'
        | Panic msg \<Rightarrow> True | _ \<Rightarrow> False"
        by (rule parseargs_answers [OF l r(2) _ _ _ r(3) refl]) (use p p1 r in auto)
      then show "answers es p1 (cmd_ok buf es) ((\<lambda>(rs, ps).
          kbind (parseargs n buf es [] rs ps) (\<lambda>(args, rs, ps). Ok (add_redirs rs (EXEC args), ps))) (rs, p2))"
        using r(1) by (cases "parseargs n buf es [] rs p2") (auto intro!: cmd_ok_redirs)
    qed
    then show ?thesis using k False answers_mono [of es p1 _ _ p] p1 by (simp add: parseexec_def)
  qed
qed

lemma parsepipe_answers:
  assumes l: "a_line buf es"
  shows "p \<le> es \<Longrightarrow> es - p + 1 < n \<Longrightarrow> (\<And>q. p < q \<Longrightarrow> q \<le> es \<Longrightarrow> answers es q (cmd_ok buf es) (line q)) \<Longrightarrow>
    answers es p (cmd_ok buf es) (parsepipe line n buf es p)"
proof (induction n arbitrary: p)
  case (Suc n)
  have "answers es p (cmd_ok buf es) (parseexec line n buf es p)"
    by (rule parseexec_answers [OF l Suc.prems(1)]) (use Suc.prems in auto)
  then show ?case unfolding parsepipe.simps
  proof (rule answers_bind)
    fix c p1 assume c: "p \<le> p1" "p1 \<le> es" "cmd_ok buf es c"
    obtain bar p2 where k: "peek buf es [124] p1 = (bar, p2)" by (cases "peek buf es [124] p1")
    obtain t v p3 where g: "gettoken buf es p2 = (t, v, p3)" by (cases "gettoken buf es p2")
    have "answers es p (cmd_ok buf es) (kbind (parsepipe line n buf es p3) (\<lambda>(d, ps). Ok (PIPE c d, ps)))" if bar
    proof (rule answers_bind)
      have p3: "p1 < p3" "p3 \<le> es" using peek_gettoken [OF l _ g c(2)] k that by auto
      then have "answers es p3 (cmd_ok buf es) (parsepipe line n buf es p3)"
        using Suc.IH [OF p3(2)] Suc.prems c(1) by simp
      then show "answers es p (cmd_ok buf es) (parsepipe line n buf es p3)" by (rule answers_mono) (use p3 c in simp)
    qed (use c in \<open>simp add: cmd_ok_def ball_Un\<close>)
    then show "answers es p (cmd_ok buf es) (case (c, p1) of (c, ps) \<Rightarrow>
        let (bar, ps) = peek buf es [124] ps in
        if bar then let (_, _, ps) = gettoken buf es ps in kbind (parsepipe line n buf es ps) (\<lambda>(d, ps). Ok (PIPE c d, ps))
        else Ok (c, ps))"
      using k g c peek_spec [OF l k] by simp
  qed
qed simp

lemma parseline_answers:
  assumes l: "a_line buf es"
  shows "p \<le> es \<Longrightarrow> es - p + 2 < n \<Longrightarrow> answers es p (cmd_ok buf es) (parseline n buf es p)"
proof (induction n arbitrary: p)
  case (Suc n)
  have line: "answers es q (cmd_ok buf es) (parseline n buf es q)" if "p < q" "q \<le> es" for q
    using Suc.IH [OF that(2)] that Suc.prems by simp
  have "answers es p (cmd_ok buf es) (parsepipe (parseline n buf es) n buf es p)"
    by (rule parsepipe_answers [OF l Suc.prems(1)]) (use Suc.prems line in auto)
  then show ?case unfolding parseline.simps
  proof (rule answers_bind)
    fix c p1 assume c: "p \<le> p1" "p1 \<le> es" "cmd_ok buf es c"
    have "answers es p1 (cmd_ok buf es) (parsebacks n buf es c p1)"
      by (rule parsebacks_answers [OF l c(2) _ c(3)]) (use Suc.prems c in simp)
    then have "answers es p (cmd_ok buf es) (parsebacks n buf es c p1)" by (rule answers_mono [OF _ c(1)])
    then show "answers es p (cmd_ok buf es) (case (c, p1) of (c, ps) \<Rightarrow> kbind (parsebacks n buf es c ps) (\<lambda>(c, ps).
        let (semi, ps) = peek buf es [59] ps in
        if semi then let (_, _, ps) = gettoken buf es ps in kbind (parseline n buf es ps) (\<lambda>(d, ps). Ok (LIST c d, ps))
        else Ok (c, ps)))"
      unfolding prod.case
    proof (rule answers_bind)
      fix c p2 assume c: "p \<le> p2" "p2 \<le> es" "cmd_ok buf es c"
      obtain semi p3 where k: "peek buf es [59] p2 = (semi, p3)" by (cases "peek buf es [59] p2")
      obtain t v p4 where g: "gettoken buf es p3 = (t, v, p4)" by (cases "gettoken buf es p3")
      have "answers es p (cmd_ok buf es) (kbind (parseline n buf es p4) (\<lambda>(d, ps). Ok (LIST c d, ps)))" if semi
      proof (rule answers_bind)
        have p4: "p2 < p4" "p4 \<le> es" using peek_gettoken [OF l _ g c(2)] k that by auto
        then have "answers es p4 (cmd_ok buf es) (parseline n buf es p4)" using line [of p4] c by simp
        then show "answers es p (cmd_ok buf es) (parseline n buf es p4)" by (rule answers_mono) (use p4 c in simp)
      qed (use c in \<open>simp add: cmd_ok_def ball_Un\<close>)
      then show "answers es p (cmd_ok buf es) (case (c, p2) of (c, ps) \<Rightarrow>
          let (semi, ps) = peek buf es [59] ps in
          if semi then let (_, _, ps) = gettoken buf es ps in kbind (parseline n buf es ps) (\<lambda>(d, ps). Ok (LIST c d, ps))
          else Ok (c, ps))"
        using k g c peek_spec [OF l k] by simp
    qed
  qed
qed simp

text \<open>\<open>nulterminate\<close> writes a NUL behind every word, and nothing else.\<close>

lemma nulterminate_args_length [simp]: "length (fold (\<lambda>(q, eq) buf. buf[eq := 0]) args buf) = length buf"
  by (induction args arbitrary: buf) auto

lemma nulterminate_length [simp]: "length (nulterminate c buf) = length buf"
  by (induction c arbitrary: buf) auto

lemma nulterminate_args:
  "i < length buf \<Longrightarrow> fold (\<lambda>(q, eq) buf. buf[eq := 0]) args buf ! i = (if \<exists>q. (q, i) \<in> set args then 0 else buf ! i)"
proof (induction args arbitrary: buf)
  case (Cons w args)
  obtain q e where "w = (q, e)" by (cases w)
  then show ?case using Cons by (auto simp: nth_list_update)
qed simp

lemma nulterminate_writes:
  "i < length buf \<Longrightarrow> nulterminate c buf ! i = (if \<exists>q. (q, i) \<in> words c then 0 else buf ! i)"
proof (induction c arbitrary: buf)
  case (REDIR c w m fd)
  obtain q e where "w = (q, e)" by (cases w)
  then show ?case using REDIR by (cases "e = i") auto
qed (auto simp: nulterminate_args)

lemma cstr_at:
  assumes "q \<le> e" "e < length b" "b ! e = 0" "\<And>i. q \<le> i \<Longrightarrow> i < e \<Longrightarrow> b ! i \<noteq> 0"
  shows "cstr (drop q b) = map ((!) b) [q..<e]"
  using assms(1)
proof (induction q rule: inc_induct)
  case base
  then show ?case using assms(2,3) by (simp add: Cons_nth_drop_Suc [symmetric])
next
  case (step n)
  then show ?case using assms(2) assms(4) [of n] by (simp add: Cons_nth_drop_Suc [symmetric] upt_rec)
qed

lemma terminated_word:
  assumes "a_line buf es" "cmd_ok buf es c" "(q, e) \<in> words c"
  shows "at_str (nulterminate c buf) q = map ((!) buf) [q..<e]"
proof -
  have w: "word_at buf es (q, e)" and ends: "\<And>p i. (p, i) \<in> words c \<Longrightarrow> \<not> is_word (char_at buf i)"
    using assms(2,3) by (auto simp: cmd_ok_def word_at_def)
  have len: "e < length buf" "q < e" using w assms(1) by (auto simp: word_at_def a_line_def)
  have same: "nulterminate c buf ! i = buf ! i \<and> buf ! i \<noteq> 0" if "q \<le> i" "i < e" for i
  proof -
    have "is_word (char_at buf i)" using w that by (simp add: word_at_def)
    moreover from this have "\<not> (\<exists>p. (p, i) \<in> words c)" using ends by blast
    ultimately show ?thesis using that len by (simp add: nulterminate_writes is_word_def char_at_def)
  qed
  have "nulterminate c buf ! e = 0" using assms(3) len by (auto simp: nulterminate_writes)
  then have "cstr (drop q (nulterminate c buf)) = map ((!) (nulterminate c buf)) [q..<e]"
    using len same by (intro cstr_at) (auto simp: nulterminate_writes)
  then show ?thesis using same by (simp add: at_str_def)
qed

lemma a_line_ustrlen: "0 \<in> set buf \<Longrightarrow> a_line buf (ustrlen buf)"
proof (induction buf)
  case (Cons c buf)
  then show ?case by (auto simp: a_line_def nth_Cons split: nat.splits)
qed simp

text \<open>The words of a parsed command are maximal words of the line, and in the buffer that \<open>runcmd\<close> gets each pointer \<open>q\<close>
  leads to exactly the characters of its word.\<close>

definition well_parsed :: "u8 list \<Rightarrow> parsed \<Rightarrow> u8 list \<Rightarrow> bool" where
  "well_parsed buf c buf' \<longleftrightarrow> length buf' = length buf \<and> few_args c \<and>
     (\<forall>(q, e)\<in>words c. word_at buf (ustrlen buf) (q, e) \<and> at_str buf' q = map ((!) buf) [q..<e])"

text \<open>C40: For every NUL-terminated line \<open>parsecmd\<close> comes back, after at most as many nested calls as the line has
  characters and three more, either with the complaint of a \<open>panic\<close> or with a well-formed command: fewer than
  \<open>MAXARGS\<close> arguments everywhere, so that the arrays \<open>argv\<close> and \<open>eargv\<close> have room for the final null pointer, each
  word a maximal sequence of word characters of the line, and, once \<open>nulterminate\<close> has written its NULs, each string the
  word that was parsed.\<close>

theorem parsecmd_well_formed:
  assumes "0 \<in> set buf"
  shows "case parsecmd buf of Ok (c, buf') \<Rightarrow> well_parsed buf c buf' | Panic msg \<Rightarrow> True | _ \<Rightarrow> False"
proof -
  define es where "es = ustrlen buf"
  have l: "a_line buf es" unfolding es_def by (rule a_line_ustrlen [OF assms])
  have "answers es 0 (cmd_ok buf es) (parseline (es + 3) buf es 0)" by (rule parseline_answers [OF l]) simp_all
  then consider msg where "parseline (es + 3) buf es 0 = Panic msg"
    | c p where "parseline (es + 3) buf es 0 = Ok (c, p)" "cmd_ok buf es c"
    by (cases "parseline (es + 3) buf es 0") (auto simp: answers_def)
  then show ?thesis
  proof cases
    case 1
    then show ?thesis by (simp add: parsecmd_def es_def [symmetric] Let_def)
  next
    case 2
    have "well_parsed buf c (nulterminate c buf)"
      using 2(2) terminated_word [OF l 2(2)] by (auto simp: well_parsed_def cmd_ok_def es_def)
    then show ?thesis using 2(1) by (simp add: parsecmd_def es_def [symmetric] Let_def split: prod.splits)
  qed
qed

text \<open>The line \<open>ls>f\<close>.\<close>

theorem parsecmd_well_formed_witness:
  "parsecmd [108, 115, 62, 102, 0] = Ok (REDIR (EXEC [(0, 2)]) (3, 4) WrTrunc 1, [108, 115, 0, 102, 0]) \<and>
   well_parsed [108, 115, 62, 102, 0] (REDIR (EXEC [(0, 2)]) (3, 4) WrTrunc 1) [108, 115, 0, 102, 0]"
proof -
  have "parsecmd [108, 115, 62, 102, 0] = Ok (REDIR (EXEC [(0, 2)]) (3, 4) WrTrunc 1, [108, 115, 0, 102, 0])" by code_simp
  then show ?thesis using parsecmd_well_formed [of "[108, 115, 62, 102, 0]"] by simp
qed

end
