(* ===== verification/ShellGrammar.thy ===== *)
theory ShellGrammar imports Sh begin

text \<open>
  The language of the shell user/sh.c, as a grammar, and that \<open>parsecmd\<close> of theory Sh reads it: whatever the
  blanks between its tokens, a line that spells a command of the grammar is parsed to the command's meaning.

  A grammatical command is a tree \<open>sentence\<close> of the right \<open>shape\<close>; \<open>tokens\<close> writes it, \<open>meaning\<close> says which command it is.
\<close>

section \<open>The grammar\<close>

datatype sentence =
  Simple "(mode \<times> u8 list) list" "(u8 list \<times> (mode \<times> u8 list) list) list"
| Block sentence "(mode \<times> u8 list) list"
| Pipes sentence sentence
| Bg sentence
| Seq sentence sentence

fun level :: "sentence \<Rightarrow> nat" where
  "level (Simple rs args) = 0"
| "level (Block t rs) = 0"
| "level (Pipes a b) = 1"
| "level (Bg a) = 2"
| "level (Seq a b) = 3"

definition word_token :: "u8 list \<Rightarrow> bool" where
  "word_token w \<longleftrightarrow> w \<noteq> [] \<and> (\<forall>c\<in>set w. is_word c)"

text \<open>A pipeline has commands or blocks as its parts, only a pipeline goes to the background, and a sequence is the
  outermost; a simple command has less than \<open>MAXARGS\<close> words.\<close>

fun shape :: "sentence \<Rightarrow> bool" where
  "shape (Simple rs args) \<longleftrightarrow> (\<forall>(m, w)\<in>set rs. word_token w) \<and>
     (\<forall>(v, rs)\<in>set args. word_token v \<and> (\<forall>(m, w)\<in>set rs. word_token w)) \<and> length args < MAXARGS"
| "shape (Block t rs) \<longleftrightarrow> shape t \<and> (\<forall>(m, w)\<in>set rs. word_token w)"
| "shape (Pipes a b) \<longleftrightarrow> shape a \<and> shape b \<and> level a = 0 \<and> level b \<le> 1"
| "shape (Bg a) \<longleftrightarrow> shape a \<and> level a \<le> 2"
| "shape (Seq a b) \<longleftrightarrow> shape a \<and> shape b \<and> level a \<le> 2"

fun redir_token :: "mode \<Rightarrow> u8 list" where
  "redir_token Rd = [60]"
| "redir_token WrTrunc = [62]"
| "redir_token Wr = [62, 62]"

definition redir_tokens :: "(mode \<times> u8 list) list \<Rightarrow> u8 list list" where
  "redir_tokens rs = concat (map (\<lambda>(m, w). [redir_token m, w]) rs)"

fun tokens :: "sentence \<Rightarrow> u8 list list" where
  "tokens (Simple rs args) = redir_tokens rs @ concat (map (\<lambda>(v, rs). v # redir_tokens rs) args)"
| "tokens (Block t rs) = [40] # tokens t @ [41] # redir_tokens rs"
| "tokens (Pipes a b) = tokens a @ [124] # tokens b"
| "tokens (Bg a) = tokens a @ [[38]]"
| "tokens (Seq a b) = tokens a @ [59] # tokens b"

definition redirs_of :: "(mode \<times> u8 list) list \<Rightarrow> u8 list redir list" where
  "redirs_of rs = map (\<lambda>(m, w). (w, m, if m = Rd then 0 else 1)) rs"

fun meaning :: "sentence \<Rightarrow> u8 list cmd" where
  "meaning (Simple rs args) = add_redirs (redirs_of rs @ concat (map (\<lambda>(v, rs). redirs_of rs) args)) (EXEC (map fst args))"
| "meaning (Block t rs) = add_redirs (redirs_of rs) (meaning t)"
| "meaning (Pipes a b) = PIPE (meaning a) (meaning b)"
| "meaning (Bg a) = BACK (meaning a)"
| "meaning (Seq a b) = LIST (meaning a) (meaning b)"

section \<open>Spelling\<close>

text \<open>The tokens with blanks between them, up to the NUL; behind it the buffer may hold anything. Blanks are needed only where the next character would
  extend the token.\<close>

inductive spells :: "u8 list list \<Rightarrow> u8 list \<Rightarrow> bool" where
  spells_Nil: "spells [] (0 # junk)"
| spells_word: "word_token t \<Longrightarrow> \<forall>c\<in>set blanks. is_white c \<Longrightarrow> spells ts s \<Longrightarrow> \<not> is_word (hd (blanks @ s)) \<Longrightarrow>
    spells (t # ts) (t @ blanks @ s)"
| spells_symbol: "is_symbol c \<Longrightarrow> \<forall>c\<in>set blanks. is_white c \<Longrightarrow> spells ts s \<Longrightarrow> c = 62 \<longrightarrow> hd (blanks @ s) \<noteq> 62 \<Longrightarrow>
    spells ([c] # ts) (c # blanks @ s)"
| spells_append: "\<forall>c\<in>set blanks. is_white c \<Longrightarrow> spells ts s \<Longrightarrow> spells ([62, 62] # ts) (62 # 62 # blanks @ s)"

section \<open>Reading tokens\<close>

definition sees :: "u8 list \<Rightarrow> nat \<Rightarrow> nat \<Rightarrow> u8 list list \<Rightarrow> bool" where
  "sees buf es p ts \<longleftrightarrow> p \<le> es \<and> spells ts (drop p buf)"

text \<open>The token that \<open>gettoken\<close> returns.\<close>

definition token_code :: "u8 list \<Rightarrow> u8" where
  "token_code t = (if t = [62, 62] then 43 else if length t = 1 \<and> is_symbol (hd t) then hd t else 97)"

lemma spells_first:
  "spells ts s \<Longrightarrow> s \<noteq> [] \<and> \<not> is_white (hd s) \<and> hd s = (case ts of [] \<Rightarrow> 0 | t # ts \<Rightarrow> hd t) \<and> (ts \<noteq> [] \<longrightarrow> hd s \<noteq> 0)"
  by (induction rule: spells.induct) (auto simp: word_token_def is_word_def is_symbol_def is_white_def)

lemma spells_NUL: "spells ts s \<Longrightarrow> 0 \<in> set s"
  by (induction rule: spells.induct) auto

inductive_cases spells_ConsE: "spells (t # ts) s"
inductive_cases spells_NilE: "spells [] s"

lemma is_white_0 [simp]: "\<not> is_white 0"
  by (simp add: is_white_def)

lemma char_at_first: "s \<noteq> [] \<Longrightarrow> drop p buf = s \<Longrightarrow> char_at buf p = hd s"
  by (cases "p < length buf") (auto simp: char_at_def hd_drop_conv_nth)

lemma skip_list:
  assumes "a_line buf es" "p \<le> es" "drop p buf = xs @ s" "s \<noteq> []" "\<forall>c\<in>set xs. P c" "\<not> P 0" "\<not> P (hd s)"
  shows "skip_while P buf es p = p + length xs" "p + length xs \<le> es" "drop (p + length xs) buf = s"
proof -
  have at: "char_at buf (p + i) = xs ! i" if "i < length xs" for i
  proof -
    have "length buf - p = length xs + length s" using arg_cong [OF assms(3), of length] by simp
    then have "p + i < length buf" "drop p buf ! i = buf ! (p + i)" using that by simp_all
    then show ?thesis using that assms(3) by (simp add: char_at_def nth_append)
  qed
  have "drop (length xs) (drop p buf) = s" using assms(3) by simp
  then show s: "drop (p + length xs) buf = s" by (simp add: add.commute)
  show le: "p + length xs \<le> es"
  proof (rule ccontr)
    assume "\<not> p + length xs \<le> es"
    then have "es - p < length xs" using assms(2) by linarith
    from at [OF this] assms(2,5) this have "P (char_at buf es)" by simp
    then show False using char_at_line [OF assms(1), of es] assms(6) by simp
  qed
  let ?k = "skip_while P buf es p"
  have all: "P (char_at buf i)" if "p \<le> i" "i < p + length xs" for i
    using at [of "i - p"] assms(5) that by simp
  have "\<not> ?k < p + length xs" using skip_stop [of P buf es p] all [of ?k] skip_while_ge [of p P buf es] le by auto
  moreover have "\<not> p + length xs < ?k"
    using skip_while_all [of p "p + length xs" P buf es] char_at_first [OF assms(4) s] assms(7) by auto
  ultimately show "?k = p + length xs" by simp
qed

lemma skip_blanks:
  assumes "a_line buf es" "p \<le> es" "drop p buf = blanks @ s" "\<forall>c\<in>set blanks. is_white c" "spells ts s"
  shows "sees buf es (skip_white buf es p) ts"
proof -
  have "s \<noteq> []" "\<not> is_white (hd s)" using spells_first [OF assms(5)] by auto
  then show ?thesis using skip_list [of buf es p blanks s is_white] assms by (simp add: skip_white_def sees_def)
qed

lemma sees_skip_white:
  assumes "a_line buf es" "sees buf es p ts"
  shows "skip_white buf es p = p" "char_at buf p = (case ts of [] \<Rightarrow> 0 | t # ts \<Rightarrow> hd t)" "ts \<noteq> [] \<Longrightarrow> char_at buf p \<noteq> 0"
proof -
  have s: "p \<le> es" "spells ts (drop p buf)" using assms(2) by (auto simp: sees_def)
  note f = spells_first [OF s(2)]
  have c: "char_at buf p = hd (drop p buf)" using char_at_first [OF _ refl] f by blast
  show "skip_white buf es p = p"
    unfolding skip_white_def
    using skip_list(1) [of buf es p "[]" "drop p buf" is_white] assms(1) s(1) conjunct1 [OF f] conjunct1 [OF conjunct2 [OF f]] by simp
  show "char_at buf p = (case ts of [] \<Rightarrow> 0 | t # ts \<Rightarrow> hd t)" "ts \<noteq> [] \<Longrightarrow> char_at buf p \<noteq> 0" using c f by auto
qed

lemma sees_peek:
  assumes "a_line buf es" "sees buf es p ts"
  shows "peek buf es toks p = (case ts of [] \<Rightarrow> False | t # ts \<Rightarrow> hd t \<in> set toks, p)"
  using sees_skip_white [OF assms] by (auto simp: peek_def Let_def split: list.splits)

lemma sees_end:
  assumes "a_line buf es" "sees buf es p []"
  shows "gettoken buf es p = (0, (p, p), p)" "p = es"
proof -
  show "gettoken buf es p = (0, (p, p), p)" using sees_skip_white [OF assms] by (simp add: gettoken_def Let_def)
  show "p = es" using sees_skip_white(2) [OF assms] char_at_line [OF assms(1), of p] assms(2) by (simp add: sees_def)
qed

text \<open>The characters of a word.\<close>

definition chars :: "u8 list \<Rightarrow> nat \<times> nat \<Rightarrow> u8 list" where
  "chars buf = (\<lambda>(q, e). map ((!) buf) [q..<e])"

lemma chars_drop:
  assumes "drop p buf = t @ s" "s \<noteq> []"
  shows "chars buf (p, p + length t) = t"
  unfolding chars_def prod.case
proof (rule nth_equalityI)
  fix i assume "i < length (map ((!) buf) [p..<p + length t])"
  then have i: "i < length t" by simp
  moreover have "length buf - p = length t + length s" using arg_cong [OF assms(1), of length] by simp
  ultimately have "drop p buf ! i = buf ! (p + i)" by simp
  then show "map ((!) buf) [p..<p + length t] ! i = t ! i" using assms i by (simp add: nth_append)
qed simp

lemma skip_while_cong:
  "(\<And>i. p \<le> i \<Longrightarrow> i < es \<Longrightarrow> P (char_at buf i) \<longleftrightarrow> Q (char_at buf i)) \<Longrightarrow> skip_while P buf es p = skip_while Q buf es p"
proof (induction P buf es p rule: skip_while.induct)
  case (1 P buf es p)
  then have "p < es \<Longrightarrow> P (char_at buf p) = Q (char_at buf p)" by simp
  with 1 show ?case
    by (cases "p < es"; cases "P (char_at buf p)") (simp_all add: skip_while.simps [of P buf es p] skip_while.simps [of Q buf es p])
qed

lemma gettoken_word:
  assumes l: "a_line buf es" and p: "p \<le> es" and d: "drop p buf = t @ r" "r \<noteq> []" "word_token t" "\<not> is_word (hd r)"
  shows "gettoken buf es p = (97, (p, p + length t), skip_white buf es (p + length t))" "p + length t \<le> es"
proof -
  let ?W = "\<lambda>c. \<not> is_white c \<and> \<not> is_symbol c"
  have h: "is_word (hd t)" "t \<noteq> []" using d(3) by (auto simp: word_token_def)
  have c: "char_at buf p = hd t" using char_at_first [OF _ d(1)] h(2) by simp
  have wp: "skip_white buf es p = p"
    using skip_list(1) [of buf es p "[]" "t @ r" is_white] l p d(1) h by (simp add: skip_white_def is_word_def)
  have "skip_while ?W buf es p = skip_while is_word buf es p"
    by (rule skip_while_cong) (use char_at_line [OF l] in \<open>auto simp: is_word_def\<close>)
  moreover have "skip_while is_word buf es p = p + length t" "p + length t \<le> es"
    using skip_list(1,2) [OF l p d(1,2), of is_word] d(3,4) by (simp_all add: word_token_def is_word_def)
  moreover have "hd t \<noteq> 0" "hd t \<noteq> 62" "\<not> is_symbol (hd t)" using h(1) by (auto simp: is_word_def is_symbol_def)
  ultimately show "gettoken buf es p = (97, (p, p + length t), skip_white buf es (p + length t))" "p + length t \<le> es"
    by (simp_all add: gettoken_def Let_def wp c)
qed

lemma word_first: "word_token t \<Longrightarrow> is_word (hd t)"
  by (simp add: word_token_def)

lemma is_word_62 [simp]: "\<not> is_word 62"
  by (simp add: is_word_def is_symbol_def)

lemma word_code: "word_token t \<Longrightarrow> token_code t = 97"
  using word_first [of t] by (auto simp: token_code_def) (simp add: is_word_def)

lemma sees_gettoken:
  assumes l: "a_line buf es" and see: "sees buf es p (t # ts)"
  shows "\<exists>p'. gettoken buf es p = (token_code t, (p, p + length t), p') \<and> sees buf es p' ts \<and> p < p' \<and> chars buf (p, p + length t) = t"
proof -
  have p: "p \<le> es" and sp: "spells (t # ts) (drop p buf)" using see by (auto simp: sees_def)
  note sk = sees_skip_white [OF l see]
  have plt: "p < es" using sk(3) char_at_line [OF l p] p by auto
  have found: ?thesis
    if "drop p buf = t @ blanks @ s" "\<forall>c\<in>set blanks. is_white c" "spells ts s" "t \<noteq> []" "p + length t \<le> es"
      "gettoken buf es p = (token_code t, (p, p + length t), skip_white buf es (p + length t))" for blanks s
  proof -
    have s: "s \<noteq> []" using spells_first [OF that(3)] by simp
    have "drop (length t) (drop p buf) = blanks @ s" using that(1) by simp
    then have "drop (p + length t) buf = blanks @ s" by (simp add: add.commute)
    then have "sees buf es (skip_white buf es (p + length t)) ts" by (rule skip_blanks [OF l that(5) _ that(2,3)])
    moreover have "p < skip_white buf es (p + length t)"
      using skip_white_ge [of "p + length t" buf es] that(4) by (cases t) auto
    moreover have "chars buf (p, p + length t) = t" by (rule chars_drop [OF that(1)]) (use s in simp)
    ultimately show ?thesis using that(6) by blast
  qed
  have at1: "char_at buf (p + 1) = hd r" if "drop p buf = c # r" "r \<noteq> []" for c r
  proof -
    have "drop 1 (drop p buf) = r" unfolding that(1) by simp
    then have "drop (p + 1) buf = r" unfolding drop_drop by (simp only: add.commute)
    then show ?thesis by (rule char_at_first [OF that(2)])
  qed
  from sp show ?thesis
  proof (rule spells_ConsE)
    fix blanks s
    assume w: "drop p buf = t @ blanks @ s" "word_token t" "\<forall>c\<in>set blanks. is_white c" "spells ts s" "\<not> is_word (hd (blanks @ s))"
    have r: "blanks @ s \<noteq> []" "t \<noteq> []" using spells_first [OF w(4)] w(2) by (auto simp: word_token_def)
    have "token_code t = 97" by (rule word_code [OF w(2)])
    then show ?thesis using found [OF w(1,3,4) r(2)] gettoken_word [OF l p w(1) r(1) w(2,5)] by simp
  next
    fix c blanks s
    assume w: "t = [c]" "drop p buf = c # blanks @ s" "is_symbol c" "\<forall>c\<in>set blanks. is_white c" "spells ts s" "c = 62 \<longrightarrow> hd (blanks @ s) \<noteq> 62"
    have r: "blanks @ s \<noteq> []" using spells_first [OF w(5)] by auto
    have "gettoken buf es p = (c, (p, p + 1), skip_white buf es (p + 1))"
      using sk w(1,3,6) at1 [OF w(2) r] by (auto simp: gettoken_def Let_def)
    moreover have "token_code t = c" using w(1,3) by (simp add: token_code_def)
    ultimately show ?thesis using found [of blanks s] w plt by simp
  next
    fix blanks s
    assume w: "t = [62, 62]" "drop p buf = 62 # 62 # blanks @ s" "\<forall>c\<in>set blanks. is_white c" "spells ts s"
    have c1: "char_at buf (p + 1) = 62" using at1 [OF w(2)] by simp
    then have "p + 2 \<le> es" using plt char_at_line [OF l, of "p + 1"] by (cases "p + 1 = es") auto
    moreover have "gettoken buf es p = (43, (p, p + 2), skip_white buf es (p + 2))"
      using sk w(1) c1 by (simp add: gettoken_def Let_def)
    ultimately show ?thesis using found [of blanks s] w by (simp add: token_code_def)
  qed
qed

section \<open>Parsing\<close>

text \<open>What may follow: \<open>before ds rest\<close> says that the rest of the line is empty or goes on with one of the symbols \<open>ds\<close>.\<close>

definition before :: "u8 list \<Rightarrow> u8 list list \<Rightarrow> bool" where
  "before ds rest \<longleftrightarrow> (case rest of [] \<Rightarrow> True | t # ts \<Rightarrow> hd t \<in> set ds)"

lemma before_simps [simp]: "before ds []" "before ds (t # ts) \<longleftrightarrow> hd t \<in> set ds"
  by (simp_all add: before_def)

lemma before_mono: "before ds rest \<Longrightarrow> set ds \<subseteq> set es \<Longrightarrow> before es rest"
  by (auto simp: before_def split: list.splits)

definition redir_chars :: "u8 list \<Rightarrow> (nat \<times> nat) redir \<Rightarrow> u8 list redir" where
  "redir_chars buf = (\<lambda>(w, m, fd). (chars buf w, m, fd))"

lemma redir_tokens_simps [simp]:
  "redir_tokens [] = []" "redir_tokens ((m, w) # rs) = redir_token m # w # redir_tokens rs"
  by (simp_all add: redir_tokens_def)

lemma redirs_of_simps [simp]:
  "redirs_of [] = []" "redirs_of ((m, w) # rs) = (w, m, if m = Rd then 0 else 1) # redirs_of rs"
  by (simp_all add: redirs_of_def)

lemma map_add_redirs: "map_cmd (chars buf) (add_redirs rs c) = add_redirs (map (redir_chars buf) rs) (map_cmd (chars buf) c)"
  by (induction rs arbitrary: c) (auto simp: add_redirs_def redir_chars_def)

lemma token_code_symbol [simp]: "is_symbol c \<Longrightarrow> token_code [c] = c" "token_code [62, 62] = 43"
  by (simp_all add: token_code_def)

lemma is_symbol_simps [simp]:
  "is_symbol 60" "is_symbol 124" "is_symbol 62" "is_symbol 38" "is_symbol 59" "is_symbol 40" "is_symbol 41"
  by (simp_all add: is_symbol_def)

lemma redir_code: "token_code (redir_token m) = (case m of Rd \<Rightarrow> 60 | WrTrunc \<Rightarrow> 62 | Wr \<Rightarrow> 43)"
  by (cases m) simp_all

lemma redir_first: "hd (redir_token m) \<in> {60, 62}"
  by (cases m) simp_all

lemma parseredirs_reads:
  assumes l: "a_line buf es"
  shows "sees buf es p (redir_tokens rs @ rest) \<Longrightarrow> \<forall>(m, w)\<in>set rs. word_token w \<Longrightarrow>
    (rest \<noteq> [] \<longrightarrow> hd (hd rest) \<notin> {60, 62}) \<Longrightarrow> es - p < n \<Longrightarrow>
    \<exists>rs' p'. parseredirs n buf es rs0 p = Ok (rs0 @ rs', p') \<and> map (redir_chars buf) rs' = redirs_of rs \<and> sees buf es p' rest \<and> p \<le> p'"
proof (induction rs arbitrary: p rs0 n)
  case Nil
  then obtain m where "n = Suc m" by (cases n) auto
  then show ?case using sees_peek [OF l, of p rest "[60, 62]"] Nil by (auto split: list.splits)
next
  case (Cons r rs)
  obtain m w where r: "r = (m, w)" by (cases r)
  obtain n' where n: "n = Suc n'" using Cons.prems(4) by (cases n) auto
  have see: "sees buf es p (redir_token m # w # redir_tokens rs @ rest)" using Cons.prems(1) r by simp
  have k: "peek buf es [60, 62] p = (True, p)" using sees_peek [OF l see] redir_first [of m] by auto
  obtain p1 where g1: "gettoken buf es p = (token_code (redir_token m), (p, p + length (redir_token m)), p1)"
    "sees buf es p1 (w # redir_tokens rs @ rest)" "p < p1" using sees_gettoken [OF l see] by blast
  obtain p2 where g2: "gettoken buf es p1 = (token_code w, (p1, p1 + length w), p2)" "sees buf es p2 (redir_tokens rs @ rest)"
    "p1 < p2" "chars buf (p1, p1 + length w) = w" using sees_gettoken [OF l g1(2)] by blast
  have w: "token_code w = 97" using Cons.prems(2) r word_code [of w] by auto
  let ?r = "((p1, p1 + length w), m, if m = Rd then 0 else 1)"
  have "p2 \<le> es" using g2(2) by (simp add: sees_def)
  then have "es - p2 < n'" using Cons.prems(4) g1(3) g2(3) n by linarith
  then obtain rs' p' where "parseredirs n' buf es (rs0 @ [?r]) p2 = Ok ((rs0 @ [?r]) @ rs', p')"
    "map (redir_chars buf) rs' = redirs_of rs" "sees buf es p' rest" "p2 \<le> p'"
    using Cons.IH [OF g2(2) _ Cons.prems(3), of n' "rs0 @ [?r]"] Cons.prems(2) by auto
  then have "parseredirs n buf es rs0 p = Ok (rs0 @ ?r # rs', p') \<and> map (redir_chars buf) (?r # rs') = redirs_of (r # rs) \<and>
      sees buf es p' rest \<and> p \<le> p'"
    using g1 g2 k w by (cases m) (simp_all add: n r redir_code redir_chars_def)
  then show ?case by blast
qed

definition args_tokens :: "(u8 list \<times> (mode \<times> u8 list) list) list \<Rightarrow> u8 list list" where
  "args_tokens args = concat (map (\<lambda>(v, rs). v # redir_tokens rs) args)"

lemma args_tokens_simps [simp]: "args_tokens [] = []" "args_tokens ((v, rs) # args) = v # redir_tokens rs @ args_tokens args"
  by (simp_all add: args_tokens_def)

lemma parseargs_reads:
  assumes l: "a_line buf es" and rest: "before [124, 41, 38, 59] rest"
  shows "sees buf es p (args_tokens args @ rest) \<Longrightarrow>
    \<forall>(v, rs)\<in>set args. word_token v \<and> (\<forall>(m, w)\<in>set rs. word_token w) \<Longrightarrow> length as0 + length args < MAXARGS \<Longrightarrow> es - p < n \<Longrightarrow>
    \<exists>as' rs' p'. parseargs n buf es as0 rs0 p = Ok (as0 @ as', rs0 @ rs', p') \<and> map (chars buf) as' = map fst args \<and>
      map (redir_chars buf) rs' = concat (map (\<lambda>(v, rs). redirs_of rs) args) \<and> sees buf es p' rest \<and> p \<le> p'"
proof (induction args arbitrary: p as0 rs0 n)
  case Nil
  then obtain m where "n = Suc m" by (cases n) auto
  moreover have "sees buf es p rest" using Nil by simp
  ultimately show ?case using sees_peek [OF l, of p rest "[124, 41, 38, 59]"] sees_end [OF l, of p] rest
    by (cases rest) auto
next
  case (Cons a args)
  obtain v rs where a: "a = (v, rs)" by (cases a)
  obtain n' where n: "n = Suc n'" using Cons.prems(4) by (cases n) auto
  have v: "word_token v" "\<forall>(m, w)\<in>set rs. word_token w" using Cons.prems(2) a by auto
  have see: "sees buf es p (v # redir_tokens rs @ args_tokens args @ rest)" using Cons.prems(1) a by simp
  have k: "peek buf es [124, 41, 38, 59] p = (False, p)"
    using sees_peek [OF l see] word_first [OF v(1)] by (auto simp: is_word_def is_symbol_def)
  obtain p1 where g: "gettoken buf es p = (token_code v, (p, p + length v), p1)" "sees buf es p1 (redir_tokens rs @ args_tokens args @ rest)"
    "p < p1" "chars buf (p, p + length v) = v" using sees_gettoken [OF l see] by blast
  have nr: "args_tokens args @ rest \<noteq> [] \<longrightarrow> hd (hd (args_tokens args @ rest)) \<notin> {60, 62}"
  proof (cases args)
    case Nil
    then show ?thesis using rest by (cases rest) auto
  next
    case (Cons b bs)
    then obtain u us where b: "b = (u, us)" "word_token u" using \<open>\<forall>(v, rs)\<in>set (a # args). _\<close> by (cases b) auto
    then show ?thesis using Cons word_first [OF b(2)] by (auto simp: is_word_def is_symbol_def)
  qed
  have "p1 \<le> es" using g(2) by (simp add: sees_def)
  then have f: "es - p1 < n'" using Cons.prems(4) g(3) n by linarith
  obtain rs1 p2 where r1: "parseredirs n' buf es rs0 p1 = Ok (rs0 @ rs1, p2)" "map (redir_chars buf) rs1 = redirs_of rs"
    "sees buf es p2 (args_tokens args @ rest)" "p1 \<le> p2" using parseredirs_reads [OF l g(2) v(2) nr f] by blast
  have f2: "es - p2 < n'" using f r1(4) by linarith
  obtain as' rs' p' where r2: "parseargs n' buf es (as0 @ [(p, p + length v)]) (rs0 @ rs1) p2 =
      Ok ((as0 @ [(p, p + length v)]) @ as', (rs0 @ rs1) @ rs', p')" "map (chars buf) as' = map fst args"
    "map (redir_chars buf) rs' = concat (map (\<lambda>(v, rs). redirs_of rs) args)" "sees buf es p' rest" "p2 \<le> p'"
    using Cons.IH [OF r1(3) _ _ f2, of "as0 @ [(p, p + length v)]" "rs0 @ rs1"] Cons.prems(2,3) by auto
  have "parseargs n buf es as0 rs0 p = Ok (as0 @ (p, p + length v) # as', rs0 @ rs1 @ rs', p') \<and>
      map (chars buf) ((p, p + length v) # as') = map fst (a # args) \<and>
      map (redir_chars buf) (rs1 @ rs') = concat (map (\<lambda>(v, rs). redirs_of rs) (a # args)) \<and> sees buf es p' rest \<and> p \<le> p'"
    using g k r1 r2 word_code [OF v(1)] Cons.prems(3) by (simp add: n a)
  then show ?case by blast
qed

text \<open>The result \<open>r\<close> of parsing at \<open>p\<close> is the command \<open>t\<close>, and the rest of the line remains.\<close>

definition reads :: "u8 list \<Rightarrow> nat \<Rightarrow> nat \<Rightarrow> sentence \<Rightarrow> u8 list list \<Rightarrow> (parsed \<times> nat) kres \<Rightarrow> bool" where
  "reads buf es p t rest r \<longleftrightarrow>
     (\<exists>c p'. r = Ok (c, p') \<and> map_cmd (chars buf) c = meaning t \<and> sees buf es p' rest \<and> p \<le> p')"

definition exec_reads :: "u8 list \<Rightarrow> nat \<Rightarrow> sentence \<Rightarrow> bool" where
  "exec_reads buf es t \<longleftrightarrow> (\<forall>p rest n m. sees buf es p (tokens t @ rest) \<longrightarrow> before [124, 41, 38, 59] rest \<longrightarrow>
     es - p < n \<longrightarrow> es - p + 1 < m \<longrightarrow> reads buf es p t rest (parseexec (parseline m buf es) n buf es p))"

definition pipe_reads :: "u8 list \<Rightarrow> nat \<Rightarrow> sentence \<Rightarrow> bool" where
  "pipe_reads buf es t \<longleftrightarrow> (\<forall>p rest n m. sees buf es p (tokens t @ rest) \<longrightarrow> before [41, 38, 59] rest \<longrightarrow>
     es - p + 1 < n \<longrightarrow> es - p + 1 < m \<longrightarrow> reads buf es p t rest (parsepipe (parseline m buf es) n buf es p))"

definition back_reads :: "u8 list \<Rightarrow> nat \<Rightarrow> sentence \<Rightarrow> bool" where
  "back_reads buf es t \<longleftrightarrow> (\<forall>p rest n m k. sees buf es p (tokens t @ rest) \<longrightarrow> before [41, 38, 59] rest \<longrightarrow>
     es - p + 1 < n \<longrightarrow> es - p + 1 < m \<longrightarrow> es - p < k \<longrightarrow>
     (\<exists>c p' k'. kbind (parsepipe (parseline m buf es) n buf es p) (\<lambda>(c, ps). parsebacks k buf es c ps) = parsebacks k' buf es c p' \<and>
        es - p' < k' \<and> map_cmd (chars buf) c = meaning t \<and> sees buf es p' rest \<and> p \<le> p'))"

definition line_reads :: "u8 list \<Rightarrow> nat \<Rightarrow> sentence \<Rightarrow> bool" where
  "line_reads buf es t \<longleftrightarrow> (\<forall>p rest n. sees buf es p (tokens t @ rest) \<longrightarrow> before [41] rest \<longrightarrow> es - p + 2 < n \<longrightarrow>
     reads buf es p t rest (parseline n buf es p))"

lemma sees_le: "sees buf es p ts \<Longrightarrow> p \<le> es"
  by (simp add: sees_def)

text \<open>A symbol that is looked for and taken.\<close>

lemma take_symbol:
  assumes "a_line buf es" "sees buf es p ([c] # rest)" "c \<in> set toks"
  shows "peek buf es toks p = (True, p)"
    "\<exists>w p'. gettoken buf es p = (token_code [c], w, p') \<and> sees buf es p' rest \<and> p < p' \<and> p' \<le> es"
  using sees_peek [OF assms(1,2)] sees_gettoken [OF assms(1,2)] assms(3) sees_le by auto

lemma no_symbol:
  assumes "a_line buf es" "sees buf es p rest" "before ds rest" "set ds \<inter> set toks = {}"
  shows "peek buf es toks p = (False, p)"
  using sees_peek [OF assms(1,2)] assms(3,4) by (auto simp: before_def split: list.splits)

lemma exec_reads_Simple:
  assumes l: "a_line buf es" and sh: "shape (Simple rs args)"
  shows "exec_reads buf es (Simple rs args)"
  unfolding exec_reads_def
proof (intro allI impI)
  fix p rest n m
  assume see: "sees buf es p (tokens (Simple rs args) @ rest)" and rest: "before [124, 41, 38, 59] rest" and n: "es - p < n"
  have see1: "sees buf es p (redir_tokens rs @ args_tokens args @ rest)" using see by (simp add: args_tokens_def)
  have nr: "args_tokens args @ rest \<noteq> [] \<longrightarrow> hd (hd (args_tokens args @ rest)) \<notin> {60, 62, 40}"
  proof (cases args)
    case Nil
    then show ?thesis using rest by (cases rest) auto
  next
    case (Cons a as)
    then obtain v rs where "a = (v, rs)" "word_token v" using sh by (cases a) auto
    then show ?thesis using Cons word_first [of v] by (auto simp: is_word_def is_symbol_def)
  qed
  have k: "peek buf es [40] p = (False, p)"
  proof (cases rs)
    case Nil
    then show ?thesis using sees_peek [OF l see1, of "[40]"] nr by (cases "args_tokens args @ rest") auto
  next
    case (Cons r rs')
    obtain m w where "r = (m, w)" by (cases r)
    then show ?thesis using sees_peek [OF l see1, of "[40]"] Cons redir_first [of m] by auto
  qed
  obtain rs' p1 where r: "parseredirs n buf es [] p = Ok (rs', p1)" "map (redir_chars buf) rs' = redirs_of rs"
    "sees buf es p1 (args_tokens args @ rest)" "p \<le> p1"
    using parseredirs_reads [OF l see1 _ _ n, of "[]"] sh nr by auto
  have "es - p1 < n" using n r(4) by linarith
  then obtain as' rs'' p2 where a: "parseargs n buf es [] rs' p1 = Ok (as', rs' @ rs'', p2)" "map (chars buf) as' = map fst args"
    "map (redir_chars buf) rs'' = concat (map (\<lambda>(v, rs). redirs_of rs) args)" "sees buf es p2 rest" "p1 \<le> p2"
    using parseargs_reads [OF l rest r(3), of "[]" n rs'] sh by auto
  show "reads buf es p (Simple rs args) rest (parseexec (parseline m buf es) n buf es p)"
    unfolding reads_def using k r a
    by (intro exI [of _ "add_redirs (rs' @ rs'') (EXEC as')"] exI [of _ p2]) (simp add: parseexec_def map_add_redirs)
qed

lemma exec_reads_Block:
  assumes l: "a_line buf es" and t: "line_reads buf es t" and rs: "\<forall>(m, w)\<in>set rs. word_token w"
  shows "exec_reads buf es (Block t rs)"
  unfolding exec_reads_def
proof (intro allI impI)
  fix p rest n m
  assume see: "sees buf es p (tokens (Block t rs) @ rest)" and rest: "before [124, 41, 38, 59] rest" and n: "es - p < n" and m: "es - p + 1 < m"
  have see: "sees buf es p ([40] # tokens t @ [41] # redir_tokens rs @ rest)" using see by simp
  note k = take_symbol(1) [OF l see, of "[40]"]
  obtain w p1 where g: "gettoken buf es p = (token_code [40], w, p1)" "sees buf es p1 (tokens t @ [41] # redir_tokens rs @ rest)" "p < p1" "p1 \<le> es"
    using take_symbol(2) [OF l see, of "[40]"] by auto
  have "es - p1 + 2 < m" using g(3,4) m by linarith
  then obtain c p2 where c: "parseline m buf es p1 = Ok (c, p2)" "map_cmd (chars buf) c = meaning t"
    "sees buf es p2 ([41] # redir_tokens rs @ rest)" "p1 \<le> p2"
    using t g(2) unfolding line_reads_def reads_def by fastforce
  note k2 = take_symbol(1) [OF l c(3), of "[41]"]
  obtain w2 p3 where g2: "gettoken buf es p2 = (token_code [41], w2, p3)" "sees buf es p3 (redir_tokens rs @ rest)" "p2 < p3" "p3 \<le> es"
    using take_symbol(2) [OF l c(3), of "[41]"] by auto
  have nr: "rest \<noteq> [] \<longrightarrow> hd (hd rest) \<notin> {60, 62}" using rest by (cases rest) auto
  have "es - p3 < n" using n g(3) c(4) g2(3) by linarith
  from parseredirs_reads [OF l g2(2) rs nr this, of "[]"]
  obtain rs' p4 where r: "parseredirs n buf es [] p3 = Ok (rs', p4)" "map (redir_chars buf) rs' = redirs_of rs" "sees buf es p4 rest" "p3 \<le> p4"
    by auto
  show "reads buf es p (Block t rs) rest (parseexec (parseline m buf es) n buf es p)"
    unfolding reads_def using k k2 g g2 c r
    by (intro exI [of _ "add_redirs rs' c"] exI [of _ p4]) (simp add: parseexec_def parseblock_def map_add_redirs)
qed

lemma pipe_reads_exec:
  assumes l: "a_line buf es" and t: "exec_reads buf es t"
  shows "pipe_reads buf es t"
  unfolding pipe_reads_def
proof (intro allI impI)
  fix p rest n m
  assume see: "sees buf es p (tokens t @ rest)" and rest: "before [41, 38, 59] rest" and n: "es - p + 1 < n" and m: "es - p + 1 < m"
  obtain n' where n': "n = Suc n'" "es - p < n'" using n by (cases n) auto
  have "before [124, 41, 38, 59] rest" by (rule before_mono [OF rest]) auto
  then obtain c p1 where c: "parseexec (parseline m buf es) n' buf es p = Ok (c, p1)" "map_cmd (chars buf) c = meaning t"
    "sees buf es p1 rest" "p \<le> p1"
    using t see n'(2) m unfolding exec_reads_def reads_def by blast
  then show "reads buf es p t rest (parsepipe (parseline m buf es) n buf es p)"
    using no_symbol [OF l c(3) rest, of "[124]"] by (simp add: reads_def n')
qed

lemma pipe_reads_Pipes:
  assumes l: "a_line buf es" and a: "exec_reads buf es a" and b: "pipe_reads buf es b"
  shows "pipe_reads buf es (Pipes a b)"
  unfolding pipe_reads_def
proof (intro allI impI)
  fix p rest n m
  assume see: "sees buf es p (tokens (Pipes a b) @ rest)" and rest: "before [41, 38, 59] rest" and n: "es - p + 1 < n" and m: "es - p + 1 < m"
  obtain n' where n': "n = Suc n'" "es - p < n'" using n by (cases n) auto
  have see: "sees buf es p (tokens a @ [124] # tokens b @ rest)" using see by simp
  obtain c p1 where c: "parseexec (parseline m buf es) n' buf es p = Ok (c, p1)" "map_cmd (chars buf) c = meaning a"
    "sees buf es p1 ([124] # tokens b @ rest)" "p \<le> p1"
    using a see n'(2) m unfolding exec_reads_def reads_def by fastforce
  obtain w p2 where g: "gettoken buf es p1 = (token_code [124], w, p2)" "sees buf es p2 (tokens b @ rest)" "p1 < p2" "p2 \<le> es"
    using take_symbol(2) [OF l c(3), of "[124]"] by auto
  have "es - p2 + 1 < n'" "es - p2 + 1 < m" using n' m c(4) g(3,4) by linarith+
  then obtain d p3 where d: "parsepipe (parseline m buf es) n' buf es p2 = Ok (d, p3)" "map_cmd (chars buf) d = meaning b"
    "sees buf es p3 rest" "p2 \<le> p3"
    using b g(2) rest unfolding pipe_reads_def reads_def by blast
  then show "reads buf es p (Pipes a b) rest (parsepipe (parseline m buf es) n buf es p)"
    using c g take_symbol(1) [OF l c(3), of "[124]"] by (simp add: reads_def n')
qed

lemma back_reads_pipe:
  assumes t: "pipe_reads buf es t"
  shows "back_reads buf es t"
  unfolding back_reads_def
proof (intro allI impI)
  fix p rest n m k
  assume see: "sees buf es p (tokens t @ rest)" "before [41, 38, 59] rest" "es - p + 1 < n" "es - p + 1 < m" and k: "es - p < k"
  then obtain c p1 where c: "parsepipe (parseline m buf es) n buf es p = Ok (c, p1)" "map_cmd (chars buf) c = meaning t"
    "sees buf es p1 rest" "p \<le> p1"
    using t unfolding pipe_reads_def reads_def by blast
  have "es - p1 < k" using c(4) k by linarith
  then show "\<exists>c p' k'. kbind (parsepipe (parseline m buf es) n buf es p) (\<lambda>(c, ps). parsebacks k buf es c ps) = parsebacks k' buf es c p' \<and>
      es - p' < k' \<and> map_cmd (chars buf) c = meaning t \<and> sees buf es p' rest \<and> p \<le> p'"
    using c by (intro exI [of _ c] exI [of _ p1] exI [of _ k]) simp
qed

lemma back_readsE:
  assumes "back_reads buf es t" "sees buf es p (tokens t @ rest)" "before [41, 38, 59] rest" "es - p + 1 < n" "es - p + 1 < m" "es - p < k"
  obtains c p' k' where
    "kbind (parsepipe (parseline m buf es) n buf es p) (\<lambda>(c, ps). parsebacks k buf es c ps) = parsebacks k' buf es c p'"
    "es - p' < k'" "map_cmd (chars buf) c = meaning t" "sees buf es p' rest" "p \<le> p'"
  using assms unfolding back_reads_def by blast

lemma back_reads_Bg:
  assumes l: "a_line buf es" and a: "back_reads buf es a"
  shows "back_reads buf es (Bg a)"
  unfolding back_reads_def
proof (intro allI impI)
  fix p rest n m k
  assume see: "sees buf es p (tokens (Bg a) @ rest)" and rest: "before [41, 38, 59] rest"
    and n: "es - p + 1 < n" and m: "es - p + 1 < m" and k: "es - p < k"
  have see: "sees buf es p (tokens a @ [38] # rest)" using see by simp
  then obtain c p1 k1 where c: "kbind (parsepipe (parseline m buf es) n buf es p) (\<lambda>(c, ps). parsebacks k buf es c ps) = parsebacks k1 buf es c p1"
    "es - p1 < k1" "map_cmd (chars buf) c = meaning a" "sees buf es p1 ([38] # rest)" "p \<le> p1"
    by (rule back_readsE [OF a _ _ n m k]) simp_all
  obtain k2 where k1: "k1 = Suc k2" using c(2) by (cases k1) auto
  obtain w p2 where g: "gettoken buf es p1 = (token_code [38], w, p2)" "sees buf es p2 rest" "p1 < p2" "p2 \<le> es"
    using take_symbol(2) [OF l c(4), of "[38]"] by auto
  have "es - p2 < k2" using c(2) g(3,4) k1 by linarith
  moreover have "parsebacks k1 buf es c p1 = parsebacks k2 buf es (BACK c) p2"
    using take_symbol(1) [OF l c(4), of "[38]"] g(1) by (simp add: k1)
  ultimately show "\<exists>c p' k'. kbind (parsepipe (parseline m buf es) n buf es p) (\<lambda>(c, ps). parsebacks k buf es c ps) = parsebacks k' buf es c p' \<and>
      es - p' < k' \<and> map_cmd (chars buf) c = meaning (Bg a) \<and> sees buf es p' rest \<and> p \<le> p'"
    using c g by (intro exI [of _ "BACK c"] exI [of _ p2] exI [of _ k2]) simp
qed

lemma parsebacks_stops:
  assumes "a_line buf es" "sees buf es p rest" "before [41, 59] rest" "es - p < k"
  shows "parsebacks k buf es c p = Ok (c, p)"
  using no_symbol [OF assms(1-3), of "[38]"] assms(4) by (cases k) simp_all

text \<open>A line is parsed as its first part and, behind a semicolon, another line.\<close>

lemma parseline_split:
  assumes l: "a_line buf es" and a: "back_reads buf es a" and see: "sees buf es p (tokens a @ rest)" and rest: "before [41, 59] rest"
    and n: "es - p + 2 < Suc n"
  obtains c p' where "map_cmd (chars buf) c = meaning a" "sees buf es p' rest" "p \<le> p'"
    "parseline (Suc n) buf es p =
      (let (semi, ps) = peek buf es [59] p' in
       if semi then let (_, _, ps) = gettoken buf es ps in kbind (parseline n buf es ps) (\<lambda>(d, ps). Ok (LIST c d, ps))
       else Ok (c, ps))"
proof -
  have r: "before [41, 38, 59] rest" by (rule before_mono [OF rest]) auto
  have f: "es - p + 1 < n" "es - p < n" using n by linarith+
  obtain c p' k where c: "kbind (parsepipe (parseline n buf es) n buf es p) (\<lambda>(c, ps). parsebacks n buf es c ps) = parsebacks k buf es c p'"
    "es - p' < k" "map_cmd (chars buf) c = meaning a" "sees buf es p' rest" "p \<le> p'"
    by (rule back_readsE [OF a see r f(1) f(1) f(2)])
  have assoc: "kbind r (\<lambda>(c, ps). kbind (g c ps) h) = kbind (kbind r (\<lambda>(c, ps). g c ps)) h" for r :: "(parsed \<times> nat) kres" and g and h :: "parsed \<times> nat \<Rightarrow> (parsed \<times> nat) kres"
    by (cases r) auto
  show ?thesis
    by (rule that [OF c(3-5)]) (simp add: assoc c(1) parsebacks_stops [OF l c(4) rest c(2)])
qed

lemma line_reads_back:
  assumes l: "a_line buf es" and a: "back_reads buf es a"
  shows "line_reads buf es a"
  unfolding line_reads_def
proof (intro allI impI)
  fix p rest n
  assume see: "sees buf es p (tokens a @ rest)" and rest: "before [41] rest" and n: "es - p + 2 < n"
  obtain n' where n': "n = Suc n'" using n by (cases n) auto
  have r: "before [41, 59] rest" by (rule before_mono [OF rest]) auto
  show "reads buf es p a rest (parseline n buf es p)" unfolding n'
  proof (rule parseline_split [OF l a see r n [unfolded n']])
    fix c p' assume c: "map_cmd (chars buf) c = meaning a" "sees buf es p' rest" "p \<le> p'"
      and e: "parseline (Suc n') buf es p =
        (let (semi, ps) = peek buf es [59] p' in
         if semi then let (_, _, ps) = gettoken buf es ps in kbind (parseline n' buf es ps) (\<lambda>(d, ps). Ok (LIST c d, ps))
         else Ok (c, ps))"
    have "parseline (Suc n') buf es p = Ok (c, p')" unfolding e using no_symbol [OF l c(2) rest, of "[59]"] by simp
    then show "reads buf es p a rest (parseline (Suc n') buf es p)" using c unfolding reads_def by blast
  qed
qed

lemma line_reads_Seq:
  assumes l: "a_line buf es" and a: "back_reads buf es a" and b: "line_reads buf es b"
  shows "line_reads buf es (Seq a b)"
  unfolding line_reads_def
proof (intro allI impI)
  fix p rest n
  assume see: "sees buf es p (tokens (Seq a b) @ rest)" and rest: "before [41] rest" and n: "es - p + 2 < n"
  obtain n' where n': "n = Suc n'" using n by (cases n) auto
  have see: "sees buf es p (tokens a @ [59] # tokens b @ rest)" using see by simp
  have r: "before [41, 59] ([59] # tokens b @ rest)" by simp
  show "reads buf es p (Seq a b) rest (parseline n buf es p)" unfolding n'
  proof (rule parseline_split [OF l a see r n [unfolded n']])
    fix c p' assume c: "map_cmd (chars buf) c = meaning a" "sees buf es p' ([59] # tokens b @ rest)" "p \<le> p'"
      and e: "parseline (Suc n') buf es p =
        (let (semi, ps) = peek buf es [59] p' in
         if semi then let (_, _, ps) = gettoken buf es ps in kbind (parseline n' buf es ps) (\<lambda>(d, ps). Ok (LIST c d, ps))
         else Ok (c, ps))"
    obtain w p2 where g: "gettoken buf es p' = (token_code [59], w, p2)" "sees buf es p2 (tokens b @ rest)" "p' < p2" "p2 \<le> es"
      using take_symbol(2) [OF l c(2), of "[59]"] by auto
    have "es - p2 + 2 < n'" using n n' c(3) g(3,4) by linarith
    then obtain d p3 where d: "parseline n' buf es p2 = Ok (d, p3)" "map_cmd (chars buf) d = meaning b" "sees buf es p3 rest" "p2 \<le> p3"
      using b g(2) rest unfolding line_reads_def reads_def by blast
    have "parseline (Suc n') buf es p = Ok (LIST c d, p3)"
      unfolding e using take_symbol(1) [OF l c(2), of "[59]"] g(1) d(1) by simp
    moreover have "map_cmd (chars buf) (LIST c d) = meaning (Seq a b)" "p \<le> p3" using c(1,3) d(2,4) g(3) by simp_all
    ultimately show "reads buf es p (Seq a b) rest (parseline (Suc n') buf es p)" using d(3) unfolding reads_def by blast
  qed
qed

lemma sentence_reads:
  assumes l: "a_line buf es"
  shows "shape t \<Longrightarrow> (level t = 0 \<longrightarrow> exec_reads buf es t) \<and> (level t \<le> 1 \<longrightarrow> pipe_reads buf es t) \<and>
    (level t \<le> 2 \<longrightarrow> back_reads buf es t) \<and> line_reads buf es t"
proof (induction t)
  case (Simple rs args)
  note e = exec_reads_Simple [OF l Simple]
  show ?case using e pipe_reads_exec [OF l e] back_reads_pipe [OF pipe_reads_exec [OF l e]]
      line_reads_back [OF l back_reads_pipe [OF pipe_reads_exec [OF l e]]] by simp
next
  case (Block t rs)
  have e: "exec_reads buf es (Block t rs)" using exec_reads_Block [OF l] Block by simp
  show ?case using e pipe_reads_exec [OF l e] back_reads_pipe [OF pipe_reads_exec [OF l e]]
      line_reads_back [OF l back_reads_pipe [OF pipe_reads_exec [OF l e]]] by simp
next
  case (Pipes a b)
  have e: "pipe_reads buf es (Pipes a b)" using pipe_reads_Pipes [OF l] Pipes by simp
  show ?case using e back_reads_pipe [OF e] line_reads_back [OF l back_reads_pipe [OF e]] by simp
next
  case (Bg a)
  have e: "back_reads buf es (Bg a)" using back_reads_Bg [OF l] Bg by simp
  show ?case using e line_reads_back [OF l e] by simp
next
  case (Seq a b)
  then show ?case using line_reads_Seq [OF l] by simp
qed

text \<open>Leading blanks.\<close>

lemma parseline_skips: "skip_white buf es a = skip_white buf es b \<Longrightarrow> parseline n buf es a = parseline n buf es b"
proof (induction n)
  case (Suc n)
  then have "parseexec line m buf es a = parseexec line m buf es b" for line m by (simp add: parseexec_def peek_def)
  then have "parsepipe line m buf es a = parsepipe line m buf es b" for line m by (cases m) simp_all
  then show ?case by simp
qed simp

text \<open>C39: The shell parses what its grammar says: however a command line is spaced, and whatever lies in the buffer behind it,
  \<open>parsecmd\<close> accepts it and returns the command it denotes - pipelines inside background jobs inside sequences, blocks
  in parentheses, every redirection with its mode and descriptor, wrapped in the order they are written - and in the
  buffer it leaves behind, each word pointer of the command leads to exactly that word as a C string.\<close>

theorem parsecmd_reads_the_grammar:
  assumes "shape t" "spells (tokens t) line" "\<forall>c\<in>set blanks. is_white c"
  shows "\<exists>c buf. parsecmd (blanks @ line) = Ok (c, buf) \<and> map_cmd (\<lambda>(q, e). at_str buf q) c = meaning t"
proof -
  let ?buf = "blanks @ line"
  define es where "es = ustrlen ?buf"
  have NUL: "0 \<in> set ?buf" using spells_NUL [OF assms(2)] by simp
  have l: "a_line ?buf es" unfolding es_def by (rule a_line_ustrlen [OF NUL])
  define p where "p = skip_white ?buf es 0"
  have see: "sees ?buf es p (tokens t)" unfolding p_def by (rule skip_blanks [OF l _ _ assms(3,2)]) simp_all
  have "reads ?buf es p t [] (parseline (es + 3) ?buf es p)"
    using sentence_reads [OF l assms(1)] see unfolding line_reads_def by simp
  then obtain c p' where c: "parseline (es + 3) ?buf es p = Ok (c, p')" "map_cmd (chars ?buf) c = meaning t" "sees ?buf es p' []"
    unfolding reads_def by blast
  have "parseline (es + 3) ?buf es 0 = parseline (es + 3) ?buf es p"
    by (rule parseline_skips) (use sees_skip_white(1) [OF l see] p_def in simp)
  then have c0: "parseline (es + 3) ?buf es 0 = Ok (c, p')" using c(1) by simp
  have "answers es 0 (cmd_ok ?buf es) (parseline (es + 3) ?buf es 0)" by (rule parseline_answers [OF l]) simp_all
  then have ok: "cmd_ok ?buf es c" by (simp add: c0)
  have "map_cmd (\<lambda>(q, e). at_str (nulterminate c ?buf) q) c = map_cmd (chars ?buf) c"
    by (rule cmd.map_cong0) (use terminated_word [OF l ok] in \<open>auto simp: chars_def\<close>)
  moreover have "parsecmd ?buf = Ok (c, nulterminate c ?buf)"
    using c0 sees_peek [OF l c(3), of "[]"] sees_end(2) [OF l c(3)] unfolding parsecmd_def es_def [symmetric] Let_def by simp
  ultimately show ?thesis using c(2) by (intro exI [of _ c] exI [of _ "nulterminate c ?buf"]) simp
qed

text \<open>The line \<open> (a <f|b)&\<close> with its newline.\<close>

lemma spells_example: "spells [[40], [97], [60], [102], [124], [98], [41], [38]] [40, 97, 32, 60, 102, 124, 98, 41, 38, 10, 0, 7]"
proof -
  note w = word_token_def is_word_def is_white_def
  have "spells [[38]] [38, 10, 0, 7]" using spells_symbol [of 38 "[10]", OF _ _ spells_Nil [of "[7]"]] by (simp add: w)
  from spells_symbol [of 41 "[]", OF _ _ this] have "spells [[41], [38]] [41, 38, 10, 0, 7]" by simp
  from spells_word [of "[98]" "[]", OF _ _ this] have "spells [[98], [41], [38]] [98, 41, 38, 10, 0, 7]" by (simp add: w is_symbol_def)
  from spells_symbol [of 124 "[]", OF _ _ this] have "spells [[124], [98], [41], [38]] [124, 98, 41, 38, 10, 0, 7]" by simp
  from spells_word [of "[102]" "[]", OF _ _ this]
  have "spells [[102], [124], [98], [41], [38]] [102, 124, 98, 41, 38, 10, 0, 7]" by (simp add: w is_symbol_def)
  from spells_symbol [of 60 "[]", OF _ _ this]
  have "spells [[60], [102], [124], [98], [41], [38]] [60, 102, 124, 98, 41, 38, 10, 0, 7]" by simp
  from spells_word [of "[97]" "[32]", OF _ _ this]
  have "spells [[97], [60], [102], [124], [98], [41], [38]] [97, 32, 60, 102, 124, 98, 41, 38, 10, 0, 7]" by (simp add: w is_symbol_def)
  from spells_symbol [of 40 "[]", OF _ _ this] show ?thesis by simp
qed

theorem parsecmd_reads_the_grammar_witness:
  "\<exists>c buf. parsecmd [32, 40, 97, 32, 60, 102, 124, 98, 41, 38, 10, 0, 7] = Ok (c, buf) \<and> map_cmd (\<lambda>(q, e). at_str buf q) c =
    BACK (PIPE (REDIR (EXEC [[97]]) [102] Rd 0) (EXEC [[98]]))"
proof -
  let ?t = "Bg (Block (Pipes (Simple [] [([97], [(Rd, [102])])]) (Simple [] [([98], [])])) [])"
  have "tokens ?t = [[40], [97], [60], [102], [124], [98], [41], [38]]" "shape ?t"
    by (simp_all add: word_token_def is_word_def is_white_def is_symbol_def)
  from parsecmd_reads_the_grammar [OF this(2), of _ "[32]", unfolded this(1), OF spells_example]
  show ?thesis by (simp add: add_redirs_def is_white_def)
qed

end
