(* ===== verification/FsFiles.thy ===== *)
theory FsFiles imports FsAlloc begin

text \<open>
  The contents of a file in kernel/fs.c: \<open>bmap\<close>, \<open>readi\<close> and \<open>writei\<close> against the abstract view
  of a file as a list of bytes.

  The blocks of the inode in slot \<open>i\<close> are named by \<open>ptr i s x\<close>: the twelve direct blocks (\<open>x < 12\<close>), the indirect block
  (\<open>x = 12\<close>) and the blocks it lists (\<open>13 \<le> x < 269\<close>). \<open>file_inv\<close> says that they are different data blocks that the bitmap marks.
  A hole reads as zeros, as \<open>bmap\<close> fills it with a zeroed block.
\<close>

section \<open>The blocks of a file\<close>

definition ptr :: "nat \<Rightarrow> fs \<Rightarrow> nat \<Rightarrow> u32" where
  "ptr i s x =
     (let as = i_addrs (node i s) in
      if x \<le> NDIRECT then as ! x else if as ! NDIRECT = 0 then 0 else get32 (blk (as ! NDIRECT) s) (4 * (x - 13)))"

definition fptr :: "nat \<Rightarrow> fs \<Rightarrow> nat \<Rightarrow> u32" where
  "fptr i s bn = ptr i s (if bn < NDIRECT then bn else bn + 1)"

abbreviation inode_block :: "nat \<Rightarrow> fs \<Rightarrow> u32" where
  "inode_block i s \<equiv> IBLOCK (i_inum (node i s)) s"

text \<open>A block in use that is not in the bitmap.\<close>

definition data_block :: "u32 \<Rightarrow> fs \<Rightarrow> bool" where
  "data_block b s \<longleftrightarrow> unat b < fs_size s \<and> block_used (unat b) s \<and> \<not> is_bitmap (unat b) s"

definition file_inv :: "nat \<Rightarrow> fs \<Rightarrow> bool" where
  "file_inv i s \<longleftrightarrow> alloc_inv s \<and> i < length (itable s) \<and> length (i_addrs (node i s)) = 13 \<and> data_block (inode_block i s) s \<and>
     (\<forall>x<269. ptr i s x \<noteq> 0 \<longrightarrow> data_block (ptr i s x) s \<and> ptr i s x \<noteq> inode_block i s) \<and>
     (\<forall>x<269. \<forall>y<269. ptr i s x \<noteq> 0 \<longrightarrow> ptr i s x = ptr i s y \<longrightarrow> x = y)"

definition file_byte :: "nat \<Rightarrow> fs \<Rightarrow> nat \<Rightarrow> u8" where
  "file_byte i s k = (if fptr i s (k div BSIZE) = 0 then 0 else blk (fptr i s (k div BSIZE)) s ! (k mod BSIZE))"

definition contents :: "nat \<Rightarrow> fs \<Rightarrow> u8 list" where
  "contents i s = map (file_byte i s) [0..<unat (i_size (node i s))]"

text \<open>Files are written and cut from the front, so they have no holes.\<close>

definition no_holes :: "nat \<Rightarrow> fs \<Rightarrow> bool" where
  "no_holes i s \<longleftrightarrow> (\<forall>k < unat (i_size (node i s)). k div BSIZE < MAXFILE \<and> fptr i s (k div BSIZE) \<noteq> 0)"

lemma file_invD:
  assumes "file_inv i s"
  shows "alloc_inv s" "i < length (itable s)" "length (i_addrs (node i s)) = 13" "data_block (inode_block i s) s"
    "\<And>x. x < 269 \<Longrightarrow> ptr i s x \<noteq> 0 \<Longrightarrow> data_block (ptr i s x) s" "\<And>x. x < 269 \<Longrightarrow> ptr i s x \<noteq> 0 \<Longrightarrow> ptr i s x \<noteq> inode_block i s"
    "\<And>x y. x < 269 \<Longrightarrow> y < 269 \<Longrightarrow> ptr i s x \<noteq> 0 \<Longrightarrow> ptr i s x = ptr i s y \<Longrightarrow> x = y"
  using assms unfolding file_inv_def by blast+

lemma same_state: "same_blocks s t \<Longrightarrow> tx_locked t = tx_locked s \<Longrightarrow> tx_logged t = tx_logged s \<Longrightarrow> t = s"
  by (rule fs.equality; (rule tdisk.equality)?) (simp_all add: same_blocks_def tx_locked_def tx_logged_def)

lemma unat_eq_of_nat: "b < fs_size s \<Longrightarrow> unat x = b \<longleftrightarrow> (x :: u32) = of_nat b"
  using unat_of_block [of b s] by auto

lemma data_block_same: "same_blocks s t \<Longrightarrow> data_block b t = data_block b s"
  by (simp add: data_block_def same_block_used same_is_bitmap fs_size_same)

lemma ptr_same: "same_blocks s t \<Longrightarrow> ptr i t x = ptr i s x"
  by (simp add: ptr_def same_blocksD Let_def)

lemma file_same:
  assumes "same_blocks s t"
  shows "file_inv i t = file_inv i s" "fptr i t bn = fptr i s bn" "file_byte i t k = file_byte i s k" "no_holes i t = no_holes i s"
    "contents i t = contents i s"
  using assms by (simp_all add: file_inv_def fptr_def file_byte_def no_holes_def contents_def ptr_same data_block_same same_alloc_inv same_blocksD
      cong: if_cong)

text \<open>\<open>alloc_ready\<close> holds when only data blocks are locked.\<close>

lemma ready: "alloc_inv s \<Longrightarrow> (\<And>b. b \<in> set (tx_locked s) \<Longrightarrow> data_block b s) \<Longrightarrow> alloc_ready s"
  using unat_of_block by (fastforce simp: alloc_ready_def data_block_def)

section \<open>Allocation\<close>

text \<open>\<open>grows i s t\<close>: \<open>t\<close> came from \<open>s\<close> by allocating blocks for the inode \<open>i\<close>.\<close>

definition grows :: "nat \<Rightarrow> fs \<Rightarrow> fs \<Rightarrow> bool" where
  "grows i s t \<longleftrightarrow> sb t = sb s \<and> d_cap (disk t) = d_cap (disk s) \<and> length (itable t) = length (itable s) \<and> (\<forall>j. j \<noteq> i \<longrightarrow> node j t = node j s) \<and>
     (\<exists>as. node i t = (node i s)\<lparr>i_addrs := as\<rparr>) \<and>
     (\<forall>b. data_block b s \<longrightarrow> data_block b t) \<and>
     (\<forall>b. data_block b s \<and> b \<noteq> ptr i s 12 \<longrightarrow> blk b t = blk b s) \<and>
     (\<forall>x<269. ptr i t x = ptr i s x \<or> ptr i s x = 0 \<and> \<not> data_block (ptr i t x) s) \<and>
     (\<forall>k. k div BSIZE < MAXFILE \<longrightarrow> file_byte i t k = file_byte i s k)"

lemma growsD:
  assumes "grows i s t"
  shows "sb t = sb s" "d_cap (disk t) = d_cap (disk s)" "length (itable t) = length (itable s)" "\<And>j. j \<noteq> i \<Longrightarrow> node j t = node j s"
    "\<exists>as. node i t = (node i s)\<lparr>i_addrs := as\<rparr>" "\<And>b. data_block b s \<Longrightarrow> data_block b t"
    "\<And>b. data_block b s \<Longrightarrow> b \<noteq> ptr i s 12 \<Longrightarrow> blk b t = blk b s"
    "\<And>x. x < 269 \<Longrightarrow> ptr i t x = ptr i s x \<or> ptr i s x = 0 \<and> \<not> data_block (ptr i t x) s"
    "\<And>k. k div BSIZE < MAXFILE \<Longrightarrow> file_byte i t k = file_byte i s k"
  using assms unfolding grows_def by blast+

lemma growsI:
  assumes "sb t = sb s" "d_cap (disk t) = d_cap (disk s)" "length (itable t) = length (itable s)" "\<And>j. j \<noteq> i \<Longrightarrow> node j t = node j s"
    "node i t = (node i s)\<lparr>i_addrs := as\<rparr>" "\<And>b. data_block b s \<Longrightarrow> data_block b t"
    "\<And>b. data_block b s \<Longrightarrow> b \<noteq> ptr i s 12 \<Longrightarrow> blk b t = blk b s"
    "\<And>x. x < 269 \<Longrightarrow> ptr i t x = ptr i s x \<or> ptr i s x = 0 \<and> \<not> data_block (ptr i t x) s"
    "\<And>k. k div BSIZE < MAXFILE \<Longrightarrow> file_byte i t k = file_byte i s k"
  shows "grows i s t"
  unfolding grows_def using assms by blast

lemma grows_refl:
  assumes "same_blocks s t"
  shows "grows i s t"
proof (rule growsI)
  show "node i t = (node i s)\<lparr>i_addrs := i_addrs (node i s)\<rparr>" by (simp add: same_blocksD [OF assms])
  show "d_cap (disk t) = d_cap (disk s)" using assms by (simp add: same_blocks_def)
qed (simp_all add: same_blocksD [OF assms] ptr_same [OF assms] data_block_same [OF assms] file_same [OF assms])

lemma grows_trans:
  assumes "grows i s t" "grows i t u"
  shows "grows i s u"
proof -
  obtain as where "node i t = (node i s)\<lparr>i_addrs := as\<rparr>" using growsD(5) [OF assms(1)] by blast
  moreover obtain as' where "node i u = (node i t)\<lparr>i_addrs := as'\<rparr>" using growsD(5) [OF assms(2)] by blast
  ultimately have n: "node i u = (node i s)\<lparr>i_addrs := as'\<rparr>" by simp
  have p: "ptr i u x = ptr i s x \<or> ptr i s x = 0 \<and> \<not> data_block (ptr i u x) s" if "x < 269" for x
    using growsD(8) [OF assms(1) that] growsD(8) [OF assms(2) that] growsD(6) [OF assms(1)] by metis
  have b: "blk b u = blk b s" if "data_block b s" "b \<noteq> ptr i s 12" for b
  proof -
    have "b \<noteq> ptr i t 12" using growsD(8) [OF assms(1), of 12] that by auto
    then show ?thesis using growsD(7) [OF assms(1) that] growsD(6,7) [OF assms(2)] growsD(6) [OF assms(1) that(1)] by simp
  qed
  show ?thesis
  proof (rule growsI [OF _ _ _ _ n _ b p])
    show "node j u = node j s" if "j \<noteq> i" for j using growsD(4) [OF assms(1) that] growsD(4) [OF assms(2) that] by simp
  qed (use growsD(1,2,3,6,9) [OF assms(1)] growsD(1,2,3,6,9) [OF assms(2)] in simp_all)
qed

lemma grows_frame:
  assumes "grows i s t"
  shows "fs_size t = fs_size s" "inode_block i t = inode_block i s" "i_size (node i t) = i_size (node i s)" "i_inum (node i t) = i_inum (node i s)"
  using growsD(1,5) [OF assms] by (auto simp: fs_size_def IBLOCK_def)

lemma data_blockD: "data_block b s \<Longrightarrow> of_nat (unat b) = b \<and> unat b < fs_size s \<and> block_used (unat b) s \<and> \<not> is_bitmap (unat b) s"
  by (simp add: data_block_def)

lemma is_bitmap_sb: "sb t = sb s \<Longrightarrow> is_bitmap b t = is_bitmap b s"
  by (simp add: is_bitmap_def fs_size_def BBLOCK_def)

text \<open>Right after \<open>balloc\<close>: a fresh block, in use but not yet part of any file.\<close>

lemma fresh_block:
  assumes inv: "file_inv i s" and c: "c < fs_size s" "\<not> block_used c s" and a: "allocated c s u"
  shows "data_block (of_nat c) u" "\<not> data_block (of_nat c) s" "(of_nat c :: u32) \<noteq> 0" "\<And>b. data_block b s \<Longrightarrow> data_block b u \<and> b \<noteq> of_nat c \<and> blk b u = blk b s"
    "node j u = node j s" "\<And>x. x < 269 \<Longrightarrow> ptr i u x = ptr i s x" "file_inv i u"
proof -
  note inv' = file_invD [OF inv] and al = allocatedD [OF file_invD(1) [OF inv] c a]
  have bm: "is_bitmap b u = is_bitmap b s" for b by (rule is_bitmap_sb [OF al(4)])
  have nb: "\<not> is_bitmap c s" using inv'(1) c by (auto simp: alloc_inv_def)
  have uc: "unat (of_nat c :: u32) = c" by (rule unat_of_block [OF c(1)])
  show fresh: "data_block (of_nat c) u" "\<not> data_block (of_nat c) s" using uc c nb bm al(2,5) by (simp_all add: data_block_def)
  show "(of_nat c :: u32) \<noteq> 0" using uc c inv'(1) by (auto simp: alloc_inv_def)
  show old: "data_block b u \<and> b \<noteq> of_nat c \<and> blk b u = blk b s" if "data_block b s" for b
  proof -
    have "unat b < fs_size s" "unat b \<noteq> c" "\<not> is_bitmap (unat b) s" using that c(2) by (auto simp: data_block_def)
    from al(7) [OF this] show ?thesis using that al(2,5) bm uc \<open>unat b \<noteq> c\<close> by (auto simp: data_block_def)
  qed
  show nd: "node j u = node j s" for j using al(3) by (simp add: node_def)
  show ptr: "ptr i u x = ptr i s x" if "x < 269" for x
  proof -
    have "ptr i s 12 = i_addrs (node i s) ! NDIRECT" by (simp add: ptr_def Let_def)
    then show ?thesis using old inv'(5) [of 12] nd that by (auto simp: ptr_def Let_def)
  qed
  have ib: "inode_block i u = inode_block i s" using al(4) nd by (simp add: IBLOCK_def)
  show "file_inv i u" unfolding file_inv_def using al(1,3) inv' nd ptr ib old by auto
qed

definition fidx :: "nat \<Rightarrow> nat" where
  "fidx bn = (if bn < NDIRECT then bn else bn + 1)"

lemma fptr_fidx: "fptr i s bn = ptr i s (fidx bn)"
  by (simp add: fptr_def fidx_def)

lemma fidx: "bn < MAXFILE \<Longrightarrow> fidx bn < 269 \<and> fidx bn \<noteq> 12" "fidx bn = fidx bm \<longleftrightarrow> bn = bm"
  by (auto simp: fidx_def)

text \<open>The fresh block becomes block \<open>x\<close> of the file, by a store to the inode or to the indirect block.\<close>

lemma adopt_block:
  assumes inv: "file_inv i s" and c: "c < fs_size s" "\<not> block_used c s" and a: "allocated c s u"
    and x: "x < 269" "ptr i s x = 0"
    and t: "sb t = sb s" "d_cap (disk t) = d_cap (disk s)" "length (itable t) = length (itable s)" "\<And>j. j \<noteq> i \<Longrightarrow> node j t = node j s"
      "node i t = (node i s)\<lparr>i_addrs := as\<rparr>" "length as = 13"
    and blks: "\<And>b. b = ptr i s 12 \<and> b \<noteq> 0 \<or> blk b t = blk b u" "\<And>b. length (blk b t) = BSIZE"
    and ptr: "\<And>y. y < 269 \<Longrightarrow> ptr i t y = (if y = x then of_nat c else ptr i s y)"
  shows "file_inv i t" "grows i s t"
proof -
  note inv' = file_invD [OF inv] and fb = fresh_block [OF inv c a] and al = allocatedD [OF file_invD(1) [OF inv] c a]
  note invu = file_invD [OF fb(7)]
  have size: "fs_size t = fs_size s" "fs_size u = fs_size s" using t(1) al(4) by (simp_all add: fs_size_def)
  have bm: "is_bitmap b t = is_bitmap b s" "is_bitmap b u = is_bitmap b s" for b
    using is_bitmap_sb [OF t(1)] is_bitmap_sb [OF al(4)] by simp_all
  have bb: "BBLOCK b t = BBLOCK b u" for b using t(1) al(4) by (simp add: BBLOCK_def)
  have used: "block_used b t = block_used b u" if "b < fs_size s" for b
  proof -
    have "BBLOCK b u \<noteq> ptr i s 12" if "ptr i s 12 \<noteq> 0"
    proof -
      have "is_bitmap (unat (BBLOCK b u)) u" by (rule BBLOCK_bitmap(1) [OF invu(1)]) (use \<open>b < fs_size s\<close> size in simp)
      moreover have "\<not> is_bitmap (unat (ptr i s 12)) s" using inv'(5) [of 12] that by (simp add: data_block_def)
      ultimately show ?thesis using bm(2) by auto
    qed
    then have "blk (BBLOCK b u) t = blk (BBLOCK b u) u" using blks(1) [of "BBLOCK b u"] by auto
    then show ?thesis by (simp add: block_used_def bb)
  qed
  have data: "data_block b t = data_block b u" for b using used size bm by (auto simp: data_block_def)
  have old: "data_block b s \<Longrightarrow> data_block b t \<and> b \<noteq> of_nat c" for b using fb(4) data by simp
  have ib: "inode_block i t = inode_block i s" using t(1,5) by (simp add: IBLOCK_def)
  have "alloc_inv t"
    using invu(1) blks(2) used zero_in_size [OF invu(1)] t(1) al(4) size bm unfolding alloc_inv_def by auto
  moreover have "data_block (ptr i t y) t \<and> ptr i t y \<noteq> inode_block i t" if "y < 269" "ptr i t y \<noteq> 0" for y
    using ptr [OF that(1)] that inv'(5,6) old [OF inv'(4)] old fb(1) data ib by (auto split: if_splits)
  moreover have "y = z" if "y < 269" "z < 269" "ptr i t y \<noteq> 0" "ptr i t y = ptr i t z" for y z
    using ptr that inv'(5,7) fb(2) by (metis fb(3))
  ultimately show "file_inv i t" using t(3,5,6) inv'(2,4) old ib unfolding file_inv_def by auto
  have kept: "blk b t = blk b s" if "data_block b s" "b \<noteq> ptr i s 12" for b using blks(1) [of b] fb(4) [OF that(1)] that(2) by auto
  show "grows i s t"
  proof (rule growsI [OF t(1-5)])
    show "ptr i t y = ptr i s y \<or> ptr i s y = 0 \<and> \<not> data_block (ptr i t y) s" if "y < 269" for y
      using ptr [OF that] x(2) fb(2) by auto
    fix k :: nat assume k: "k div BSIZE < MAXFILE"
    note id = fidx(1) [OF k]
    have twelve: "(12 :: nat) < 269" by simp
    have z: "blk (of_nat c) t = replicate BSIZE 0"
      using blks(1) [of "of_nat c"] al(6) inv'(5) [of 12] fb(2) by auto
    show "file_byte i t k = file_byte i s k"
    proof (cases "fidx (k div BSIZE) = x")
      case True
      then show ?thesis using ptr [of x] x z fb(3) by (simp add: file_byte_def fptr_fidx)
    next
      case False
      then have "ptr i t (fidx (k div BSIZE)) = ptr i s (fidx (k div BSIZE))" using ptr id by simp
      moreover have "blk (ptr i s (fidx (k div BSIZE))) t = blk (ptr i s (fidx (k div BSIZE))) s" if "ptr i s (fidx (k div BSIZE)) \<noteq> 0"
        using kept [of "ptr i s (fidx (k div BSIZE))"] inv'(5) [OF _ that] inv'(7) [of "fidx (k div BSIZE)" 12, OF _ twelve] id that by metis
      ultimately show ?thesis by (simp add: file_byte_def fptr_fidx)
    qed
  qed (use old kept in auto)
qed

section \<open>bmap\<close>

definition disk_full :: "fs \<Rightarrow> bool" where
  "disk_full s \<longleftrightarrow> (\<forall>b < fs_size s. block_used b s)"

lemma disk_full_same: "same_blocks s t \<Longrightarrow> disk_full t = disk_full s"
  by (simp add: disk_full_def fs_size_same same_block_used)

lemma balloc_cases:
  assumes "alloc_inv s" "alloc_ready s" "log_room s 2"
  obtains (found) c t where "balloc s = Ok (of_nat c, t)" "c < fs_size s" "\<not> block_used c s" "allocated c s t"
  | (full) "balloc s = Ok (0, s)" "disk_full s"
proof (cases "disk_full s")
  case True
  then show ?thesis using balloc_spec(2) [OF assms] same_state that(2) unfolding disk_full_def by metis
next
  case False
  define c where "c = (LEAST k. k < fs_size s \<and> \<not> block_used k s)"
  have c: "c < fs_size s" "\<not> block_used c s"
    unfolding c_def using False LeastI_ex [of "\<lambda>k. k < fs_size s \<and> \<not> block_used k s"] by (auto simp: disk_full_def)
  have "\<And>k. k < c \<Longrightarrow> block_used k s" using not_less_Least c(1) unfolding c_def by fastforce
  then show ?thesis using balloc_spec(1) [OF assms c] that(1) c by blast
qed

text \<open>What finding or allocating block \<open>x\<close> of a file does, logging at most \<open>n\<close> blocks.\<close>

definition mapped :: "nat \<Rightarrow> nat \<Rightarrow> nat \<Rightarrow> fs \<Rightarrow> (u32 \<times> fs) kres \<Rightarrow> bool" where
  "mapped i x n s r \<longleftrightarrow>
     (\<exists>t. r = Ok (ptr i t x, t) \<and> file_inv i t \<and> grows i s t \<and> tx_locked t = tx_locked s \<and>
        length (tx_logged t) \<le> length (tx_logged s) + n \<and> (ptr i t x = 0 \<longrightarrow> disk_full t))"

lemma room_mono: "log_room s n \<Longrightarrow> m \<le> n \<Longrightarrow> log_room s m"
  by (simp add: log_room_def)

lemma bmap_slot_maps:
  assumes inv: "file_inv i s" and k: "k < 13" and l: "tx_locked s = []" and room: "log_room s 2"
  shows "mapped i k 2 s (bmap_slot i k s)"
proof (cases "i_addrs (node i s) ! k = 0")
  case False
  moreover have "ptr i s k = i_addrs (node i s) ! k" using k by (simp add: ptr_def Let_def)
  ultimately show ?thesis using inv grows_refl [of s s] by (auto simp: mapped_def bmap_slot_def Let_def same_blocks_def)
next
  case True
  note inv' = file_invD [OF inv]
  have "alloc_ready s" using ready [OF inv'(1)] l by simp
  with inv'(1) show ?thesis using room
  proof (cases rule: balloc_cases)
    case full
    moreover have "ptr i s k = 0" using True k by (simp add: ptr_def Let_def)
    ultimately show ?thesis using inv True grows_refl [of s s] by (auto simp: mapped_def bmap_slot_def Let_def same_blocks_def)
  next
    case (found c u)
    note fb = fresh_block [OF inv found(2-4)] and al = allocatedD [OF inv'(1) found(2-4)]
    let ?t = "upd_node i (\<lambda>ip. ip\<lparr>i_addrs := (i_addrs ip)[k := of_nat c]\<rparr>) u"
    let ?as = "(i_addrs (node i s))[k := of_nat c]"
    have d: "disk ?t = disk u" "sb ?t = sb u" "\<And>b. blk b ?t = blk b u" by (simp_all add: upd_node_def set_node_def blk_def)
    have nd: "node i ?t = (node i s)\<lparr>i_addrs := ?as\<rparr>" "j \<noteq> i \<Longrightarrow> node j ?t = node j s" for j
      using fb(5) [of i] fb(5) [of j] inv'(2) al(3) by (auto simp: upd_node_def set_node_def node_def)
    have p: "ptr i ?t y = (if y = k then of_nat c else ptr i s y)" if "y < 269" for y
    proof (cases "y \<le> 12")
      case True
      then show ?thesis using nd(1) k inv'(3) by (auto simp: ptr_def Let_def nth_list_update)
    next
      case y: False
      show ?thesis
      proof (cases "k = 12")
        case True
        then show ?thesis using y nd(1) k inv'(3) d(3) al(6) that \<open>i_addrs (node i s) ! k = 0\<close>
          by (auto simp: ptr_def Let_def get32_def)
      next
        case False
        have "ptr i ?t y = ptr i u y" using y False nd(1) k d(3) fb(5) [of i] by (auto simp: ptr_def Let_def)
        then show ?thesis using fb(6) [OF that] y k by simp
      qed
    qed
    have pk: "ptr i s k = 0" using True k by (simp add: ptr_def Let_def)
    have cap: "d_cap (disk u) = d_cap (disk s)"
      using found(4) by (simp add: allocated_def same_blocks_def mark_used_def set_blk_def)
    have len: "\<And>b. length (blk b ?t) = BSIZE" using d(3) al(1) by (simp add: alloc_inv_def)
    have lt: "length (itable ?t) = length (itable s)" using al(3) by (simp add: upd_node_def set_node_def)
    note ad = adopt_block [OF inv found(2-4) _ pk _ _ lt nd(2) nd(1) _ _ len p]
    have ok: "file_inv i ?t" "grows i s ?t" using ad k d cap al(4) inv'(3) by simp_all
    have "bmap_slot i k s = Ok (of_nat c, ?t)" using found(1) True fb(3) by (simp add: bmap_slot_def)
    moreover have "tx_locked ?t = tx_locked s" "length (tx_logged ?t) \<le> length (tx_logged s) + 2"
      using found(4) d(1) by (simp_all add: allocated_def tx_locked_def tx_logged_def)
    ultimately show ?thesis using ok p [of k] k fb(3) by (auto simp: mapped_def)
  qed
qed

lemma mappedE:
  assumes "mapped i x n s r"
  obtains t where "r = Ok (ptr i t x, t)" "file_inv i t" "grows i s t" "tx_locked t = tx_locked s"
    "length (tx_logged t) \<le> length (tx_logged s) + n" "ptr i t x = 0 \<longrightarrow> disk_full t"
  using assms unfolding mapped_def by blast

lemma mapped_mono:
  assumes "mapped i x n s r" "n \<le> m"
  shows "mapped i x m s r"
proof (rule mappedE [OF assms(1)])
  fix t assume "r = Ok (ptr i t x, t)" "file_inv i t" "grows i s t" "tx_locked t = tx_locked s"
    "length (tx_logged t) \<le> length (tx_logged s) + n" "ptr i t x = 0 \<longrightarrow> disk_full t"
  then show ?thesis unfolding mapped_def using assms(2) by (intro exI [of _ t]) simp
qed

lemma ptr_indirect: "13 \<le> x \<Longrightarrow> ptr i s x = (if ptr i s 12 = 0 then 0 else get32 (blk (ptr i s 12) s) (4 * (x - 13)))"
  by (simp add: ptr_def Let_def)

lemma bmap_maps:
  assumes inv: "file_inv i s" and bn: "bn < MAXFILE" and l: "tx_locked s = []" and room: "log_room s 5"
  shows "mapped i (fidx bn) 5 s (bmap i bn s)"
proof (cases "bn < NDIRECT")
  case True
  then show ?thesis
    using bmap_slot_maps [OF inv _ l, of bn] room_mono [OF room, of 2] mapped_mono [of i bn 2 s _ 5] by (simp add: bmap_def fidx_def)
next
  case False
  let ?j = "bn - 12" and ?x = "bn + 1"
  have j: "?j < NINDIRECT" "fidx bn = ?x" "13 \<le> ?x" "?x < 269" "?x - 13 = ?j" using False bn by (auto simp: fidx_def)
  obtain t where t: "bmap_slot i 12 s = Ok (ptr i t 12, t)" "file_inv i t" "grows i s t" "tx_locked t = []"
    "length (tx_logged t) \<le> length (tx_logged s) + 2" "ptr i t 12 = 0 \<longrightarrow> disk_full t"
    by (rule mappedE [OF bmap_slot_maps [OF inv _ l room_mono [OF room], of 12]]) (simp_all add: l)
  note invt = file_invD [OF t(2)]
  have roomt: "log_room t 3" using room t(5) growsD(2) [OF t(3)] by (simp add: log_room_def)
  show ?thesis
  proof (cases "ptr i t 12 = 0")
    case True
    then have "bmap i bn s = Ok (0, t)" "ptr i t ?x = 0" using t(1) False j by (simp_all add: bmap_def Let_def ptr_indirect)
    then show ?thesis using t True l j(2) by (auto simp: mapped_def)
  next
    case ib: False
    let ?ib = "ptr i t 12"
    have dib: "data_block ?ib t" using invt(5) [of 12] ib by simp
    obtain u where u: "tx_bread ?ib t = Ok u" "same_blocks t u" "tx_locked u = [?ib]" "tx_logged u = tx_logged t"
      using tx_bread_ok [of ?ib t] t(4) by auto
    have blku: "blk b u = blk b t" and ptru: "ptr i u y = ptr i t y" for b y
      using same_blocksD(1) [OF u(2)] ptr_same [OF u(2)] by simp_all
    have invu: "file_inv i u" using file_same(1) [OF u(2)] t(2) by simp
    have rdy: "alloc_ready u"
      by (rule ready [OF file_invD(1) [OF invu]]) (use u(3) dib data_block_same [OF u(2)] in auto)
    have "log_room u 3" using roomt u(2,4) by (simp add: log_room_def same_blocks_def)
    then have roomu: "log_room u 3" "log_room u 2" by (simp_all add: log_room_def)
    have addr: "get32 (blk ?ib u) (4 * ?j) = ptr i t ?x" using j ib blku by (simp add: ptr_indirect)
    note step = t(1) ib u(1) addr False j
    show ?thesis
    proof (cases "ptr i t ?x = 0")
      case mapd: False
      obtain v where v: "tx_brelse ?ib u = Ok v" "same_blocks u v" "tx_locked v = []" "tx_logged v = tx_logged u"
        using tx_brelse_ok [of u ?ib "[]"] u(3) by auto
      have "same_blocks t v" using u(2) v(2) by (simp add: same_blocks_def)
      then have "v = t" using same_state [of t v] u(4) v(3,4) t(4) by simp
      then have "bmap i bn s = Ok (ptr i t ?x, t)" using step mapd v(1) by (simp add: bmap_def Let_def)
      then show ?thesis using t l j(2) mapd by (auto simp: mapped_def)
    next
      case hole: True
      show ?thesis
        using file_invD(1) [OF invu] rdy roomu(2)
      proof (cases rule: balloc_cases)
        case full
        obtain v where v: "tx_brelse ?ib u = Ok v" "same_blocks u v" "tx_locked v = []" "tx_logged v = tx_logged u"
          using tx_brelse_ok [of u ?ib "[]"] u(3) by auto
        have "same_blocks t v" using u(2) v(2) by (simp add: same_blocks_def)
        then have "v = t" using same_state [of t v] u(4) v(3,4) t(4) by simp
        then have "bmap i bn s = Ok (0, t)" using step hole v(1) full(1) by (simp add: bmap_def Let_def)
        then show ?thesis using t l j(2) hole full(2) disk_full_same [OF u(2)] by (auto simp: mapped_def)
      next
        case (found c v)
        note fb = fresh_block [OF invu found(2-4)] and al = allocatedD [OF file_invD(1) [OF invu] found(2-4)]
        have lv: "tx_locked v = [?ib]" "length (tx_logged v) \<le> length (tx_logged u) + 2" "d_cap (disk v) = d_cap (disk u)"
          using found(4) u(3) by (simp_all add: allocated_def same_blocks_def mark_used_def set_blk_def)
        have ptrv: "ptr i v y = ptr i t y" if "y < 269" for y using fb(6) [OF that] ptru by simp
        let ?d = "set32 (blk ?ib v) (4 * ?j) (of_nat c)"
        have len: "length (blk b v) = BSIZE" for b using al(1) by (simp add: alloc_inv_def)
        have "?ib \<in> set (tx_logged (set_blk ?ib ?d v)) \<or> log_room (set_blk ?ib ?d v) 1" using roomu(1) lv by (simp add: log_room_def)
        from tx_log_write_ok [OF this] obtain w where w: "tx_log_write ?ib (set_blk ?ib ?d v) = Ok w" "same_blocks (set_blk ?ib ?d v) w" "tx_locked w = [?ib]"
            "tx_logged w = (if ?ib \<in> set (tx_logged v) then tx_logged v else tx_logged v @ [?ib])"
          unfolding set_blk_frame(3,4) lv(1) by blast
        obtain z where z: "tx_brelse ?ib w = Ok z" "same_blocks w z" "tx_locked z = []" "tx_logged z = tx_logged w"
          using tx_brelse_ok [of w ?ib "[]"] w(3) by auto
        have sz: "same_blocks (set_blk ?ib ?d v) z" using w(2) z(2) by (simp add: same_blocks_def)
        have blkz: "blk b z = (if b = ?ib then ?d else blk b v)" for b using same_blocksD(1) [OF sz] by simp
        have ndz: "node k z = node k u" for k using same_blocksD(2) [OF sz] fb(5) by simp
        have pz: "ptr i z y = (if y = ?x then of_nat c else ptr i u y)" if y: "y < 269" for y
        proof (cases "y \<le> 12")
          case True
          then show ?thesis using j ndz by (auto simp: ptr_def Let_def)
        next
          case y12: False
          have "ptr i z 12 = ?ib" using ndz ptru [of 12] by (simp add: ptr_def Let_def)
          then have "ptr i z y = get32 ?d (4 * (y - 13))" using y12 ib blkz by (simp add: ptr_indirect)
          also have "\<dots> = (if y = ?x then of_nat c else get32 (blk ?ib v) (4 * (y - 13)))"
          proof (cases "y = ?x")
            case True
            then show ?thesis using len [of ?ib] j by simp
          next
            case False
            have "4 * ?j + 4 \<le> 4 * (y - 13) \<or> 4 * (y - 13) + 4 \<le> 4 * ?j" "4 * ?j + 4 \<le> BSIZE" "4 * (y - 13) + 4 \<le> BSIZE"
              using False y y12 j by linarith+
            then show ?thesis using False len [of ?ib] by (simp add: get32_set32_other)
          qed
          also have "get32 (blk ?ib v) (4 * (y - 13)) = ptr i v y" using ptrv [of 12] y12 ib by (simp add: ptr_indirect)
          finally show ?thesis using fb(6) [OF y] by simp
        qed
        have hu: "?x < 269" "ptr i u ?x = 0" using j(4) hole ptru by simp_all
        have g: "file_inv i z" "grows i u z"
        proof -
          have "sb z = sb u" "d_cap (disk z) = d_cap (disk u)" "length (itable z) = length (itable u)"
            using same_blocksD(5,6) [OF sz] al(3,4) sz lv(3) by (simp_all add: same_blocks_def set_blk_def)
          moreover have "node i z = (node i u)\<lparr>i_addrs := i_addrs (node i u)\<rparr>" "length (i_addrs (node i u)) = 13"
            using ndz file_invD(3) [OF invu] by simp_all
          moreover have "b = ptr i u 12 \<and> b \<noteq> 0 \<or> blk b z = blk b v" "length (blk b z) = BSIZE" for b
            using blkz ib ptru len j by simp_all
          ultimately show "file_inv i z" "grows i u z"
            using adopt_block [OF invu found(2-4) hu _ _ _ ndz _ _ _ _ pz] by blast+
        qed
        have "bmap i bn s = Ok (of_nat c, z)"
          using step hole found(1) fb(3) w(1) z(1) by (simp add: bmap_def Let_def)
        moreover have "grows i s z" using grows_trans [OF t(3) grows_trans [OF grows_refl [OF u(2)] g(2)]] .
        moreover have "length (tx_logged z) \<le> length (tx_logged s) + 5" using z(4) w(4) lv(2) u(4) t(5) by simp
        ultimately show ?thesis using g(1) pz [OF hu(1)] j(2) l z(3) fb(3) by (auto simp: mapped_def)
      qed
    qed
  qed
qed

section \<open>Reading\<close>

lemma bmap_mapped:
  assumes l: "tx_locked s = []" and bn: "bn < MAXFILE" and p: "fptr i s bn \<noteq> 0"
  shows "bmap i bn s = Ok (fptr i s bn, s)"
proof (cases "bn < NDIRECT")
  case True
  then show ?thesis using p by (simp add: bmap_def bmap_slot_def fptr_def ptr_def Let_def)
next
  case False
  let ?ib = "ptr i s 12"
  have x: "fptr i s bn = ptr i s (bn + 1)" using False by (simp add: fptr_def)
  have ib: "?ib \<noteq> 0" "get32 (blk ?ib s) (4 * (bn - 12)) = fptr i s bn" using p False unfolding x by (auto simp: ptr_indirect split: if_splits)
  have slot: "bmap_slot i 12 s = Ok (?ib, s)" using ib(1) by (simp add: bmap_slot_def ptr_def Let_def)
  obtain u where u: "tx_bread ?ib s = Ok u" "same_blocks s u" "tx_locked u = [?ib]" "tx_logged u = tx_logged s"
    using tx_bread_ok [of ?ib s] l by auto
  obtain v where v: "tx_brelse ?ib u = Ok v" "same_blocks u v" "tx_locked v = []" "tx_logged v = tx_logged u"
    using tx_brelse_ok [of u ?ib "[]"] u(3) by auto
  have "same_blocks s v" using u(2) v(2) by (simp add: same_blocks_def)
  then have "v = s" using same_state [of s v] u(4) v(3,4) l by simp
  then show ?thesis
    using slot ib u(1) v(1) same_blocksD(1) [OF u(2)] p False bn by (simp add: bmap_def Let_def)
qed

lemma block_bytes:
  assumes "file_inv i s" "fptr i s bn \<noteq> 0" "q + k \<le> BSIZE"
  shows "get_bytes (blk (fptr i s bn) s) q k = map (file_byte i s) [bn * BSIZE + q..<bn * BSIZE + q + k]"
proof (rule nth_equalityI)
  have len: "length (blk (fptr i s bn) s) = BSIZE" using assms(1) by (simp add: file_inv_def alloc_inv_def)
  show "length (get_bytes (blk (fptr i s bn) s) q k) = length (map (file_byte i s) [bn * BSIZE + q..<bn * BSIZE + q + k])"
    using assms(3) len by (simp add: get_bytes_def)
  fix j assume "j < length (get_bytes (blk (fptr i s bn) s) q k)"
  then have j: "j < k" using len by (simp add: get_bytes_def)
  then have "(bn * BSIZE + (q + j)) div BSIZE = bn" "(bn * BSIZE + (q + j)) mod BSIZE = q + j" using assms(3) by simp_all
  then show "get_bytes (blk (fptr i s bn) s) q k ! j = map (file_byte i s) [bn * BSIZE + q..<bn * BSIZE + q + k] ! j"
    using j assms(2,3) len by (simp add: get_bytes_def file_byte_def add.assoc)
qed

lemma readi_loop_reads:
  assumes inv: "file_inv i s" and holes: "no_holes i s" and l: "tx_locked s = []"
    and n: "off + n \<le> unat (i_size (node i s))"
  shows "tot \<le> n \<Longrightarrow> readi_loop kbuf i off n tot m s = Ok (int n, m @ map (file_byte i s) [off + tot..<off + n], s)"
proof (induction "n - tot" arbitrary: tot m rule: less_induct)
  case less
  show ?case
  proof (cases "tot < n")
    case False
    then show ?thesis using less.prems by (subst readi_loop.simps) simp
  next
    case True
    define bn where "bn = (off + tot) div BSIZE"
    define q where "q = (off + tot) mod BSIZE"
    define k where "k = min (n - tot) (BSIZE - q)"
    have eq: "bn * BSIZE + q = off + tot" by (simp add: bn_def q_def)
    have k: "0 < k" "q + k \<le> BSIZE" "tot + k \<le> n" using True by (auto simp: k_def q_def)
    have bn: "bn < MAXFILE" "fptr i s bn \<noteq> 0" using holes n True unfolding no_holes_def bn_def by auto
    let ?a = "fptr i s bn"
    obtain u where u: "tx_bread ?a s = Ok u" "same_blocks s u" "tx_locked u = [?a]" "tx_logged u = tx_logged s"
      using tx_bread_ok [of ?a s] l by auto
    obtain v where v: "tx_brelse ?a u = Ok v" "same_blocks u v" "tx_locked v = []" "tx_logged v = tx_logged u"
      using tx_brelse_ok [of u ?a "[]"] u(3) by auto
    have "same_blocks s v" using u(2) v(2) by (simp add: same_blocks_def)
    then have vs: "v = s" using same_state [of s v] u(4) v(3,4) l by simp
    have bytes: "get_bytes (blk ?a u) q k = map (file_byte i s) [off + tot..<off + tot + k]"
      using block_bytes [OF inv bn(2) k(2)] eq same_blocksD(1) [OF u(2)] by simp
    have "readi_loop kbuf i off n tot m s = readi_loop kbuf i off n (tot + k) (m @ map (file_byte i s) [off + tot..<off + tot + k]) s"
      using True bmap_mapped [OF l bn] bn(2) u(1) v(1) vs bytes
      by (simp add: readi_loop.simps [of _ _ _ _ tot] bn_def [symmetric] q_def [symmetric] k_def [symmetric] Let_def kbuf_def)
    also have "\<dots> = Ok (int n, (m @ map (file_byte i s) [off + tot..<off + tot + k]) @ map (file_byte i s) [off + (tot + k)..<off + n], s)"
      by (rule less.hyps) (use k in auto)
    moreover have "map (file_byte i s) [off + tot..<off + tot + k] @ map (file_byte i s) [off + (tot + k)..<off + n] =
        map (file_byte i s) [off + tot..<off + n]"
      using upt_add_eq_append [of "off + tot" "off + tot + k" "n - (tot + k)"] k by (simp add: map_append [symmetric] add.assoc del: map_append)
    ultimately show ?thesis by simp
  qed
qed

lemma length_contents [simp]: "length (contents i s) = unat (i_size (node i s))"
  by (simp add: contents_def)

lemma unat_plus: "unat a + unat b < 2 ^ 32 \<Longrightarrow> unat (a + b) = unat a + unat (b :: u32)"
  by (simp add: unat_word_ariths)

lemma readi_reads:
  assumes "file_inv i s" "no_holes i s" "tx_locked s = []" "unat off + unat n < 2 ^ 32"
  shows "readi kbuf i off n [] s =
    (let r = take (unat n) (drop (unat off) (contents i s)) in Ok (int (length r), r, s))"
proof (cases "off > i_size (node i s)")
  case True
  then show ?thesis by (simp add: readi_def Let_def word_less_nat_alt)
next
  case False
  let ?sz = "i_size (node i s)"
  have off: "unat off \<le> unat ?sz" using False by (simp add: word_less_nat_alt)
  have e: "unat (off + n) = unat off + unat n" by (rule unat_plus [OF assms(4)])
  define m where "m = (if off + n > ?sz then ?sz - off else n)"
  have m: "unat m = min (unat n) (unat ?sz - unat off)"
    using off e unat_sub [of off ?sz] by (auto simp: m_def word_less_nat_alt word_le_nat_alt)
  have "\<not> off + n < off" using e by (simp add: word_less_nat_alt)
  then have "readi kbuf i off n [] s = readi_loop kbuf i (unat off) (unat m) 0 [] s"
    using False by (simp add: readi_def Let_def m_def)
  also have "\<dots> = Ok (int (unat m), map (file_byte i s) [unat off..<unat off + unat m], s)"
    using readi_loop_reads [OF assms(1-3), of "unat off" "unat m" 0 "[]"] m off by simp
  also have "map (file_byte i s) [unat off..<unat off + unat m] = take (unat n) (drop (unat off) (contents i s))"
    using m off by (simp add: contents_def drop_map take_map min_def)
  finally show ?thesis using m off by (simp add: Let_def min.commute)
qed

section \<open>Writing\<close>

text \<open>\<open>wrote i s t\<close>: \<open>t\<close> came from \<open>s\<close> by allocating blocks for the inode \<open>i\<close> and writing to them.\<close>

definition wrote :: "nat \<Rightarrow> fs \<Rightarrow> fs \<Rightarrow> bool" where
  "wrote i s t \<longleftrightarrow> sb t = sb s \<and> d_cap (disk t) = d_cap (disk s) \<and> length (itable t) = length (itable s) \<and> (\<forall>j. j \<noteq> i \<longrightarrow> node j t = node j s) \<and>
     (\<exists>as. node i t = (node i s)\<lparr>i_addrs := as\<rparr>) \<and>
     (\<forall>b. data_block b s \<longrightarrow> data_block b t) \<and>
     (\<forall>b. data_block b s \<and> (\<forall>x<269. b \<noteq> ptr i s x) \<longrightarrow> blk b t = blk b s) \<and>
     (\<forall>x<269. ptr i t x = ptr i s x \<or> ptr i s x = 0 \<and> \<not> data_block (ptr i t x) s)"

lemma wroteD:
  assumes "wrote i s t"
  shows "sb t = sb s" "d_cap (disk t) = d_cap (disk s)" "length (itable t) = length (itable s)" "\<And>j. j \<noteq> i \<Longrightarrow> node j t = node j s"
    "\<exists>as. node i t = (node i s)\<lparr>i_addrs := as\<rparr>" "\<And>b. data_block b s \<Longrightarrow> data_block b t"
    "\<And>b. data_block b s \<Longrightarrow> (\<And>x. x < 269 \<Longrightarrow> b \<noteq> ptr i s x) \<Longrightarrow> blk b t = blk b s"
    "\<And>x. x < 269 \<Longrightarrow> ptr i t x = ptr i s x \<or> ptr i s x = 0 \<and> \<not> data_block (ptr i t x) s"
  using assms unfolding wrote_def by blast+

lemma wroteI:
  assumes "sb t = sb s" "d_cap (disk t) = d_cap (disk s)" "length (itable t) = length (itable s)" "\<And>j. j \<noteq> i \<Longrightarrow> node j t = node j s"
    "node i t = (node i s)\<lparr>i_addrs := as\<rparr>" "\<And>b. data_block b s \<Longrightarrow> data_block b t"
    "\<And>b. data_block b s \<Longrightarrow> (\<And>x. x < 269 \<Longrightarrow> b \<noteq> ptr i s x) \<Longrightarrow> blk b t = blk b s"
    "\<And>x. x < 269 \<Longrightarrow> ptr i t x = ptr i s x \<or> ptr i s x = 0 \<and> \<not> data_block (ptr i t x) s"
  shows "wrote i s t"
  unfolding wrote_def using assms by blast

lemma wrote_grows: "grows i s t \<Longrightarrow> wrote i s t"
  unfolding wrote_def using growsD [of i s t] by auto

lemma wrote_trans:
  assumes "wrote i s t" "wrote i t u"
  shows "wrote i s u"
proof -
  obtain as where "node i t = (node i s)\<lparr>i_addrs := as\<rparr>" using wroteD(5) [OF assms(1)] by blast
  moreover obtain as' where "node i u = (node i t)\<lparr>i_addrs := as'\<rparr>" using wroteD(5) [OF assms(2)] by blast
  ultimately have n: "node i u = (node i s)\<lparr>i_addrs := as'\<rparr>" by simp
  have p: "ptr i u x = ptr i s x \<or> ptr i s x = 0 \<and> \<not> data_block (ptr i u x) s" if "x < 269" for x
    using wroteD(8) [OF assms(1) that] wroteD(8) [OF assms(2) that] wroteD(6) [OF assms(1)] by metis
  have b: "blk b u = blk b s" if "data_block b s" "\<And>x. x < 269 \<Longrightarrow> b \<noteq> ptr i s x" for b
  proof -
    have "b \<noteq> ptr i t x" if "x < 269" for x using wroteD(8) [OF assms(1) that] \<open>data_block b s\<close> \<open>\<And>x. x < 269 \<Longrightarrow> b \<noteq> ptr i s x\<close> that by metis
    then show ?thesis using wroteD(7) [OF assms(1) that] wroteD(7) [OF assms(2) wroteD(6) [OF assms(1) that(1)]] by simp
  qed
  have j: "node j u = node j s" if "j \<noteq> i" for j using wroteD(4) [OF assms(1) that] wroteD(4) [OF assms(2) that] by simp
  have d: "data_block b u" if "data_block b s" for b by (rule wroteD(6) [OF assms(2) wroteD(6) [OF assms(1) that]])
  show ?thesis
    by (rule wroteI [OF _ _ _ j n d b p]) (use wroteD(1-3) [OF assms(1)] wroteD(1-3) [OF assms(2)] in simp_all)
qed

text \<open>A store to a block that is not in the bitmap and holds no pointers of the inode.\<close>

lemma store_block:
  assumes inv: "file_inv i s" and b: "data_block b s" "b \<noteq> ptr i s 12 \<or> ptr i s 12 = 0" and len: "length d = BSIZE" and t: "same_blocks (set_blk b d s) t"
  shows "file_inv i t" "\<And>x. ptr i t x = ptr i s x" "\<And>c. data_block c t = data_block c s" "blk c t = (if c = b then d else blk c s)" "node j t = node j s"
    "disk_full t = disk_full s"
proof -
  note inv' = file_invD [OF inv]
  have bn: "of_nat (unat b) = b" "unat b < fs_size s" "\<not> is_bitmap (unat b) s" using b(1) by (auto simp: data_block_def)
  show blkt: "blk c t = (if c = b then d else blk c s)" for c using same_blocksD(1) [OF t] by simp
  show nd: "node j t = node j s" for j using same_blocksD(2) [OF t] by simp
  have sbt: "sb t = sb s" "fs_size t = fs_size s" using same_blocksD(6) [OF t] by (simp_all add: fs_size_def)
  have "block_used c (set_blk b d s) = block_used c s" if "c < fs_size s" for c
    using block_used_set_blk [OF inv'(1) that bn(2,3), of d] bn(1) by simp
  then have used: "block_used c t = block_used c s" if "c < fs_size s" for c using same_block_used [OF t] that by simp
  then show "disk_full t = disk_full s" by (simp add: disk_full_def sbt(2))
  show data: "data_block c t = data_block c s" for c
    using used sbt is_bitmap_sb [OF sbt(1)] by (auto simp: data_block_def)
  show ptr: "ptr i t x = ptr i s x" for x
    using b(2) nd blkt by (auto simp: ptr_def Let_def)
  have "alloc_inv t" using alloc_inv_set_blk [OF inv'(1) bn(2,3) len] bn(1) same_alloc_inv [OF t] by simp
  moreover have "length (itable t) = length (itable s)" using same_blocksD(5) [OF t] by simp
  moreover have "inode_block i t = inode_block i s" using nd sbt(1) by (simp add: IBLOCK_def)
  ultimately show "file_inv i t" unfolding file_inv_def using inv' nd ptr data by auto
qed

lemma write_block:
  assumes inv: "file_inv i s" and bn: "bn < MAXFILE" "fptr i s bn \<noteq> 0" and len: "length d = BSIZE" and t: "same_blocks (set_blk (fptr i s bn) d s) t"
  shows "file_inv i t" "wrote i s t" "fptr i t bm = fptr i s bm"
    "k div BSIZE < MAXFILE \<Longrightarrow> file_byte i t k = (if k div BSIZE = bn then d ! (k mod BSIZE) else file_byte i s k)"
proof -
  note inv' = file_invD [OF inv] and id = fidx(1) [OF bn(1)]
  let ?b = "ptr i s (fidx bn)"
  have nz: "?b \<noteq> 0" using bn(2) by (simp add: fptr_fidx)
  have d: "data_block ?b s" using inv'(5) id nz by blast
  have "?b \<noteq> ptr i s 12" using inv'(7) [of "fidx bn" 12] id nz by auto
  then have c: "?b \<noteq> ptr i s 12 \<or> ptr i s 12 = 0" by simp
  note st = store_block [OF inv d c len t [unfolded fptr_fidx]]
  show "file_inv i t" by (rule st(1))
  show "fptr i t bm = fptr i s bm" by (simp add: fptr_fidx st(2))
  show "file_byte i t k = (if k div BSIZE = bn then d ! (k mod BSIZE) else file_byte i s k)" if "k div BSIZE < MAXFILE"
  proof (cases "k div BSIZE = bn")
    case True
    then show ?thesis using nz by (simp add: file_byte_def fptr_fidx st(2,4))
  next
    case False
    then have "ptr i s (fidx (k div BSIZE)) \<noteq> ?b \<or> ptr i s (fidx (k div BSIZE)) = 0"
      using inv'(7) [of "fidx bn" "fidx (k div BSIZE)"] id fidx(1) [OF that] fidx(2) nz by metis
    then show ?thesis using False by (auto simp: file_byte_def fptr_fidx st(2,4))
  qed
  have "node i t = (node i s)\<lparr>i_addrs := i_addrs (node i s)\<rparr>" by (simp add: st(5))
  moreover have "sb t = sb s" "d_cap (disk t) = d_cap (disk s)" "length (itable t) = length (itable s)"
    using t by (simp_all add: same_blocks_def set_blk_def)
  moreover have "blk b t = blk b s" if "\<And>x. x < 269 \<Longrightarrow> b \<noteq> ptr i s x" for b using st(4) that id by auto
  ultimately show "wrote i s t" using wroteI st(2,3,5) by blast
qed

text \<open>One round of the loop of \<open>writei\<close>, when \<open>bmap\<close> has a block.\<close>

lemma write_round:
  assumes inv: "file_inv i s" and l: "tx_locked s = []" and room: "log_room s 1" and bn: "bn < MAXFILE" "fptr i s bn \<noteq> 0"
    and q: "q + length ys \<le> BSIZE"
  defines "b \<equiv> fptr i s bn"
  obtains u v t where "tx_bread b s = Ok u" "tx_log_write b (set_blk b (put_bytes (blk b u) q ys) u) = Ok v" "tx_brelse b v = Ok t"
    "file_inv i t" "wrote i s t" "tx_locked t = []" "length (tx_logged t) \<le> length (tx_logged s) + 1" "\<And>bm. fptr i t bm = fptr i s bm"
    "\<And>k. k div BSIZE < MAXFILE \<Longrightarrow> file_byte i t k =
       (if bn * BSIZE + q \<le> k \<and> k < bn * BSIZE + q + length ys then ys ! (k - (bn * BSIZE + q)) else file_byte i s k)"
proof -
  have blen: "length (blk b s) = BSIZE" using inv by (simp add: file_inv_def alloc_inv_def)
  let ?d = "put_bytes (blk b s) q ys"
  have len: "length ?d = BSIZE" using blen q by simp
  have free: "b \<notin> set (tx_locked s)" "b \<in> set (tx_logged s) \<or> log_room s 1" using l room by simp_all
  obtain u v t where st: "tx_bread b s = Ok u" "same_blocks s u" "tx_log_write b (set_blk b ?d u) = Ok v" "tx_brelse b v = Ok t"
      "same_blocks (set_blk b ?d s) t" "tx_locked t = tx_locked s"
      "tx_logged t = (if b \<in> set (tx_logged s) then tx_logged s else tx_logged s @ [b])"
    using modify_steps [OF free] by metis
  note w = write_block [OF inv bn len [unfolded b_def] st(5) [unfolded b_def]] and du = same_blocksD(1) [OF st(2)]
  have byte: "file_byte i t k =
      (if bn * BSIZE + q \<le> k \<and> k < bn * BSIZE + q + length ys then ys ! (k - (bn * BSIZE + q)) else file_byte i s k)" if "k div BSIZE < MAXFILE" for k
  proof (cases "k div BSIZE = bn")
    case True
    define r where "r = k mod BSIZE"
    have k: "k = bn * BSIZE + r" "r < BSIZE" using True by (auto simp: r_def)
    have "file_byte i t k = ?d ! r" using w(4) [OF that] True by (simp add: r_def b_def)
    also have "\<dots> = (if q \<le> r \<and> r < q + length ys then ys ! (r - q) else blk b s ! r)"
      using nth_put_bytes [of q ys "blk b s" r] q blen k(2) by simp
    also have "blk b s ! r = file_byte i s k" using True bn(2) by (simp add: file_byte_def r_def b_def)
    finally show ?thesis using k(1) by simp
  next
    case False
    then have out: "\<not> (bn * BSIZE + q \<le> k \<and> k < bn * BSIZE + q + length ys)" using q by (auto simp: div_nat_eqI)
    show ?thesis unfolding if_not_P [OF out] using w(4) [OF that] False by simp
  qed
  show ?thesis
    by (rule that [OF st(1) _ st(4) w(1,2) _ _ w(3) byte]) (use st du l in simp_all)
qed

lemma writei_loop_writes:
  assumes len: "length bs = n" and n: "off + n \<le> MAXFILE * BSIZE"
  shows "file_inv i s \<Longrightarrow> tx_locked s = [] \<Longrightarrow> tot \<le> n \<Longrightarrow> (tot < n \<Longrightarrow> off + n \<le> BSIZE * ((off + tot) div BSIZE + nb)) \<Longrightarrow> log_room s (6 * nb) \<Longrightarrow>
    \<exists>tot' t. writei_loop (ksrc bs) i off n tot s = Ok (tot', t) \<and> tot \<le> tot' \<and> tot' \<le> n \<and> file_inv i t \<and> wrote i s t \<and> tx_locked t = [] \<and>
      length (tx_logged t) \<le> length (tx_logged s) + 6 * nb \<and> (tot' < n \<longrightarrow> disk_full t) \<and>
      (\<forall>k. k div BSIZE < MAXFILE \<longrightarrow> file_byte i t k = (if off + tot \<le> k \<and> k < off + tot' then bs ! (k - off) else file_byte i s k)) \<and>
      (\<forall>k. off + tot \<le> k \<and> k < off + tot' \<longrightarrow> fptr i t (k div BSIZE) \<noteq> 0)"
proof (induction nb arbitrary: tot s)
  case 0
  have "\<not> tot < n"
  proof
    assume "tot < n"
    from 0(4) [OF this] have "off + tot < BSIZE * ((off + tot) div BSIZE)" using \<open>tot < n\<close> by simp
    then show False by (simp add: not_less [symmetric])
  qed
  then show ?case using 0 wrote_grows [OF grows_refl [of s s]]
    by (subst writei_loop.simps) (auto simp: same_blocks_def)
next
  case (Suc nb)
  show ?case
  proof (cases "tot < n")
    case False
    then show ?thesis using Suc.prems wrote_grows [OF grows_refl [of s s]] by (subst writei_loop.simps) (auto simp: same_blocks_def)
  next
    case True
    define bn where "bn = (off + tot) div BSIZE"
    define q where "q = (off + tot) mod BSIZE"
    define k where "k = min (n - tot) (BSIZE - q)"
    define ys where "ys = take k (drop tot bs)"
    have eq: "off + tot = bn * BSIZE + q" by (simp add: bn_def q_def)
    have k: "0 < k" "q + k \<le> BSIZE" "tot + k \<le> n" "length ys = k" using True len by (auto simp: k_def q_def ys_def)
    have bn: "bn < MAXFILE" using n True by (auto simp: bn_def)
    have "log_room s 5" using Suc.prems(5) by (simp add: log_room_def)
    note mp = bmap_maps [OF Suc.prems(1) bn Suc.prems(2) this]
    obtain t1 where t1: "bmap i bn s = Ok (fptr i t1 bn, t1)" "file_inv i t1" "grows i s t1" "tx_locked t1 = []"
      "length (tx_logged t1) \<le> length (tx_logged s) + 5" "fptr i t1 bn = 0 \<longrightarrow> disk_full t1"
      by (rule mappedE [OF mp]) (simp add: fptr_fidx Suc.prems(2))
    let ?loop = "writei_loop (ksrc bs) i off n tot s"
    show ?thesis
    proof (cases "fptr i t1 bn = 0")
      case full: True
      have "?loop = Ok (tot, t1)" using True t1(1) full by (subst writei_loop.simps) (simp add: bn_def [symmetric])
      moreover have "length (tx_logged t1) \<le> length (tx_logged s) + 6 * Suc nb" using t1(5) by simp
      ultimately show ?thesis using True t1 full wrote_grows [OF t1(3)] growsD(9) [OF t1(3)] Suc.prems(3)
        by (intro exI [of _ tot] exI [of _ t1]) auto
    next
      case mapd: False
      have room1: "log_room t1 (6 * nb + 1)" using Suc.prems(5) t1(5) growsD(2) [OF t1(3)] by (simp add: log_room_def)
      then have room1': "log_room t1 1" by (simp add: log_room_def)
      obtain u v t2 where r: "tx_bread (fptr i t1 bn) t1 = Ok u" "tx_log_write (fptr i t1 bn) (set_blk (fptr i t1 bn) (put_bytes (blk (fptr i t1 bn) u) q ys) u) = Ok v"
        "tx_brelse (fptr i t1 bn) v = Ok t2" "file_inv i t2" "wrote i t1 t2" "tx_locked t2 = []" "length (tx_logged t2) \<le> length (tx_logged t1) + 1"
        "\<And>bm. fptr i t2 bm = fptr i t1 bm"
        "\<And>j. j div BSIZE < MAXFILE \<Longrightarrow> file_byte i t2 j = (if bn * BSIZE + q \<le> j \<and> j < bn * BSIZE + q + length ys then ys ! (j - (bn * BSIZE + q)) else file_byte i t1 j)"
      proof (rule write_round [OF t1(2,4) room1' bn mapd, of q ys])
        show "q + length ys \<le> BSIZE" using k by simp
      qed (rule that)
      have step: "?loop = writei_loop (ksrc bs) i off n (tot + k) t2"
        using True t1(1) mapd r(1-3)
        by (subst writei_loop.simps) (simp add: bn_def [symmetric] q_def [symmetric] k_def [symmetric] Let_def ksrc_def ys_def [symmetric])
      have next_block: "off + n \<le> BSIZE * ((off + (tot + k)) div BSIZE + nb)" if "tot + k < n"
      proof -
        have "k = BSIZE - q" using that by (auto simp: k_def)
        then have "off + (tot + k) = BSIZE * (bn + 1)" using eq k(1) by simp
        then have "(off + (tot + k)) div BSIZE = bn + 1" by simp
        then show ?thesis using Suc.prems(4) [OF True] by (simp add: bn_def [symmetric])
      qed
      have room2: "log_room t2 (6 * nb)" using room1 r(7) wroteD(2) [OF r(5)] by (simp add: log_room_def)
      obtain tot' t where t: "writei_loop (ksrc bs) i off n (tot + k) t2 = Ok (tot', t)" "tot + k \<le> tot'" "tot' \<le> n" "file_inv i t" "wrote i t2 t"
        "tx_locked t = []" "length (tx_logged t) \<le> length (tx_logged t2) + 6 * nb" "tot' < n \<longrightarrow> disk_full t"
        "\<And>j. j div BSIZE < MAXFILE \<Longrightarrow> file_byte i t j = (if off + (tot + k) \<le> j \<and> j < off + tot' then bs ! (j - off) else file_byte i t2 j)"
        "\<And>j. off + (tot + k) \<le> j \<and> j < off + tot' \<Longrightarrow> fptr i t (j div BSIZE) \<noteq> 0"
        using Suc.IH [OF r(4,6) k(3) next_block room2] by blast
      have ys: "ys ! (j - (off + tot)) = bs ! (j - off)" if "off + tot \<le> j" "j < off + tot + k" for j
        using that len k by (simp add: ys_def)
      have byte: "file_byte i t j = (if off + tot \<le> j \<and> j < off + tot' then bs ! (j - off) else file_byte i s j)" if "j div BSIZE < MAXFILE" for j
        using t(9) [OF that] r(9) [OF that] growsD(9) [OF t1(3) that] ys [of j] t(2) k(4) eq by (simp add: add.assoc)
      have nz: "fptr i t (j div BSIZE) \<noteq> 0" if "off + tot \<le> j" "j < off + tot'" for j
      proof (cases "off + (tot + k) \<le> j")
        case True
        then show ?thesis using t(10) that by simp
      next
        case False
        have "j div BSIZE = bn" using False that(1) eq k(2) by (intro div_nat_eqI) auto
        then have "fptr i t2 (j div BSIZE) \<noteq> 0" using r(8) mapd by simp
        then show ?thesis using wroteD(8) [OF t(5), of "fidx (j div BSIZE)"] fidx(1) [OF bn] \<open>j div BSIZE = bn\<close> by (auto simp: fptr_fidx)
      qed
      show ?thesis unfolding step
      proof (intro exI [of _ tot'] exI [of _ t] conjI allI impI)
        show "wrote i s t" by (rule wrote_trans [OF wrote_grows [OF t1(3)] wrote_trans [OF r(5) t(5)]])
        show "file_byte i t j = (if off + tot \<le> j \<and> j < off + tot' then bs ! (j - off) else file_byte i s j)" if "j div BSIZE < MAXFILE" for j
          by (rule byte [OF that])
        show "fptr i t (j div BSIZE) \<noteq> 0" if "off + tot \<le> j \<and> j < off + tot'" for j using nz that by blast
        show "disk_full t" if "tot' < n" using t(8) that by simp
      qed (use t(1-4,6,7) r(7) t1(5) in simp_all)
    qed
  qed
qed

section \<open>The inode on disk\<close>

lemma nth_set_out:
  "off + 2 \<le> length d \<Longrightarrow> j < length d \<Longrightarrow> j < off \<or> off + 2 \<le> j \<Longrightarrow> set16 d off v ! j = d ! j"
  "off + 4 \<le> length d \<Longrightarrow> j < length d \<Longrightarrow> j < off \<or> off + 4 \<le> j \<Longrightarrow> set32 d off w ! j = d ! j"
  by (auto simp: set16_def set32_def nth_put_bytes)

lemma put32s_frame:
  "off + 4 * length ws \<le> length d \<Longrightarrow> length (put32s ws off d) = length d"
  "off + 4 * length ws \<le> length d \<Longrightarrow> j < off \<Longrightarrow> put32s ws off d ! j = d ! j"
  by (induction ws arbitrary: off d) (auto simp: nth_set_out)

lemma get32_nth: "(\<And>j. off \<le> j \<Longrightarrow> j < off + 4 \<Longrightarrow> d' ! j = d ! j) \<Longrightarrow> get32 d' off = get32 d off"
  by (simp add: get32_def)

lemma get16_nth: "(\<And>j. off \<le> j \<Longrightarrow> j < off + 2 \<Longrightarrow> d' ! j = d ! j) \<Longrightarrow> get16 d' off = get16 d off"
  by (simp add: get16_def)

lemma get32_put32s: "off + 4 * length ws \<le> length d \<Longrightarrow> k < length ws \<Longrightarrow> get32 (put32s ws off d) (off + 4 * k) = ws ! k"
proof (induction ws arbitrary: off d k)
  case (Cons w ws)
  show ?case
  proof (cases k)
    case 0
    have "get32 (put32s ws (off + 4) (set32 d off w)) off = get32 (set32 d off w) off"
      by (rule get32_nth, rule put32s_frame(2)) (use Cons.prems(1) in simp_all)
    then show ?thesis using 0 Cons.prems(1) by simp
  next
    case (Suc m)
    then show ?thesis using Cons.IH [of "off + 4" "set32 d off w" m] Cons.prems by (simp add: algebra_simps)
  qed
qed simp

lemma get_put_dinode:
  assumes "off + 64 \<le> length d" "length (i_addrs ip) = 13"
  shows "get_dinode (put_dinode ip off d) off ip = ip" "length (put_dinode ip off d) = length d"
proof -
  let ?d1 = "set16 d off (i_type ip)"
  let ?d2 = "set16 ?d1 (off + 2) (i_major ip)"
  let ?d3 = "set16 ?d2 (off + 4) (i_minor ip)"
  let ?d4 = "set16 ?d3 (off + 6) (i_nlink ip)"
  let ?d5 = "set32 ?d4 (off + 8) (i_size ip)"
  have len: "length ?d1 = length d" "length ?d2 = length d" "length ?d3 = length d" "length ?d4 = length d" "length ?d5 = length d"
    using assms(1) by simp_all
  have put: "put_dinode ip off d = put32s (i_addrs ip) (off + 12) ?d5" by (simp add: put_dinode_def)
  have r: "off + 12 + 4 * length (i_addrs ip) \<le> length ?d5" using assms len(5) by simp
  show "length (put_dinode ip off d) = length d" unfolding put using put32s_frame(1) [OF r] len(5) by simp
  have head: "put_dinode ip off d ! j = ?d5 ! j" if "j < off + 12" for j unfolding put by (rule put32s_frame(2) [OF r that])
  have "get16 (put_dinode ip off d) off = get16 ?d1 off"
    by (rule get16_nth) (use head assms(1) len in \<open>simp add: nth_set_out\<close>)
  moreover have "get16 (put_dinode ip off d) (off + 2) = get16 ?d2 (off + 2)"
    by (rule get16_nth) (use head assms(1) len in \<open>simp add: nth_set_out\<close>)
  moreover have "get16 (put_dinode ip off d) (off + 4) = get16 ?d3 (off + 4)"
    by (rule get16_nth) (use head assms(1) len in \<open>simp add: nth_set_out\<close>)
  moreover have "get16 (put_dinode ip off d) (off + 6) = get16 ?d4 (off + 6)"
    by (rule get16_nth) (use head assms(1) len in \<open>simp add: nth_set_out\<close>)
  moreover have "get32 (put_dinode ip off d) (off + 8) = get32 ?d5 (off + 8)"
    by (rule get32_nth) (use head in simp)
  moreover have "map (\<lambda>k. get32 (put_dinode ip off d) (off + 12 + 4 * k)) [0..<NDIRECT + 1] = i_addrs ip"
    by (rule nth_equalityI) (use assms(2) get32_put32s [OF r] in \<open>simp_all add: put\<close>)
  ultimately show "get_dinode (put_dinode ip off d) off ip = ip" using assms(1) len by (simp add: get_dinode_def)
qed

lemma iupdate_stores:
  assumes inv: "file_inv i s" and l: "tx_locked s = []" and room: "log_room s 1"
  obtains t where "iupdate i s = Ok t" "file_inv i t" "tx_locked t = []" "\<And>x. ptr i t x = ptr i s x" "\<And>j. node j t = node j s"
    "\<And>b. data_block b t = data_block b s" "\<And>b. b \<noteq> inode_block i s \<Longrightarrow> blk b t = blk b s" "disk_full t = disk_full s" "sb t = sb s"
    "get_dinode (blk (inode_block i t) t) (dinode_off (i_inum (node i t))) (node i t) = node i t" "\<And>k. k div BSIZE < MAXFILE \<Longrightarrow> file_byte i t k = file_byte i s k"
proof -
  note inv' = file_invD [OF inv]
  let ?b = "inode_block i s" and ?off = "dinode_off (i_inum (node i s))"
  let ?d = "put_dinode (node i s) ?off (blk ?b s)"
  have "?off + 64 \<le> length (blk ?b s)" using inv'(1) by (simp add: dinode_off_def alloc_inv_def)
  note di = get_put_dinode [OF this inv'(3)]
  have len: "length ?d = BSIZE" using di(2) inv'(1) by (simp add: alloc_inv_def)
  have free: "?b \<notin> set (tx_locked s)" "?b \<in> set (tx_logged s) \<or> log_room s 1" using l room by simp_all
  obtain u v t where st: "tx_bread ?b s = Ok u" "same_blocks s u" "tx_log_write ?b (set_blk ?b ?d u) = Ok v" "tx_brelse ?b v = Ok t"
      "same_blocks (set_blk ?b ?d s) t" "tx_locked t = tx_locked s"
    using modify_steps [OF free] by metis
  have ip: "?b \<noteq> ptr i s 12 \<or> ptr i s 12 = 0" using inv'(6) [of 12] by (cases "ptr i s 12 = 0") auto
  note sb = store_block [OF inv inv'(4) ip len st(5)]
  have sbt: "sb t = sb s" using same_blocksD(6) [OF st(5)] by simp
  have ib: "inode_block i t = ?b" using sb(5) sbt by (simp add: IBLOCK_def)
  have "iupdate i s = Ok t" using st(1,3,4) same_blocksD(1) [OF st(2)] by (simp add: iupdate_def)
  moreover have "get_dinode (blk (inode_block i t) t) (dinode_off (i_inum (node i t))) (node i t) = node i t"
    unfolding ib sb(4,5) using di(1) sbt by (simp add: IBLOCK_def)
  moreover have "file_byte i t k = file_byte i s k" if "k div BSIZE < MAXFILE" for k
  proof -
    have "fptr i s (k div BSIZE) \<noteq> 0 \<Longrightarrow> fptr i s (k div BSIZE) \<noteq> ?b" using inv'(6) [of "fidx (k div BSIZE)"] fidx(1) [OF that] by (simp add: fptr_fidx)
    then show ?thesis by (simp add: file_byte_def fptr_fidx sb(2,4))
  qed
  ultimately show ?thesis using that sb(1-3,5,6) sb(4) st(6) l sbt by auto
qed

text \<open>The size of the file as \<open>writei\<close> sets it.\<close>

lemma set_size:
  assumes i: "i < length (itable s)" and t_def: "t = upd_node i (\<lambda>ip. ip\<lparr>i_size := z\<rparr>) s"
  shows "file_inv i t = file_inv i s" "tx_locked t = tx_locked s" "ptr i t x = ptr i s x" "file_byte i t k = file_byte i s k"
    "node i t = (node i s)\<lparr>i_size := z\<rparr>" "j \<noteq> i \<Longrightarrow> node j t = node j s" "blk b t = blk b s" "data_block b t = data_block b s"
    "disk_full t = disk_full s" "sb t = sb s" "log_room t r = log_room s r" "inode_block i t = inode_block i s"
proof -
  have d: "disk t = disk s" "sb t = sb s" "length (itable t) = length (itable s)" by (simp_all add: t_def upd_node_def set_node_def)
  show nd: "node i t = (node i s)\<lparr>i_size := z\<rparr>" "j \<noteq> i \<Longrightarrow> node j t = node j s" for j
    using i by (auto simp: t_def upd_node_def set_node_def node_def)
  show bt: "blk b t = blk b s" for b by (simp add: blk_def d)
  show "tx_locked t = tx_locked s" "log_room t r = log_room s r" "sb t = sb s" by (simp_all add: d tx_locked_def log_room_def tx_logged_def)
  show ib: "inode_block i t = inode_block i s" by (simp add: IBLOCK_def nd d)
  show p: "ptr i t x = ptr i s x" for x by (simp add: ptr_def nd bt Let_def)
  have u: "block_used b t = block_used b s" "fs_size t = fs_size s" "is_bitmap b t = is_bitmap b s" for b
    by (simp_all add: block_used_def BBLOCK_def fs_size_def is_bitmap_def d bt)
  show db: "data_block b t = data_block b s" for b by (simp add: data_block_def u)
  show "disk_full t = disk_full s" by (simp add: disk_full_def u)
  show "file_byte i t k = file_byte i s k" by (simp add: file_byte_def fptr_def p bt)
  have "alloc_inv t = alloc_inv s" by (simp add: alloc_inv_def u bt d)
  moreover have "IBLOCK x t = IBLOCK x s" for x by (simp add: IBLOCK_def d)
  ultimately show "file_inv i t = file_inv i s" by (simp add: file_inv_def p db d nd)
qed

lemma put_bytes_contents:
  assumes "off \<le> sz" "length ys = n"
    "\<And>k. k < max sz (off + n) \<Longrightarrow> g k = (if off \<le> k \<and> k < off + n then ys ! (k - off) else f k)"
  shows "map g [0..<max sz (off + n)] = put_bytes (map f [0..<sz]) off ys"
proof (rule nth_equalityI)
  show "length (map g [0..<max sz (off + n)]) = length (put_bytes (map f [0..<sz]) off ys)"
    using assms(1,2) by (auto simp: put_bytes_def)
  fix k assume "k < length (map g [0..<max sz (off + n)])"
  then have k: "k < max sz (off + n)" by simp
  have "map g [0..<max sz (off + n)] ! k = g k" using k by simp
  also have "\<dots> = put_bytes (map f [0..<sz]) off ys ! k"
    using k assms(1,2) by (auto simp: assms(3) put_bytes_def nth_append)
  finally show "map g [0..<max sz (off + n)] ! k = put_bytes (map f [0..<sz]) off ys ! k" .
qed

lemma writei_writes:
  assumes inv: "file_inv i s" and holes: "no_holes i s" and l: "tx_locked s = []"
    and off: "unat off \<le> length (contents i s)" and n: "unat off + unat n \<le> MAXFILE * BSIZE" and len: "length bs = unat n"
    and room: "log_room s (6 * ((unat n + 1023) div BSIZE + 1) + 1)"
  obtains tot t where "writei (ksrc bs) i off n s = Ok (int tot, t)" "tot \<le> unat n" "tot < unat n \<longrightarrow> disk_full t"
    "contents i t = put_bytes (contents i s) (unat off) (take tot bs)" "file_inv i t" "no_holes i t" "tx_locked t = []"
    "get_dinode (blk (inode_block i t) t) (dinode_off (i_inum (node i t))) (node i t) = node i t"
    "\<And>j. j \<noteq> i \<Longrightarrow> node j t = node j s" "\<exists>as z. node i t = (node i s)\<lparr>i_addrs := as, i_size := z\<rparr>" "sb t = sb s" "inode_block i t = inode_block i s"
    "\<And>b. data_block b s \<Longrightarrow> data_block b t"
    "\<And>b. data_block b s \<Longrightarrow> b \<noteq> inode_block i s \<Longrightarrow> (\<And>x. x < 269 \<Longrightarrow> b \<noteq> ptr i s x) \<Longrightarrow> blk b t = blk b s"
proof -
  let ?n = "unat n" and ?off = "unat off" and ?sz = "unat (i_size (node i s))"
  define nb where "nb = (?n + 1023) div BSIZE + 1"
  have "?off + ?n \<le> BSIZE * (?off div BSIZE + nb)" unfolding nb_def by (simp add: algebra_simps)
  moreover have "log_room s (6 * nb)" using room by (simp add: nb_def log_room_def)
  ultimately obtain tot t1 where t1: "writei_loop (ksrc bs) i ?off ?n 0 s = Ok (tot, t1)" "tot \<le> ?n" "file_inv i t1" "wrote i s t1" "tx_locked t1 = []"
    "length (tx_logged t1) \<le> length (tx_logged s) + 6 * nb" "tot < ?n \<longrightarrow> disk_full t1"
    "\<And>k. k div BSIZE < MAXFILE \<Longrightarrow> file_byte i t1 k = (if ?off \<le> k \<and> k < ?off + tot then bs ! (k - ?off) else file_byte i s k)"
    "\<And>k. ?off \<le> k \<and> k < ?off + tot \<Longrightarrow> fptr i t1 (k div BSIZE) \<noteq> 0"
    using writei_loop_writes [OF len n inv l, of 0 nb] by auto
  define z where "z = (if off + of_nat tot > i_size (node i t1) then off + of_nat tot else i_size (node i t1))"
  have small: "MAXFILE * BSIZE < (2 :: nat) ^ 32" by simp
  have ut: "unat (of_nat tot :: u32) = tot" using t1(2) n small by (simp add: unat_of_nat take_bit_eq_mod)
  have e: "unat (off + of_nat tot) = ?off + tot" using unat_plus [of off "of_nat tot"] ut t1(2) n small by simp
  have szt: "i_size (node i t1) = i_size (node i s)" using wroteD(5) [OF t1(4)] by auto
  have z: "unat z = max ?sz (?off + tot)" using e szt by (auto simp: z_def word_less_nat_alt)
  define t2 where "t2 = upd_node i (\<lambda>ip. ip\<lparr>i_size := z\<rparr>) t1"
  note ss = set_size [OF file_invD(2) [OF t1(3)] t2_def]
  have t2: "t2 = (if off + of_nat tot > i_size (node i t1) then upd_node i (\<lambda>ip. ip\<lparr>i_size := off + of_nat tot\<rparr>) t1 else t1)"
    using file_invD(2) [OF t1(3)] by (auto simp: t2_def z_def upd_node_def set_node_def node_def)
  have "log_room t1 1" using t1(6) room wroteD(2) [OF t1(4)] by (simp add: nb_def log_room_def)
  then have "file_inv i t2" "tx_locked t2 = []" "log_room t2 1" using ss(1,2,11) t1(3,5) by simp_all
  then obtain t where t: "iupdate i t2 = Ok t" "file_inv i t" "tx_locked t = []" "\<And>x. ptr i t x = ptr i t2 x" "\<And>j. node j t = node j t2"
    "\<And>b. data_block b t = data_block b t2" "\<And>b. b \<noteq> inode_block i t2 \<Longrightarrow> blk b t = blk b t2" "disk_full t = disk_full t2" "sb t = sb t2"
    "get_dinode (blk (inode_block i t) t) (dinode_off (i_inum (node i t))) (node i t) = node i t" "\<And>k. k div BSIZE < MAXFILE \<Longrightarrow> file_byte i t k = file_byte i t2 k"
    using iupdate_stores by blast
  have "\<not> off > i_size (node i s)" using off by (simp add: word_less_nat_alt)
  moreover have "unat (off + n) = ?off + ?n" using unat_plus [of off n] n small by simp
  then have "\<not> off + n < off" "\<not> off + n > of_nat (MAXFILE * BSIZE)" using n by (simp_all add: word_less_nat_alt)
  ultimately have "writei (ksrc bs) i off n s = Ok (int tot, t)" using t1(1) t(1) t2 by (simp add: writei_def Let_def)
  moreover have sizet: "unat (i_size (node i t)) = max ?sz (?off + tot)" using t(5) ss(5) z by simp
  have idx: "k div BSIZE < MAXFILE" if "k < max ?sz (?off + tot)" for k
    using that holes n t1(2) unfolding no_holes_def by (cases "k < ?sz") auto
  have byte: "file_byte i t k = (if ?off \<le> k \<and> k < ?off + tot then take tot bs ! (k - ?off) else file_byte i s k)" if "k < max ?sz (?off + tot)" for k
    using t(11) [OF idx [OF that]] ss(4) t1(8) [OF idx [OF that]] by auto
  have "contents i t = put_bytes (contents i s) ?off (take tot bs)"
    unfolding contents_def sizet by (rule put_bytes_contents) (use off byte t1(2) len in simp_all)
  moreover have "no_holes i t" unfolding no_holes_def sizet
  proof (intro allI impI conjI)
    fix k assume k: "k < max ?sz (?off + tot)"
    show "k div BSIZE < MAXFILE" by (rule idx [OF k])
    have "fptr i t1 (k div BSIZE) \<noteq> 0"
    proof (cases "k < ?sz")
      case True
      then have "fptr i s (k div BSIZE) \<noteq> 0" using holes by (simp add: no_holes_def)
      then show ?thesis using wroteD(8) [OF t1(4), of "fidx (k div BSIZE)"] fidx(1) [OF idx [OF k]] by (auto simp: fptr_fidx)
    next
      case False
      then show ?thesis using t1(9) [of k] k off by simp
    qed
    then show "fptr i t (k div BSIZE) \<noteq> 0" using t(4) ss(3) by (simp add: fptr_fidx)
  qed
  moreover have "\<And>j. j \<noteq> i \<Longrightarrow> node j t = node j s" using t(5) ss(6) wroteD(4) [OF t1(4)] by simp
  moreover obtain as where "node i t1 = (node i s)\<lparr>i_addrs := as\<rparr>" using wroteD(5) [OF t1(4)] by blast
  then have nd: "node i t = (node i s)\<lparr>i_addrs := as, i_size := z\<rparr>" using t(5) ss(5) by simp
  then have "\<exists>as z. node i t = (node i s)\<lparr>i_addrs := as, i_size := z\<rparr>" by blast
  moreover have sb: "sb t = sb s" using t(9) ss(10) wroteD(1) [OF t1(4)] by simp
  moreover have ib: "inode_block i t2 = inode_block i s" "inode_block i t = inode_block i s"
    using ss(12) wroteD(1) [OF t1(4)] \<open>node i t1 = _\<close> nd sb by (simp_all add: IBLOCK_def)
  moreover have "data_block b t" if "data_block b s" for b using t(6) ss(8) wroteD(6) [OF t1(4) that] by simp
  moreover have "blk b t = blk b s" if "data_block b s" "b \<noteq> inode_block i s" "\<And>x. x < 269 \<Longrightarrow> b \<noteq> ptr i s x" for b
    using t(7) [of b] that(2) ib(1) ss(7) wroteD(7) [OF t1(4) that(1,3)] by simp
  ultimately show ?thesis using that t1(2,7) t(2,3,8,10) ss(9) by simp
qed

section \<open>The property\<close>

text \<open>C3: What is written to a file is what is read from it. \<open>writei\<close> of \<open>n\<close> bytes within or right behind the file, in
  a transaction with room for what it may log, writes all of them, or as many as there are blocks left on the
  disk: the file is then the old one with these bytes in place, its size adjusted. It allocates every block it needs and gives the file no block twice;
  the inode on disk agrees with the one in memory; no other block in use changes except the inode's and the bitmap's. A \<open>readi\<close> then delivers exactly the bytes written and changes nothing.\<close>

theorem writei_then_readi:
  assumes "file_inv i s" "no_holes i s" "tx_locked s = []"
    and "unat off \<le> length (contents i s)" "unat off + unat n \<le> MAXFILE * BSIZE" "length bs = unat n"
    and "log_room s (6 * ((unat n + 1023) div BSIZE + 1) + 1)"
  shows "\<exists>tot t. writei (ksrc bs) i off n s = Ok (int tot, t) \<and> tot \<le> unat n \<and> (tot = unat n \<or> disk_full t) \<and>
    contents i t = put_bytes (contents i s) (unat off) (take tot bs) \<and> file_inv i t \<and> no_holes i t \<and> tx_locked t = [] \<and>
    get_dinode (blk (inode_block i t) t) (dinode_off (i_inum (node i t))) (node i t) = node i t \<and>
    (\<forall>j. j = i \<or> node j t = node j s) \<and>
    {b. data_block b s \<and> b \<noteq> inode_block i s \<and> (\<forall>x<269. b \<noteq> ptr i s x)} \<subseteq> {b. data_block b t \<and> blk b t = blk b s} \<and>
    readi kbuf i off (of_nat tot) [] t = Ok (int tot, take tot bs, t)"
proof (rule writei_writes [OF assms])
  fix tot t
  assume w: "writei (ksrc bs) i off n s = Ok (int tot, t)" "tot \<le> unat n" "tot < unat n \<longrightarrow> disk_full t"
    "contents i t = put_bytes (contents i s) (unat off) (take tot bs)" "file_inv i t" "no_holes i t" "tx_locked t = []"
    "get_dinode (blk (inode_block i t) t) (dinode_off (i_inum (node i t))) (node i t) = node i t"
    "\<And>j. j \<noteq> i \<Longrightarrow> node j t = node j s" "\<And>b. data_block b s \<Longrightarrow> data_block b t"
    "\<And>b. data_block b s \<Longrightarrow> b \<noteq> inode_block i s \<Longrightarrow> (\<And>x. x < 269 \<Longrightarrow> b \<noteq> ptr i s x) \<Longrightarrow> blk b t = blk b s"
  have small: "MAXFILE * BSIZE < (2 :: nat) ^ 32" by simp
  have ut: "unat (of_nat tot :: u32) = tot" using w(2) assms(5) small by (simp add: unat_of_nat take_bit_eq_mod)
  have len: "length (take tot bs) = tot" using w(2) assms(6) by simp
  have "take tot (drop (unat off) (put_bytes (contents i s) (unat off) (take tot bs))) = take tot bs"
    using len assms(4) by (simp add: put_bytes_def)
  then have "readi kbuf i off (of_nat tot) [] t = Ok (int tot, take tot bs, t)"
    using readi_reads [OF w(5-7), of off "of_nat tot"] ut len w(2,4) assms(5) small by (simp add: Let_def)
  then show ?thesis using w by (intro exI [of _ tot] exI [of _ t]) auto
qed

text \<open>The disk of \<open>demo_fs\<close> with an empty file, inode 1 in block 1.\<close>

definition demo_file :: fs where
  "demo_file = demo_fs\<lparr>disk := (disk demo_fs)\<lparr>d_cap := 20\<rparr>, sb := (sb demo_fs)\<lparr>sb_inodestart := 1\<rparr>,
     itable := [\<lparr>i_dev = 1, i_inum = 1, i_ref = 1, i_locked = True, i_valid = True, i_type = T_FILE, i_major = 0, i_minor = 0,
       i_nlink = 1, i_size = 0, i_addrs = replicate 13 0\<rparr>]\<rparr>"

lemma demo_file_ok: "file_inv 0 demo_file" "no_holes 0 demo_file" "tx_locked demo_file = []" "contents 0 demo_file = []"
proof -
  have b: "blk b demo_file = blk b demo_fs" "BBLOCK k demo_file = BBLOCK k demo_fs" "fs_size demo_file = fs_size demo_fs" for b k
    by (simp_all add: demo_file_def blk_def BBLOCK_def fs_size_def)
  have u: "block_used k demo_file = block_used k demo_fs" "is_bitmap k demo_file = is_bitmap k demo_fs" for k
    by (simp_all add: block_used_def is_bitmap_def b)
  have "sb_bmapstart (sb demo_file) = sb_bmapstart (sb demo_fs)" by (simp add: demo_file_def)
  then have a: "alloc_inv demo_file" using demo_alloc(1) by (simp add: alloc_inv_def b u)
  have p: "ptr 0 demo_file x = 0" if "x < 269" for x
    using that by (cases "x \<le> 12") (simp_all add: ptr_def demo_file_def node_def Let_def)
  have ib: "inode_block 0 demo_file = 1" by (simp add: IBLOCK_def demo_file_def node_def demo_fs_def)
  have "BBLOCK k demo_fs = 2" if "k < 5" for k using that by (simp add: BBLOCK_def demo_fs_def)
  then have "\<not> is_bitmap 1 demo_fs" using demo_alloc(4) by (auto simp: is_bitmap_def)
  then have d: "data_block 1 demo_file" using demo_used [of 1] demo_alloc(4) by (simp add: data_block_def b u)
  show "file_inv 0 demo_file" unfolding file_inv_def ib
    using a d p by (auto simp: demo_file_def node_def)
  show "no_holes 0 demo_file" "tx_locked demo_file = []" "contents 0 demo_file = []"
    by (simp_all add: no_holes_def demo_file_def node_def tx_locked_def demo_fs_def contents_def)
qed

lemma writei_then_readi_witness:
  "\<exists>tot t. writei (ksrc [104, 105]) 0 0 2 demo_file = Ok (int tot, t) \<and> contents 0 t = take tot [104, 105] \<and>
    readi kbuf 0 0 (of_nat tot) [] t = Ok (int tot, take tot [104, 105], t)"
proof -
  have "log_room demo_file 13" by (simp add: log_room_def tx_logged_def demo_file_def demo_fs_def)
  then show ?thesis
    using writei_then_readi [OF demo_file_ok(1-3), of 0 2 "[104, 105]"] demo_file_ok(4) by (auto simp: put_bytes_def)
qed

end
