(* ===== verification/FsDirs.thy ===== *)
theory FsDirs imports FsFiles begin

text \<open>
  Directories in kernel/fs.c: \<open>dirlookup\<close> and \<open>dirlink\<close> against the abstract view of a directory as a map
  from names to the inode numbers of its entries (and their offsets).
\<close>

section \<open>The entries of a directory\<close>

definition entry :: "nat \<Rightarrow> fs \<Rightarrow> nat \<Rightarrow> u8 list" where
  "entry dp s k = take DIRENT (drop (DIRENT * k) (contents dp s))"

definition entries :: "nat \<Rightarrow> fs \<Rightarrow> nat" where
  "entries dp s = length (contents dp s) div DIRENT"

definition matches :: "nat \<Rightarrow> fs \<Rightarrow> u8 list \<Rightarrow> nat \<Rightarrow> bool" where
  "matches dp s name k \<longleftrightarrow> de_inum (entry dp s k) \<noteq> 0 \<and> namecmp name (de_name (entry dp s k)) = 0"

text \<open>The directory as a map: the first entry in use with that name.\<close>

definition lookup :: "nat \<Rightarrow> fs \<Rightarrow> u8 list \<Rightarrow> (nat \<times> u16) option" where
  "lookup dp s name = map_option (\<lambda>k. (DIRENT * k, de_inum (entry dp s k))) (find (matches dp s name) [0..<entries dp s])"

definition dir_ok :: "nat \<Rightarrow> fs \<Rightarrow> bool" where
  "dir_ok dp s \<longleftrightarrow> file_inv dp s \<and> no_holes dp s \<and> tx_locked s = [] \<and> i_type (node dp s) = T_DIR \<and> DIRENT dvd length (contents dp s)"

text \<open>Two names are the same for \<open>namecmp\<close>.\<close>

definition name_of :: "u8 list \<Rightarrow> u8 list" where
  "name_of name = take DIRSIZ (cstr name)"

lemma namecmp_0_iff: "namecmp p q = 0 \<longleftrightarrow> name_of p = name_of q"
  by (simp add: namecmp_def strncmp_0_iff name_of_def)

lemma no_holes_size: "no_holes i s \<Longrightarrow> length (contents i s) \<le> MAXFILE * BSIZE"
proof (rule ccontr)
  assume h: "no_holes i s" "\<not> length (contents i s) \<le> MAXFILE * BSIZE"
  then have "(MAXFILE * BSIZE) div BSIZE < MAXFILE" unfolding no_holes_def by (metis length_contents not_le)
  then show False by simp
qed

lemma dir_okD:
  assumes "dir_ok dp s"
  shows "file_inv dp s" "no_holes dp s" "tx_locked s = []" "i_type (node dp s) = T_DIR"
    "length (contents dp s) = DIRENT * entries dp s" "DIRENT * entries dp s \<le> MAXFILE * BSIZE" "unat (i_size (node dp s)) = DIRENT * entries dp s"
proof -
  show "file_inv dp s" "no_holes dp s" "tx_locked s = []" "i_type (node dp s) = T_DIR" using assms by (simp_all add: dir_ok_def)
  show e: "length (contents dp s) = DIRENT * entries dp s" using assms by (auto simp: dir_ok_def entries_def)
  show "DIRENT * entries dp s \<le> MAXFILE * BSIZE" using no_holes_size [of dp s] assms e by (simp add: dir_ok_def)
  show "unat (i_size (node dp s)) = DIRENT * entries dp s" using e by simp
qed

lemma length_entry: "dir_ok dp s \<Longrightarrow> k < entries dp s \<Longrightarrow> length (entry dp s k) = DIRENT"
  using dir_okD(5) [of dp s] by (simp add: entry_def)

lemma unat_of_small: "x \<le> MAXFILE * BSIZE \<Longrightarrow> unat (of_nat x :: u32) = x"
  by (simp add: unat_of_nat take_bit_eq_mod)

lemma read_dirent_reads:
  assumes "dir_ok dp s" "k < entries dp s"
  shows "read_dirent dp (DIRENT * k) s = Ok (int DIRENT, entry dp s k, s)"
proof -
  note d = dir_okD [OF assms(1)]
  have small: "DIRENT * k + DIRENT \<le> MAXFILE * BSIZE" using assms(2) d(6) by simp
  then have "unat (of_nat (DIRENT * k) :: u32) = DIRENT * k" by (intro unat_of_small) simp
  moreover have "length (take DIRENT (drop (DIRENT * k) (contents dp s))) = DIRENT"
    using length_entry [OF assms] by (simp add: entry_def)
  ultimately show ?thesis
    unfolding read_dirent_def using readi_reads [OF d(1-3), of "of_nat (DIRENT * k)" "of_nat DIRENT"] small
    by (simp add: Let_def entry_def)
qed

lemma dirlookup_loop_finds:
  assumes d: "dir_ok dp s"
  shows "k \<le> entries dp s \<Longrightarrow> dirlookup_loop dp name (DIRENT * entries dp s) (DIRENT * k) s =
    (case find (matches dp s name) [k..<entries dp s] of None \<Rightarrow> Ok (None, s)
     | Some j \<Rightarrow> kbind (iget (i_dev (node dp s)) (ucast (de_inum (entry dp s j))) s) (\<lambda>(i, s). Ok (Some (i, DIRENT * j), s)))"
proof (induction k rule: inc_induct)
  case base
  then show ?case by (subst dirlookup_loop.simps) simp
next
  case (step k)
  have "DIRENT * k + DIRENT = DIRENT * Suc k" by simp
  then show ?case
    using step read_dirent_reads [OF d step.hyps(2)]
    by (subst dirlookup_loop.simps) (simp add: upt_conv_Cons matches_def [of dp s name k] add.commute)
qed

lemma dirlookup_looks_up:
  assumes "dir_ok dp s"
  shows "dirlookup dp name s =
    (case lookup dp s name of None \<Rightarrow> Ok (None, s)
     | Some (off, inum) \<Rightarrow> kbind (iget (i_dev (node dp s)) (ucast inum) s) (\<lambda>(i, s). Ok (Some (i, off), s)))"
  using dirlookup_loop_finds [OF assms, of 0 name] dir_okD(4,7) [OF assms]
  by (simp add: dirlookup_def lookup_def split: option.splits)

lemma free_dirent_finds:
  assumes d: "dir_ok dp s"
  shows "k \<le> entries dp s \<Longrightarrow> free_dirent dp (DIRENT * entries dp s) (DIRENT * k) s =
    Ok (DIRENT * (case find (\<lambda>k. de_inum (entry dp s k) = 0) [k..<entries dp s] of None \<Rightarrow> entries dp s | Some j \<Rightarrow> j), s)"
proof (induction k rule: inc_induct)
  case base
  then show ?case by (subst free_dirent.simps) simp
next
  case (step k)
  have "DIRENT * k + DIRENT = DIRENT * Suc k" by simp
  then show ?case
    using step read_dirent_reads [OF d step.hyps(2)]
    by (subst free_dirent.simps) (simp add: upt_conv_Cons add.commute)
qed

section \<open>Adding an entry\<close>

text \<open>The slot \<open>dirlink\<close> uses: the first free one, or the end of the directory.\<close>

definition free_slot :: "nat \<Rightarrow> fs \<Rightarrow> nat" where
  "free_slot dp s = (case find (\<lambda>k. de_inum (entry dp s k) = 0) [0..<entries dp s] of None \<Rightarrow> entries dp s | Some j \<Rightarrow> j)"

lemma free_slot:
  "free_slot dp s \<le> entries dp s" "free_slot dp s < entries dp s \<Longrightarrow> de_inum (entry dp s (free_slot dp s)) = 0"
proof -
  consider "free_slot dp s = entries dp s"
    | j where "free_slot dp s = j" "find (\<lambda>k. de_inum (entry dp s k) = 0) [0..<entries dp s] = Some j"
    by (cases "find (\<lambda>k. de_inum (entry dp s k) = 0) [0..<entries dp s]") (simp_all add: free_slot_def)
  then show "free_slot dp s \<le> entries dp s" "free_slot dp s < entries dp s \<Longrightarrow> de_inum (entry dp s (free_slot dp s)) = 0"
    unfolding find_upt_Some by (cases; simp)+
qed

lemma mk_dirent:
  "length (mk_dirent name inum) = DIRENT" "de_inum (mk_dirent name inum) = inum" "name_of (de_name (mk_dirent name inum)) = name_of name"
proof -
  have l: "length (strncpy name DIRSIZ) = DIRSIZ" by (rule length_strncpy)
  then show "length (mk_dirent name inum) = DIRENT" by (simp add: mk_dirent_def)
  have "mk_dirent name inum = set16 (0 # 0 # strncpy name DIRSIZ) 0 inum" by (simp add: mk_dirent_def set16_def put_bytes_def)
  then show "de_inum (mk_dirent name inum) = inum" by (simp add: de_inum_def)
  show "name_of (de_name (mk_dirent name inum)) = name_of name"
    by (simp add: name_of_def de_name_def mk_dirent_def cstr_strncpy)
qed

lemma entry_put:
  assumes "length xs = DIRENT * m" "k \<le> m" "length e = DIRENT"
  shows "take DIRENT (drop (DIRENT * j) (put_bytes xs (DIRENT * k) e)) = (if j = k then e else take DIRENT (drop (DIRENT * j) xs))"
    "length (put_bytes xs (DIRENT * k) e) = DIRENT * max m (k + 1)"
proof -
  show "length (put_bytes xs (DIRENT * k) e) = DIRENT * max m (k + 1)" using assms by (auto simp: put_bytes_def max_def)
  consider "j = k" | "j < k" | "k < j" by linarith
  then show "take DIRENT (drop (DIRENT * j) (put_bytes xs (DIRENT * k) e)) = (if j = k then e else take DIRENT (drop (DIRENT * j) xs))"
  proof cases
    case 2
    then have "DIRENT * j + DIRENT \<le> DIRENT * k" by simp
    then have "take DIRENT (drop (DIRENT * j) (take (DIRENT * k) xs @ r)) = take DIRENT (drop (DIRENT * j) (take (DIRENT * k) xs))" for r
      using assms by simp
    moreover have "take DIRENT (drop (DIRENT * j) (take (DIRENT * k) xs)) = take DIRENT (drop (DIRENT * j) xs)"
      using \<open>DIRENT * j + DIRENT \<le> DIRENT * k\<close> by (simp add: drop_take min_absorb1)
    moreover have "j \<noteq> k" using 2 by simp
    ultimately show ?thesis by (simp only: put_bytes_def if_False)
  next
    case 3
    then have "DIRENT * k + DIRENT \<le> DIRENT * j" by simp
    then show ?thesis using 3 assms by (simp add: put_bytes_def)
  qed (use assms in \<open>simp add: put_bytes_def\<close>)
qed

lemma find_snoc: "\<not> P x \<Longrightarrow> find P (xs @ [x]) = find P xs"
  by (induction xs) auto

lemma find_replaced:
  assumes "k \<le> m" "\<And>j. j < m \<Longrightarrow> j \<noteq> k \<Longrightarrow> P' j = P j" "k < m \<Longrightarrow> \<not> P k"
  shows "find P' [0..<max m (k + 1)] = (if P' k \<and> find P [0..<m] = None then Some k else if P' k then find P' [0..<max m (k + 1)] else find P [0..<m])"
proof (cases "P' k")
  case True
  show ?thesis
  proof (cases "find P [0..<m]")
    case None
    then have none: "\<not> P j" if "j < m" for j using that by (simp add: find_upt_None)
    have "find P' [0..<max m (k + 1)] = Some k"
      unfolding find_upt_Some using True assms(2) none \<open>k \<le> m\<close> by auto
    then show ?thesis using True None by simp
  qed (use True in simp)
next
  case False
  show ?thesis
  proof (cases "k < m")
    case True
    then have "find P' [0..<m] = find P [0..<m]" using assms(2,3) False by (intro find_cong refl) auto
    moreover have "max m (k + 1) = m" using True by simp
    ultimately show ?thesis unfolding \<open>max m (k + 1) = m\<close> using False by simp
  next
    case ahead: False
    then have "k = m" using assms(1) by simp
    moreover have "find P' [0..<m] = find P [0..<m]" using assms(2) \<open>k = m\<close> by (intro find_cong refl) auto
    moreover have "find P' ([0..<m] @ [m]) = find P' [0..<m]" using False \<open>k = m\<close> by (simp add: find_snoc)
    ultimately show ?thesis using False by simp
  qed
qed

lemma lookup_None: "lookup dp s name = None \<longleftrightarrow> find (matches dp s name) [0..<entries dp s] = None"
  by (simp add: lookup_def)

text \<open>The directory after an entry has been stored.\<close>

lemma lookup_update:
  assumes d: "dir_ok dp s" and absent: "lookup dp s name = None" and inum: "inum \<noteq> 0"
    and c: "contents dp t = put_bytes (contents dp s) (DIRENT * free_slot dp s) (mk_dirent name inum)"
  shows "lookup dp t name' = (if name_of name' = name_of name then Some (DIRENT * free_slot dp s, inum) else lookup dp s name')"
    "DIRENT dvd length (contents dp t)"
proof -
  let ?k = "free_slot dp s" and ?m = "entries dp s"
  note e = entry_put [OF dir_okD(5) [OF d] free_slot(1) mk_dirent(1)]
  have ent: "entry dp t j = (if j = ?k then mk_dirent name inum else entry dp s j)" for j
    unfolding entry_def c by (rule e(1))
  have m: "entries dp t = max ?m (?k + 1)" unfolding entries_def c e(2) by simp
  show "DIRENT dvd length (contents dp t)" unfolding c e(2) by simp
  have new: "matches dp t x ?k \<longleftrightarrow> name_of x = name_of name" for x
    using inum by (simp add: matches_def ent mk_dirent namecmp_0_iff)
  have old: "matches dp t x j = matches dp s x j" if "j \<noteq> ?k" for x j using that by (simp add: matches_def ent)
  have free: "\<not> matches dp s x ?k" if "?k < ?m" for x using free_slot(2) [OF that] by (simp add: matches_def)
  have upd: "find (matches dp t x) [0..<max ?m (?k + 1)] =
      (if matches dp t x ?k \<and> find (matches dp s x) [0..<?m] = None then Some ?k
       else if matches dp t x ?k then find (matches dp t x) [0..<max ?m (?k + 1)] else find (matches dp s x) [0..<?m])" for x
    by (rule find_replaced) (use free_slot(1) old free in auto)
  show "lookup dp t name' = (if name_of name' = name_of name then Some (DIRENT * ?k, inum) else lookup dp s name')"
  proof (cases "name_of name' = name_of name")
    case True
    then have "matches dp s name' = matches dp s name" by (simp add: fun_eq_iff matches_def namecmp_0_iff)
    then have "find (matches dp s name') [0..<?m] = None" using absent by (simp add: lookup_None)
    then have "find (matches dp t name') [0..<entries dp t] = Some ?k" unfolding m using upd [of name'] new True by simp
    then show ?thesis using True by (simp add: lookup_def ent mk_dirent)
  next
    case False
    then have "find (matches dp t name') [0..<entries dp t] = find (matches dp s name') [0..<?m]" unfolding m using upd [of name'] new by simp
    then have t: "lookup dp t name' = map_option (\<lambda>j. (DIRENT * j, de_inum (entry dp t j))) (find (matches dp s name') [0..<?m])"
      by (simp add: lookup_def)
    show ?thesis
    proof (cases "find (matches dp s name') [0..<?m]")
      case None
      then show ?thesis using t False by (simp add: lookup_def)
    next
      case (Some j)
      then have "j \<noteq> ?k" using free unfolding find_upt_Some by auto
      then show ?thesis using t False Some by (simp add: lookup_def ent)
    qed
  qed
qed


text \<open>An empty directory gets an entry \<open>a\<close> for inode 1.\<close>

definition demo_dir :: fs where
  "demo_dir = upd_node 0 (\<lambda>ip. ip\<lparr>i_type := T_DIR\<rparr>) demo_file"

lemma demo_dir_ok: "dir_ok 0 demo_dir" "lookup 0 demo_dir name = None" "length (contents 0 demo_dir) = 0" "log_room demo_dir 13"
proof -
  have nd: "node 0 demo_dir = (node 0 demo_file)\<lparr>i_type := T_DIR\<rparr>" "disk demo_dir = disk demo_file" "sb demo_dir = sb demo_file"
    "length (itable demo_dir) = length (itable demo_file)"
    by (simp_all add: demo_dir_def upd_node_def set_node_def node_def demo_file_def)
  have b: "blk b demo_dir = blk b demo_file" "BBLOCK k demo_dir = BBLOCK k demo_file" "IBLOCK j demo_dir = IBLOCK j demo_file" "fs_size demo_dir = fs_size demo_file" for b k j
    using nd by (simp_all add: blk_def BBLOCK_def IBLOCK_def fs_size_def)
  have u: "block_used k demo_dir = block_used k demo_file" "is_bitmap k demo_dir = is_bitmap k demo_file" for k
    by (simp_all add: block_used_def is_bitmap_def b)
  have "alloc_inv demo_dir = alloc_inv demo_file" by (simp add: alloc_inv_def b u nd)
  moreover have "ptr 0 demo_dir x = ptr 0 demo_file x" for x by (simp add: ptr_def nd b Let_def)
  moreover have "data_block k demo_dir = data_block k demo_file" for k by (simp add: data_block_def b u)
  ultimately have "file_inv 0 demo_dir" using demo_file_ok(1) by (simp add: file_inv_def nd b)
  moreover have "unat (i_size (node 0 demo_file)) = 0" using demo_file_ok(4) by (metis length_contents list.size(3))
  then show c: "length (contents 0 demo_dir) = 0" by (simp add: nd)
  moreover have "i_type (node 0 demo_dir) = T_DIR" "no_holes 0 demo_dir" "tx_locked demo_dir = []"
    using nd c by (simp_all add: no_holes_def tx_locked_def) (simp add: demo_file_def demo_fs_def)
  ultimately show "dir_ok 0 demo_dir" by (simp add: dir_ok_def)
  show "lookup 0 demo_dir name = None" using c by (simp add: lookup_def entries_def)
  show "log_room demo_dir 13" by (simp add: log_room_def tx_logged_def nd demo_file_def demo_fs_def)
qed


end
