(* ===== verification/Boot.thy ===== *)
theory Boot imports Trap Console Printf begin

text \<open>
  How the kernel comes up: kernel/start.c, which every hart runs in machine mode, and kernel/main.c,
  with the initialisation routines that belong to no other theory, and the listing \<open>procdump\<close> of kernel/proc.c.

  \<open>main\<close> is a relation, as the harts run it at the same time: each has the list of the calls it has yet to make. What
  the calls do is in the theories of their components; here they are named, and the order in which they happen is what is proved.
\<close>

section \<open>start.c\<close>

abbreviation (input) MSTATUS_MPP_MASK :: u64 where "MSTATUS_MPP_MASK \<equiv> push_bit 11 3"
abbreviation (input) MSTATUS_MPP_S :: u64 where "MSTATUS_MPP_S \<equiv> push_bit 11 1"
abbreviation (input) MSTATUS_MIE :: u64 where "MSTATUS_MIE \<equiv> push_bit 3 1"
abbreviation (input) SIE_SEIE :: u64 where "SIE_SEIE \<equiv> push_bit 9 1"
abbreviation (input) SIE_STIE :: u64 where "SIE_STIE \<equiv> push_bit 5 1"
abbreviation (input) SIE_SSIE :: u64 where "SIE_SSIE \<equiv> push_bit 1 1"
abbreviation (input) MIE_MTIE :: u64 where "MIE_MTIE \<equiv> push_bit 7 1"
abbreviation (input) CLINT :: u64 where "CLINT \<equiv> 0x2000000"

definition CLINT_MTIMECMP :: "u64 \<Rightarrow> u64" where
  "CLINT_MTIMECMP hartid = CLINT + 0x4000 + 8 * hartid"

text \<open>The machine-mode registers of a hart, its \<open>tp\<close>, the stores to the CLINT and the hart's row of \<open>timer_scratch\<close>.\<close>

record mregs =
  mstatus :: u64
  mepc :: u64
  m_satp :: u64
  medeleg :: u64
  mideleg :: u64
  m_sie :: u64
  pmpaddr0 :: u64
  pmpcfg0 :: u64
  mscratch :: u64
  mtvec :: u64
  mie :: u64
  m_tp :: u64
  clint :: "(u64 \<times> u64) list"
  scratch :: "u64 list"

text \<open>\<open>row\<close> is \<open>&timer_scratch[id][0]\<close>, \<open>mtime\<close> the value of the clock.\<close>

definition timerinit :: "u64 \<Rightarrow> u64 \<Rightarrow> u64 \<Rightarrow> u64 \<Rightarrow> mregs \<Rightarrow> mregs" where
  "timerinit hartid timervec row mtime r =
     (let interval = 1000000;
          r = r\<lparr>clint := clint r @ [(CLINT_MTIMECMP hartid, mtime + interval)]\<rparr>;
          r = r\<lparr>scratch := (scratch r)[3 := CLINT_MTIMECMP hartid]\<rparr>;
          r = r\<lparr>scratch := (scratch r)[4 := interval]\<rparr>;
          r = r\<lparr>mscratch := row\<rparr>;
          r = r\<lparr>mtvec := timervec\<rparr>;
          r = r\<lparr>mstatus := mstatus r OR MSTATUS_MIE\<rparr> in
      r\<lparr>mie := mie r OR MIE_MTIE\<rparr>)"

definition start :: "u64 \<Rightarrow> u64 \<Rightarrow> u64 \<Rightarrow> u64 \<Rightarrow> u64 \<Rightarrow> mregs \<Rightarrow> mregs" where
  "start hartid main timervec row mtime r =
     (let x = mstatus r; x = x AND NOT MSTATUS_MPP_MASK; x = x OR MSTATUS_MPP_S;
          r = r\<lparr>mstatus := x\<rparr>;
          r = r\<lparr>mepc := main\<rparr>;
          r = r\<lparr>m_satp := 0\<rparr>;
          r = r\<lparr>medeleg := 0xffff\<rparr>;
          r = r\<lparr>mideleg := 0xffff\<rparr>;
          r = r\<lparr>m_sie := m_sie r OR (SIE_SEIE OR SIE_STIE OR SIE_SSIE)\<rparr>;
          r = r\<lparr>pmpaddr0 := 0x3fffffffffffff\<rparr>;
          r = r\<lparr>pmpcfg0 := 0xf\<rparr>;
          r = timerinit hartid timervec row mtime r in
      r\<lparr>m_tp := hartid\<rparr>)"

text \<open>The \<open>mret\<close> that follows enters \<open>main\<close> in supervisor mode: the mode field is 1.\<close>

lemma start_enters_supervisor_mode:
  "mstatus (start h main tv row t r) AND MSTATUS_MPP_MASK = MSTATUS_MPP_S" "mepc (start h main tv row t r) = main"
  "m_satp (start h main tv row t r) = 0" "m_tp (start h main tv row t r) = h"
proof -
  have s: "mstatus (start h main tv row t r) = (mstatus r AND NOT MSTATUS_MPP_MASK OR MSTATUS_MPP_S) OR MSTATUS_MIE"
    by (simp add: start_def timerinit_def Let_def)
  have b: "bit (push_bit k 1 :: u64) n \<longleftrightarrow> n = k" if "k < 64" for k n
    using that by (auto simp: bit_exp_iff possible_bit_def)
  have m: "MSTATUS_MPP_MASK = push_bit 11 1 OR push_bit 12 1" by simp
  have bits: "bit (push_bit 11 1 :: u64) n \<longleftrightarrow> n = 11" "bit (push_bit 12 1 :: u64) n \<longleftrightarrow> n = 12" "bit (push_bit 3 1 :: u64) n \<longleftrightarrow> n = 3" for n
    by (rule b; simp)+
  show "mstatus (start h main tv row t r) AND MSTATUS_MPP_MASK = MSTATUS_MPP_S"
    unfolding s m by (rule bit_word_eqI; simp only: bit_and_iff bit_or_iff bit_not_iff bits; auto)
qed (simp_all add: start_def timerinit_def Let_def)

section \<open>Initialisation routines\<close>

text \<open>\<open>kernel_pagetable\<close> is the result.\<close>

definition kvminit :: "u64 \<Rightarrow> u64 \<Rightarrow> kmem \<Rightarrow> (u64 \<times> kmem) kres" where
  "kvminit etext trampoline s = kvmmake etext trampoline s"

definition kvminithart :: "u64 \<Rightarrow> csrs \<Rightarrow> csrs" where
  "kvminithart kernel_pagetable r = r\<lparr>c_satp := MAKE_SATP kernel_pagetable\<rparr>"

text \<open>\<open>devsw[CONSOLE]\<close> gets the pair of \<open>consoleread\<close> and \<open>consolewrite\<close>.\<close>

definition consoleinit :: "'f \<Rightarrow> 'f \<Rightarrow> (nat \<Rightarrow> ('f \<times> 'f) option) \<Rightarrow> uart \<Rightarrow> (nat \<Rightarrow> ('f \<times> 'f) option) \<times> uart" where
  "consoleinit rd wr devsw u = (devsw(1 \<mapsto> (rd, wr)), uartinit u)"

section \<open>procdump\<close>

text \<open>The column widths of the array \<open>states\<close>: \<open>unused\<close>, \<open>used\<close>, \<open>sleep\<close>, \<open>runble\<close>, \<open>run\<close>, \<open>zombie\<close>.\<close>

fun state_name :: "procstate \<Rightarrow> u8 list" where
  "state_name UNUSED = [117, 110, 117, 115, 101, 100]"
| "state_name USED = [117, 115, 101, 100]"
| "state_name SLEEPING = [115, 108, 101, 101, 112, 32]"
| "state_name RUNNABLE = [114, 117, 110, 98, 108, 101]"
| "state_name RUNNING = [114, 117, 110, 32, 32, 32]"
| "state_name ZOMBIE = [122, 111, 109, 98, 105, 101]"

definition procdump :: "'w kst \<Rightarrow> u8 list kres" where
  "procdump st =
     kfold (\<lambda>i out.
       let p = procs st i in
       if p_state p = UNUSED then Ok out
       else kbind (kprintint (word_of_int (p_pid p)) 10 True) (\<lambda>pid.
         Ok (out @ pid @ [32] @ state_name (p_state p) @ [32] @ cstr (p_name p) @ [10]))) [0..<NPROC] [10]"

section \<open>main.c\<close>

datatype boot_call = Call string | Await_started | Set_started

text \<open>The calls of \<open>main\<close>, on hart 0 and on the others.\<close>

definition boot_first :: "boot_call list" where
  "boot_first =
     map Call [''consoleinit'', ''printfinit'', ''printf'', ''printf'', ''printf'', ''kinit'', ''kvminit'', ''kvminithart'', ''procinit'',
       ''trapinit'', ''trapinithart'', ''plicinit'', ''plicinithart'', ''binit'', ''iinit'', ''fileinit'', ''virtio_disk_init'', ''userinit'']
     @ [Set_started, Call ''scheduler'']"

definition boot_other :: "boot_call list" where
  "boot_other = Await_started # map Call [''printf'', ''kvminithart'', ''trapinithart'', ''plicinithart'', ''scheduler'']"

record boot =
  started :: bool
  todo :: "nat \<Rightarrow> boot_call list"
  called :: "(nat \<times> string) list"

definition boot_start :: boot where
  "boot_start = \<lparr>started = False, todo = (\<lambda>h. if h = 0 then boot_first else boot_other), called = []\<rparr>"

inductive boot_step :: "boot \<Rightarrow> boot \<Rightarrow> bool" where
  call: "todo s h = Call f # cs \<Longrightarrow> boot_step s (s\<lparr>todo := (todo s)(h := cs), called := called s @ [(h, f)]\<rparr>)"
| set_started: "todo s h = Set_started # cs \<Longrightarrow> boot_step s (s\<lparr>todo := (todo s)(h := cs), started := True\<rparr>)"
| await_done: "todo s h = Await_started # cs \<Longrightarrow> started s \<Longrightarrow> boot_step s (s\<lparr>todo := (todo s)(h := cs)\<rparr>)"
| await_spin: "todo s h = Await_started # cs \<Longrightarrow> \<not> started s \<Longrightarrow> boot_step s s"

inductive_cases boot_stepE: "boot_step s t"

inductive boots :: "boot \<Rightarrow> bool" where
  boots_start: "boots boot_start"
| boots_step: "boots s \<Longrightarrow> boot_step s t \<Longrightarrow> boots t"

text \<open>What hart 0 has called, followed by what it has yet to call, is its program.\<close>

definition boot_inv :: "boot \<Rightarrow> bool" where
  "boot_inv s \<longleftrightarrow>
     (let mine = map (\<lambda>(h, f). Call f) (filter (\<lambda>(h, f). h = 0) (called s)) in
      if started s then \<exists>as cs. boot_first = as @ Set_started # cs \<and> Set_started \<notin> set as \<and> (\<exists>bs. mine = as @ bs \<and> bs @ todo s 0 = cs)
      else mine @ todo s 0 = boot_first) \<and>
     (\<forall>h. h \<noteq> 0 \<longrightarrow> Set_started \<notin> set (todo s h) \<and> (\<not> started s \<longrightarrow> todo s h = boot_other \<and> h \<notin> fst ` set (called s)))"

lemma no_waiting_on_first: "Await_started \<notin> set boot_first"
  by (simp add: boot_first_def)

lemma boots_inv: "boots s \<Longrightarrow> boot_inv s"
proof (induction rule: boots.induct)
  case boots_start
  show ?case by (auto simp: boot_inv_def boot_start_def boot_other_def)
next
  case (boots_step s t)
  from boots_step.hyps(2) show ?case
  proof (rule boot_stepE)
    fix h f cs assume c: "t = s\<lparr>todo := (todo s)(h := cs), called := called s @ [(h, f)]\<rparr>" "todo s h = Call f # cs"
    show ?thesis
    proof (cases "h = 0")
      case True
      show ?thesis
      proof (cases "started s")
        case st: True
        then obtain as bs where "boot_first = as @ Set_started # bs @ todo s 0" "Set_started \<notin> set as"
            "map (\<lambda>(h, f). Call f) (filter (\<lambda>(h, f). h = 0) (called s)) = as @ bs"
          using boots_step.IH by (auto simp: boot_inv_def Let_def)
        then have "boot_first = as @ Set_started # (bs @ [Call f]) @ cs \<and> Set_started \<notin> set as \<and>
            map (\<lambda>(h, f). Call f) (filter (\<lambda>(h, f). h = 0) (called t)) = as @ bs @ [Call f]"
          using c True by simp
        moreover have "\<forall>h. h \<noteq> 0 \<longrightarrow> Set_started \<notin> set (todo t h)" "started t" "todo t 0 = cs"
          using boots_step.IH c True st by (auto simp: boot_inv_def)
        ultimately have facts: "boot_first = as @ Set_started # ((bs @ [Call f]) @ cs)" "Set_started \<notin> set as"
            "map (\<lambda>(h, f). Call f) (filter (\<lambda>(h, f). h = 0) (called t)) = as @ (bs @ [Call f])" "(bs @ [Call f]) @ todo t 0 = (bs @ [Call f]) @ cs"
            "\<forall>h. h \<noteq> 0 \<longrightarrow> Set_started \<notin> set (todo t h) \<and> (\<not> started t \<longrightarrow> todo t h = boot_other \<and> h \<notin> fst ` set (called t))" "started t"
          by simp_all
        show ?thesis unfolding boot_inv_def Let_def if_P [OF facts(6)] using facts(1-5) by blast
      qed (use boots_step.IH c True in \<open>auto simp: boot_inv_def Let_def boot_other_def\<close>)
    next
      case False
      have "started s"
      proof (rule ccontr)
        assume "\<not> started s"
        then have "todo s h = boot_other" using boots_step.IH False unfolding boot_inv_def by blast
        then show False using c(2) by (simp add: boot_other_def)
      qed
      moreover have "Set_started \<notin> set (todo s h)" using boots_step.IH False unfolding boot_inv_def by blast
      then have "Set_started \<notin> set cs" using c(2) by simp
      ultimately show ?thesis using False boots_step.IH c by (auto simp: boot_inv_def Let_def)
    qed
  next
    fix h cs assume c: "t = s\<lparr>todo := (todo s)(h := cs), started := True\<rparr>" "todo s h = Set_started # cs"
    have h: "h = 0"
    proof (rule ccontr)
      assume "h \<noteq> 0"
      then have "Set_started \<notin> set (todo s h)" using boots_step.IH unfolding boot_inv_def by blast
      then show False using c(2) by simp
    qed
    let ?mine = "map (\<lambda>(h, f). Call f) (filter (\<lambda>(h, f). h = 0) (called s))"
    have "Set_started \<notin> set ?mine" by auto
    moreover have ns: "\<not> started s"
    proof
      assume "started s"
      then obtain as cs' bs where "boot_first = as @ Set_started # cs'" "?mine = as @ bs" "bs @ todo s 0 = cs'"
        using boots_step.IH by (auto simp: boot_inv_def Let_def)
      then have e: "boot_first = as @ Set_started # bs @ Set_started # cs" using c(2) h by (metis (full_types))
      have "2 \<le> count_list boot_first Set_started" unfolding e by simp
      then show False by (simp add: boot_first_def)
    qed
    moreover have "boot_first = ?mine @ Set_started # cs"
      using boots_step.IH c(2) h ns by (simp add: boot_inv_def Let_def)
    moreover have "Set_started \<notin> set (todo t k) \<and> (\<not> started t \<longrightarrow> todo t k = boot_other \<and> k \<notin> fst ` set (called t))" if "k \<noteq> 0" for k
      using boots_step.IH that c(1) h unfolding boot_inv_def by simp
    moreover have st: "started t" and "called t = called s" "todo t 0 = cs" using c(1) h by simp_all
    ultimately show ?thesis unfolding boot_inv_def Let_def if_P [OF st]
      by (intro conjI exI [of _ ?mine] exI [of _ cs] exI [of _ "[]"] allI impI) auto
  next
    fix h cs assume c: "t = s\<lparr>todo := (todo s)(h := cs)\<rparr>" "todo s h = Await_started # cs" "started s"
    have "h \<noteq> 0"
    proof
      assume "h = 0"
      then obtain as bs where e: "boot_first = as @ Set_started # bs @ Await_started # cs"
        using boots_step.IH c(2,3) by (auto simp: boot_inv_def Let_def)
      have "Await_started \<in> set boot_first" unfolding e by simp
      then show False using no_waiting_on_first by simp
    qed
    moreover have "Set_started \<notin> set (todo s h)" using boots_step.IH \<open>h \<noteq> 0\<close> unfolding boot_inv_def by blast
    then have "Set_started \<notin> set cs" using c(2) by simp
    ultimately show ?thesis using boots_step.IH c by (auto simp: boot_inv_def Let_def)
  next
    assume "t = s"
    then show ?thesis using boots_step.IH by simp
  qed
qed

text \<open>However the harts interleave, none but the first does anything before everything has been initialised, in the order of
  \<open>main\<close>: paging before the process table, the interrupt controller before the disk, the first process last.\<close>

theorem boot_is_ordered:
  assumes "boots s" "(h, f) \<in> set (called s)" "h \<noteq> 0"
  shows "started s" "\<exists>more. map snd (filter (\<lambda>(h, f). h = 0) (called s)) =
    [''consoleinit'', ''printfinit'', ''printf'', ''printf'', ''printf'', ''kinit'', ''kvminit'', ''kvminithart'', ''procinit'',
     ''trapinit'', ''trapinithart'', ''plicinit'', ''plicinithart'', ''binit'', ''iinit'', ''fileinit'', ''virtio_disk_init'', ''userinit''] @ more"
proof -
  note inv = boots_inv [OF assms(1)]
  have "h \<in> fst ` set (called s)" using assms(2) by (rule image_eqI [rotated]) simp
  then show st: "started s" using inv assms(3) by (auto simp: boot_inv_def simp del: image_iff)
  let ?mine = "map (\<lambda>(h, f). Call f) (filter (\<lambda>(h, f). h = 0) (called s))"
  obtain as cs bs where e: "boot_first = as @ Set_started # cs" "Set_started \<notin> set as" "?mine = as @ bs"
    using inv st by (auto simp: boot_inv_def Let_def)
  have "\<forall>c\<in>set as. c \<noteq> Set_started" using e(2) by auto
  then have "as = takeWhile (\<lambda>c. c \<noteq> Set_started) boot_first" unfolding e(1) by (simp add: takeWhile_tail takeWhile_eq_all_conv [THEN iffD2])
  then have as: "as = map Call [''consoleinit'', ''printfinit'', ''printf'', ''printf'', ''printf'', ''kinit'', ''kvminit'', ''kvminithart'', ''procinit'',
     ''trapinit'', ''trapinithart'', ''plicinit'', ''plicinithart'', ''binit'', ''iinit'', ''fileinit'', ''virtio_disk_init'', ''userinit'']" (is "_ = map Call ?names")
    by (simp add: boot_first_def)
  have "map Call (map snd (filter (\<lambda>(h, f). h = 0) (called s))) = as @ bs" using e(3) by (simp add: case_prod_unfold comp_def)
  then obtain xs ys where "map snd (filter (\<lambda>(h, f). h = 0) (called s)) = xs @ ys" "map Call xs = as" by (metis map_eq_append_conv)
  moreover have "map Call xs = map Call ?names \<Longrightarrow> xs = ?names" by (rule map_injective) (auto intro: injI)
  ultimately show "\<exists>more. map snd (filter (\<lambda>(h, f). h = 0) (called s)) = ?names @ more" using as by blast
qed

end
