(* ===== verification/TextTools.thy ===== *)
theory TextTools imports Grep Printf begin

text \<open>
  The text filters of user/: cat.c, wc.c, tolower.c, echo.c, catlines.c and fnr.c. What the calls of \<open>read\<close> return is a list:
  \<open>Some bs\<close> for the bytes delivered (no bytes at the end of the file), \<open>None\<close> for -1; when the list is used up, the file has ended.
  The theorems show that the results do not depend on how the kernel divides a file into reads.
\<close>

type_synonym reads = "u8 list option list"

text \<open>A file that can be read to its end.\<close>

definition delivers :: "reads \<Rightarrow> u8 list \<Rightarrow> bool" where
  "delivers rs inp \<longleftrightarrow> (\<exists>bss. rs = map Some bss \<and> [] \<notin> set bss \<and> concat bss = inp)"

lemma delivers_simps [simp]:
  "delivers [] inp \<longleftrightarrow> inp = []" "\<not> delivers (None # rs) inp"
  "delivers (Some bs # rs) inp \<longleftrightarrow> bs \<noteq> [] \<and> (\<exists>rest. inp = bs @ rest \<and> delivers rs rest)"
  by (auto simp: delivers_def Cons_eq_map_conv)

section \<open>cat.c\<close>

text \<open>\<open>wr\<close> is \<open>write(1, ...)\<close>. A message means \<open>exit(1)\<close>.\<close>

fun cat :: "(u8 list \<Rightarrow> 's \<Rightarrow> int \<times> 's) \<Rightarrow> reads \<Rightarrow> 's \<Rightarrow> string option \<times> 's" where
  "cat wr [] s = (None, s)"
| "cat wr (None # rs) s = (Some ''cat: read error'', s)"
| "cat wr (Some buf # rs) s =
     (if buf = [] then (None, s)
      else let (m, s) = wr buf s in if m \<noteq> int (length buf) then (Some ''cat: write error'', s) else cat wr rs s)"

fun cat_files :: "(u8 list \<Rightarrow> 's \<Rightarrow> int \<times> 's) \<Rightarrow> reads option list \<Rightarrow> 's \<Rightarrow> string option \<times> 's" where
  "cat_files wr [] s = (None, s)"
| "cat_files wr (None # files) s = (Some ''cat: cannot open'', s)"
| "cat_files wr (Some rs # files) s = (case cat wr rs s of (None, s) \<Rightarrow> cat_files wr files s | (Some msg, s) \<Rightarrow> (Some msg, s))"

definition cat_main :: "(u8 list \<Rightarrow> 's \<Rightarrow> int \<times> 's) \<Rightarrow> reads \<Rightarrow> reads option list \<Rightarrow> 's \<Rightarrow> string option \<times> 's" where
  "cat_main wr stdin files s = (if files = [] then cat wr stdin s else cat_files wr files s)"

lemma cat_copies:
  assumes "\<And>bs out. wr bs out = (int (length bs), out @ bs)"
  shows "delivers rs inp \<Longrightarrow> cat wr rs out = (None, out @ inp)"
proof (induction rs arbitrary: out inp)
  case (Cons r rs)
  then show ?case by (cases r) (auto simp: assms)
qed simp

theorem cat_concatenates:
  assumes "\<And>bs out. wr bs out = (int (length bs), out @ bs)" "list_all2 (\<lambda>rs inp. \<exists>r. rs = Some r \<and> delivers r inp) files inps" "files \<noteq> []"
  shows "cat_main wr stdin files [] = (None, concat inps)"
proof -
  have "cat_files wr files out = (None, out @ concat inps)" for out
    using assms(2) by (induction arbitrary: out rule: list_all2_induct) (auto simp: cat_copies [of wr, OF assms(1)])
  then show ?thesis using assms(3) by (simp add: cat_main_def)
qed

section \<open>wc.c\<close>

definition white :: "u8 \<Rightarrow> bool" where
  "white b \<longleftrightarrow> ustrchr [32, 13, 9, 10, 11] b \<noteq> None"

text \<open>The counters \<open>l\<close>, \<open>w\<close>, \<open>c\<close> and \<open>inword\<close>.\<close>

definition wc_byte :: "u8 \<Rightarrow> nat \<times> nat \<times> nat \<times> bool \<Rightarrow> nat \<times> nat \<times> nat \<times> bool" where
  "wc_byte b = (\<lambda>(l, w, c, inword).
     let c = c + 1; l = (if b = 10 then l + 1 else l) in
     if white b then (l, w, c, False)
     else if \<not> inword then (l, w + 1, c, True)
     else (l, w, c, inword))"

fun wc_loop :: "reads \<Rightarrow> nat \<times> nat \<times> nat \<times> bool \<Rightarrow> (nat \<times> nat \<times> nat \<times> bool) option" where
  "wc_loop [] s = Some s"
| "wc_loop (None # rs) s = None"
| "wc_loop (Some buf # rs) s = (if buf = [] then Some s else wc_loop rs (fold wc_byte buf s))"

text \<open>The line printed, \<open>None\<close> for the read error and \<open>exit(1)\<close>.\<close>

definition wc :: "reads \<Rightarrow> u8 list \<Rightarrow> u8 list option kres" where
  "wc rs name =
     (case wc_loop rs (0, 0, 0, False) of None \<Rightarrow> Ok None
      | Some (l, w, c, inword) \<Rightarrow>
          kbind (uprintint (of_nat l) 10 True) (\<lambda>l. kbind (uprintint (of_nat w) 10 True) (\<lambda>w. kbind (uprintint (of_nat c) 10 True) (\<lambda>c.
            Ok (Some (l @ [32] @ w @ [32] @ c @ [32] @ cstr name @ [10]))))))"

text \<open>Words are maximal stretches without white space.\<close>

function words_of :: "u8 list \<Rightarrow> u8 list list" where
  "words_of s =
     (let t = dropWhile white s in
      if t = [] then [] else takeWhile (\<lambda>b. \<not> white b) t # words_of (dropWhile (\<lambda>b. \<not> white b) t))"
  by pat_completeness auto
termination
proof (relation "measure length")
  fix s t :: "u8 list" assume t: "t = dropWhile white s" "t \<noteq> []"
  then have "\<not> white (hd t)" using hd_dropWhile by blast
  then have "length (dropWhile (\<lambda>b. \<not> white b) t) < length t" using t(2) length_dropWhile_le [of _ "tl t"] by (cases t) (auto intro: le_imp_less_Suc)
  moreover have "length t \<le> length s" unfolding t(1) by (rule length_dropWhile_le)
  ultimately show "(dropWhile (\<lambda>b. \<not> white b) t, s) \<in> measure length" by simp
qed simp

declare words_of.simps [simp del]

fun new_words :: "bool \<Rightarrow> u8 list \<Rightarrow> nat" where
  "new_words inword [] = 0"
| "new_words inword (b # s) = (if white b then new_words False s else (if inword then 0 else 1) + new_words True s)"

lemma wc_bytes:
  "\<exists>iw. fold wc_byte s (l, w, c, inword) = (l + count_list s 10, w + new_words inword s, c + length s, iw) \<and>
    (\<forall>t. new_words inword (s @ t) = new_words inword s + new_words iw t)"
proof (induction s arbitrary: l w c inword)
  case (Cons b s)
  have "\<exists>l' w' c' iw'. wc_byte b (l, w, c, inword) = (l', w', c', iw')" by (metis prod_cases4)
  then show ?case
    using Cons [of "if b = 10 then l + 1 else l" "if white b \<or> inword then w else w + 1" "c + 1" "\<not> white b"]
    by (auto simp: wc_byte_def Let_def split: if_splits)
qed auto

lemma new_words_skip:
  "new_words False s = new_words False (dropWhile white s)" "new_words True s = new_words False (dropWhile (\<lambda>b. \<not> white b) s)"
  by (induction s) auto

lemma new_words_words: "new_words False s = length (words_of s)"
proof (induction s rule: words_of.induct)
  case (1 s)
  let ?t = "dropWhile white s"
  show ?case
  proof (cases ?t)
    case Nil
    have "new_words False s = 0" unfolding new_words_skip(1) [of s] Nil by simp
    then show ?thesis using Nil by (simp add: words_of.simps [of s])
  next
    case (Cons b t)
    then have "\<not> white b" using hd_dropWhile [of white s] by simp
    then show ?thesis
      using 1 [OF refl] Cons new_words_skip(1) [of s] new_words_skip(2) [of t] by (simp add: words_of.simps [of s])
  qed
qed

lemma wc_loop_spec:
  "delivers rs inp \<Longrightarrow>
    \<exists>iw. wc_loop rs (l, w, c, inword) = Some (l + count_list inp 10, w + new_words inword inp, c + length inp, iw)"
proof (induction rs arbitrary: inp l w c inword)
  case (Cons r rs)
  then obtain bs rest where r: "r = Some bs" "bs \<noteq> []" "inp = bs @ rest" "delivers rs rest" by (cases r) auto
  obtain iw where "fold wc_byte bs (l, w, c, inword) = (l + count_list bs 10, w + new_words inword bs, c + length bs, iw)"
      "new_words inword (bs @ rest) = new_words inword bs + new_words iw rest"
    using wc_bytes by blast
  then show ?case
    using Cons.IH [OF r(4), of "l + count_list bs 10" "w + new_words inword bs" "c + length bs" iw] r by (auto simp: add.assoc)
qed simp

text \<open>\<open>wc\<close> counts newlines, words and bytes, in whatever pieces the file is read.\<close>

theorem wc_counts:
  assumes "delivers rs inp"
  shows "\<exists>iw. wc_loop rs (0, 0, 0, False) = Some (count_list inp 10, length (words_of inp), length inp, iw)"
  using wc_loop_spec [OF assms, of 0 0 0 False] by (simp add: new_words_words)

section \<open>tolower.c, echo.c\<close>

text \<open>\<open>c\<close> is an \<open>int\<close> whose other three bytes stay 0.\<close>

fun tolower :: "u8 list \<Rightarrow> u8 list" where
  "tolower [] = []"
| "tolower (c # inp) = (if 65 \<le> c \<and> c \<le> 90 then c - 65 + 97 else c) # tolower inp"

lemma tolower_no_capitals: "\<forall>c\<in>set (tolower inp). \<not> (65 \<le> c \<and> c \<le> 90)"
proof (induction inp)
  case (Cons c inp)
  have "\<not> (65 \<le> c - 65 + 97 \<and> c - 65 + 97 \<le> 90)" if "65 \<le> c" "c \<le> 90" for c :: u8
  proof -
    have "c - 65 + 97 = c + 32" by simp
    moreover have "unat (c + 32) = unat c + 32" using that by (subst unat_add_lem [THEN iffD1]) (simp_all add: word_le_nat_alt)
    ultimately have "unat (32 + c) = unat c + 32" by (simp only: add.commute [of 32 c])
    then show ?thesis using that by (simp add: word_le_nat_alt)
  qed
  then show ?case using Cons by auto
qed simp

lemma tolower_idempotent: "tolower (tolower inp) = tolower inp"
proof -
  have "\<forall>c\<in>set s. \<not> (65 \<le> c \<and> c \<le> 90) \<Longrightarrow> tolower s = s" for s
    by (induction s) auto
  then show ?thesis using tolower_no_capitals by blast
qed

text \<open>\<open>args\<close> are \<open>argv[1]\<close> up to \<open>argv[argc - 1]\<close>.\<close>

fun echo :: "u8 list list \<Rightarrow> u8 list" where
  "echo [] = []"
| "echo (arg # args) = cstr arg @ (if args \<noteq> [] then [32] else [10]) @ echo args"

section \<open>catlines.c\<close>

text \<open>The static buffer is what is left in it; \<open>alloc n\<close> says whether \<open>malloc(n)\<close> succeeds.\<close>

function better_fgets_loop :: "(nat \<Rightarrow> bool) \<Rightarrow> nat \<Rightarrow> u8 list \<Rightarrow> u8 list \<times> reads \<Rightarrow> u8 list option \<times> u8 list \<times> reads" where
  "better_fgets_loop alloc line_size line ([], []) = (if line = [] then None else Some line, [], [])"
| "better_fgets_loop alloc line_size line ([], None # rs) = (None, [], rs)"
| "better_fgets_loop alloc line_size line ([], Some buf # rs) =
     (if buf = [] then (if line = [] then None else Some line, [], rs)
      else better_fgets_loop alloc line_size line (buf, rs))"
| "better_fgets_loop alloc line_size line (c # buf, rs) =
     (if c = 10 then (Some line, buf, rs)
      else if line_size \<le> length line + 1 then
        (if alloc (line_size * 2) then better_fgets_loop alloc (line_size * 2) (line @ [c]) (buf, rs) else (None, buf, rs))
      else better_fgets_loop alloc line_size (line @ [c]) (buf, rs))"
  by pat_completeness auto
termination
  by (relation "measures [\<lambda>(alloc, n, line, buf, rs). length rs, \<lambda>(alloc, n, line, buf, rs). length buf]") auto

text \<open>The first \<open>malloc\<close> is not checked: the line is then stored through a null pointer.\<close>

definition better_fgets :: "(nat \<Rightarrow> bool) \<Rightarrow> u8 list \<times> reads \<Rightarrow> (u8 list option \<times> u8 list \<times> reads) kres" where
  "better_fgets alloc st = (if alloc 128 then Ok (better_fgets_loop alloc 128 [] st) else Fault)"

definition catlines_line :: "nat \<Rightarrow> u8 list \<Rightarrow> u8 list kres" where
  "catlines_line k line =
     kbind (uprintint (of_nat k) 10 True) (\<lambda>n. Ok ([76, 105, 110, 101, 32] @ n @ [58, 32] @ cstr line @ [10]))"

text \<open>Every line takes something from the input.\<close>

definition pending :: "u8 list \<times> reads \<Rightarrow> nat" where
  "pending = (\<lambda>(buf, rs). length buf + (\<Sum>r\<leftarrow>rs. case r of None \<Rightarrow> Suc 0 | Some bs \<Rightarrow> Suc (length bs)))"

lemma better_fgets_consumes:
  "better_fgets_loop alloc n line st = (Some l, st') \<Longrightarrow> pending st' < pending st \<or> st' = st \<and> l = line \<and> line \<noteq> []"
  by (induction alloc n line st rule: better_fgets_loop.induct) (auto simp: pending_def split: if_splits)

function catlines_loop :: "(nat \<Rightarrow> bool) \<Rightarrow> nat \<Rightarrow> u8 list \<times> reads \<Rightarrow> u8 list kres" where
  "catlines_loop alloc line_count st =
     kbind (better_fgets alloc st) (\<lambda>r.
       case fst r of None \<Rightarrow> Ok []
       | Some line \<Rightarrow> kbind (catlines_line line_count line) (\<lambda>out. kbind (catlines_loop alloc (Suc line_count) (snd r)) (\<lambda>more. Ok (out @ more))))"
  by pat_completeness auto
termination
  by (relation "measure (\<lambda>(alloc, k, st). pending st)")
    (auto simp: better_fgets_def split: if_splits dest!: better_fgets_consumes intro: prod_eqI)

declare catlines_loop.simps [simp del]

definition catlines :: "(nat \<Rightarrow> bool) \<Rightarrow> reads \<Rightarrow> u8 list kres" where
  "catlines alloc rs = catlines_loop alloc 0 ([], rs)"

text \<open>The lines of a file, the last one even if it does not end in a newline.\<close>

definition lines_of :: "u8 list \<Rightarrow> u8 list list" where
  "lines_of inp = (let (ls, r) = complete_lines inp in if r = [] then ls else ls @ [r])"

lemma lines_of_Nil [simp]: "lines_of [] = []"
  by (simp add: lines_of_def)

lemma lines_of_app: "10 \<notin> set l \<Longrightarrow> lines_of (l @ 10 # s) = l # lines_of s"
  by (simp add: lines_of_def complete_lines_app split: prod.splits)

lemma lines_of_rest: "10 \<notin> set l \<Longrightarrow> l \<noteq> [] \<Longrightarrow> lines_of l = [l]"
  by (simp add: lines_of_def complete_lines_rest)

lemma better_fgets_spec:
  "delivers rs inp \<Longrightarrow> 10 \<notin> set line \<Longrightarrow> \<forall>k. alloc k \<Longrightarrow>
    \<exists>st'. case lines_of (line @ buf @ inp) of
      [] \<Rightarrow> better_fgets_loop alloc n line (buf, rs) = (None, st')
    | l # ls \<Rightarrow> better_fgets_loop alloc n line (buf, rs) = (Some l, st') \<and>
        (\<exists>inp'. delivers (snd st') inp' \<and> lines_of (fst st' @ inp') = ls)"
proof (induction alloc n line "(buf, rs)" arbitrary: buf rs inp rule: better_fgets_loop.induct)
  case (1 alloc n line)
  then show ?case by (cases "line = []") (auto simp: lines_of_rest)
next
  case (3 alloc n line bs rs)
  then obtain rest where d: "inp = bs @ rest" "delivers rs rest" "bs \<noteq> []" by auto
  have e: "better_fgets_loop alloc n line ([], Some bs # rs) = better_fgets_loop alloc n line (bs, rs)" using d(3) by simp
  from 3(1) [OF d(3,2) 3(3,4)] show ?case unfolding e d(1) by simp
next
  case (4 alloc n line c buf rs)
  show ?case
  proof (cases "c = 10")
    case True
    then show ?thesis using 4 lines_of_app [of line "buf @ inp"] by auto
  next
    case False
    have line: "10 \<notin> set (line @ [c])" using False 4(4) by simp
    show ?thesis
    proof (cases "n \<le> length line + 1")
      case True
      have e: "better_fgets_loop alloc n line (c # buf, rs) = better_fgets_loop alloc (n * 2) (line @ [c]) (buf, rs)"
        using False True 4(5) by simp
      show ?thesis unfolding e using 4(1) [OF False True _ 4(3) line 4(5)] 4(5) by simp
    next
      case n: False
      have e: "better_fgets_loop alloc n line (c # buf, rs) = better_fgets_loop alloc n (line @ [c]) (buf, rs)"
        using False n by simp
      show ?thesis unfolding e using 4(2) [OF False n 4(3) line 4(5)] by simp
    qed
  qed
qed auto

text \<open>\<open>catlines\<close> numbers the lines of the file from 0, in whatever pieces it is read and however long the lines are.\<close>

theorem catlines_numbers_the_lines:
  assumes "\<And>n. alloc n" "delivers rs inp"
  shows "catlines alloc rs = kfold (\<lambda>(k, l) out. kbind (catlines_line k l) (\<lambda>x. Ok (out @ x))) (enumerate 0 (lines_of inp)) []"
proof -
  let ?body = "\<lambda>(k, l) out. kbind (catlines_line k l) (\<lambda>x. Ok (out @ x))"
  have shift: "kbind (kfold ?body ls out) (\<lambda>more. Ok (pre @ more)) = kfold ?body ls (pre @ out)" for ls out pre
  proof (induction ls arbitrary: out)
    case (Cons p ls)
    then show ?case by (cases "catlines_line (fst p) (snd p)") (auto simp: case_prod_unfold)
  qed simp
  have "delivers rs inp \<Longrightarrow> catlines_loop alloc k (buf, rs) = kfold ?body (enumerate k (lines_of (buf @ inp))) []" for k buf rs inp
  proof (induction "lines_of (buf @ inp)" arbitrary: k buf rs inp)
    case Nil
    then obtain st' where "better_fgets_loop alloc 128 [] (buf, rs) = (None, st')"
      using better_fgets_spec [of rs inp "[]" alloc 128 buf] assms(1) Nil(2) by (auto simp flip: Nil(1))
    then show ?case by (subst catlines_loop.simps) (simp add: better_fgets_def assms(1) flip: Nil(1))
  next
    case (Cons l ls)
    then obtain buf' rs' inp' where "better_fgets_loop alloc 128 [] (buf, rs) = (Some l, buf', rs')" "delivers rs' inp'"
        "ls = lines_of (buf' @ inp')"
      using better_fgets_spec [of rs inp "[]" alloc 128 buf] assms(1) Cons(3) by (auto simp flip: Cons(2))
    then show ?case
      using Cons.hyps(1) [of buf' inp' rs' "Suc k"] shift
      by (subst catlines_loop.simps) (cases "catlines_line k l"; simp add: better_fgets_def assms(1) flip: Cons(2))
  qed
  from this [OF assms(2), of 0 "[]"] show ?thesis by (simp add: catlines_def)
qed

section \<open>fnr.c\<close>

text \<open>
  The inner loop of \<open>main\<close>: \<open>k\<close>, the length of the common prefix of the line from \<open>p\<close> on and of \<open>find\<close>, here \<open>pat\<close>. \<open>buf\<close> is the memory
  of the line, in which \<open>getline\<close> has put a NUL, and \<open>repl\<close> the bytes from \<open>argv[i + 1]\<close> on, those behind its NUL too.
\<close>

fun common_prefix :: "u8 list \<Rightarrow> u8 list \<Rightarrow> nat" where
  "common_prefix (p # ps) (q # qs) = (if p \<noteq> 0 \<and> p = q then Suc (common_prefix ps qs) else 0)"
| "common_prefix ps qs = 0"

text \<open>The loop over \<open>j\<close>, which \<open>strlen(line) - find_len\<close> bounds as an unsigned number.\<close>

function fnr_loop :: "u8 list \<Rightarrow> u8 list \<Rightarrow> nat \<Rightarrow> u8 list \<Rightarrow> u8 list kres" where
  "fnr_loop pat repl j buf =
     (let find_len = ustrlen pat in
      if \<not> (of_nat j :: u32) < of_nat (ustrlen buf) - of_nat find_len then Ok buf
      else if length buf \<le> j then Fault
      else if common_prefix (drop j buf) pat = find_len then
        (if length repl < find_len \<or> length buf < j + find_len then Fault
         else fnr_loop pat repl (Suc j) (put_bytes buf j (take find_len repl)))
      else fnr_loop pat repl (Suc j) buf)"
  by pat_completeness auto
termination
  by (relation "measure (\<lambda>(pat, repl, j, buf). length buf - j)") (auto simp: put_bytes_def)

declare fnr_loop.simps [simp del]

text \<open>The pairs of arguments; a last one without a partner finds the null pointer behind \<open>argv\<close>.\<close>

fun fnr_line :: "u8 list list \<Rightarrow> u8 list \<Rightarrow> u8 list kres" where
  "fnr_line [] buf = Ok buf"
| "fnr_line [pat] buf = (if ustrlen buf < ustrlen pat then Ok buf else fnr_loop pat [] 0 buf)"
| "fnr_line (pat # repl # args) buf =
     kbind (if ustrlen buf < ustrlen pat then Ok buf else fnr_loop pat repl 0 buf) (fnr_line args)"

text \<open>What the loop is for, on the line as a list: wherever \<open>f\<close> is found it is replaced, and the search goes on with the second byte
  of the replacement. Only a match that ends the line is left alone.\<close>

function replace_from :: "u8 list \<Rightarrow> u8 list \<Rightarrow> u8 list \<Rightarrow> u8 list" where
  "replace_from f r [] = []"
| "replace_from f r (x # s) =
     (if length (x # s) \<le> length f then x # s
      else if take (length f) (x # s) = f \<and> f \<noteq> [] then 
        (let w = take (length f) r in hd w # replace_from f r (tl w @ drop (length f) (x # s)))
      else x # replace_from f r s)"
  by pat_completeness auto
termination
  by (relation "measure (\<lambda>(f, r, s). length s)") (auto simp: min_def not_le neq_Nil_conv)

lemma ustrlen_app: "0 \<notin> set s \<Longrightarrow> ustrlen (s @ 0 # t) = length s"
  by (induction s) auto

lemma common_prefix_eq: "0 \<notin> set f \<Longrightarrow> common_prefix s (f @ 0 # t) = length f \<longleftrightarrow> take (length f) s = f"
proof (induction f arbitrary: s)
  case (Cons c f)
  then show ?case by (cases s) auto
next
  case Nil
  show ?case by (cases s) auto
qed

lemma fnr_bound:
  assumes "0 \<notin> set f" "0 \<notin> set (pre @ s)" "length f \<le> length (pre @ s)" "length (pre @ s) < 2 ^ 32"
  shows "(of_nat (length pre) :: u32) < of_nat (ustrlen (pre @ s @ 0 # junk)) - of_nat (ustrlen (f @ 0 # t)) \<longleftrightarrow> length f < length s"
proof -
  let ?L = "length (pre @ s)"
  have n: "ustrlen (pre @ s @ 0 # junk) = ?L" "ustrlen (f @ 0 # t) = length f"
    using assms(1,2) ustrlen_app [of "pre @ s" junk] by (simp_all add: ustrlen_app)
  have "of_nat ?L - of_nat (length f) = (of_nat (?L - length f) :: u32)" using assms(3) by (simp only: of_nat_diff)
  then show ?thesis unfolding n using assms(4) by (simp only: word_less_nat_alt unat_of_nat) auto
qed

lemma replace_from_short: "length s \<le> length f \<Longrightarrow> replace_from f r s = s"
  by (cases s) auto

lemma fnr_loop_spec:
  assumes "length r = length f" "0 \<notin> set f" "0 \<notin> set r"
  shows "0 \<notin> set (pre @ s) \<Longrightarrow> length f \<le> length (pre @ s) \<Longrightarrow> length (pre @ s) < 2 ^ 32 \<Longrightarrow>
    fnr_loop (f @ 0 # t) (r @ 0 # u) (length pre) (pre @ s @ 0 # junk) = Ok (pre @ replace_from f r s @ 0 # junk)"
proof (induction "length s" arbitrary: pre s rule: less_induct)
  case less
  let ?buf = "pre @ s @ 0 # junk" and ?pat = "f @ 0 # t"
  have n: "ustrlen ?pat = length f" using assms(2) by (simp add: ustrlen_app)
  note b = fnr_bound [OF assms(2) less.prems, of junk t, unfolded n]
  show ?case
  proof (cases "length s \<le> length f")
    case True
    then show ?thesis using b n by (subst fnr_loop.simps) (simp add: Let_def replace_from_short)
  next
    case long: False
    have m: "common_prefix (drop (length pre) ?buf) ?pat = length f \<longleftrightarrow> take (length f) s = f"
      using long common_prefix_eq [OF assms(2), of "s @ 0 # junk" t] by simp
    obtain x s2 where s: "s = x # s2" using long by (cases s) auto
    show ?thesis
    proof (cases "take (length f) s = f \<and> f \<noteq> []")
      case True
      let ?pre = "pre @ [hd r]" and ?s = "tl r @ drop (length f) s"
      have rne: "r = hd r # tl r" using True assms(1) by (cases r) auto
      have "put_bytes ?buf (length pre) r = pre @ r @ drop (length f) s @ 0 # junk"
        using long assms(1) by (simp add: put_bytes_def)
      also have "\<dots> = ?pre @ ?s @ 0 # junk" by (subst rne) simp
      finally have "fnr_loop ?pat (r @ 0 # u) (length pre) ?buf = fnr_loop ?pat (r @ 0 # u) (length ?pre) (?pre @ ?s @ 0 # junk)"
        using b long True m n assms(1) by (subst fnr_loop.simps) (simp add: Let_def)
      moreover have "0 \<notin> set (r @ drop (length f) s)" using less.prems(1) assms(3) by (auto dest: in_set_dropD)
      then have "0 \<notin> set (?pre @ ?s)" using less.prems(1) rne by (metis Un_iff append_Cons append_assoc append_Nil set_append)
      moreover have "length ?s < length s" "length (?pre @ ?s) = length (pre @ s)"
        using long assms(1) rne by (cases r; auto)+
      ultimately show ?thesis
        using less.hyps [of ?s ?pre] less.prems(2,3) long True assms(1) unfolding s by (simp add: Let_def)
    next
      case False
      have "fnr_loop ?pat (r @ 0 # u) (length pre) ?buf = fnr_loop ?pat (r @ 0 # u) (length (pre @ [x])) ((pre @ [x]) @ s2 @ 0 # junk)"
        using b long False m n assms(1) s by (subst fnr_loop.simps) (auto simp: Let_def put_bytes_def)
      then show ?thesis using less.hyps [of s2 "pre @ [x]"] less.prems long False unfolding s by auto
    qed
  qed
qed

text \<open>With a replacement as long as what is searched for, a line is edited as it should be.\<close>

theorem fnr_replaces:
  assumes "length r = length f" "0 \<notin> set f \<union> set r \<union> set line" "length line < 2 ^ 32"
  shows "fnr_line [f @ [0], r @ [0]] (line @ 0 # junk) = Ok (replace_from f r line @ 0 # junk)"
  using fnr_loop_spec [of r f "[]" line "[]" "[]" junk] assms
  by (auto simp: ustrlen_app replace_from_short)

text \<open>With a shorter one, its NUL shortens the line below the length of the pattern, the difference wraps around, and the search runs out of the buffer.\<close>

lemma fnr_shorter_replacement_faults:
  "fnr_line [[97, 98, 0], [99, 0]] [97, 98, 97, 98, 10, 0] = Fault"
  by (simp add: fnr_loop.simps put_bytes_def word_less_nat_alt unsigned_minus_1_eq_mask mask_eq_exp_minus_1)

lemma fnr_misses_a_match_at_the_end:
  "fnr_line [[97, 98, 0], [99, 100, 0]] [97, 98, 97, 98, 0] = Ok [99, 100, 97, 98, 0]"
  by (simp add: fnr_loop.simps put_bytes_def)

end
