(* ===== verification/Spec2Isabelle.thy ===== *)
theory Spec2Isabelle imports Pipe Log Proc Console UserMemory FsAlloc Descriptors Exec Sysproc UMalloc Boogsh Grep Printf Virtio Trap ShellGrammar FsDirs Boot TextTools begin

text \<open>
  Verification library for xv6 on RISC-V (\<open>src/RISCV xv6/\<close>): the kernel (kernel/), its C library and the programs that
  have logic of their own (user/), above all the two shells boogsh.c and sh.c and the allocator umalloc.c.

  \<^bold>\<open>The program.\<close> From the disk up: the disk driver virtio_disk.c serves block requests through a ring shared with
  the device; the buffer cache bio.c keeps blocks in a list in order of use and locks them; the redo log log.c makes the
  block writes of a file system call atomic; fs.c has, on top of it, block allocation, inodes, file contents,
  directories and path names; file.c and pipe.c have open files and pipes, and sysfile.c the system calls on them.
  From the memory up: kalloc.c hands out pages, vm.c builds page tables from them and copies to and from user memory, proc.c has the
  process table, exec.c loads programs. trap.c brings processes into the kernel, syscall.c and sysproc.c dispatch
  the calls, console.c, uart.c and printf.c are the terminal, spinlock.c and sleeplock.c the locks everything uses.

  \<^bold>\<open>Theories.\<close> Definitions have the names of the C functions (a letter in front where HOL or another component has the name).

  \<^item> XV6_Prelude: machine integers as words, the result type \<open>kres\<close> (\<open>Ok\<close>, \<open>Panic\<close>, \<open>Blocked\<close> for a
    call that waits, spins or has run out of fuel, \<open>Fault\<close> for undefined behaviour), loops over it. Bytes, Memory: fields in byte arrays,
    physical memory. Ring, DLink: ring buffers and linked lists, with the locale \<open>bounded_fifo\<close>.
  \<^item> Locks (spinlock.c, sleeplock.c): steps of interleaved harts; mutual exclusion, interrupts off while a lock is held.
  \<^item> BufferCache (bio.c): the LRU list and the cache invariant; \<open>bread\<close> returns the current contents and one buffer per block.
    The locale \<open>block_io\<close> is the contract the log relies on, interpreted on the cache.
  \<^item> Log (log.c): a crash after any prefix of the block writes leaves, after recovery, all of a transaction or nothing of it;
    recovery can itself be interrupted; the admission control of \<open>begin_op\<close> reserves enough log space.
  \<^item> Fs (fs.c) on the blocks as a transaction sees them. FsAlloc: the allocator against the set of used blocks. FsFiles: \<open>bmap\<close>, \<open>readi\<close>
    and \<open>writei\<close> against a file as a list of bytes, with the invariant that all blocks of a file are different, in use and outside the
    bitmap. FsDirs: directories as maps from names to inode numbers.
  \<^item> File, Sysfile, Descriptors (file.c, sysfile.c, argument fetching of syscall.c): every handler on a state that joins memory, file system, open files, pipes and
    the process; the reference counts are exact whatever calls are made.
  \<^item> Pipe (pipe.c): turns of writers, readers and closers in any order deliver the bytes written, in order, none lost.
  \<^item> Kalloc (kalloc.c): the free list threaded through the pages; the locale \<open>page_pool\<close> says that a page has one owner.
    VM, PageTable, UserMemory (vm.c): page tables in memory, the abstract map \<open>vpte\<close> they implement, and what \<open>mappages\<close>,
    \<open>copyout\<close>, \<open>copyin\<close> do to it and to the bytes of a process.
  \<^item> Proc, Sysproc (proc.c, sysproc.c, strace.h): the process table as a step relation over processes and harts; its invariants,
    \<open>fork\<close>, \<open>wait2\<close>, \<open>exit\<close>, and \<open>sleep\<close> against the clock. Exec (exec.c, syscall.c): loading, the argument stack, scripts, the dispatch.
    Trap (trap.c, plic.c): the ways into the kernel and out. Boot (start.c, main.c): the order in which it comes up.
  \<^item> Uart, Console (uart.c, console.c): output in order and lossless; input against an abstract line editor. Printf (both printf.c).
    KString (string.c): \<open>memmove\<close> and the string routines. Virtio (virtio_disk.c): the driver against a device that follows the specification.
  \<^item> ULib, UMalloc, Grep (user/): the library, the allocator, \<open>grep\<close> against the language of its patterns. Pipeline, Boogsh (boogsh.c): command
    lines through to the descriptors every process gets, history and main loops. Sh, ShellGrammar (sh.c): the parser is well behaved on every line
    and reads every sentence of the grammar. TextTools (cat.c, wc.c, tolower.c, echo.c, catlines.c, fnr.c): the filters, however their input is cut into reads.

  \<^bold>\<open>How the model corresponds to the code.\<close> A C struct is a record, an enumeration a datatype, a pointer to
  a table entry its index. Unsigned integers keep their width, so counters wrap; \<open>int\<close> values, whose overflow is undefined, are integers.
  A critical section of a spin lock is one step (theory Locks justifies that); a routine that sleeps is cut into turns at
  the sleep, and the theorems about interleaving quantify over all sequences of turns. Every \<open>panic\<close> and early return is a branch.
  Where a component uses another only through its interface, the other is a record of operations (\<open>kops\<close>, \<open>devops\<close>, \<open>sysops\<close>), a function (what a device
  answers, whether a copy to user space succeeds) or a locale. Assembly, the linker's symbols and the devices are parameters.

  \<^bold>\<open>Fuel.\<close> Where a loop need not end, fuel bounds it and \<open>Blocked\<close> says that it ran out: list walks of umalloc.c (a double \<open>free\<close> makes
  a cycle), \<open>getcwd\<close> (a cycle of directories), the recursion of \<open>exec\<close> on scripts (frames in the kernel stack), \<open>choose_cmd\<close> (a
  history entry that repeats itself). The parser of sh.c has fuel for its nested calls, and it is shown that the length of the line and
  three is enough for every line. \<open>grep\<close>, \<open>getline\<close> and the copies are total, with measures.

  \<^bold>\<open>What modelling showed.\<close> Among the defects found: with a log region of \<open>LOGSIZE\<close> blocks admitted operations panic (log.c); a killed slot stays poisoned
  and a recycled one keeps its system call counter (proc.c); the exact fit, \<open>best_fit\<close>, \<open>worst_fit\<close> and re-use of a freed block in umalloc.c corrupt
  memory; a pipeline of more than 13 commands runs out of descriptors unnoticed and \<open>!!\<close> reads a slot that was never written
  (boogsh.c); \<open>>>\<close> overwrites from the start of the file (sh.c); \<open>fnr\<close> runs out of its buffer when a replacement is shorter (fnr.c). The manifest lists them all.

  \<^bold>\<open>Not modelled.\<close> Assembly (entry.S, swtch.S, trampoline.S, kernelvec.S, usys.pl): the context switch is the identity between the halves of \<open>sched\<close>. The test programs
  (usertests.c, grind.c, forktest.c, stressfs.c, broken.c and the like), whose purpose is to exercise the system calls; ls.c, init.c and leetify.c; the small programs that only pass their arguments to one call (rm.c, ln.c, kill.c, mkdir.c, \<dots>). ramdisk.c, which
  is not built. Memory ordering: the harts interleave sequentially. Time: devices answer when they answer.
\<close>

end
